(* ===== verification/Prelude.thy ===== *)
theory Prelude
  imports Main "HOL-Library.Word" "HOL-Library.Char_ord" "HOL-Library.List_Lexorder"
begin

text \<open>
  Shared vocabulary of the development.

  \<^item> \<open>error\<close> and \<open>bindE\<close>: what the C++ code raises, and the sequencing of calls that may
    raise. \<open>Throw\<close> is a \<open>THROW_EXCEPTION_DBEX\<close>, \<open>AssertFail\<close> a failed \<open>assert\<close>, and \<open>UB\<close> a step
    that C++ leaves undefined (a FlatBuffer root read from a value that is not one, an
    iterator used past its end), and \<open>NoReturn\<close> a call whose loop never ends.
  \<^item> decimal formatting and parsing as \<open>Strings::Format\<close> (\<open>%d\<close>, \<open>%lld\<close>, \<open>%010d\<close>, \<open>%010u\<close>) and
    \<open>atoi\<close>/\<open>atoi64\<close> do them, with their round trip, injectivity and width lemmas. Keys of the
    key-value store are built from these, so the key lemmas rest on them.

  Signed integers of the code (\<open>int32_t\<close>, \<open>int64_t\<close>) are \<open>int\<close>: signed overflow is undefined in
  C++, so every defined execution computes the same numbers. Unsigned values whose
  wrap-around is defined are words.
\<close>

named_theorems kv_simps "rewriting of key-value store operations"
named_theorems key_simps "equalities and inequalities between keys of the store"

datatype error =
    Throw string
  | AssertFail string
  | UB string
  | NoReturn

type_synonym 'a res = "error + 'a"

definition bindE :: "'a res \<Rightarrow> ('a \<Rightarrow> 'b res) \<Rightarrow> 'b res" where
  "bindE m f = (case m of Inl e \<Rightarrow> Inl e | Inr x \<Rightarrow> f x)"

definition assertE :: "string \<Rightarrow> bool \<Rightarrow> unit res" where
  "assertE what b = (if b then Inr () else Inl (AssertFail what))"

definition throwUnless :: "string \<Rightarrow> bool \<Rightarrow> unit res" where
  "throwUnless what b = (if b then Inr () else Inl (Throw what))"

lemma bindE_simps [simp]:
  "bindE (Inl e) f = Inl e"
  "bindE (Inr x) f = f x"
  by (simp_all add: bindE_def)

lemma bindE_eq_Inr:
  "bindE m f = Inr y \<longleftrightarrow> (\<exists>x. m = Inr x \<and> f x = Inr y)"
  by (cases m) auto

lemma bindE_InrE [elim!]:
  assumes "bindE m f = Inr y"
  obtains x where "m = Inr x" and "f x = Inr y"
  using assms by (auto simp: bindE_eq_Inr)

lemma assertE_simps [simp]:
  "b \<Longrightarrow> assertE w b = Inr ()"
  "\<not> b \<Longrightarrow> assertE w b = Inl (AssertFail w)"
  "assertE w b = Inr u \<longleftrightarrow> b"
  by (auto simp: assertE_def)

lemma throwUnless_simps [simp]:
  "b \<Longrightarrow> throwUnless w b = Inr ()"
  "\<not> b \<Longrightarrow> throwUnless w b = Inl (Throw w)"
  "throwUnless w b = Inr u \<longleftrightarrow> b"
  by (auto simp: throwUnless_def)

text \<open>A loop body that may raise, run over the elements of a container in order.\<close>

fun foldE :: "('a \<Rightarrow> 's \<Rightarrow> 's res) \<Rightarrow> 'a list \<Rightarrow> 's \<Rightarrow> 's res" where
  "foldE f [] s = Inr s"
| "foldE f (x # xs) s = bindE (f x s) (foldE f xs)"

lemma foldE_append: "foldE f (xs @ ys) s = bindE (foldE f xs s) (foldE f ys)"
  by (induction xs arbitrary: s) (auto simp: bindE_def split: sum.splits)

lemma foldE_cong [fundef_cong]:
  "xs = ys \<Longrightarrow> s = t \<Longrightarrow> (\<And>x u. x \<in> set ys \<Longrightarrow> f x u = g x u) \<Longrightarrow> foldE f xs s = foldE g ys t"
  by (induction xs arbitrary: s t ys) (auto simp: bindE_def split: sum.splits)

text \<open>
  Loop rule: an invariant over the elements done and the elements left. The body never
  raises, so neither does the loop.
\<close>

lemma foldE_rule:
  assumes "I [] s"
    and "\<And>pre x rest t. xs = pre @ x # rest \<Longrightarrow> I pre t \<Longrightarrow> \<exists>t'. f x t = Inr t' \<and> I (pre @ [x]) t'"
  shows "\<exists>s'. foldE f xs s = Inr s' \<and> I xs s'"
proof -
  have "\<exists>s'. foldE f ys t = Inr s' \<and> I (pre @ ys) s'"
    if "xs = pre @ ys" and "I pre t" for pre ys t
    using that
  proof (induction ys arbitrary: pre t)
    case Nil
    then show ?case by simp
  next
    case (Cons y ys)
    obtain t' where t': "f y t = Inr t'" "I (pre @ [y]) t'"
      using assms(2) Cons.prems by blast
    show ?case
      using Cons.IH [of "pre @ [y]" t'] Cons.prems t' by simp
  qed
  from this [of "[]" xs s] show ?thesis
    using assms(1) by simp
qed

subsection \<open>Decimal numbers\<close>

definition digit_char :: "nat \<Rightarrow> char" where
  "digit_char d = char_of (48 + d)"

definition is_digit :: "char \<Rightarrow> bool" where
  "is_digit c = (48 \<le> (of_char c :: nat) \<and> (of_char c :: nat) \<le> 57)"

definition digit_val :: "char \<Rightarrow> nat" where
  "digit_val c = of_char c - 48"

lemma of_char_digit_char [simp]: "d < 10 \<Longrightarrow> (of_char (digit_char d) :: nat) = 48 + d"
  by (simp add: digit_char_def of_char_of)

lemma is_digit_digit_char [simp]: "d < 10 \<Longrightarrow> is_digit (digit_char d)"
  by (simp add: is_digit_def)

lemma digit_val_digit_char [simp]: "d < 10 \<Longrightarrow> digit_val (digit_char d) = d"
  by (simp add: digit_val_def)

fun nat_str :: "nat \<Rightarrow> string" where
  "nat_str n = (if n < 10 then [digit_char n] else nat_str (n div 10) @ [digit_char (n mod 10)])"

declare nat_str.simps [simp del]

lemma nat_str_ne [simp]: "nat_str n \<noteq> []"
  by (subst nat_str.simps) simp

lemma nat_str_digits: "list_all is_digit (nat_str n)"
proof (induction n rule: nat_str.induct)
  case (1 n)
  then show ?case by (cases "n < 10") (simp_all add: nat_str.simps [of n])
qed

lemma nat_str_isdigit: "c \<in> set (nat_str n) \<Longrightarrow> is_digit c"
  using nat_str_digits [of n] by (simp add: list_all_iff)

fun digits_val :: "nat \<Rightarrow> string \<Rightarrow> nat" where
  "digits_val acc [] = acc"
| "digits_val acc (c # cs) = (if is_digit c then digits_val (acc * 10 + digit_val c) cs else acc)"

lemma digits_val_append:
  "list_all is_digit xs \<Longrightarrow> digits_val acc (xs @ ys) = digits_val (digits_val acc xs) ys"
  by (induction xs arbitrary: acc) auto

lemma digits_val_nat_str_app:
  "digits_val acc (nat_str n @ ys) = digits_val (digits_val acc (nat_str n)) ys"
  by (rule digits_val_append) (rule nat_str_digits)

lemma digits_val_nat_str [simp]: "digits_val 0 (nat_str n) = n"
proof (induction n rule: nat_str.induct)
  case (1 n)
  show ?case
  proof (cases "n < 10")
    case True
    then show ?thesis by (simp add: nat_str.simps [of n])
  next
    case False
    with "1.IH" have "digits_val 0 (nat_str (n div 10)) = n div 10" by simp
    with False show ?thesis
      by (simp add: nat_str.simps [of n] digits_val_nat_str_app)
  qed
qed

lemma nat_str_inject [simp]: "nat_str m = nat_str n \<longleftrightarrow> m = n"
  by (metis digits_val_nat_str)

lemma digits_val_zeros: "digits_val 0 (replicate k CHR ''0'' @ s) = digits_val 0 s"
  by (induction k) (auto simp: is_digit_def digit_val_def)

lemma length_nat_str_le: "0 < w \<Longrightarrow> n < 10 ^ w \<Longrightarrow> length (nat_str n) \<le> w"
proof (induction n arbitrary: w rule: nat_str.induct)
  case (1 n)
  show ?case
  proof (cases "n < 10")
    case True
    with "1.prems" show ?thesis by (simp add: nat_str.simps [of n])
  next
    case False
    with "1.prems" obtain v where w: "w = Suc v" and v: "0 < v"
      by (cases w; cases "w - 1") auto
    have "n div 10 < 10 ^ v"
      using "1.prems" w by (simp add: less_mult_imp_div_less mult.commute)
    with "1.IH" False v have "length (nat_str (n div 10)) \<le> v" by simp
    with False w show ?thesis by (simp add: nat_str.simps [of n])
  qed
qed

subsection \<open>printf conversions and atoi\<close>

definition fmt_d :: "int \<Rightarrow> string" where
  \<comment> \<open>\<open>%d\<close>, \<open>%lld\<close>\<close>
  "fmt_d i = (if i < 0 then CHR ''-'' # nat_str (nat (- i)) else nat_str (nat i))"

definition pad0 :: "nat \<Rightarrow> string \<Rightarrow> string" where
  "pad0 w s = replicate (w - length s) CHR ''0'' @ s"

definition fmt_010d :: "int \<Rightarrow> string" where
  \<comment> \<open>\<open>%010d\<close>: zero padded to ten characters, the sign included\<close>
  "fmt_010d i = (if i < 0 then CHR ''-'' # pad0 9 (nat_str (nat (- i))) else pad0 10 (nat_str (nat i)))"

definition fmt_04d :: "int \<Rightarrow> string" where
  "fmt_04d i = (if i < 0 then CHR ''-'' # pad0 3 (nat_str (nat (- i))) else pad0 4 (nat_str (nat i)))"

definition is_space :: "char \<Rightarrow> bool" where
  "is_space c = ((of_char c :: nat) = 32 \<or> (9 \<le> (of_char c :: nat) \<and> (of_char c :: nat) \<le> 13))"

definition atoi :: "string \<Rightarrow> int" where
  "atoi s = (case dropWhile is_space s of
       [] \<Rightarrow> 0
     | c # cs \<Rightarrow> if c = CHR ''-'' then - int (digits_val 0 cs)
                else if c = CHR ''+'' then int (digits_val 0 cs)
                else int (digits_val 0 (c # cs)))"

definition c_str :: "string \<Rightarrow> string" where
  \<comment> \<open>a string passed as a C string ends at its first NUL\<close>
  "c_str s = takeWhile (\<lambda>c. c \<noteq> CHR 0x00) s"

lemma c_str_id: "CHR 0x00 \<notin> set s \<Longrightarrow> c_str s = s"
  by (induction s) (auto simp: c_str_def)

definition to_int32 :: "int \<Rightarrow> int" where
  \<comment> \<open>conversion of a larger integer to \<open>int32_t\<close>\<close>
  "to_int32 i = sint (word_of_int i :: 32 word)"

lemma sint_word_of_int_id: "- (2 ^ (LENGTH('a) - 1)) \<le> i \<Longrightarrow> i < 2 ^ (LENGTH('a) - 1) \<Longrightarrow>
    sint (word_of_int i :: 'a::len word) = i"
  by (simp add: sint_sbintrunc' signed_take_bit_int_eq_self)

lemma to_int32_id: "- (2 ^ 31) \<le> i \<Longrightarrow> i < 2 ^ 31 \<Longrightarrow> to_int32 i = i"
  using sint_word_of_int_id [of i, where ?'a = 32] by (simp add: to_int32_def)

definition atoi32 :: "string \<Rightarrow> int" where
  \<comment> \<open>\<open>atoi\<close> of an arbitrary text: \<open>(int)strtol(..)\<close>, which stops at the ends of \<open>long\<close>\<close>
  "atoi32 s = to_int32 (max (- (2 ^ 63)) (min (2 ^ 63 - 1) (atoi (c_str s))))"

lemma is_digit_not_space: "is_digit c \<Longrightarrow> \<not> is_space c"
  by (auto simp: is_digit_def is_space_def)

lemma is_digit_not_sign: "is_digit c \<Longrightarrow> c \<noteq> CHR ''-'' \<and> c \<noteq> CHR ''+''"
  by (auto simp: is_digit_def)

lemma atoi_digits:
  "s \<noteq> [] \<Longrightarrow> list_all is_digit s \<Longrightarrow> atoi s = int (digits_val 0 s)"
  by (cases s) (auto simp: atoi_def is_digit_not_space dest: is_digit_not_sign)

lemma dropWhile_space_digits:
  "list_all is_digit s \<Longrightarrow> dropWhile is_space s = s"
  by (cases s) (auto simp: is_digit_not_space)

lemma atoi_fmt_d [simp]: "atoi (fmt_d i) = i"
proof (cases "i < 0")
  case True
  have "\<not> is_space CHR ''-''" by (simp add: is_space_def)
  with True show ?thesis by (simp add: fmt_d_def atoi_def)
next
  case False
  then show ?thesis
    using nat_str_digits [of "nat i"] by (simp add: fmt_d_def atoi_digits)
qed

lemma fmt_d_inject [simp]: "fmt_d i = fmt_d j \<longleftrightarrow> i = j"
  by (metis atoi_fmt_d)

lemma fmt_d_ne [simp]: "fmt_d i \<noteq> []"
  by (simp add: fmt_d_def)

lemma list_all_pad0: "list_all is_digit (pad0 w (nat_str n))"
  using nat_str_digits [of n] by (auto simp: pad0_def list_all_iff is_digit_def)

lemma pad0_ne [simp]: "pad0 w (nat_str n) \<noteq> []"
  by (simp add: pad0_def)

lemma digits_val_pad0 [simp]: "digits_val 0 (pad0 w (nat_str n)) = n"
  by (simp add: pad0_def digits_val_zeros)

lemma atoi_fmt_010d [simp]: "atoi (fmt_010d i) = i"
proof (cases "i < 0")
  case True
  have "\<not> is_space CHR ''-''" by (simp add: is_space_def)
  with True show ?thesis by (simp add: fmt_010d_def atoi_def)
next
  case False
  then show ?thesis
    using list_all_pad0 [of 10 "nat i"] by (simp add: fmt_010d_def atoi_digits)
qed

lemma fmt_010d_inject [simp]: "fmt_010d i = fmt_010d j \<longleftrightarrow> i = j"
  by (metis atoi_fmt_010d)

lemma length_pad0: "length s \<le> w \<Longrightarrow> length (pad0 w s) = w"
  by (simp add: pad0_def)

lemma length_fmt_010d: "0 \<le> i \<Longrightarrow> i < 10 ^ 10 \<Longrightarrow> length (fmt_010d i) = 10"
  using length_nat_str_le [of 10 "nat i"] by (simp add: fmt_010d_def length_pad0)

lemma fmt_d_chars: "c \<in> set (fmt_d i) \<Longrightarrow> is_digit c \<or> c = CHR ''-''"
  by (auto simp: fmt_d_def split: if_splits dest: nat_str_isdigit)

lemma fmt_010d_chars: "c \<in> set (fmt_010d i) \<Longrightarrow> is_digit c \<or> c = CHR ''-''"
  using list_all_pad0 [of 10 "nat i"] list_all_pad0 [of 9 "nat (- i)"]
  by (auto simp: fmt_010d_def list_all_iff split: if_splits)

lemma sep_notin_fmt [simp]:
  "CHR ''_'' \<notin> set (fmt_d i)" "CHR '','' \<notin> set (fmt_d i)" "CHR ''|'' \<notin> set (fmt_d i)"
  "CHR ''_'' \<notin> set (fmt_010d i)"
  using fmt_d_chars [of _ i] fmt_010d_chars [of _ i] by (force simp: is_digit_def)+

lemma nul_notin_fmt [simp]: "CHR 0x00 \<notin> set (fmt_d i)" "CHR 0x00 \<notin> set (fmt_010d i)"
  using fmt_d_chars [of _ i] fmt_010d_chars [of _ i] by (force simp: is_digit_def)+

lemma atoi32_fmt_d: "- (2 ^ 31) \<le> i \<Longrightarrow> i < 2 ^ 31 \<Longrightarrow> atoi32 (fmt_d i) = i"
  by (simp add: atoi32_def c_str_id to_int32_id)

lemma newline_notin_fmt [simp]: "CHR 0x0A \<notin> set (fmt_d i)"
  using fmt_d_chars [of _ i] by (force simp: is_digit_def)

text \<open>Splitting a concatenation at its last separator, or at a suffix of known length.\<close>

lemma append_same_length: "length ys = length zs \<Longrightarrow> xs @ ys = us @ zs \<longleftrightarrow> xs = us \<and> ys = zs"
  by (simp add: append_eq_append_conv)

lemma append_sep_inject:
  assumes "c \<notin> set ys" and "c \<notin> set zs"
  shows "xs @ c # ys = us @ c # zs \<longleftrightarrow> xs = us \<and> ys = zs"
proof
  assume eq: "xs @ c # ys = us @ c # zs"
  have "takeWhile (\<lambda>d. d \<noteq> c) (rev ys @ c # rev xs) = rev ys"
    "takeWhile (\<lambda>d. d \<noteq> c) (rev zs @ c # rev us) = rev zs"
    using assms by (auto simp: takeWhile_append)
  moreover have "rev ys @ c # rev xs = rev zs @ c # rev us"
    using arg_cong [OF eq, of rev] by simp
  ultimately have "ys = zs" by (metis rev_rev_ident)
  with eq show "xs = us \<and> ys = zs" by simp
qed simp

subsection \<open>Code that returns\<close>

text \<open>
  \<open>returns m Q\<close>: the call \<open>m\<close> raises nothing and \<open>Q\<close> holds of what it returns. The rules walk
  through a body from its first call to its last.
\<close>

definition returns :: "'a res \<Rightarrow> ('a \<Rightarrow> bool) \<Rightarrow> bool" where
  "returns m Q = (\<exists>x. m = Inr x \<and> Q x)"

lemma returns_Inr [simp]: "returns (Inr x) Q \<longleftrightarrow> Q x"
  by (simp add: returns_def)

lemma returns_bind [intro]: "returns m (\<lambda>x. returns (f x) Q) \<Longrightarrow> returns (bindE m f) Q"
  by (auto simp: returns_def)

lemma returns_assert [intro]: "b \<Longrightarrow> Q () \<Longrightarrow> returns (assertE w b) Q"
  by (simp add: returns_def)

lemma returns_mono: "returns m P \<Longrightarrow> (\<And>x. P x \<Longrightarrow> Q x) \<Longrightarrow> returns m Q"
  by (auto simp: returns_def)

lemma returns_foldE:
  assumes "I [] s"
    and "\<And>pre x rest t. xs = pre @ x # rest \<Longrightarrow> I pre t \<Longrightarrow> returns (f x t) (I (pre @ [x]))"
    and "\<And>t. I xs t \<Longrightarrow> Q t"
  shows "returns (foldE f xs s) Q"
  using foldE_rule [of I s xs f] assms unfolding returns_def by blast

end
