(* ===== verification/BoundedBuffer.thy ===== *)
theory BoundedBuffer
  imports Prelude
begin

text \<open>
  \<open>BoundedBuffer\<close> (src/jiexi/src/Util.h): the buffer between the producer thread
  (\<open>Parser::threadProduceTxlogs\<close>) and the consumer thread (\<open>threadHandleTxlogs\<close>).

  Its container is a \<open>boost::circular_buffer\<close>, which is not part of the repository: its
  operations are the record \<open>circ\<close>, an argument of the definitions, and the locale
  \<open>circular_buffer\<close> states what its documentation promises of \<open>push_front\<close> and \<open>operator[]\<close>.
  A call that waits on a condition variable is an operation that is not enabled (\<open>None\<close>);
  a run is any interleaving of enabled operations. The locale \<open>bounded_queue\<close> is what the two
  threads rely on, and the buffer is an instance of it: items leave in the order they
  entered, none is lost or duplicated, and there are never more than the capacity inside.
\<close>

record ('c, 'a) circ =
  cb_push_front :: "'c \<Rightarrow> 'a \<Rightarrow> 'c"
  cb_at :: "'c \<Rightarrow> nat \<Rightarrow> 'a"
  cb_capacity :: "'c \<Rightarrow> nat"

record 'c bbuf =
  bb_container :: 'c
  bb_unread :: nat

definition BoundedBuffer_init :: "'c \<Rightarrow> 'c bbuf" where
  "BoundedBuffer_init c = \<lparr>bb_container = c, bb_unread = 0\<rparr>"

definition pushFront :: "('c, 'a) circ \<Rightarrow> 'a \<Rightarrow> 'c bbuf \<Rightarrow> 'c bbuf option" where
  "pushFront C item b =
     (if bb_unread b < cb_capacity C (bb_container b)
      then Some (b\<lparr>bb_container := cb_push_front C (bb_container b) item, bb_unread := bb_unread b + 1\<rparr>)
      else None)"

definition popBack :: "('c, 'a) circ \<Rightarrow> 'c bbuf \<Rightarrow> ('a \<times> 'c bbuf) option" where
  "popBack C b =
     (if bb_unread b > 0
      then Some (cb_at C (bb_container b) (bb_unread b - 1), b\<lparr>bb_unread := bb_unread b - 1\<rparr>)
      else None)"

definition bb_list :: "('c, 'a) circ \<Rightarrow> 'c bbuf \<Rightarrow> 'a list" where
  \<comment> \<open>the unread items, the oldest first\<close>
  "bb_list C b = map (cb_at C (bb_container b)) (rev [0..<bb_unread b])"

definition bb_inv :: "('c, 'a) circ \<Rightarrow> nat \<Rightarrow> 'c bbuf \<Rightarrow> bool" where
  "bb_inv C n b = (cb_capacity C (bb_container b) = n \<and> bb_unread b \<le> n)"

subsection \<open>What a bounded queue promises\<close>

locale bounded_queue =
  fixes push :: "'a \<Rightarrow> 's \<Rightarrow> 's option"
    and pop :: "'s \<Rightarrow> ('a \<times> 's) option"
    and qlist :: "'s \<Rightarrow> 'a list"
    and inv :: "'s \<Rightarrow> bool"
    and cap :: nat
  assumes push_None: "inv s \<Longrightarrow> push x s = None \<longleftrightarrow> length (qlist s) = cap"
    and push_Some: "inv s \<Longrightarrow> push x s = Some t \<Longrightarrow> inv t \<and> qlist t = qlist s @ [x]"
    and pop_None: "inv s \<Longrightarrow> pop s = None \<longleftrightarrow> qlist s = []"
    and pop_Some: "inv s \<Longrightarrow> pop s = Some (x, t) \<Longrightarrow> inv t \<and> qlist s = x # qlist t"
    and bound: "inv s \<Longrightarrow> length (qlist s) \<le> cap"
begin

text \<open>
  A run of the two threads: the items put in so far, the items taken out so far, and the
  state. Each step is one enabled operation of either thread.
\<close>

inductive run :: "'s \<Rightarrow> 'a list \<Rightarrow> 'a list \<Rightarrow> 's \<Rightarrow> bool" for s0 where
  start: "run s0 [] [] s0"
| produce: "run s0 ins outs s \<Longrightarrow> push x s = Some t \<Longrightarrow> run s0 (ins @ [x]) outs t"
| consume: "run s0 ins outs s \<Longrightarrow> pop s = Some (x, t) \<Longrightarrow> run s0 ins (outs @ [x]) t"

lemma run_fifo:
  "run s0 ins outs s \<Longrightarrow> inv s0 \<Longrightarrow> inv s \<and> qlist s0 @ ins = outs @ qlist s"
proof (induction rule: run.induct)
  case (produce ins outs s x t)
  then show ?case using push_Some by (metis append_assoc)
next
  case (consume ins outs s x t)
  then show ?case using pop_Some by (metis append_assoc append_Cons append_Nil)
qed auto

lemma run_bound:
  assumes "run s0 ins outs s" and "inv s0"
  shows "length (qlist s0) + length ins \<le> length outs + cap"
  using run_fifo [OF assms] bound [of s] by (metis add_left_mono length_append)

lemma never_stuck: "inv s \<Longrightarrow> 0 < cap \<Longrightarrow> push x s \<noteq> None \<or> pop s \<noteq> None"
  using push_None pop_None by fastforce

end

subsection \<open>The buffer is a bounded queue\<close>

locale circular_buffer =
  fixes C :: "('c, 'a) circ"
  assumes capacity_push: "cb_capacity C (cb_push_front C c x) = cb_capacity C c"
    and at_push_0: "0 < cb_capacity C c \<Longrightarrow> cb_at C (cb_push_front C c x) 0 = x"
    and at_push_Suc: "Suc i < cb_capacity C c \<Longrightarrow> cb_at C (cb_push_front C c x) (Suc i) = cb_at C c i"
begin

lemma bb_list_push:
  assumes "bb_unread b < cb_capacity C (bb_container b)"
  shows "bb_list C (b\<lparr>bb_container := cb_push_front C (bb_container b) x, bb_unread := bb_unread b + 1\<rparr>) =
     bb_list C b @ [x]"
proof -
  let ?f = "cb_at C (cb_push_front C (bb_container b) x)"
  have "map ?f [0..<Suc n] = x # map (cb_at C (bb_container b)) [0..<n]"
    if "n < cb_capacity C (bb_container b)" for n
    using that by (auto simp: at_push_0 at_push_Suc map_upt_Suc simp del: upt_Suc)
  from this [OF assms] show ?thesis
    by (simp add: bb_list_def rev_map [symmetric] del: upt_Suc)
qed

sublocale buffer: bounded_queue "pushFront C" "popBack C" "bb_list C" "bb_inv C n" n for n
proof
  fix s t x
  assume inv: "bb_inv C n s"
  then have cap: "cb_capacity C (bb_container s) = n" and le: "bb_unread s \<le> n"
    by (auto simp: bb_inv_def)
  show "pushFront C x s = None \<longleftrightarrow> length (bb_list C s) = n"
    using cap le by (auto simp: pushFront_def bb_list_def)
  show "bb_inv C n t \<and> bb_list C t = bb_list C s @ [x]" if "pushFront C x s = Some t"
    using that cap bb_list_push [of s x]
    by (auto simp: pushFront_def bb_inv_def capacity_push split: if_splits)
  show "popBack C s = None \<longleftrightarrow> bb_list C s = []"
    by (auto simp: popBack_def bb_list_def)
  show "bb_inv C n t \<and> bb_list C s = x # bb_list C t" if "popBack C s = Some (x, t)"
    using that cap le by (cases "bb_unread s") (auto simp: popBack_def bb_inv_def bb_list_def)
  show "length (bb_list C s) \<le> n"
    using le by (simp add: bb_list_def)
qed

end

text \<open>
  A run of the producer and the consumer over the buffer itself, written out over
  \<open>pushFront\<close> and \<open>popBack\<close>.
\<close>

datatype 'a bb_event = Push 'a | Pop 'a

fun bb_exec :: "('c, 'a) circ \<Rightarrow> 'c bbuf \<Rightarrow> 'a bb_event list \<Rightarrow> 'c bbuf option" where
  "bb_exec C b [] = Some b"
| "bb_exec C b (Push x # es) = (case pushFront C x b of None \<Rightarrow> None | Some b' \<Rightarrow> bb_exec C b' es)"
| "bb_exec C b (Pop x # es) =
     (case popBack C b of None \<Rightarrow> None
      | Some (y, b') \<Rightarrow> if y = x then bb_exec C b' es else None)"

fun pushed :: "'a bb_event list \<Rightarrow> 'a list" where
  "pushed [] = []" | "pushed (Push x # es) = x # pushed es" | "pushed (Pop x # es) = pushed es"

fun popped :: "'a bb_event list \<Rightarrow> 'a list" where
  "popped [] = []" | "popped (Push x # es) = popped es" | "popped (Pop x # es) = x # popped es"

context circular_buffer
begin

lemma bb_exec_run:
  "buffer.run s0 ins outs b \<Longrightarrow> bb_exec C b es = Some b' \<Longrightarrow>
     buffer.run s0 (ins @ pushed es) (outs @ popped es) b'"
proof (induction es arbitrary: ins outs b)
  case (Cons e es)
  show ?case
  proof (cases e)
    case (Push x)
    with Cons.prems obtain c where "pushFront C x b = Some c" "bb_exec C c es = Some b'"
      by (auto split: option.splits)
    then show ?thesis
      using Cons.IH [of "ins @ [x]" outs c] Cons.prems(1) Push by (simp add: buffer.run.produce)
  next
    case (Pop x)
    with Cons.prems obtain c where "popBack C b = Some (x, c)" "bb_exec C c es = Some b'"
      by (auto split: option.splits if_splits)
    then show ?thesis
      using Cons.IH [of ins "outs @ [x]" c] Cons.prems(1) Pop by (simp add: buffer.run.consume)
  qed
qed simp

lemma bb_exec_fifo:
  assumes "bb_exec C (BoundedBuffer_init c) es = Some b"
  shows "pushed es = popped es @ bb_list C b \<and> bb_unread b \<le> cb_capacity C c"
proof -
  let ?n = "cb_capacity C c"
  have inv: "bb_inv C ?n (BoundedBuffer_init c)"
    by (simp add: bb_inv_def BoundedBuffer_init_def)
  have "bb_list C (BoundedBuffer_init c) = []"
    by (simp add: bb_list_def BoundedBuffer_init_def)
  moreover have "buffer.run (BoundedBuffer_init c) (pushed es) (popped es) b"
    using bb_exec_run [OF buffer.run.start assms] by simp
  then have "bb_inv C ?n b \<and> bb_list C (BoundedBuffer_init c) @ pushed es = popped es @ bb_list C b"
    using inv by (rule buffer.run_fifo)
  ultimately show ?thesis
    by (auto simp: bb_inv_def)
qed

lemma bb_exec_live:
  assumes "bb_exec C (BoundedBuffer_init c) es = Some b"
  shows "pushed es = popped es @ bb_list C b \<and> length (bb_list C b) \<le> cb_capacity C c \<and>
     (0 < cb_capacity C c \<longrightarrow> pushFront C x b \<noteq> None \<or> popBack C b \<noteq> None)"
proof -
  let ?n = "cb_capacity C c"
  have "bb_inv C ?n (BoundedBuffer_init c)" by (simp add: bb_inv_def BoundedBuffer_init_def)
  then have "bb_inv C ?n b" using bb_exec_run [OF buffer.run.start assms] by (blast dest: buffer.run_fifo)
  then show ?thesis
    using bb_exec_fifo [OF assms] buffer.never_stuck [of ?n b x] buffer.bound [of ?n b] by simp
qed

end

text \<open>
  The reference instance of the Boost container: a list of at most \<open>n\<close> items. Pushing in
  front of a full buffer overwrites the last item.
\<close>

definition list_circ :: "nat \<Rightarrow> ('a list, 'a) circ" where
  "list_circ n = \<lparr>cb_push_front = (\<lambda>c x. take n (x # c)), cb_at = (!), cb_capacity = (\<lambda>_. n)\<rparr>"

interpretation list_circ: circular_buffer "list_circ n" for n
  by unfold_locales (auto simp: list_circ_def nth_append take_Cons')

subsection \<open>Properties\<close>



end
