(* ===== verification/StdMap.thy ===== *)
theory StdMap
  imports Prelude
begin

text \<open>
  The ordered containers of the C++ standard library that the program keeps its state in.

  A \<open>std::map\<close> is the list of its entries in iteration order, sorted strictly by key
  (\<open>sm_wf\<close>), and a \<open>std::set\<close> the list of its elements (\<open>ss_wf\<close>). Iteration with
  \<open>begin()\<close>/\<open>end()\<close>, \<open>rbegin()\<close> and \<open>std::prev(end())\<close> is then list iteration, which is what
  the range-for loops of the code rely on, and lookup is \<open>map_of\<close>. The lemmas give each
  operation's effect on lookup and that it keeps the order.
\<close>

type_synonym ('k, 'v) smap = "('k \<times> 'v) list"

definition sm_wf :: "('k::linorder, 'v) smap \<Rightarrow> bool" where
  "sm_wf m = sorted_wrt (<) (map fst m)"

fun sm_put :: "'k::linorder \<Rightarrow> 'v \<Rightarrow> ('k, 'v) smap \<Rightarrow> ('k, 'v) smap" where
  \<comment> \<open>\<open>m[k] = v\<close>\<close>
  "sm_put k v [] = [(k, v)]"
| "sm_put k v ((a, b) # m) =
     (if k < a then (k, v) # (a, b) # m
      else if k = a then (k, v) # m
      else (a, b) # sm_put k v m)"

definition sm_insert :: "'k::linorder \<Rightarrow> 'v \<Rightarrow> ('k, 'v) smap \<Rightarrow> ('k, 'v) smap" where
  \<comment> \<open>\<open>m.insert(make_pair(k, v))\<close>: an existing entry stays\<close>
  "sm_insert k v m = (case map_of m k of None \<Rightarrow> sm_put k v m | Some _ \<Rightarrow> m)"

fun sm_del :: "'k \<Rightarrow> ('k, 'v) smap \<Rightarrow> ('k, 'v) smap" where
  \<comment> \<open>\<open>m.erase(k)\<close>\<close>
  "sm_del k [] = []"
| "sm_del k ((a, b) # m) = (if k = a then m else (a, b) # sm_del k m)"

definition sm_add :: "'k::linorder \<Rightarrow> int \<Rightarrow> ('k, int) smap \<Rightarrow> ('k, int) smap" where
  \<comment> \<open>\<open>m[k] += d\<close>: a missing entry starts at zero\<close>
  "sm_add k d m = sm_put k ((case map_of m k of None \<Rightarrow> 0 | Some x \<Rightarrow> x) + d) m"

lemma sm_wf_Nil [simp]: "sm_wf []"
  by (simp add: sm_wf_def)

lemma sm_wf_Cons [simp]:
  "sm_wf ((a, b) # m) \<longleftrightarrow> (\<forall>k \<in> fst ` set m. a < k) \<and> sm_wf m"
  by (auto simp: sm_wf_def)

lemma map_of_sm_put [simp]: "map_of (sm_put k v m) = (map_of m)(k \<mapsto> v)"
  by (induction k v m rule: sm_put.induct) (auto simp: fun_eq_iff)

lemma keys_sm_put [simp]: "fst ` set (sm_put k v m) = insert k (fst ` set m)"
  by (induction k v m rule: sm_put.induct) auto

lemma set_sm_put: "set (sm_put k v m) \<subseteq> insert (k, v) (set m)"
  by (induction k v m rule: sm_put.induct) auto

lemma sm_wf_sm_put [simp]: "sm_wf m \<Longrightarrow> sm_wf (sm_put k v m)"
proof (induction k v m rule: sm_put.induct)
  case (2 k v a b m)
  then show ?case by auto
qed simp

lemma sm_wf_head_None: "sm_wf ((a, b) # m) \<Longrightarrow> map_of m a = None"
  by (auto simp: map_of_eq_None_iff)

lemma map_of_sm_del [simp]: "sm_wf m \<Longrightarrow> map_of (sm_del k m) = (map_of m)(k := None)"
proof (induction k m rule: sm_del.induct)
  case (2 k a b m)
  then show ?case
    using sm_wf_head_None [of a b m] by (auto simp: fun_eq_iff)
qed simp

lemma keys_sm_del_sub: "fst ` set (sm_del k m) \<subseteq> fst ` set m"
  by (induction k m rule: sm_del.induct) auto

lemma sm_wf_sm_del [simp]: "sm_wf m \<Longrightarrow> sm_wf (sm_del k m)"
proof (induction k m rule: sm_del.induct)
  case (2 k a b m)
  then show ?case using keys_sm_del_sub [of k m] by (fastforce simp del: fst_conv)
qed simp

lemma sm_del_absent: "map_of m k = None \<Longrightarrow> sm_del k m = m"
  by (induction k m rule: sm_del.induct) (auto split: if_splits)

lemma keys_sm_del [simp]: "sm_wf m \<Longrightarrow> fst ` set (sm_del k m) = fst ` set m - {k}"
  by (metis dom_fun_upd dom_map_of_conv_image_fst fun_upd_apply map_of_sm_del)

lemma length_sm_del: "map_of m k \<noteq> None \<Longrightarrow> length (sm_del k m) = length m - 1"
proof (induction k m rule: sm_del.induct)
  case (2 k a b m)
  then show ?case by (cases m) (auto split: if_splits)
qed simp

lemma length_sm_put:
  "sm_wf m \<Longrightarrow> length (sm_put k v m) = (if map_of m k = None then Suc (length m) else length m)"
proof (induction k v m rule: sm_put.induct)
  case (2 k v a b m)
  then show ?case by (auto simp: map_of_eq_None_iff)
qed simp

lemma sm_wf_sm_insert [simp]: "sm_wf m \<Longrightarrow> sm_wf (sm_insert k v m)"
  by (simp add: sm_insert_def split: option.splits)

lemma map_of_sm_insert:
  "map_of (sm_insert k v m) = (if map_of m k = None then (map_of m)(k \<mapsto> v) else map_of m)"
  by (simp add: sm_insert_def split: option.splits)

lemma sm_wf_sm_add [simp]: "sm_wf m \<Longrightarrow> sm_wf (sm_add k d m)"
  by (simp add: sm_add_def)

lemma map_of_sm_add:
  "map_of (sm_add k d m) =
     (map_of m)(k \<mapsto> (case map_of m k of None \<Rightarrow> 0 | Some x \<Rightarrow> x) + d)"
  by (simp add: sm_add_def)

lemma sm_wf_distinct: "sm_wf m \<Longrightarrow> distinct (map fst m)"
  by (simp add: sm_wf_def strict_sorted_iff)

lemma length_sm_wf: "sm_wf m \<Longrightarrow> length m = card (fst ` set m)"
  by (metis sm_wf_distinct distinct_card length_map set_map)

lemma sm_wf_map_of_iff: "sm_wf m \<Longrightarrow> map_of m k = Some v \<longleftrightarrow> (k, v) \<in> set m"
  by (simp add: sm_wf_distinct)

lemma sm_wf_set_inject:
  assumes "sm_wf m" and "sm_wf m'" and "set m = set m'"
  shows "m = m'"
proof (rule map_sorted_distinct_set_unique [of fst])
  show "inj_on fst (set m \<union> set m')" using sm_wf_distinct [OF assms(1)] assms(3) by (simp add: distinct_map)
  show "sorted (map fst m)" "sorted (map fst m')"
    using assms(1,2) by (auto simp: sm_wf_def elim: sorted_wrt_mono_rel [rotated])
qed (use assms sm_wf_distinct in auto)

lemma sm_wf_inject: "sm_wf m \<Longrightarrow> sm_wf n \<Longrightarrow> map_of m = map_of n \<Longrightarrow> m = n"
  by (rule sm_wf_set_inject) (auto simp flip: sm_wf_map_of_iff)

lemma sm_wf_append:
  "sm_wf (m @ n) \<longleftrightarrow> sm_wf m \<and> sm_wf n \<and> (\<forall>x \<in> fst ` set m. \<forall>y \<in> fst ` set n. x < y)"
  by (auto simp: sm_wf_def sorted_wrt_append)

lemma sm_wf_butlast: "sm_wf m \<Longrightarrow> sm_wf (butlast m)"
  by (cases m rule: rev_cases) (auto simp: sm_wf_append)

lemma sm_wf_tl: "sm_wf m \<Longrightarrow> sm_wf (tl m)"
  by (cases m) auto

lemma sm_wf_last_max:
  assumes "sm_wf m" and "m \<noteq> []" and "k \<in> fst ` set m"
  shows "k \<le> fst (last m)"
proof (cases m rule: rev_cases)
  case (snoc n x)
  with assms show ?thesis by (cases x) (force simp: sm_wf_append)
qed (use assms in simp)

lemma sm_put_snoc:
  "\<forall>x \<in> fst ` set m. x < k \<Longrightarrow> sm_put k v m = m @ [(k, v)]"
  by (induction m) (auto simp: not_less_iff_gr_or_eq)

subsection \<open>Sets\<close>

type_synonym 'a sset = "'a list"

definition ss_wf :: "'a::linorder sset \<Rightarrow> bool" where
  "ss_wf s = sorted_wrt (<) s"

fun ss_ins :: "'a::linorder \<Rightarrow> 'a sset \<Rightarrow> 'a sset" where
  "ss_ins x [] = [x]"
| "ss_ins x (a # s) = (if x < a then x # a # s else if x = a then a # s else a # ss_ins x s)"

fun ss_del :: "'a \<Rightarrow> 'a sset \<Rightarrow> 'a sset" where
  "ss_del x [] = []"
| "ss_del x (a # s) = (if x = a then s else a # ss_del x s)"

definition ss_of_list :: "'a::linorder list \<Rightarrow> 'a sset" where
  "ss_of_list xs = fold ss_ins xs []"

lemma ss_wf_Nil [simp]: "ss_wf []"
  by (simp add: ss_wf_def)

lemma ss_wf_Cons [simp]: "ss_wf (a # s) \<longleftrightarrow> (\<forall>x \<in> set s. a < x) \<and> ss_wf s"
  by (simp add: ss_wf_def)

lemma set_ss_ins [simp]: "set (ss_ins x s) = insert x (set s)"
  by (induction x s rule: ss_ins.induct) auto

lemma ss_wf_ss_ins [simp]: "ss_wf s \<Longrightarrow> ss_wf (ss_ins x s)"
  by (induction x s rule: ss_ins.induct) auto

lemma set_ss_del_sub: "set (ss_del x s) \<subseteq> set s"
  by (induction x s rule: ss_del.induct) auto

lemma ss_wf_ss_del [simp]: "ss_wf s \<Longrightarrow> ss_wf (ss_del x s)"
  by (induction x s rule: ss_del.induct) (use set_ss_del_sub in fastforce)+

lemma set_ss_del [simp]: "ss_wf s \<Longrightarrow> set (ss_del x s) = set s - {x}"
  by (induction x s rule: ss_del.induct) auto

lemma ss_wf_inject: "ss_wf s \<Longrightarrow> ss_wf t \<Longrightarrow> set s = set t \<Longrightarrow> s = t"
  by (metis ss_wf_def strict_sorted_equal)

lemma ss_ins_present: "ss_wf s \<Longrightarrow> x \<in> set s \<Longrightarrow> ss_ins x s = s"
  by (rule ss_wf_inject) auto

lemma ss_del_ins: "ss_wf s \<Longrightarrow> x \<notin> set s \<Longrightarrow> ss_del x (ss_ins x s) = s"
  by (rule ss_wf_inject) auto

lemma ss_wf_distinct: "ss_wf s \<Longrightarrow> distinct s"
  by (simp add: ss_wf_def strict_sorted_iff)

lemma fold_ss_ins: "ss_wf s \<Longrightarrow> ss_wf (fold ss_ins xs s) \<and> set (fold ss_ins xs s) = set xs \<union> set s"
  by (induction xs arbitrary: s) auto

lemma ss_wf_of_list [simp]: "ss_wf (ss_of_list xs)"
  using fold_ss_ins [of "[]" xs] by (simp add: ss_of_list_def)

lemma set_ss_of_list [simp]: "set (ss_of_list xs) = set xs"
  using fold_ss_ins [of "[]" xs] by (simp add: ss_of_list_def)

lemma ss_of_list_id: "ss_wf s \<Longrightarrow> ss_of_list s = s"
  by (rule ss_wf_inject) auto

subsection \<open>Containers of bounded size\<close>

text \<open>
  \<open>c.size() > limit\<close> compares a \<open>size_t\<close> with an \<open>int32_t\<close>, which is converted to
  \<open>size_t\<close> first: a negative limit is never exceeded.
\<close>

definition size_exceeds :: "nat \<Rightarrow> int \<Rightarrow> bool" where
  "size_exceeds n limit = (uint (word_of_int limit :: 64 word) < int n)"

fun trim_front :: "int \<Rightarrow> 'a list \<Rightarrow> 'a list" where
  \<comment> \<open>\<open>while (c.size() > limit) c.erase(c.begin())\<close>\<close>
  "trim_front limit [] = []"
| "trim_front limit (x # xs) =
     (if size_exceeds (length (x # xs)) limit then trim_front limit xs else x # xs)"

lemma size_exceeds_nonneg: "0 \<le> l \<Longrightarrow> l < 2 ^ 64 \<Longrightarrow> size_exceeds n l \<longleftrightarrow> l < int n"
  by (simp add: size_exceeds_def unsigned_of_int take_bit_int_eq_self)

lemma size_exceeds_0 [simp]: "\<not> size_exceeds 0 l"
  by (simp add: size_exceeds_def)

lemma trim_front_bound: "\<not> size_exceeds (length (trim_front l xs)) l"
  by (induction l xs rule: trim_front.induct) auto

lemma trim_front_suffix: "\<exists>n. trim_front l xs = drop n xs"
proof (induction l xs rule: trim_front.induct)
  case (2 l x xs)
  show ?case
  proof (cases "size_exceeds (length (x # xs)) l")
    case True
    with 2 obtain n where "trim_front l xs = drop n xs" by blast
    with True have "trim_front l (x # xs) = drop (Suc n) (x # xs)" by simp
    then show ?thesis by blast
  next
    case False
    then have "trim_front l (x # xs) = drop 0 (x # xs)" by simp
    then show ?thesis by blast
  qed
qed simp

lemma set_trim_front: "set (trim_front l xs) \<subseteq> set xs"
  using trim_front_suffix [of l xs] by (metis set_drop_subset)

lemma trim_front_id: "\<not> size_exceeds (length xs) l \<Longrightarrow> trim_front l xs = xs"
  by (cases xs) auto

lemma trim_front_nonneg: "0 \<le> l \<Longrightarrow> l < 2 ^ 64 \<Longrightarrow> trim_front l xs = drop (length xs - nat l) xs"
proof (induction l xs rule: trim_front.induct)
  case (2 l x xs)
  show ?case
  proof (cases "l < int (length (x # xs))")
    case True
    then have "length (x # xs) - nat l = Suc (length xs - nat l)" using 2(2) by auto
    with True 2 show ?thesis by (simp add: size_exceeds_nonneg)
  qed (use 2 in \<open>auto simp: size_exceeds_nonneg\<close>)
qed simp

lemma sm_wf_drop: "sm_wf m \<Longrightarrow> sm_wf (drop n m)"
  by (simp add: sm_wf_def drop_map [symmetric] sorted_wrt_drop)

lemma sm_wf_trim_front: "sm_wf m \<Longrightarrow> sm_wf (trim_front l m)"
  using trim_front_suffix [of l m] sm_wf_drop by metis

end
