(* ===== verification/Hex.thy ===== *)
theory Hex
  imports StdMap
begin

unbundle bit_operations_syntax

text \<open>
  Hexadecimal text and 256-bit numbers: \<open>uint256\<close> with \<open>GetHex\<close>/\<open>ToString\<close> and \<open>SetHex\<close>
  (src/jiexi/src/bitcoin/uint256.h), \<open>HexDigit\<close> (bitcoin/util.cpp), \<open>Bin2Hex\<close> and \<open>Hex2Bin\<close>
  and the compact difficulty encoding \<open>BitsToTarget\<close>/\<open>DiffToBits\<close> (Common.cc),
  \<open>HexToDecLast2Bytes\<close> (Util.cc) and \<open>GetBlockValue\<close> (bitcoin/chainparams.cpp).

  A byte string (\<open>std::string\<close>, \<open>vector<char>\<close>) is a \<open>string\<close>: a \<open>char\<close> is eight bits. The
  lemmas: printing a hash gives 64 characters and is injective, parsing inverts it, and
  decoding inverts encoding of byte strings.
\<close>

type_synonym uint256 = "256 word"

subsection \<open>Hex digits\<close>

definition hexchar :: "nat \<Rightarrow> char" where
  \<comment> \<open>\<open>_hexchars[n]\<close>, and what \<open>%02x\<close> prints for a nibble\<close>
  "hexchar n = char_of (if n < 10 then 48 + n else 87 + n)"

definition HexDigit :: "char \<Rightarrow> int" where
  "HexDigit c = (let n = (of_char c :: nat) in
     if 48 \<le> n \<and> n \<le> 57 then int n - 48
     else if 97 \<le> n \<and> n \<le> 102 then int n - 97 + 10
     else if 65 \<le> n \<and> n \<le> 70 then int n - 65 + 10
     else - 1)"

lemma of_char_hexchar: "n < 16 \<Longrightarrow> (of_char (hexchar n) :: nat) = (if n < 10 then 48 + n else 87 + n)"
  by (simp add: hexchar_def of_char_of)

lemma HexDigit_hexchar [simp]: "n < 16 \<Longrightarrow> HexDigit (hexchar n) = int n"
  by (auto simp: HexDigit_def of_char_hexchar)

lemma hexchar_inject: "m < 16 \<Longrightarrow> n < 16 \<Longrightarrow> hexchar m = hexchar n \<longleftrightarrow> m = n"
  by (metis HexDigit_hexchar nat_int)

definition is_hexchar :: "char \<Rightarrow> bool" where
  "is_hexchar c = (HexDigit c \<noteq> - 1)"

lemma is_hexchar_hexchar [simp]: "n < 16 \<Longrightarrow> is_hexchar (hexchar n)"
  by (simp add: is_hexchar_def)

definition byte_hex :: "nat \<Rightarrow> string" where
  \<comment> \<open>\<open>%02x\<close> of one byte\<close>
  "byte_hex b = [hexchar (b div 16), hexchar (b mod 16)]"

fun hex_bytes :: "nat \<Rightarrow> nat \<Rightarrow> string" where
  \<comment> \<open>the \<open>k\<close> low bytes of \<open>n\<close>, the most significant first\<close>
  "hex_bytes 0 n = []"
| "hex_bytes (Suc k) n = hex_bytes k (n div 256) @ byte_hex (n mod 256)"

fun hex_val :: "nat \<Rightarrow> string \<Rightarrow> nat" where
  "hex_val acc [] = acc"
| "hex_val acc (c # cs) = hex_val (acc * 16 + nat (HexDigit c)) cs"

lemma length_hex_bytes [simp]: "length (hex_bytes k n) = 2 * k"
  by (induction k arbitrary: n) (auto simp: byte_hex_def)

lemma hex_val_append: "hex_val acc (xs @ ys) = hex_val (hex_val acc xs) ys"
  by (induction xs arbitrary: acc) auto

lemma hex_val_byte_hex: "b < 256 \<Longrightarrow> hex_val acc (byte_hex b) = acc * 256 + b"
  by (simp add: byte_hex_def less_mult_imp_div_less)

lemma hex_val_hex_bytes: "hex_val 0 (hex_bytes k n) = n mod 256 ^ k"
proof (induction k arbitrary: n)
  case 0
  then show ?case by simp
next
  case (Suc k)
  have "n mod (256 * 256 ^ k) = 256 * (n div 256 mod 256 ^ k) + n mod 256"
    by (rule mod_mult2_eq)
  with Suc show ?case by (simp add: hex_val_append hex_val_byte_hex)
qed

lemma hex_bytes_hexchars: "c \<in> set (hex_bytes k n) \<Longrightarrow> is_hexchar c"
  by (induction k arbitrary: n) (auto simp: byte_hex_def less_mult_imp_div_less)

lemma is_hexchar_not_space: "is_hexchar c \<Longrightarrow> \<not> is_space c"
  by (auto simp: is_hexchar_def HexDigit_def is_space_def Let_def split: if_splits)

subsection \<open>uint256\<close>

definition GetHex :: "uint256 \<Rightarrow> string" where
  "GetHex w = hex_bytes 32 (unat w)"

abbreviation ToString :: "uint256 \<Rightarrow> string" where
  "ToString \<equiv> GetHex"

definition skip_0x :: "string \<Rightarrow> string" where
  "skip_0x s = (case s of
       a # b # cs \<Rightarrow> if a = CHR ''0'' \<and> (b = CHR ''x'' \<or> b = CHR ''X'') then cs else s
     | _ \<Rightarrow> s)"

definition SetHex :: "string \<Rightarrow> uint256" where
  \<comment> \<open>leading white space and \<open>0x\<close> are skipped, digits are read up to the first character that is
    not one, and the low 32 bytes are kept\<close>
  "SetHex s =
     (let digits = takeWhile is_hexchar (skip_0x (dropWhile is_space s))
      in word_of_nat (hex_val 0 digits))"

lemma length_GetHex [simp]: "length (GetHex w) = 64"
  by (simp add: GetHex_def)

lemma GetHex_ne [simp]: "GetHex w \<noteq> []"
  by (metis length_GetHex length_0_conv zero_neq_numeral)

lemma GetHex_chars: "c \<in> set (GetHex w) \<Longrightarrow> is_hexchar c"
  unfolding GetHex_def by (rule hex_bytes_hexchars)

lemma GetHex_no_sep [simp]: "CHR ''_'' \<notin> set (GetHex w)" "CHR '','' \<notin> set (GetHex w)"
  "CHR ''|'' \<notin> set (GetHex w)" "CHR ''x'' \<notin> set (GetHex w)" "CHR ''X'' \<notin> set (GetHex w)"
  using GetHex_chars [of _ w] by (fastforce simp: is_hexchar_def HexDigit_def)+

lemma skip_0x_id: "CHR ''x'' \<notin> set s \<Longrightarrow> CHR ''X'' \<notin> set s \<Longrightarrow> skip_0x s = s"
  by (auto simp: skip_0x_def split: list.splits)

lemma dropWhile_space_hex:
  "(\<And>c. c \<in> set s \<Longrightarrow> is_hexchar c) \<Longrightarrow> dropWhile is_space s = s"
  by (cases s) (auto dest: is_hexchar_not_space)

lemma unat_word_less: "unat w < 256 ^ 32" for w :: uint256
proof -
  have "unat w < 2 ^ LENGTH(256)" by (rule unsigned_less)
  then show ?thesis by simp
qed

lemma SetHex_GetHex [simp]: "SetHex (GetHex w) = w"
proof -
  have "takeWhile is_hexchar (skip_0x (dropWhile is_space (GetHex w))) = GetHex w"
    by (simp add: dropWhile_space_hex GetHex_chars skip_0x_id takeWhile_eq_all_conv)
  moreover have "hex_val 0 (GetHex w) = unat w"
    using unat_word_less by (simp add: GetHex_def hex_val_hex_bytes)
  ultimately show ?thesis by (simp add: SetHex_def)
qed

lemma skip_0x_prefix: "skip_0x (''0x'' @ s) = s"
  by (simp add: skip_0x_def)

lemma SetHex_framed:
  assumes "\<forall>c \<in> set pre. is_space c" and "px = [] \<or> px = ''0x''" and "rest = [] \<or> \<not> is_hexchar (hd rest)"
  shows "SetHex (pre @ px @ GetHex w @ rest) = w"
proof -
  obtain a b s where g: "GetHex w = a # b # s"
    using length_GetHex [of w] by (cases "GetHex w"; cases "tl (GetHex w)") auto
  have ab: "b \<noteq> CHR ''x''" "b \<noteq> CHR ''X''" "\<not> is_space a"
    using GetHex_no_sep(4,5) [of w] GetHex_chars [of a w] is_hexchar_not_space [of a] by (auto simp: g)
  have "dropWhile is_space (pre @ px @ GetHex w @ rest) = px @ GetHex w @ rest"
    using assms(1,2) ab(3) by (auto simp: dropWhile_append2 g is_space_def)
  moreover have "skip_0x (px @ GetHex w @ rest) = GetHex w @ rest"
  proof (cases px)
    case Nil
    then show ?thesis using ab by (simp add: g skip_0x_def)
  qed (use assms(2) skip_0x_prefix in simp)
  moreover have "takeWhile is_hexchar (GetHex w @ rest) = GetHex w"
    using assms(3) GetHex_chars [of _ w] by (cases rest) (simp_all add: takeWhile_append takeWhile_eq_all_conv)
  moreover have "hex_val 0 (GetHex w) = unat w"
    using unat_word_less by (simp add: GetHex_def hex_val_hex_bytes)
  ultimately show ?thesis by (simp add: SetHex_def)
qed

lemma GetHex_inject [simp]: "GetHex v = GetHex w \<longleftrightarrow> v = w"
  by (metis SetHex_GetHex)

definition HexToDecLast2Bytes :: "string \<Rightarrow> int" where
  "HexToDecLast2Bytes hex =
     (if length hex < 2 then 0
      else let h = drop (length hex - 2) hex
           in HexDigit (h ! 0) * 16 + HexDigit (h ! 1))"

lemma HexToDecLast2Bytes_hash: "HexToDecLast2Bytes (GetHex w) = int (unat w mod 256)"
proof -
  have "hex_bytes (Suc 31) (unat w) = hex_bytes 31 (unat w div 256) @ byte_hex (unat w mod 256)"
    by (rule hex_bytes.simps)
  then have "GetHex w = hex_bytes 31 (unat w div 256) @ byte_hex (unat w mod 256)"
    by (simp add: GetHex_def)
  then have h: "drop (length (GetHex w) - 2) (GetHex w) = byte_hex (unat w mod 256)"
    by (simp add: byte_hex_def)
  have b: "HexDigit (byte_hex n ! 0) * 16 + HexDigit (byte_hex n ! 1) = int n" if "n < 256" for n
    using that by (simp add: byte_hex_def less_mult_imp_div_less zdiv_int zmod_int)
  show ?thesis
    unfolding HexToDecLast2Bytes_def h Let_def using b [of "unat w mod 256"] by simp
qed

subsection \<open>Byte strings\<close>

definition hex2bin_char :: "char \<Rightarrow> 8 word" where
  \<comment> \<open>\<open>_hex2bin_char\<close>, stored in a \<open>uint8\<close>: an invalid digit (-1) becomes 255\<close>
  "hex2bin_char c = word_of_int (HexDigit c)"

fun hex_pairs :: "string \<Rightarrow> string" where
  "hex_pairs (a # b # cs) =
     char_of (unat (push_bit 4 (hex2bin_char a) OR hex2bin_char b)) # hex_pairs cs"
| "hex_pairs _ = []"

definition Hex2Bin :: "string \<Rightarrow> bool \<times> string" where
  \<comment> \<open>the overload on a C string: a result and the output vector\<close>
  "Hex2Bin s =
     (let psz = skip_0x (dropWhile is_space (takeWhile (\<lambda>c. c \<noteq> CHR 0x00) s))
      in if odd (length psz) then (False, []) else (True, hex_pairs psz))"

definition Bin2Hex :: "string \<Rightarrow> string" where
  "Bin2Hex bs = concat (map (\<lambda>c. byte_hex (of_char c)) bs)"

definition Bin2HexR :: "string \<Rightarrow> string" where
  "Bin2HexR bs = Bin2Hex (rev bs)"

lemma Bin2Hex_simps [simp]:
  "Bin2Hex [] = []" "Bin2Hex (c # cs) = byte_hex (of_char c) @ Bin2Hex cs"
  by (simp_all add: Bin2Hex_def)

lemma length_Bin2Hex [simp]: "length (Bin2Hex bs) = 2 * length bs"
  by (induction bs) (auto simp: byte_hex_def)

lemma of_char_byte: "(of_char c :: nat) < 256"
  by simp

lemma nibbles_byte:
  assumes "b < 256"
  shows "push_bit 4 (word_of_nat (b div 16) :: 8 word) OR word_of_nat (b mod 16) = word_of_nat b"
proof -
  let ?x = "word_of_nat (b div 16) :: 8 word" and ?y = "word_of_nat (b mod 16) :: 8 word"
  have "push_bit 4 ?x + ?y = push_bit 4 ?x OR ?y"
  proof (rule disjunctive_add)
    fix n
    show "\<not> bit (push_bit 4 ?x) n \<or> \<not> bit ?y n"
    proof (cases "n < 4")
      case False
      then have "\<not> bit (take_bit 4 b) n" by (simp add: bit_take_bit_iff)
      then show ?thesis by (simp add: bit_of_nat_iff take_bit_eq_mod)
    qed (simp add: bit_push_bit_iff)
  qed
  moreover have "push_bit 4 ?x = word_of_nat (b div 16 * 16)"
    by (simp add: push_bit_eq_mult)
  ultimately show ?thesis
    by (metis div_mult_mod_eq of_nat_add)
qed

lemma hex2bin_char_hexchar: "n < 16 \<Longrightarrow> hex2bin_char (hexchar n) = word_of_nat n"
  by (simp add: hex2bin_char_def)

lemma hex_pairs_Bin2Hex [simp]: "hex_pairs (Bin2Hex bs) = bs"
proof (induction bs)
  case (Cons c cs)
  let ?b = "of_char c :: nat"
  have b: "?b < 256" by simp
  then have "?b div 16 < 16" "?b mod 16 < 16" by (simp_all add: less_mult_imp_div_less)
  then have "push_bit 4 (hex2bin_char (hexchar (?b div 16))) OR hex2bin_char (hexchar (?b mod 16)) = word_of_nat ?b"
    by (simp add: hex2bin_char_hexchar nibbles_byte [OF b])
  moreover have "unat (word_of_nat ?b :: 8 word) = ?b"
    using b by (simp add: unat_of_nat)
  ultimately show ?case using Cons by (simp add: byte_hex_def)
qed simp

lemma Bin2Hex_chars: "c \<in> set (Bin2Hex bs) \<Longrightarrow> is_hexchar c"
  by (induction bs) (auto simp: byte_hex_def less_mult_imp_div_less)

lemma is_hexchar_special: "\<not> is_hexchar CHR 0x00" "\<not> is_hexchar CHR ''x''" "\<not> is_hexchar CHR ''X''"
  by (simp_all add: is_hexchar_def HexDigit_def)

lemma Hex2Bin_Bin2Hex: "Hex2Bin (Bin2Hex bs) = (True, bs)"
proof -
  have nz: "takeWhile (\<lambda>c. c \<noteq> CHR 0x00) (Bin2Hex bs) = Bin2Hex bs"
    using Bin2Hex_chars [of _ bs] is_hexchar_special by (force simp: takeWhile_eq_all_conv)
  have "skip_0x (Bin2Hex bs) = Bin2Hex bs"
    using Bin2Hex_chars [of _ bs] is_hexchar_special by (blast intro: skip_0x_id)
  moreover have "dropWhile is_space (Bin2Hex bs) = Bin2Hex bs"
    using Bin2Hex_chars by (rule dropWhile_space_hex)
  ultimately show ?thesis by (simp only: Hex2Bin_def nz Let_def) simp
qed

subsection \<open>Difficulty and block reward\<close>

definition BitsToTarget :: "32 word \<Rightarrow> uint256" where
  \<comment> \<open>\<open>target <<= 8 * ((uint8)nbytes - 3)\<close>: the shift is an \<open>int\<close> converted to \<open>unsigned int\<close>\<close>
  "BitsToTarget bits =
     (let nbytes = unat (drop_bit 24 bits AND 0xff);
          shift = unat (word_of_int (8 * (int nbytes - 3)) :: 32 word)
      in push_bit shift (ucast (bits AND 0xffffff) :: uint256))"

definition GetBlockValue :: "int \<Rightarrow> int \<Rightarrow> int \<Rightarrow> int" where
  \<comment> \<open>\<open>interval\<close> is \<open>Params().SubsidyHalvingInterval()\<close>; heights are not negative\<close>
  "GetBlockValue interval nHeight nFees =
     (let halvings = nHeight div interval in
      if halvings \<ge> 64 then nFees
      else 50 * 100000000 div 2 ^ nat halvings + nFees)"

subsection \<open>Properties\<close>

text \<open>
  C34. \<open>uint256\<close> text round trip: parsing the 64 digits that \<open>GetHex\<close> prints, also with white
  space and a \<open>0x\<close> in front and any text that is not a hex digit behind, gives the number
  back, and the number is never printed in fewer than 64 characters.
\<close>

theorem uint256_text_roundtrip:
  assumes "\<forall>c \<in> set pre. is_space c" and "px = [] \<or> px = ''0x''" and "rest = [] \<or> \<not> is_hexchar (hd rest)"
  shows "SetHex (pre @ px @ GetHex w @ rest) = w \<and> length (GetHex w) = 64"
  using SetHex_framed [OF assms] by simp

theorem uint256_text_roundtrip_witness:
  "SetHex ('' '' @ ''0x'' @ GetHex 0xAB @ ''Z'') = 0xAB \<and> length (GetHex 0xAB) = 64"
  by (rule uint256_text_roundtrip) (simp_all add: is_space_def is_hexchar_def HexDigit_def)

end
