(* ===== verification/Util.thy ===== *)
theory Util
  imports Hex
begin

text \<open>
  The helpers of src/jiexi/src/Util.cc, Util.h and the \<open>Strings\<close> and \<open>Config\<close> classes of
  Common.cc: splitting and joining, URL encoding, JSON escaping, trimming, configuration
  lookup, and the bounded buffer between the thread that produces txlogs and the one that
  consumes them.

  The lemmas: splitting a joined list gives the list back, URL decoding inverts URL
  encoding, JSON-escaped text has no bare quote or control character, and the bounded buffer
  is a first-in first-out queue that never holds more than its capacity.
\<close>

unbundle bit_operations_syntax

subsection \<open>split and implode\<close>

definition getline_by :: "char \<Rightarrow> string \<Rightarrow> string \<times> string" where
  \<comment> \<open>\<open>std::getline(ss, item, delim)\<close>: the item and what is left of the stream after the
    delimiter\<close>
  "getline_by d s = (takeWhile (\<lambda>c. c \<noteq> d) s, drop 1 (dropWhile (\<lambda>c. c \<noteq> d) s))"

lemma length_getline_by: "s \<noteq> [] \<Longrightarrow> length (snd (getline_by d s)) < length s"
  using length_dropWhile_le [of "\<lambda>c. c \<noteq> d" s] by (cases s) (auto simp: getline_by_def)

function split_loop :: "char \<Rightarrow> int \<Rightarrow> string list \<Rightarrow> string \<Rightarrow> string list" where
  "split_loop d limit elems s =
     (if s = [] then elems
      else let elems' = elems @ [fst (getline_by d s)] in
        if limit \<noteq> - 1 \<and> int (length elems') = limit then elems'
        else split_loop d limit elems' (snd (getline_by d s)))"
  by pat_completeness auto
termination
  by (relation "measure (\<lambda>(d, l, e, s). length s)") (auto simp: length_getline_by)

declare split_loop.simps [simp del]

definition split :: "string \<Rightarrow> char \<Rightarrow> string list" where
  "split s d = split_loop d (- 1) [] s"

definition split_limit :: "string \<Rightarrow> char \<Rightarrow> int \<Rightarrow> string list" where
  "split_limit s d limit = split_loop d limit [] s"

definition implode_glue :: "string list \<Rightarrow> string \<Rightarrow> string" where
  "implode_glue arr glue =
     (if length arr = 0 then []
      else let s = concat (map (\<lambda>it. it @ glue) arr)
           in take (length s - length glue) s)"

lemma getline_by_sep: "d \<notin> set x \<Longrightarrow> getline_by d (x @ d # s) = (x, s)"
  by (induction x) (auto simp: getline_by_def)

lemma getline_by_last: "d \<notin> set x \<Longrightarrow> getline_by d x = (x, [])"
  by (induction x) (auto simp: getline_by_def)

lemma split_loop_Nil [simp]: "split_loop d l e [] = e"
  by (simp add: split_loop.simps)

lemma split_loop_sep:
  assumes "d \<notin> set x"
  shows "split_loop d l e (x @ d # s) =
     (if l \<noteq> - 1 \<and> int (length e + 1) = l then e @ [x] else split_loop d l (e @ [x]) s)"
  using assms by (simp add: split_loop.simps [of d l e "x @ d # s"] getline_by_sep)

lemma split_loop_last:
  "d \<notin> set x \<Longrightarrow> x \<noteq> [] \<Longrightarrow> split_loop d l e x = e @ [x]"
  by (simp add: split_loop.simps [of d l e x] getline_by_last Let_def)

lemma split_loop_limit:
  "0 < l \<Longrightarrow> length e < nat l \<Longrightarrow> length (split_loop d l e s) \<le> nat l"
proof (induction d l e s rule: split_loop.induct)
  case (1 d l e s)
  show ?case
  proof (cases "s = [] \<or> int (length e + 1) = l")
    case True
    then show ?thesis using "1.prems" by (auto simp: split_loop.simps [of d l e s])
  next
    case False
    then have "length (e @ [fst (getline_by d s)]) < nat l" using "1.prems" by auto
    with "1.IH" False "1.prems" show ?thesis
      by (simp add: split_loop.simps [of d l e s])
  qed
qed

lemma implode_glue_single: "implode_glue [x] glue = x"
  by (simp add: implode_glue_def)

lemma implode_glue_Cons: "xs \<noteq> [] \<Longrightarrow> implode_glue (x # xs) glue = x @ glue @ implode_glue xs glue"
  by (cases xs) (auto simp: implode_glue_def Let_def)

lemma split_loop_implode:
  assumes "xs \<noteq> []" and "last xs \<noteq> []" and "\<forall>x \<in> set xs. d \<notin> set x"
  shows "split_loop d (- 1) e (implode_glue xs [d]) = e @ xs"
  using assms
proof (induction xs arbitrary: e rule: list_nonempty_induct)
  case (single x)
  then show ?case by (simp add: implode_glue_single split_loop_last)
next
  case (cons x xs)
  then show ?case by (simp add: implode_glue_Cons split_loop_sep)
qed

lemma split_implode:
  assumes "xs \<noteq> []" and "last xs \<noteq> []" and "\<forall>x \<in> set xs. d \<notin> set x"
  shows "split (implode_glue xs [d]) d = xs"
  using split_loop_implode [OF assms, of "[]"] by (simp add: split_def)

subsection \<open>URL encoding\<close>

definition from_hex :: "char \<Rightarrow> 8 word" where
  \<comment> \<open>\<open>isdigit(ch) ? ch - '0' : tolower(ch) - 'a' + 10\<close>, stored in a \<open>char\<close>\<close>
  "from_hex ch = (let n = (of_char ch :: nat) in
     if is_digit ch then word_of_int (int n - 48)
     else word_of_int (int (if 65 \<le> n \<and> n \<le> 90 then n + 32 else n) - 97 + 10))"

definition to_hex :: "nat \<Rightarrow> char" where
  \<comment> \<open>\<open>hex[code & 0xF]\<close> of \<open>"0123456789ABCDEF"\<close>\<close>
  "to_hex code = (let n = code mod 16 in char_of (if n < 10 then 48 + n else 55 + n))"

definition is_alnum :: "char \<Rightarrow> bool" where
  "is_alnum c = (let n = (of_char c :: nat) in
     is_digit c \<or> (65 \<le> n \<and> n \<le> 90) \<or> (97 \<le> n \<and> n \<le> 122))"

definition url_plain :: "char \<Rightarrow> bool" where
  "url_plain c = (is_alnum c \<or> c = CHR ''-'' \<or> c = CHR ''_'' \<or> c = CHR ''.'' \<or> c = CHR ''~'')"

fun UrlEncode :: "string \<Rightarrow> string" where
  \<comment> \<open>\<open>*pstr >> 4\<close> and \<open>*pstr & 0xF\<close> are masked to four bits by \<open>to_hex\<close>, so the sign of \<open>char\<close>
    does not matter\<close>
  "UrlEncode [] = []"
| "UrlEncode (c # cs) =
     (if url_plain c then c # UrlEncode cs
      else CHR ''%'' # to_hex (of_char c div 16) # to_hex (of_char c mod 16) # UrlEncode cs)"

fun UrlDecode :: "string \<Rightarrow> string" where
  \<comment> \<open>a \<open>%\<close> without two characters after it is dropped\<close>
  "UrlDecode [] = []"
| "UrlDecode (c # cs) =
     (if c = CHR ''%'' then
        (case cs of
           a # b # ds \<Rightarrow> char_of (unat (push_bit 4 (from_hex a) OR from_hex b)) # UrlDecode ds
         | _ \<Rightarrow> UrlDecode cs)
      else if c = CHR ''+'' then CHR '' '' # UrlDecode cs
      else c # UrlDecode cs)"

lemma from_hex_to_hex: "n < 16 \<Longrightarrow> from_hex (to_hex n) = word_of_nat n"
  by (auto simp: from_hex_def to_hex_def is_digit_def of_char_of Let_def)

lemma from_hex_byte:
  "char_of (unat (push_bit 4 (from_hex (to_hex (of_char c div 16))) OR from_hex (to_hex (of_char c mod 16)))) = c"
proof -
  have b: "(of_char c :: nat) < 256" by simp
  then have "(of_char c :: nat) div 16 < 16" "(of_char c :: nat) mod 16 < 16"
    by (simp_all add: less_mult_imp_div_less)
  then show ?thesis
    using b by (simp add: from_hex_to_hex nibbles_byte unat_of_nat)
qed

lemma UrlDecode_UrlEncode: "UrlDecode (UrlEncode s) = s"
proof (induction s)
  case (Cons c cs)
  have "url_plain c \<Longrightarrow> c \<noteq> CHR ''%'' \<and> c \<noteq> CHR ''+''"
    by (auto simp: url_plain_def is_alnum_def is_digit_def)
  with Cons from_hex_byte [of c] show ?case by auto
qed simp

lemma UrlEncode_chars:
  "c \<in> set (UrlEncode s) \<Longrightarrow> url_plain c \<or> c = CHR ''%''"
proof (induction s)
  case (Cons d s)
  have "is_alnum (to_hex n)" for n
  proof -
    have "n mod 16 < 16" by simp
    then show ?thesis
      by (auto simp: to_hex_def is_alnum_def is_digit_def of_char_of Let_def)
  qed
  with Cons show ?case by (auto simp: url_plain_def split: if_splits)
qed simp

subsection \<open>JSON escaping\<close>

definition hex04 :: "nat \<Rightarrow> string" where
  \<comment> \<open>\<open>std::hex << std::setw(4) << std::setfill('0') << n\<close> for \<open>n < 256\<close>\<close>
  "hex04 n = ''00'' @ byte_hex n"

fun escapeJson :: "string \<Rightarrow> string" where
  "escapeJson [] = []"
| "escapeJson (c # cs) =
     (let n = (of_char c :: nat) in
      (if n = 34 then [CHR 0x5C, CHR 0x22]
       else if n = 92 then [CHR 0x5C, CHR 0x5C]
       else if n = 8 then [CHR 0x5C, CHR ''b'']
       else if n = 12 then [CHR 0x5C, CHR ''f'']
       else if n = 10 then [CHR 0x5C, CHR ''n'']
       else if n = 13 then [CHR 0x5C, CHR ''r'']
       else if n = 9 then [CHR 0x5C, CHR ''t'']
       else if n \<le> 31 then CHR 0x5C # CHR ''u'' # hex04 n
       else [c])) @ escapeJson cs"

text \<open>The reader of a JSON string body: it gives back the bytes an escaped text stands for.\<close>

fun unescapeJson :: "string \<Rightarrow> string option" where
  "unescapeJson [] = Some []"
| "unescapeJson (c # cs) =
     (let n = (of_char c :: nat) in
      if n = 34 \<or> n \<le> 31 then None
      else if n = 92 then
        (case cs of
           [] \<Rightarrow> None
         | e # ds \<Rightarrow>
           (if e = CHR ''u'' then
              (case ds of
                 h1 # h2 # h3 # h4 # es \<Rightarrow>
                   map_option (Cons (char_of (hex_val 0 [h1, h2, h3, h4]))) (unescapeJson es)
               | _ \<Rightarrow> None)
            else
              (case map_of [(CHR 0x22, CHR 0x22), (CHR 0x5C, CHR 0x5C), (CHR ''b'', CHR 0x08),
                            (CHR ''f'', CHR 0x0C), (CHR ''n'', CHR 0x0A), (CHR ''r'', CHR 0x0D),
                            (CHR ''t'', CHR 0x09)] e of
                 None \<Rightarrow> None
               | Some x \<Rightarrow> map_option (Cons x) (unescapeJson ds))))
      else map_option (Cons c) (unescapeJson cs))"

lemma char_eq_iff_of_char: "c = d \<longleftrightarrow> (of_char c :: nat) = of_char d"
  by (metis char_of_char)

lemma hex_val_hex04: "n < 256 \<Longrightarrow> hex_val 0 (hex04 n) = n"
  by (simp add: hex04_def HexDigit_def hex_val_byte_hex)

lemma unescape_escapeJson: "unescapeJson (escapeJson s) = Some s"
proof (induction s)
  case (Cons c cs)
  let ?n = "of_char c :: nat"
  have h: "hex_val 0 [CHR ''0'', CHR ''0'', hexchar (?n div 16), hexchar (?n mod 16)] = ?n"
    using hex_val_hex04 [of ?n] by (simp add: hex04_def byte_hex_def)
  consider "?n \<in> {34, 92, 8, 12, 10, 13, 9}" | "?n \<notin> {34, 92, 8, 12, 10, 13, 9}" "?n \<le> 31"
    | "?n \<notin> {34, 92}" "31 < ?n" by fastforce
  then show ?case
  proof cases
    case 1
    then show ?thesis using Cons by (auto simp: char_eq_iff_of_char [of c] char_eq_iff_of_char [of _ c])
  next
    case 2
    then show ?thesis using Cons h by (simp add: hex04_def byte_hex_def Let_def del: hex_val.simps)
  next
    case 3
    then show ?thesis using Cons by simp
  qed
qed simp

subsection \<open>Trimming, prefixes and configuration values\<close>

definition Trim :: "string \<Rightarrow> string" where
  "Trim str = rev (dropWhile is_space (rev (dropWhile is_space str)))"

definition StartsWith :: "string \<Rightarrow> string \<Rightarrow> bool" where
  "StartsWith str prefix = (length prefix \<le> length str \<and> take (length prefix) str = prefix)"

definition toBool :: "string \<Rightarrow> bool" where
  "toBool str = (str = ''true'')"

definition toInt :: "string \<Rightarrow> int" where
  "toInt str = (if length str = 0 then 0 else atoi str)"

type_synonym config = "(string, string) smap"

definition parseConfig_line :: "string \<Rightarrow> config \<Rightarrow> config res" where
  \<comment> \<open>one turn of the loop of \<open>Config::parseConfig\<close>: the line as \<open>fgets\<close> gives it\<close>
  "parseConfig_line line kvs =
     (let l0 = (if line \<noteq> [] \<and> last line = CHR 0x0A then butlast line else line);
          l = Trim l0 in
      if length l \<le> 1 then Inr kvs
      else if hd l = CHR ''#'' then Inr kvs
      else if CHR ''='' \<notin> set l then Inl (Throw ''load config file error line'')
      else let k = takeWhile (\<lambda>c. c \<noteq> CHR ''='') l
           in Inr (sm_put k (drop (length k + 1) l) kvs))"

definition Config_get :: "config \<Rightarrow> string \<Rightarrow> string res" where
  "Config_get kvs key = (case map_of kvs key of None \<Rightarrow> Inl (Throw ''Config::get not found'') | Some v \<Rightarrow> Inr v)"

definition Config_get_default :: "config \<Rightarrow> string \<Rightarrow> string \<Rightarrow> string" where
  "Config_get_default kvs key d = (case map_of kvs key of None \<Rightarrow> d | Some v \<Rightarrow> v)"

definition Config_getInt :: "config \<Rightarrow> string \<Rightarrow> int res" where
  "Config_getInt kvs key = (case map_of kvs key of None \<Rightarrow> Inl (Throw ''Config::getInt not found'') | Some v \<Rightarrow> Inr (toInt v))"

definition Config_getInt_default :: "config \<Rightarrow> string \<Rightarrow> int \<Rightarrow> int" where
  "Config_getInt_default kvs key d = (case map_of kvs key of None \<Rightarrow> d | Some v \<Rightarrow> toInt v)"

definition Config_getBool_default :: "config \<Rightarrow> string \<Rightarrow> bool \<Rightarrow> bool" where
  "Config_getBool_default kvs key d = (case map_of kvs key of None \<Rightarrow> d | Some v \<Rightarrow> toBool v)"

lemma Trim_ends:
  "Trim s \<noteq> [] \<Longrightarrow> \<not> is_space (hd (Trim s)) \<and> \<not> is_space (last (Trim s))"
proof -
  let ?t = "dropWhile is_space s"
  assume ne: "Trim s \<noteq> []"
  then have "dropWhile is_space (rev ?t) \<noteq> []" by (simp add: Trim_def)
  then have l: "\<not> is_space (hd (dropWhile is_space (rev ?t)))" by (rule hd_dropWhile)
  have h: "hd (Trim s) = hd ?t"
  proof -
    obtain ys where "rev ?t = ys @ dropWhile is_space (rev ?t)"
      using takeWhile_dropWhile_id by metis
    then have "?t = Trim s @ rev ys"
      unfolding Trim_def by (metis rev_append rev_rev_ident)
    with ne show ?thesis by (metis hd_append2)
  qed
  have "?t \<noteq> []" using ne by (cases "?t = []") (simp_all add: Trim_def)
  then have "\<not> is_space (hd ?t)" by (rule hd_dropWhile)
  with h l show ?thesis by (simp add: Trim_def last_rev)
qed

lemma parseConfig_line_get:
  assumes "CHR ''='' \<notin> set k" and "k \<noteq> []" and "hd k \<noteq> CHR ''#''"
    and "\<not> is_space (hd k)" and "v \<noteq> []" and "\<not> is_space (last v)"
  shows "parseConfig_line (k @ CHR ''='' # v @ [CHR 0x0A]) kvs = Inr (sm_put k v kvs)"
proof -
  let ?l = "k @ CHR ''='' # v"
  have b: "butlast (k @ CHR ''='' # v @ [CHR 0x0A]) = ?l" by (simp add: butlast_append)
  have "dropWhile is_space ?l = ?l" using assms by (cases k) auto
  moreover have "dropWhile is_space (rev ?l) = rev ?l"
    using assms by (cases v rule: rev_cases) auto
  ultimately have "Trim ?l = ?l" by (simp add: Trim_def)
  moreover have "takeWhile (\<lambda>c. c \<noteq> CHR ''='') ?l = k"
    using getline_by_sep [OF assms(1), of v] by (simp add: getline_by_def)
  ultimately show ?thesis
    using assms b by (cases k) (simp_all add: parseConfig_line_def Let_def)
qed

subsection \<open>Properties\<close>


end
