(* ===== verification/TxTypes.thy ===== *)
theory TxTypes
  imports Hex "HOL-Library.Product_Lexorder"
begin

text \<open>
  The data of src/jiexi/src/bitcoin/core.h that the explorer works on: outpoints, inputs,
  outputs, transactions, block headers and blocks, with the predicates the handlers test
  (\<open>IsNull\<close>, \<open>IsCoinBase\<close>) and \<open>GetValueOut\<close>.

  \<open>GetHash\<close> is SHA-256 (OpenSSL) of the serialised object: it is a parameter \<open>gh\<close> (for
  transactions) or \<open>bh\<close> (for blocks) of the definitions that call it. Scripts are byte
  strings.
\<close>

record COutPoint =
  op_hash :: uint256
  op_n :: "32 word"

record CTxIn =
  prevout :: COutPoint
  scriptSig :: string
  nSequence :: "32 word"

record CTxOut =
  nValue :: int
  scriptPubKey :: string

record CTransaction =
  nVersion :: int
  vin :: "CTxIn list"
  vout :: "CTxOut list"
  nLockTime :: "32 word"

definition CTransaction_null :: CTransaction where
  "CTransaction_null = \<lparr>nVersion = 1, vin = [], vout = [], nLockTime = 0\<rparr>"

definition COutPoint_IsNull :: "COutPoint \<Rightarrow> bool" where
  "COutPoint_IsNull p = (op_hash p = 0 \<and> op_n p = - 1)"

definition CTransaction_IsNull :: "CTransaction \<Rightarrow> bool" where
  "CTransaction_IsNull tx = (vin tx = [] \<and> vout tx = [])"

definition IsCoinBase :: "CTransaction \<Rightarrow> bool" where
  "IsCoinBase tx = (length (vin tx) = 1 \<and> COutPoint_IsNull (prevout (vin tx ! 0)))"

definition MoneyRange :: "int \<Rightarrow> bool" where
  "MoneyRange v = (0 \<le> v \<and> v \<le> 21000000 * 100000000)"

fun GetValueOut_loop :: "CTxOut list \<Rightarrow> int \<Rightarrow> int res" where
  "GetValueOut_loop [] acc = Inr acc"
| "GetValueOut_loop (o1 # os) acc =
     (let acc' = acc + nValue o1 in
      if \<not> MoneyRange (nValue o1) \<or> \<not> MoneyRange acc'
      then Inl (Throw ''CTransaction::GetValueOut() : value out of range'')
      else GetValueOut_loop os acc')"

definition GetValueOut :: "CTransaction \<Rightarrow> int res" where
  "GetValueOut tx = GetValueOut_loop (vout tx) 0"

record CBlockHeader =
  b_nVersion :: int
  hashPrevBlock :: uint256
  hashMerkleRoot :: uint256
  nTime :: "32 word"
  nBits :: "32 word"
  nNonce :: "32 word"

record CBlock = CBlockHeader +
  vtx :: "CTransaction list"

definition CBlock_IsNull :: "CBlock \<Rightarrow> bool" where
  "CBlock_IsNull b = (nBits b = 0)"

definition GetBlockHeader :: "CBlock \<Rightarrow> CBlockHeader" where
  "GetBlockHeader b = CBlockHeader.truncate b"

definition GetBlockTime :: "CBlock \<Rightarrow> int" where
  "GetBlockTime b = uint (nTime b)"

lemma GetValueOut_loop_sum:
  "GetValueOut_loop os acc = Inr v \<Longrightarrow> v = acc + sum_list (map nValue os)"
  by (induction os arbitrary: acc) (fastforce simp: Let_def add.assoc split: if_splits)+

lemma GetValueOut_sum: "GetValueOut tx = Inr v \<Longrightarrow> v = sum_list (map nValue (vout tx))"
  unfolding GetValueOut_def by (drule GetValueOut_loop_sum) simp

lemma GetValueOut_loop_range:
  "GetValueOut_loop os acc = Inr v \<Longrightarrow> MoneyRange acc \<Longrightarrow> MoneyRange v"
  by (induction os arbitrary: acc) (auto simp: Let_def split: if_splits)

subsection \<open>Output keys of the memory pool\<close>

type_synonym TxOutputKey = "uint256 \<times> int"

definition outkey :: "CTxIn \<Rightarrow> TxOutputKey" where
  \<comment> \<open>\<open>TxOutputKey(it.prevout.hash, it.prevout.n)\<close>: the position is converted to \<open>int32_t\<close>\<close>
  "outkey i = (op_hash (prevout i), sint (op_n (prevout i)))"

end
