(* ===== verification/Serialize.thy ===== *)
theory Serialize
  imports TxTypes "HOL-Library.Monad_Syntax"
begin

text \<open>
  The network serialisation of transactions and blocks (src/jiexi/src/bitcoin/serialize.h and
  the \<open>IMPLEMENT_SERIALIZE\<close> blocks of core.h) and its hexadecimal text (\<open>EncodeHexTx\<close>,
  \<open>DecodeHexTx\<close>, \<open>EncodeHexBlock\<close>, \<open>DecodeHexBlk\<close> of Util.cc), on a little-endian machine.

  A reader takes the bytes left in the \<open>CDataStream\<close> and gives the value and the bytes left
  after it, or \<open>None\<close> for the exceptions of the stream, all of which \<open>DecodeHexTx\<close> and
  \<open>DecodeHexBlk\<close> turn into \<open>false\<close>. The lemmas: every reader inverts its writer on values of
  the C++ types' ranges, so decoding inverts encoding.
\<close>

subsection \<open>Integers and byte strings\<close>

fun le_bytes :: "nat \<Rightarrow> nat \<Rightarrow> string" where
  "le_bytes 0 n = []"
| "le_bytes (Suc k) n = char_of (n mod 256) # le_bytes k (n div 256)"

fun le_val :: "string \<Rightarrow> nat" where
  "le_val [] = 0"
| "le_val (c # cs) = of_char c + 256 * le_val cs"

definition read_bytes :: "nat \<Rightarrow> string \<Rightarrow> (string \<times> string) option" where
  \<comment> \<open>\<open>CDataStream::read\<close>: past the end it throws\<close>
  "read_bytes k s = (if length s < k then None else Some (take k s, drop k s))"

definition read_le :: "nat \<Rightarrow> string \<Rightarrow> (nat \<times> string) option" where
  "read_le k s = do { (b, s) \<leftarrow> read_bytes k s; Some (le_val b, s) }"

definition MAX_SIZE :: nat where
  "MAX_SIZE = 0x02000000"

definition WriteCompactSize :: "nat \<Rightarrow> string" where
  "WriteCompactSize n =
     (if n < 253 then le_bytes 1 n
      else if n \<le> 0xFFFF then le_bytes 1 253 @ le_bytes 2 n
      else if n \<le> 0xFFFFFFFF then le_bytes 1 254 @ le_bytes 4 n
      else le_bytes 1 255 @ le_bytes 8 n)"

definition ReadCompactSize :: "string \<Rightarrow> (nat \<times> string) option" where
  "ReadCompactSize s = do {
     (ch, s) \<leftarrow> read_le 1 s;
     (n, s) \<leftarrow>
       (if ch < 253 then Some (ch, s)
        else if ch = 253 then do { (x, s) \<leftarrow> read_le 2 s; if x < 253 then None else Some (x, s) }
        else if ch = 254 then do { (x, s) \<leftarrow> read_le 4 s; if x < 0x10000 then None else Some (x, s) }
        else do { (x, s) \<leftarrow> read_le 8 s; if x < 0x100000000 then None else Some (x, s) });
     if n > MAX_SIZE then None else Some (n, s) }"

definition ser_script :: "string \<Rightarrow> string" where
  "ser_script v = WriteCompactSize (length v) @ v"

definition read_script :: "string \<Rightarrow> (string \<times> string) option" where
  "read_script s = do { (n, s) \<leftarrow> ReadCompactSize s; read_bytes n s }"

definition ser_vector :: "('a \<Rightarrow> string) \<Rightarrow> 'a list \<Rightarrow> string" where
  "ser_vector f xs = WriteCompactSize (length xs) @ concat (map f xs)"

primrec read_times :: "(string \<Rightarrow> ('a \<times> string) option) \<Rightarrow> nat \<Rightarrow> string \<Rightarrow> ('a list \<times> string) option" where
  "read_times f 0 s = Some ([], s)"
| "read_times f (Suc n) s = do { (x, s) \<leftarrow> f s; (xs, s) \<leftarrow> read_times f n s; Some (x # xs, s) }"

definition read_vector :: "(string \<Rightarrow> ('a \<times> string) option) \<Rightarrow> string \<Rightarrow> ('a list \<times> string) option" where
  "read_vector f s = do { (n, s) \<leftarrow> ReadCompactSize s; read_times f n s }"

lemma length_le_bytes [simp]: "length (le_bytes k n) = k"
  by (induction k arbitrary: n) auto

lemma le_val_le_bytes: "le_val (le_bytes k n) = n mod 256 ^ k"
proof (induction k arbitrary: n)
  case (Suc k)
  have "n mod (256 * 256 ^ k) = 256 * (n div 256 mod 256 ^ k) + n mod 256"
    by (rule mod_mult2_eq)
  with Suc show ?case by (simp add: of_char_of)
qed simp

lemma le_bytes_le_val: "length s = k \<Longrightarrow> le_bytes k (le_val s) = s"
proof (induction s arbitrary: k)
  case (Cons c cs)
  have "(of_char c + 256 * le_val cs) mod 256 = (of_char c :: nat)"
    "(of_char c + 256 * le_val cs) div 256 = le_val cs"
    by simp_all
  with Cons show ?case by (cases k) auto
qed simp

lemma read_bytes_app [simp]: "length b = k \<Longrightarrow> read_bytes k (b @ s) = Some (b, s)"
  by (auto simp: read_bytes_def)

lemma read_le_app [simp]: "n < 256 ^ k \<Longrightarrow> read_le k (le_bytes k n @ s) = Some (n, s)"
  by (simp add: read_le_def le_val_le_bytes)

lemma ReadCompactSize_app [simp]:
  assumes "n \<le> MAX_SIZE"
  shows "ReadCompactSize (WriteCompactSize n @ s) = Some (n, s)"
proof -
  have r: "read_le 1 (le_bytes 1 k @ t) = Some (k, t)" if "k < 256" for k t
    using that read_le_app [of k 1 t] by (simp del: read_le_app le_bytes.simps)
  consider "n < 253" | "253 \<le> n" "n \<le> 0xFFFF" | "0xFFFF < n" "n \<le> 0xFFFFFFFF"
    using assms by (fastforce simp: MAX_SIZE_def)
  then show ?thesis
  proof cases
    case 1
    then show ?thesis
      using assms r [of n] by (simp add: WriteCompactSize_def ReadCompactSize_def del: One_nat_def)
  next
    case 2
    then show ?thesis
      using assms r [of 253] by (simp add: WriteCompactSize_def ReadCompactSize_def del: One_nat_def)
  next
    case 3
    then show ?thesis
      using assms r [of 254] by (simp add: WriteCompactSize_def ReadCompactSize_def del: One_nat_def)
  qed
qed

lemma read_script_app [simp]:
  "length v \<le> MAX_SIZE \<Longrightarrow> read_script (ser_script v @ s) = Some (v, s)"
  by (simp add: read_script_def ser_script_def)

lemma read_times_app:
  assumes "\<And>x t. x \<in> set xs \<Longrightarrow> f (g x @ t) = Some (x, t)"
  shows "read_times f (length xs) (concat (map g xs) @ s) = Some (xs, s)"
  using assms by (induction xs) auto

lemma read_vector_app:
  assumes "\<And>x t. x \<in> set xs \<Longrightarrow> f (g x @ t) = Some (x, t)" and "length xs \<le> MAX_SIZE"
  shows "read_vector f (ser_vector g xs @ s) = Some (xs, s)"
  using assms read_times_app [of xs f g s] by (simp add: read_vector_def ser_vector_def)

subsection \<open>Transactions and blocks\<close>

definition ser_outpoint :: "COutPoint \<Rightarrow> string" where
  \<comment> \<open>\<open>FLATDATA(*this)\<close>: the limbs of the hash, then the index\<close>
  "ser_outpoint p = le_bytes 32 (unat (op_hash p)) @ le_bytes 4 (unat (op_n p))"

definition read_outpoint :: "string \<Rightarrow> (COutPoint \<times> string) option" where
  "read_outpoint s = do {
     (h, s) \<leftarrow> read_le 32 s; (n, s) \<leftarrow> read_le 4 s;
     Some (\<lparr>op_hash = word_of_nat h, op_n = word_of_nat n\<rparr>, s) }"

definition ser_txin :: "CTxIn \<Rightarrow> string" where
  "ser_txin i = ser_outpoint (prevout i) @ ser_script (scriptSig i) @ le_bytes 4 (unat (nSequence i))"

definition read_txin :: "string \<Rightarrow> (CTxIn \<times> string) option" where
  "read_txin s = do {
     (p, s) \<leftarrow> read_outpoint s; (c, s) \<leftarrow> read_script s; (q, s) \<leftarrow> read_le 4 s;
     Some (\<lparr>prevout = p, scriptSig = c, nSequence = word_of_nat q\<rparr>, s) }"

definition ser_txout :: "CTxOut \<Rightarrow> string" where
  "ser_txout t = le_bytes 8 (unat (word_of_int (nValue t) :: 64 word)) @ ser_script (scriptPubKey t)"

definition read_txout :: "string \<Rightarrow> (CTxOut \<times> string) option" where
  "read_txout s = do {
     (v, s) \<leftarrow> read_le 8 s; (c, s) \<leftarrow> read_script s;
     Some (\<lparr>nValue = sint (word_of_nat v :: 64 word), scriptPubKey = c\<rparr>, s) }"

definition ser_tx :: "CTransaction \<Rightarrow> string" where
  "ser_tx t = le_bytes 4 (unat (word_of_int (nVersion t) :: 32 word)) @ ser_vector ser_txin (vin t) @
     ser_vector ser_txout (vout t) @ le_bytes 4 (unat (nLockTime t))"

definition read_tx :: "string \<Rightarrow> (CTransaction \<times> string) option" where
  "read_tx s = do {
     (v, s) \<leftarrow> read_le 4 s; (is, s) \<leftarrow> read_vector read_txin s;
     (os, s) \<leftarrow> read_vector read_txout s; (l, s) \<leftarrow> read_le 4 s;
     Some (\<lparr>nVersion = sint (word_of_nat v :: 32 word), vin = is, vout = os, nLockTime = word_of_nat l\<rparr>, s) }"

definition ser_header :: "CBlockHeader \<Rightarrow> string" where
  "ser_header b = le_bytes 4 (unat (word_of_int (b_nVersion b) :: 32 word)) @
     le_bytes 32 (unat (hashPrevBlock b)) @ le_bytes 32 (unat (hashMerkleRoot b)) @
     le_bytes 4 (unat (nTime b)) @ le_bytes 4 (unat (nBits b)) @ le_bytes 4 (unat (nNonce b))"

definition read_header :: "string \<Rightarrow> (CBlockHeader \<times> string) option" where
  "read_header s = do {
     (v, s) \<leftarrow> read_le 4 s; (p, s) \<leftarrow> read_le 32 s; (m, s) \<leftarrow> read_le 32 s;
     (t, s) \<leftarrow> read_le 4 s; (b, s) \<leftarrow> read_le 4 s; (n, s) \<leftarrow> read_le 4 s;
     Some (\<lparr>b_nVersion = sint (word_of_nat v :: 32 word), hashPrevBlock = word_of_nat p,
            hashMerkleRoot = word_of_nat m, nTime = word_of_nat t, nBits = word_of_nat b,
            nNonce = word_of_nat n\<rparr>, s) }"

definition ser_block :: "CBlock \<Rightarrow> string" where
  "ser_block b = ser_header (GetBlockHeader b) @ ser_vector ser_tx (vtx b)"

definition read_block :: "string \<Rightarrow> (CBlock \<times> string) option" where
  "read_block s = do {
     (h, s) \<leftarrow> read_header s; (ts, s) \<leftarrow> read_vector read_tx s;
     Some (CBlockHeader.extend h \<lparr>vtx = ts\<rparr>, s) }"

text \<open>Values that fit their C++ types, with vectors that the stream accepts.\<close>

definition wf_script :: "string \<Rightarrow> bool" where
  "wf_script c = (length c \<le> MAX_SIZE)"

definition wf_txout :: "CTxOut \<Rightarrow> bool" where
  "wf_txout t = (- (2 ^ 63) \<le> nValue t \<and> nValue t < 2 ^ 63 \<and> wf_script (scriptPubKey t))"

definition wf_tx :: "CTransaction \<Rightarrow> bool" where
  "wf_tx t = (- (2 ^ 31) \<le> nVersion t \<and> nVersion t < 2 ^ 31 \<and>
     length (vin t) \<le> MAX_SIZE \<and> list_all (\<lambda>i. wf_script (scriptSig i)) (vin t) \<and>
     length (vout t) \<le> MAX_SIZE \<and> list_all wf_txout (vout t))"

definition wf_block :: "CBlock \<Rightarrow> bool" where
  "wf_block b = (- (2 ^ 31) \<le> b_nVersion b \<and> b_nVersion b < 2 ^ 31 \<and>
     length (vtx b) \<le> MAX_SIZE \<and> list_all wf_tx (vtx b))"

lemma read_le_word [simp]:
  "read_le 4 (le_bytes 4 (unat w) @ s) = Some (unat w, s)"
  "read_le 8 (le_bytes 8 (unat x) @ s) = Some (unat x, s)"
  "read_le 32 (le_bytes 32 (unat y) @ s) = Some (unat y, s)"
  for w :: "32 word" and x :: "64 word" and y :: uint256
proof -
  have "unat w < 2 ^ LENGTH(32)" "unat x < 2 ^ LENGTH(64)" "unat y < 2 ^ LENGTH(256)"
    by (rule unsigned_less)+
  then show "read_le 4 (le_bytes 4 (unat w) @ s) = Some (unat w, s)"
    "read_le 8 (le_bytes 8 (unat x) @ s) = Some (unat x, s)"
    "read_le 32 (le_bytes 32 (unat y) @ s) = Some (unat y, s)"
    by (intro read_le_app; simp)+
qed

lemma read_outpoint_app: "read_outpoint (ser_outpoint p @ s) = Some (p, s)"
  by (simp add: read_outpoint_def ser_outpoint_def)

lemma read_txin_app: "wf_script (scriptSig i) \<Longrightarrow> read_txin (ser_txin i @ s) = Some (i, s)"
  by (simp add: read_txin_def ser_txin_def wf_script_def read_outpoint_app)

lemma read_txout_app: "wf_txout t \<Longrightarrow> read_txout (ser_txout t @ s) = Some (t, s)"
  using sint_word_of_int_id [of "nValue t", where ?'a = 64]
  by (simp add: read_txout_def ser_txout_def wf_txout_def wf_script_def)

lemma read_tx_app: "wf_tx t \<Longrightarrow> read_tx (ser_tx t @ s) = Some (t, s)"
  using sint_word_of_int_id [of "nVersion t", where ?'a = 32]
  by (simp add: read_tx_def ser_tx_def wf_tx_def list_all_iff read_vector_app read_txin_app read_txout_app)

lemma read_header_app:
  "- (2 ^ 31) \<le> b_nVersion h \<Longrightarrow> b_nVersion h < 2 ^ 31 \<Longrightarrow> read_header (ser_header h @ s) = Some (h, s)"
  using sint_word_of_int_id [of "b_nVersion h", where ?'a = 32]
  by (simp add: read_header_def ser_header_def)

lemma read_block_app: "wf_block b \<Longrightarrow> read_block (ser_block b @ s) = Some (b, s)"
  by (simp add: read_block_def ser_block_def wf_block_def list_all_iff read_vector_app read_tx_app
      read_header_app GetBlockHeader_def CBlockHeader.defs)

subsection \<open>Hexadecimal text\<close>

definition HexStr :: "string \<Rightarrow> string" where
  "HexStr bs = concat (map (\<lambda>c. let val = (of_char c :: nat) in [hexchar (val div 16), hexchar (val mod 16)]) bs)"

definition IsHex :: "string \<Rightarrow> bool" where
  "IsHex s = (list_all (\<lambda>c. \<not> HexDigit c < 0) s \<and> length s > 0 \<and> length s mod 2 = 0)"

fun ParseHex :: "string \<Rightarrow> string" where
  \<comment> \<open>white space may come before a pair of digits, not inside one\<close>
  "ParseHex [] = []"
| "ParseHex (a # s) =
     (if is_space a then ParseHex s
      else if HexDigit a = - 1 then []
      else case s of
        [] \<Rightarrow> []
      | b # s' \<Rightarrow> if HexDigit b = - 1 then []
                  else char_of (nat (HexDigit a * 16 + HexDigit b)) # ParseHex s')"

definition EncodeHexTx :: "CTransaction \<Rightarrow> string" where
  "EncodeHexTx tx = HexStr (ser_tx tx)"

definition EncodeHexBlock :: "CBlock \<Rightarrow> string" where
  "EncodeHexBlock b = HexStr (ser_block b)"

definition DecodeHexTx :: "string \<Rightarrow> CTransaction option" where
  "DecodeHexTx s = (if \<not> IsHex s then None else map_option fst (read_tx (ParseHex s)))"

definition DecodeHexBlk :: "string \<Rightarrow> CBlock option" where
  "DecodeHexBlk s = (if \<not> IsHex s then None else map_option fst (read_block (ParseHex s)))"

lemma HexStr_Bin2Hex: "HexStr bs = Bin2Hex bs"
  by (simp add: HexStr_def Bin2Hex_def byte_hex_def Let_def)

lemma HexStr_chars: "c \<in> set (HexStr bs) \<Longrightarrow> is_hexchar c"
  by (simp add: HexStr_Bin2Hex Bin2Hex_chars)

lemma is_hexchar_nonneg: "is_hexchar c \<longleftrightarrow> \<not> HexDigit c < 0"
  by (auto simp: is_hexchar_def HexDigit_def Let_def)

lemma IsHex_HexStr: "bs \<noteq> [] \<Longrightarrow> IsHex (HexStr bs)"
  using HexStr_chars [of _ bs] by (auto simp: IsHex_def list_all_iff is_hexchar_nonneg HexStr_Bin2Hex)

lemma ParseHex_HexStr [simp]: "ParseHex (HexStr bs) = bs"
proof (induction bs)
  case (Cons c cs)
  let ?b = "of_char c :: nat"
  have b: "?b div 16 < 16" "?b mod 16 < 16" by (simp_all add: less_mult_imp_div_less)
  have "\<not> is_space (hexchar (?b div 16))"
    using b by (simp add: is_hexchar_not_space)
  moreover have "nat (int (?b div 16) * 16 + int (?b mod 16)) = ?b"
    by (simp add: nat_add_distrib nat_mult_distrib)
  ultimately show ?case
    using b Cons by (simp add: HexStr_def Let_def)
qed (simp add: HexStr_def)

lemma ser_tx_ne: "ser_tx t \<noteq> []"
proof -
  have "0 < length (ser_tx t)" by (simp add: ser_tx_def)
  then show ?thesis by force
qed

lemma ser_block_ne: "ser_block b \<noteq> []"
proof -
  have "0 < length (ser_block b)" by (simp add: ser_block_def ser_header_def)
  then show ?thesis by force
qed

lemma DecodeHexTx_EncodeHexTx: "wf_tx t \<Longrightarrow> DecodeHexTx (EncodeHexTx t) = Some t"
  using read_tx_app [of t "[]"] by (simp add: DecodeHexTx_def EncodeHexTx_def IsHex_HexStr ser_tx_ne)

lemma DecodeHexBlk_EncodeHexBlock: "wf_block b \<Longrightarrow> DecodeHexBlk (EncodeHexBlock b) = Some b"
  using read_block_app [of b "[]"] by (simp add: DecodeHexBlk_def EncodeHexBlock_def IsHex_HexStr ser_block_ne)

text \<open>
  The contract the log lines rely on: what the encoder writes, the decoder reads back, and
  the text has no separator of the log format in it.
\<close>

locale hex_codec =
  fixes enc :: "'a \<Rightarrow> string" and dec :: "string \<Rightarrow> 'a option" and wf :: "'a \<Rightarrow> bool"
  assumes dec_enc: "wf x \<Longrightarrow> dec (enc x) = Some x"
    and enc_chars: "c \<in> set (enc x) \<Longrightarrow> is_hexchar c"
    and enc_ne: "enc x \<noteq> []"
begin

lemma enc_no_sep [simp]:
  "CHR '','' \<notin> set (enc x)" "CHR ''|'' \<notin> set (enc x)" "CHR 0x0A \<notin> set (enc x)"
  using enc_chars [of _ x] by (fastforce simp: is_hexchar_def HexDigit_def)+

end

lemma HexStr_ne: "bs \<noteq> [] \<Longrightarrow> HexStr bs \<noteq> []"
  by (cases bs) (simp_all add: HexStr_def Let_def)

interpretation tx_codec: hex_codec EncodeHexTx DecodeHexTx wf_tx
  by unfold_locales (rule DecodeHexTx_EncodeHexTx, assumption, auto simp: EncodeHexTx_def HexStr_chars HexStr_ne ser_tx_ne)

interpretation blk_codec: hex_codec EncodeHexBlock DecodeHexBlk wf_block
  by unfold_locales (rule DecodeHexBlk_EncodeHexBlock, assumption, auto simp: EncodeHexBlock_def HexStr_chars HexStr_ne ser_block_ne)

subsection \<open>Properties\<close>

text \<open>
  C30. A transaction survives the hex text of its serialisation: \<open>DecodeHexTx\<close> gives back the
  transaction that \<open>EncodeHexTx\<close> wrote, field by field, for every transaction whose values fit
  their C++ types and whose vectors are within \<open>MAX_SIZE\<close>.
\<close>

theorem tx_hex_roundtrip: "wf_tx t \<Longrightarrow> DecodeHexTx (EncodeHexTx t) = Some t"
  by (rule tx_codec.dec_enc)

theorem tx_hex_roundtrip_witness:
  "let t = \<lparr>nVersion = - 1, vin = [\<lparr>prevout = \<lparr>op_hash = 7, op_n = 2\<rparr>, scriptSig = ''ab'', nSequence = - 1\<rparr>],
       vout = [\<lparr>nValue = 5000000000, scriptPubKey = ''x''\<rparr>], nLockTime = 9\<rparr>
   in DecodeHexTx (EncodeHexTx t) = Some t"
  unfolding Let_def by (rule tx_hex_roundtrip) (simp add: wf_tx_def wf_script_def wf_txout_def MAX_SIZE_def)

end
