(* ===== verification/Samples.thy ===== *)
theory Samples
  imports TxTypes
begin

text \<open>
  Small transactions and blocks on which the theorems of the other theories are applied. The
  hash of a sample is a number in it: \<open>GetHash\<close> is a parameter of the development.
\<close>

definition sample_gh :: "CTransaction \<Rightarrow> uint256" where
  "sample_gh t = ucast (nLockTime t)"

definition sample_bh :: "CBlockHeader \<Rightarrow> uint256" where
  "sample_bh h = ucast (nNonce h)"

definition sample_tx :: "32 word \<Rightarrow> (uint256 \<times> 32 word) list \<Rightarrow> int list \<Rightarrow> CTransaction" where
  "sample_tx n ins outs =
     \<lparr>nVersion = 1,
      vin = map (\<lambda>(h, k). \<lparr>prevout = \<lparr>op_hash = h, op_n = k\<rparr>, scriptSig = [], nSequence = 0\<rparr>) ins,
      vout = map (\<lambda>v. \<lparr>nValue = v, scriptPubKey = []\<rparr>) outs, nLockTime = n\<rparr>"

definition sample_coinbase :: "32 word \<Rightarrow> CTransaction" where
  "sample_coinbase n = sample_tx n [(0, - 1)] [50]"

definition sample_block :: "32 word \<Rightarrow> uint256 \<Rightarrow> 32 word \<Rightarrow> CTransaction list \<Rightarrow> CBlock" where
  "sample_block n prev time ts =
     \<lparr>b_nVersion = 2, hashPrevBlock = prev, hashMerkleRoot = 0, nTime = time, nBits = 1, nNonce = n, vtx = ts\<rparr>"

lemmas sample_defs = sample_gh_def sample_bh_def sample_tx_def sample_coinbase_def sample_block_def

lemma sample_hash [simp]: "sample_gh (sample_tx n ins outs) = ucast n" "sample_gh (sample_coinbase n) = ucast n"
  by (simp_all add: sample_defs)

lemma sample_coinbases [simp]: "IsCoinBase (sample_coinbase n)"
  "IsCoinBase (sample_tx n [(h, k)] outs) \<longleftrightarrow> h = 0 \<and> k = - 1"
  by (simp_all add: sample_defs IsCoinBase_def COutPoint_IsNull_def)

lemma sample_vin [simp]: "map outkey (vin (sample_tx n ins outs)) = map (\<lambda>(h, k). (h, sint k)) ins"
  "length (vout (sample_tx n ins outs)) = length outs"
  by (simp_all add: sample_defs outkey_def case_prod_unfold)

end
