(* ===== verification/Log1.thy ===== *)
theory Log1
  imports Util Serialize Samples
begin

text \<open>
  \<open>Log1\<close> and \<open>Chain\<close> (src/jiexi/src/Log1Producer.cc): the lines of the log files that
  bitcoind, \<open>log1producer\<close> and \<open>log2producer\<close> exchange, and the window of the latest blocks.

  A line is \<open>date,type,content\<close>; the content of a block line is \<open>height|hash|hex\<close>, of a
  transaction line \<open>hash|hex\<close>, and a line of type 3 clears the memory pool. The hash is a
  parameter (\<open>gh\<close> of transactions, \<open>bh\<close> of block headers).
\<close>

type_synonym blk_hash = "CBlockHeader \<Rightarrow> uint256"

abbreviation block_hash :: "blk_hash \<Rightarrow> CBlock \<Rightarrow> uint256" where
  \<comment> \<open>\<open>blk.GetHash()\<close>: a hash of the header only\<close>
  "block_hash bh b \<equiv> bh (GetBlockHeader b)"

definition TYPE_BLOCK :: int where "TYPE_BLOCK = 1"
definition TYPE_ACCEPT_TX :: int where "TYPE_ACCEPT_TX = 2"
definition TYPE_CLEAR_MEMTXS :: int where "TYPE_CLEAR_MEMTXS = 3"
definition TYPE_REMOVE_TX :: int where "TYPE_REMOVE_TX = 4"

lemmas log1_types = TYPE_BLOCK_def TYPE_ACCEPT_TX_def TYPE_CLEAR_MEMTXS_def TYPE_REMOVE_TX_def

record log1 =
  l_type :: int
  l_content :: string
  l_blockHeight :: int
  l_tx :: CTransaction
  l_block :: CBlock

definition CBlock_null :: CBlock where
  "CBlock_null = \<lparr>b_nVersion = 2, hashPrevBlock = 0, hashMerkleRoot = 0, nTime = 0, nBits = 0, nNonce = 0,
     vtx = []\<rparr>"

definition Log1_reset :: log1 where
  "Log1_reset = \<lparr>l_type = - 1, l_content = [], l_blockHeight = - 1, l_tx = CTransaction_null, l_block = CBlock_null\<rparr>"

definition Log1_parse :: "string \<Rightarrow> log1 res" where
  "Log1_parse line =
     (let arr1 = split_limit line CHR '','' 3 in
      if length arr1 < 2 then Inl (UB ''arr1[1]'') else
      let type = atoi (arr1 ! 1) in
      if type = TYPE_CLEAR_MEMTXS then Inr (Log1_reset\<lparr>l_type := type\<rparr>) else
      if length arr1 < 3 then Inl (UB ''arr1[2]'') else
      let arr2 = split (arr1 ! 2) CHR ''|'' in
      if type = TYPE_BLOCK then
        bindE (assertE ''arr2.size() == 3'' (length arr2 = 3)) (\<lambda>_.
        Inr (Log1_reset\<lparr>l_blockHeight := atoi (arr2 ! 0), l_content := arr2 ! 1 @ arr2 ! 2, l_type := type\<rparr>))
      else if type = TYPE_ACCEPT_TX \<or> type = TYPE_REMOVE_TX then
        bindE (assertE ''arr2.size() == 2'' (length arr2 = 2)) (\<lambda>_.
        Inr (Log1_reset\<lparr>l_content := arr2 ! 0 @ arr2 ! 1, l_type := type\<rparr>))
      else Inl (Throw ''[Log1::parse] invalid log1 type''))"

definition getBlock :: "blk_hash \<Rightarrow> log1 \<Rightarrow> (CBlock \<times> log1) res" where
  \<comment> \<open>decoded on first use; \<open>substr(64)\<close> throws when the content is shorter\<close>
  "getBlock bh l =
     (if CBlock_IsNull (l_block l) then
        (if length (l_content l) < 64 then Inl (Throw ''std::out_of_range'')
         else case DecodeHexBlk (drop 64 (l_content l)) of
           None \<Rightarrow> Inl (Throw ''decode block failure'')
         | Some b \<Rightarrow>
             if GetHex (block_hash bh b) \<noteq> take 64 (l_content l)
             then Inl (Throw ''decode block failure, hash not match'')
             else Inr (b, l\<lparr>l_block := b\<rparr>))
      else Inr (l_block l, l))"

definition getTx :: "(CTransaction \<Rightarrow> uint256) \<Rightarrow> log1 \<Rightarrow> (CTransaction \<times> log1) res" where
  "getTx gh l =
     (if CTransaction_IsNull (l_tx l) then
        (if length (l_content l) < 64 then Inl (Throw ''std::out_of_range'')
         else case DecodeHexTx (drop 64 (l_content l)) of
           None \<Rightarrow> Inl (Throw ''decode tx failure'')
         | Some t \<Rightarrow>
             if GetHex (gh t) \<noteq> take 64 (l_content l)
             then Inl (Throw ''decode tx failure, hash not match'')
             else Inr (t, l\<lparr>l_tx := t\<rparr>))
      else Inr (l_tx l, l))"

definition isAcceptTx :: "log1 \<Rightarrow> bool" where "isAcceptTx l = (l_type l = TYPE_ACCEPT_TX)"
definition isBlock :: "log1 \<Rightarrow> bool" where "isBlock l = (l_type l = TYPE_BLOCK)"
definition isClearMemtxs :: "log1 \<Rightarrow> bool" where "isClearMemtxs l = (l_type l = TYPE_CLEAR_MEMTXS)"
definition isRemoveTx :: "log1 \<Rightarrow> bool" where "isRemoveTx l = (l_type l = TYPE_REMOVE_TX)"

definition Log1_toString ::
  "(CTransaction \<Rightarrow> uint256) \<Rightarrow> blk_hash \<Rightarrow> log1 \<Rightarrow> string res" where
  "Log1_toString gh bh l =
     (if l_type l = TYPE_ACCEPT_TX \<or> l_type l = TYPE_REMOVE_TX
      then bindE (getTx gh l) (\<lambda>(t, _). Inr (''(tx: '' @ GetHex (gh t) @ '')''))
      else if l_type l = TYPE_BLOCK
      then bindE (getBlock bh l) (\<lambda>(b, _).
             Inr (''(block: '' @ fmt_d (l_blockHeight l) @ '', '' @ GetHex (block_hash bh b) @ '')''))
      else if l_type l = TYPE_CLEAR_MEMTXS then Inr ''(clear mempool txs)''
      else Inr ''(null)'')"

subsection \<open>Writing a line\<close>

text \<open>\<open>date("%F %T")\<close>: the broken-down UTC time, as \<open>gmtime_r\<close> gives it, through \<open>strftime\<close>.\<close>

record tm =
  tm_year :: nat
  tm_mon :: nat
  tm_mday :: nat
  tm_hour :: nat
  tm_min :: nat
  tm_sec :: nat

definition date_FT :: "tm \<Rightarrow> string" where
  "date_FT t = nat_str (tm_year t) @ ''-'' @ pad0 2 (nat_str (tm_mon t)) @ ''-'' @ pad0 2 (nat_str (tm_mday t)) @ '' '' @
     pad0 2 (nat_str (tm_hour t)) @ '':'' @ pad0 2 (nat_str (tm_min t)) @ '':'' @ pad0 2 (nat_str (tm_sec t))"

definition log1_line :: "tm \<Rightarrow> int \<Rightarrow> string \<Rightarrow> string" where
  \<comment> \<open>the \<open>logLine\<close> of \<open>writeLog1\<close>, its newline included\<close>
  "log1_line now type line = date_FT now @ '','' @ fmt_d type @ '','' @ line @ [CHR 0x0A]"

definition tx_content :: "(CTransaction \<Rightarrow> uint256) \<Rightarrow> CTransaction \<Rightarrow> string" where
  "tx_content gh tx = GetHex (gh tx) @ ''|'' @ EncodeHexTx tx"

definition block_content :: "blk_hash \<Rightarrow> int \<Rightarrow> CBlock \<Rightarrow> string" where
  "block_content bh height blk =
     fmt_d height @ ''|'' @ GetHex (block_hash bh blk) @ ''|'' @ EncodeHexBlock blk"

lemma date_FT_chars:
  assumes "c \<in> set (date_FT t)"
  shows "is_digit c \<or> c \<in> {CHR ''-'', CHR '' '', CHR '':''}"
proof -
  have "is_digit d" if "d \<in> set (pad0 w (nat_str n))" for d w n
    using that list_all_pad0 [of w n] by (simp add: list_all_iff)
  with assms show ?thesis by (auto simp: date_FT_def dest: nat_str_isdigit)
qed

lemma sep_notin_date [simp]: "CHR '','' \<notin> set (date_FT t)" "CHR 0x0A \<notin> set (date_FT t)" "date_FT t \<noteq> []"
  using date_FT_chars [of _ t] by (force simp: is_digit_def)+ (simp add: date_FT_def)

lemma split_limit_3:
  assumes "CHR '','' \<notin> set a" "CHR '','' \<notin> set b" "CHR '','' \<notin> set c" "c \<noteq> []"
  shows "split_limit (a @ '','' @ b @ '','' @ c) CHR '','' 3 = [a, b, c]"
  using assms
  by (simp add: split_limit_def split_loop.simps [of _ _ _ "_ @ _"] split_loop.simps [of _ _ _ "c"]
      getline_by_sep getline_by_last)

lemma split_limit_clear:
  assumes "CHR '','' \<notin> set a" "CHR '','' \<notin> set b"
  shows "split_limit (a @ '','' @ b @ '','') CHR '','' 3 = [a, b]"
  using assms getline_by_sep [of "CHR '',''" b "[]"]
  by (simp add: split_limit_def split_loop.simps [of _ _ _ "_ @ _"] getline_by_sep)

lemma newline_notin_GetHex [simp]: "CHR 0x0A \<notin> set (GetHex h)"
  using GetHex_chars [of _ h] by (fastforce simp: is_hexchar_def HexDigit_def)

lemma Log1_parse_tx:
  assumes "type = TYPE_ACCEPT_TX \<or> type = TYPE_REMOVE_TX"
    and "CHR '','' \<notin> set hex" "CHR ''|'' \<notin> set hex" "hex \<noteq> []"
  shows "Log1_parse (date_FT now @ '','' @ fmt_d type @ '','' @ GetHex h @ ''|'' @ hex) =
     Inr (Log1_reset\<lparr>l_content := GetHex h @ hex, l_type := type\<rparr>)"
proof -
  have "split (GetHex h @ ''|'' @ hex) CHR ''|'' = [GetHex h, hex]"
    using assms by (simp add: split_def split_loop.simps [of _ _ _ "_ @ _"] split_loop.simps [of _ _ _ hex]
        getline_by_sep getline_by_last)
  moreover have "split_limit (date_FT now @ '','' @ fmt_d type @ '','' @ GetHex h @ ''|'' @ hex) CHR '','' 3 =
     [date_FT now, fmt_d type, GetHex h @ ''|'' @ hex]"
    using assms by (intro split_limit_3) auto
  ultimately show ?thesis
    using assms(1) by (auto simp: Log1_parse_def Let_def log1_types simp del: append_Cons)
qed

lemma Log1_parse_block:
  assumes "CHR '','' \<notin> set hex" "CHR ''|'' \<notin> set hex" "hex \<noteq> []"
  shows "Log1_parse (date_FT now @ '','' @ fmt_d TYPE_BLOCK @ '','' @ fmt_d height @ ''|'' @ GetHex h @ ''|'' @ hex) =
     Inr (Log1_reset\<lparr>l_blockHeight := height, l_content := GetHex h @ hex, l_type := TYPE_BLOCK\<rparr>)"
proof -
  have "split (fmt_d height @ ''|'' @ GetHex h @ ''|'' @ hex) CHR ''|'' = [fmt_d height, GetHex h, hex]"
    using assms by (simp add: split_def split_loop.simps [of _ _ _ "_ @ _"] split_loop.simps [of _ _ _ hex]
        getline_by_sep getline_by_last)
  moreover have "split_limit (date_FT now @ '','' @ fmt_d TYPE_BLOCK @ '','' @
       (fmt_d height @ ''|'' @ GetHex h @ ''|'' @ hex)) CHR '','' 3 =
     [date_FT now, fmt_d TYPE_BLOCK, fmt_d height @ ''|'' @ GetHex h @ ''|'' @ hex]"
    using assms by (intro split_limit_3) auto
  ultimately show ?thesis
    by (simp add: Log1_parse_def Let_def log1_types del: append_Cons)
qed

lemma Log1_parse_clear:
  "Log1_parse (date_FT now @ '','' @ fmt_d TYPE_CLEAR_MEMTXS @ '','') =
     Inr (Log1_reset\<lparr>l_type := TYPE_CLEAR_MEMTXS\<rparr>)"
proof -
  have "split_limit (date_FT now @ '','' @ fmt_d TYPE_CLEAR_MEMTXS @ '','') CHR '','' 3 =
     [date_FT now, fmt_d TYPE_CLEAR_MEMTXS]"
    by (intro split_limit_clear) auto
  then show ?thesis
    by (simp add: Log1_parse_def Let_def log1_types del: append_Cons)
qed

subsection \<open>What a written line parses to\<close>

lemma getTx_content:
  "wf_tx t \<Longrightarrow> \<not> CTransaction_IsNull t \<Longrightarrow>
     getTx gh (Log1_reset\<lparr>l_content := GetHex (gh t) @ EncodeHexTx t, l_type := ty\<rparr>) =
     Inr (t, Log1_reset\<lparr>l_content := GetHex (gh t) @ EncodeHexTx t, l_type := ty, l_tx := t\<rparr>)"
  by (simp add: getTx_def Log1_reset_def CTransaction_null_def CTransaction_IsNull_def tx_codec.dec_enc)

lemma getBlock_content:
  "wf_block b \<Longrightarrow>
     getBlock bh (Log1_reset\<lparr>l_blockHeight := h, l_content := GetHex (block_hash bh b) @ EncodeHexBlock b, l_type := ty\<rparr>) =
     Inr (b, Log1_reset\<lparr>l_blockHeight := h, l_content := GetHex (block_hash bh b) @ EncodeHexBlock b, l_type := ty,
                l_block := b\<rparr>)"
  by (simp add: getBlock_def Log1_reset_def CBlock_null_def CBlock_IsNull_def blk_codec.dec_enc)

lemma getBlock_again:
  "\<not> CBlock_IsNull (l_block l) \<Longrightarrow> getBlock bh l = Inr (l_block l, l)"
  by (simp add: getBlock_def)

subsection \<open>Chain\<close>

text \<open>The window of the latest blocks, by height.\<close>

record chain =
  ch_limit :: int
  ch_blocks :: "(int, uint256) smap"

definition Chain_init :: "int \<Rightarrow> chain" where
  "Chain_init limit = \<lparr>ch_limit = limit, ch_blocks = []\<rparr>"

definition getCurHeight :: "chain \<Rightarrow> int" where
  "getCurHeight c = (if length (ch_blocks c) = 0 then - 1 else fst (last (ch_blocks c)))"

definition getCurHash :: "chain \<Rightarrow> uint256" where
  "getCurHash c = (if length (ch_blocks c) = 0 then 0 else snd (last (ch_blocks c)))"

definition Chain_pushFirst :: "int \<Rightarrow> uint256 \<Rightarrow> chain \<Rightarrow> chain res" where
  "Chain_pushFirst height hash c =
     (if length (ch_blocks c) \<noteq> 0 then Inl (Throw ''blocks_ is not empty'')
      else Inr (c\<lparr>ch_blocks := sm_put height hash (ch_blocks c)\<rparr>))"

definition Chain_push :: "int \<Rightarrow> uint256 \<Rightarrow> uint256 \<Rightarrow> chain \<Rightarrow> chain res" where
  "Chain_push height hash prevHash c =
     bindE
       (if height = getCurHeight c + 1 then
          (if prevHash \<noteq> getCurHash c then Inl (Throw ''prev hash not match curHash'')
           else Inr (sm_put height hash (ch_blocks c)))
        else if height + 1 = getCurHeight c then
          (if length (ch_blocks c) \<le> 3 then Inl (Throw ''blocks should more than 3'')
           else if prevHash \<noteq> snd (ch_blocks c ! (length (ch_blocks c) - 3))
           then Inl (Throw ''prev hash not match -3 block hash'')
           else Inr (butlast (ch_blocks c)))
        else Inl (Throw ''invalid block height''))
       (\<lambda>m. Inr (c\<lparr>ch_blocks := trim_front (ch_limit c) m\<rparr>))"

definition Chain_pop :: "chain \<Rightarrow> chain" where
  "Chain_pop c = (if length (ch_blocks c) = 0 then c else c\<lparr>ch_blocks := butlast (ch_blocks c)\<rparr>)"

text \<open>
  The invariant: the heights are consecutive, ending at the current one, and the limit is
  respected.
\<close>

definition chain_inv :: "chain \<Rightarrow> bool" where
  "chain_inv c = ((\<exists>h. map fst (ch_blocks c) = map (\<lambda>i. h + int i) [0..<length (ch_blocks c)]) \<and>
     \<not> size_exceeds (length (ch_blocks c)) (ch_limit c))"

lemma consec_wf:
  assumes "map fst m = map (\<lambda>i. h + int i) [0..<length m]"
  shows "sm_wf m" "\<And>i. i < length m \<Longrightarrow> fst (m ! i) = h + int i"
proof -
  show *: "fst (m ! i) = h + int i" if "i < length m" for i
    using arg_cong [OF assms, of "\<lambda>l. l ! i"] that by simp
  show "sm_wf m"
    unfolding sm_wf_def assms by (simp add: sorted_wrt_map sorted_wrt_upt)
qed

lemma consec_drop:
  assumes "map fst m = map (\<lambda>i. h + int i) [0..<length m]"
  shows "map fst (drop n m) = map (\<lambda>i. (h + int n) + int i) [0..<length (drop n m)]"
proof (rule nth_equalityI)
  fix i assume "i < length (map fst (drop n m))"
  then show "map fst (drop n m) ! i = map (\<lambda>i. (h + int n) + int i) [0..<length (drop n m)] ! i"
    using consec_wf(2) [OF assms, of "n + i"] by simp
qed simp

lemma consec_butlast:
  assumes "map fst m = map (\<lambda>i. h + int i) [0..<length m]"
  shows "map fst (butlast m) = map (\<lambda>i. h + int i) [0..<length (butlast m)]"
proof (rule nth_equalityI)
  fix i assume "i < length (map fst (butlast m))"
  then show "map fst (butlast m) ! i = map (\<lambda>i. h + int i) [0..<length (butlast m)] ! i"
    using consec_wf(2) [OF assms, of i] by (simp add: nth_butlast)
qed simp

lemma chain_inv_trim:
  assumes "map fst m = map (\<lambda>i. h + int i) [0..<length m]"
  shows "chain_inv (c\<lparr>ch_blocks := trim_front (ch_limit c) m\<rparr>)"
  using trim_front_suffix [of "ch_limit c" m] consec_drop [OF assms] trim_front_bound [of "ch_limit c" m]
  by (fastforce simp: chain_inv_def)

lemma chain_inv_init: "chain_inv (Chain_init l)"
  by (simp add: chain_inv_def Chain_init_def)

lemma Chain_pop_inv: "chain_inv c \<Longrightarrow> chain_inv (Chain_pop c)"
  using consec_butlast [of "ch_blocks c"] by (auto simp: chain_inv_def Chain_pop_def size_exceeds_def)

lemma Chain_push_forward:
  assumes inv: "chain_inv c" and "height = getCurHeight c + 1" and ne: "ch_blocks c \<noteq> []"
  shows "Chain_push height hash prevHash c =
    (if prevHash \<noteq> getCurHash c then Inl (Throw ''prev hash not match curHash'')
     else Inr (c\<lparr>ch_blocks := trim_front (ch_limit c) (ch_blocks c @ [(height, hash)])\<rparr>))"
proof -
  obtain h where h: "map fst (ch_blocks c) = map (\<lambda>i. h + int i) [0..<length (ch_blocks c)]"
    using inv by (auto simp: chain_inv_def)
  have "k < height" if "k \<in> fst ` set (ch_blocks c)" for k
    using sm_wf_last_max [OF consec_wf(1) [OF h] ne that] assms(2) ne by (simp add: getCurHeight_def)
  then have "sm_put height hash (ch_blocks c) = ch_blocks c @ [(height, hash)]"
    by (blast intro: sm_put_snoc)
  then show ?thesis using assms(2) by (simp add: Chain_push_def)
qed

lemma Chain_push_inv:
  assumes inv: "chain_inv c" and ne: "ch_blocks c \<noteq> []" and "Chain_push height hash prevHash c = Inr c'"
  shows "chain_inv c'"
proof -
  obtain h where h: "map fst (ch_blocks c) = map (\<lambda>i. h + int i) [0..<length (ch_blocks c)]"
    using inv by (auto simp: chain_inv_def)
  consider "height = getCurHeight c + 1" | "height \<noteq> getCurHeight c + 1" "height + 1 = getCurHeight c"
    using assms(3) by (auto simp: Chain_push_def split: if_splits)
  then show ?thesis
  proof cases
    case 1
    have "fst (last (ch_blocks c)) + 1 = h + int (length (ch_blocks c))"
      using consec_wf(2) [OF h, of "length (ch_blocks c) - 1"] ne
      by (simp add: last_conv_nth of_nat_diff Suc_leI)
    then have "map fst (ch_blocks c @ [(height, hash)]) =
        map (\<lambda>i. h + int i) [0..<length (ch_blocks c @ [(height, hash)])]"
      using h 1 ne by (simp add: getCurHeight_def)
    from chain_inv_trim [OF this, of c] show ?thesis
      using assms(3) by (auto simp: Chain_push_forward [OF inv 1 ne] split: if_splits)
  next
    case 2
    then have "c' = c\<lparr>ch_blocks := trim_front (ch_limit c) (butlast (ch_blocks c))\<rparr>"
      using assms(3) by (auto simp: Chain_push_def split: if_splits)
    then show ?thesis using chain_inv_trim [OF consec_butlast [OF h], of c] by simp
  qed
qed

lemma Chain_push_result:
  assumes inv: "chain_inv c" and ne: "ch_blocks c \<noteq> []" and "1 \<le> ch_limit c" and "ch_limit c < 2 ^ 64"
    and push: "Chain_push height hash prevHash c = Inr c'"
  shows "height = getCurHeight c + 1 \<and> prevHash = getCurHash c \<and> getCurHeight c' = height \<and> getCurHash c' = hash \<or>
     height = getCurHeight c - 1 \<and> ch_blocks c' = butlast (ch_blocks c)"
proof (cases "height = getCurHeight c + 1")
  case True
  let ?m = "ch_blocks c @ [(height, hash)]"
  have p: "prevHash = getCurHash c" "c' = c\<lparr>ch_blocks := trim_front (ch_limit c) ?m\<rparr>"
    using push Chain_push_forward [OF inv True ne] by (auto split: if_splits)
  have "trim_front (ch_limit c) ?m = drop (length ?m - nat (ch_limit c)) ?m"
    using assms(3,4) by (intro trim_front_nonneg) auto
  moreover have "length ?m - nat (ch_limit c) < length ?m" using assms(3) by simp
  ultimately have "ch_blocks c' \<noteq> []" "last (ch_blocks c') = (height, hash)"
    using p(2) by (auto simp: last_drop)
  with True p(1) show ?thesis by (simp add: getCurHeight_def getCurHash_def)
next
  case False
  then have h: "height + 1 = getCurHeight c" "c' = c\<lparr>ch_blocks := trim_front (ch_limit c) (butlast (ch_blocks c))\<rparr>"
    using push by (auto simp: Chain_push_def split: if_splits)
  have "\<not> size_exceeds (length (ch_blocks c)) (ch_limit c)" using inv by (simp add: chain_inv_def)
  then have "\<not> size_exceeds (length (butlast (ch_blocks c))) (ch_limit c)"
    using assms(3,4) by (simp add: size_exceeds_nonneg)
  with h show ?thesis by (simp add: trim_front_id)
qed

subsection \<open>Properties\<close>

text \<open>
  C28. The window of blocks keeps consecutive heights within its limit: every accepted
  \<open>push\<close>, forward or back, and every \<open>pop\<close> preserves this; a push is accepted only when it
  extends the current block by one height and names its hash as the predecessor, and then the
  pushed block is the current one, or when it steps back by one height.
\<close>

theorem chain_window:
  assumes "chain_inv c" and "ch_blocks c \<noteq> []" and "1 \<le> ch_limit c" and "ch_limit c < 2 ^ 64"
    and "Chain_push height hash prevHash c = Inr c'"
  shows "chain_inv c' \<and> chain_inv (Chain_pop c') \<and>
     (height = getCurHeight c + 1 \<and> prevHash = getCurHash c \<and> getCurHeight c' = height \<and> getCurHash c' = hash \<or>
      height = getCurHeight c - 1 \<and> ch_blocks c' = butlast (ch_blocks c))"
  using Chain_push_inv [OF assms(1,2,5)] Chain_pop_inv Chain_push_result [OF assms] by blast

theorem chain_window_witness:
  "let c = \<lparr>ch_limit = 3, ch_blocks = [(7, 70), (8, 80), (9, 90)]\<rparr>; c' = c\<lparr>ch_blocks := [(8, 80), (9, 90), (10, 100)]\<rparr> in
   chain_inv c' \<and> chain_inv (Chain_pop c') \<and>
     (10 = getCurHeight c + 1 \<and> 90 = getCurHash c \<and> getCurHeight c' = 10 \<and> getCurHash c' = 100 \<or>
      10 = getCurHeight c - 1 \<and> ch_blocks c' = butlast (ch_blocks c))"
  unfolding Let_def
  by (rule chain_window)
    (auto simp: chain_inv_def Chain_push_def getCurHeight_def getCurHash_def size_exceeds_nonneg trim_front_nonneg
      upt_rec numeral_eq_Suc intro!: exI [of _ 7])

text \<open>
  A transaction written to a log is the transaction read from it: the line with any time
  stamp parses as its type, and decoding the content of the parsed line gives the transaction.
\<close>

lemma log1_tx_line:
  assumes "ty = TYPE_ACCEPT_TX \<or> ty = TYPE_REMOVE_TX" and "wf_tx t" and "\<not> CTransaction_IsNull t"
  shows "\<exists>item item'. Log1_parse (date_FT now @ '','' @ fmt_d ty @ '','' @ tx_content gh t) = Inr item \<and>
     l_type item = ty \<and> isAcceptTx item = (ty = TYPE_ACCEPT_TX) \<and> getTx gh item = Inr (t, item')"
proof -
  have "Log1_parse (date_FT now @ '','' @ fmt_d ty @ '','' @ tx_content gh t) =
      Inr (Log1_reset\<lparr>l_content := GetHex (gh t) @ EncodeHexTx t, l_type := ty\<rparr>)"
    unfolding tx_content_def using assms(1) by (intro Log1_parse_tx) (auto simp: tx_codec.enc_ne)
  with getTx_content [OF assms(2,3), of gh ty] show ?thesis by (simp add: isAcceptTx_def)
qed



end
