(* ===== verification/LogFiles.thy ===== *)
theory LogFiles
  imports Log1
begin

text \<open>
  Reading a directory of numbered log files that another process appends to:
  \<open>Log1Producer::tryReadLog0\<close>, \<open>Log2Producer::tryReadLog1\<close> and the removal of old files.

  A directory maps the index \<open>n\<close> to the content of \<open>files/n.log\<close>. The reader looks at it twice:
  first (\<open>F0\<close>) whether the next file exists, then (\<open>F1\<close>) at the current file; the writer may
  run in between. \<open>ahead\<close> is the abstract view of the reader's position: the complete lines
  that are still to come in the final contents of the files. The locale states the contract
  of a reader once, and both readers are shown to keep it: each line is delivered once, in
  order, and none is lost when a file is left for the next one.
\<close>

type_synonym logdir = "int \<Rightarrow> string option"

record logpos =
  fileIndex :: int
  fileOffset :: int

subsection \<open>Lines\<close>

definition seek :: "string \<Rightarrow> int \<Rightarrow> string" where
  \<comment> \<open>what a stream has left after \<open>seekg(off)\<close>; a negative offset sets the fail bit\<close>
  "seek s off = (if off < 0 then [] else drop (nat off) s)"

function read_lines :: "string \<Rightarrow> int \<Rightarrow> (string \<times> int) list \<Rightarrow> (string \<times> int) list" where
  \<comment> \<open>the \<open>getline\<close> loop: a line without its newline is not taken, and no more than 501 lines\<close>
  "read_lines rest off acc =
     (if CHR 0x0A \<notin> set rest then acc
      else let line = fst (getline_by CHR 0x0A rest);
               off' = off + int (length line) + 1;
               acc' = acc @ [(line, off')]
           in if length acc' > 500 then acc' else read_lines (snd (getline_by CHR 0x0A rest)) off' acc')"
  by pat_completeness auto
termination
  by (relation "measure (\<lambda>(s, _, _). length s)") (auto intro: length_getline_by)

declare read_lines.simps [simp del]

function lines_of :: "string \<Rightarrow> string list" where
  "lines_of s = (if CHR 0x0A \<notin> set s then []
     else fst (getline_by CHR 0x0A s) # lines_of (snd (getline_by CHR 0x0A s)))"
  by pat_completeness auto
termination
  by (relation "measure length") (auto intro: length_getline_by)

declare lines_of.simps [simp del]

lemma lines_of_none [simp]: "CHR 0x0A \<notin> set s \<Longrightarrow> lines_of s = []"
  by (simp add: lines_of.simps)

lemma lines_of_line [simp]: "CHR 0x0A \<notin> set l \<Longrightarrow> lines_of (l @ CHR 0x0A # s) = l # lines_of s"
  by (subst lines_of.simps) (simp add: getline_by_sep)

lemma newline_split: "CHR 0x0A \<in> set s \<Longrightarrow> \<exists>l r. s = l @ CHR 0x0A # r \<and> CHR 0x0A \<notin> set l"
  by (meson split_list_first)

lemma lines_of_concat:
  "\<forall>l \<in> set ls. CHR 0x0A \<notin> set l \<Longrightarrow> CHR 0x0A \<notin> set p \<Longrightarrow>
     lines_of (concat (map (\<lambda>l. l @ [CHR 0x0A]) ls) @ p) = ls"
  by (induction ls) auto

lemma read_lines_ahead:
  "\<exists>its. read_lines s off acc = acc @ its \<and>
     (its = [] \<longleftrightarrow> CHR 0x0A \<notin> set s) \<and>
     (its \<noteq> [] \<longrightarrow> off < snd (last its) \<and>
        (\<forall>u. lines_of (s @ u) = map fst its @ lines_of (drop (nat (snd (last its) - off)) (s @ u))))"
proof (induction s off acc rule: read_lines.induct)
  case (1 s off acc)
  show ?case
  proof (cases "CHR 0x0A \<in> set s")
    case False
    then show ?thesis by (simp add: read_lines.simps [of s])
  next
    case True
    then obtain l r where s: "s = l @ CHR 0x0A # r" and l: "CHR 0x0A \<notin> set l"
      using newline_split by blast
    define it where "it = (l, off + int (length l) + 1)"
    have d: "drop (nat (k - off)) (s @ u) = drop (nat (k - snd it)) (r @ u)" if "snd it \<le> k" for k u
    proof -
      have "nat (k - off) = Suc (length l) + nat (k - snd it)" using that by (simp add: it_def)
      then show ?thesis by (simp add: s)
    qed
    have ln: "lines_of (s @ u) = l # lines_of (r @ u)" for u using l by (simp add: s)
    have gl: "getline_by CHR 0x0A s = (l, r)" using l by (simp add: s getline_by_sep)
    show ?thesis
    proof (cases "length (acc @ [it]) > 500")
      case True
      then have "read_lines s off acc = acc @ [it]"
        using \<open>CHR 0x0A \<in> set s\<close> gl by (simp add: read_lines.simps [of s] Let_def it_def)
      moreover have "off < snd it" by (simp add: it_def)
      ultimately show ?thesis
        using \<open>CHR 0x0A \<in> set s\<close> ln d [of "snd it"]
        by (intro exI [of _ "[it]"]) (auto simp: it_def)
    next
      case False
      then have r: "read_lines s off acc = read_lines r (snd it) (acc @ [it])"
        using \<open>CHR 0x0A \<in> set s\<close> gl by (simp add: read_lines.simps [of s] Let_def it_def)
      obtain its where its: "read_lines r (snd it) (acc @ [it]) = (acc @ [it]) @ its"
        "its = [] \<longleftrightarrow> CHR 0x0A \<notin> set r"
        "its \<noteq> [] \<longrightarrow> snd it < snd (last its) \<and>
          (\<forall>u. lines_of (r @ u) = map fst its @ lines_of (drop (nat (snd (last its) - snd it)) (r @ u)))"
        using 1 [OF _ refl refl refl] \<open>CHR 0x0A \<in> set s\<close> False gl by (auto simp: it_def)
      have lt: "off < snd it" by (simp add: it_def)
      show ?thesis
      proof (cases "its = []")
        case True
        with r its lt \<open>CHR 0x0A \<in> set s\<close> ln d [of "snd it"] show ?thesis
          by (intro exI [of _ "[it]"]) (auto simp: it_def)
      next
        case False
        with its have "snd it < snd (last its)"
          "\<And>u. lines_of (r @ u) = map fst its @ lines_of (drop (nat (snd (last its) - snd it)) (r @ u))"
          by blast+
        with False r its(1) lt \<open>CHR 0x0A \<in> set s\<close> ln d [of "snd (last its)"] show ?thesis
          by (intro exI [of _ "it # its"]) (simp add: it_def del: drop_append)
      qed
    qed
  qed
qed

subsection \<open>The readers\<close>

function tryRemoveOld :: "(int \<Rightarrow> bool) \<Rightarrow> int \<Rightarrow> logdir \<Rightarrow> logdir res" where
  \<comment> \<open>the loop of \<open>tryRemoveOldLog0\<close> and \<open>tryRemoveOldLog1\<close>; \<open>rm\<close> tells whether \<open>fs::remove\<close>
    succeeds\<close>
  "tryRemoveOld rm i F =
     (if i \<ge> 0 then
        (if F i = None then Inr F
         else if \<not> rm i then Inl (Throw ''remove old log failure'')
         else tryRemoveOld rm (i - 1) (F(i := None)))
      else Inr F)"
  by pat_completeness auto
termination
  by (relation "measure (\<lambda>(_, i, _). nat (i + 1))") auto

declare tryRemoveOld.simps [simp del]

definition tryReadLog1 ::
  "int \<Rightarrow> (int \<Rightarrow> bool) \<Rightarrow> logdir \<Rightarrow> logdir \<Rightarrow> logpos \<Rightarrow> ((string \<times> int) list \<times> logpos \<times> logdir) res" where
  \<comment> \<open>each line with the offset after it; \<open>keep\<close> is \<open>log1.files.max.num\<close>\<close>
  "tryReadLog1 keep rm F0 F1 p =
     (let isNextExist = (F0 (fileIndex p + 1) \<noteq> None) in
      case F1 (fileIndex p) of
        None \<Rightarrow> Inl (Throw ''open file failure'')
      | Some c \<Rightarrow>
          let its = read_lines (seek c (fileOffset p)) (fileOffset p) [] in
          if length its > 0 then Inr (its, p\<lparr>fileOffset := snd (last its)\<rparr>, F1)
          else if isNextExist \<and> length its = 0 then
            bindE (tryRemoveOld rm (fileIndex p + 1 - to_int32 keep) F1) (\<lambda>F2.
            Inr ([], \<lparr>fileIndex = fileIndex p + 1, fileOffset = 0\<rparr>, F2))
          else Inr ([], p, F1))"

definition tryReadLog0 ::
  "int \<Rightarrow> (int \<Rightarrow> bool) \<Rightarrow> int option \<Rightarrow> int \<Rightarrow> logdir \<Rightarrow> logdir \<Rightarrow> logpos \<Rightarrow> (string list \<times> logpos \<times> logdir) res" where
  \<comment> \<open>\<open>mtime\<close>: the modification time of the file \<open>BEGIN\<close> now, \<open>None\<close> when it cannot be read\<close>
  "tryReadLog0 keep rm mtime log0BeginFileLastModifyTime F0 F1 p =
     (let isNextExist = (F0 (fileIndex p + 1) \<noteq> None) in
      case mtime of
        None \<Rightarrow> Inl (Throw ''can't get log0 begin file last modify time'')
      | Some t \<Rightarrow>
      if log0BeginFileLastModifyTime \<noteq> t then Inl (Throw ''log0 begin file has been changed'') else
      case F1 (fileIndex p) of
        None \<Rightarrow> Inl (Throw ''open file failure'')
      | Some c \<Rightarrow>
          if int (length c) < fileOffset p then Inl (Throw ''file has been changed'') else
          let its = read_lines (seek c (fileOffset p)) (fileOffset p) [] in
          if length its > 0 then Inr (map fst its, p\<lparr>fileOffset := snd (last its)\<rparr>, F1)
          else if isNextExist \<and> length its = 0 then
            bindE (tryRemoveOld rm (fileIndex p + 1 - to_int32 keep) F1) (\<lambda>F2.
            Inr ([], \<lparr>fileIndex = fileIndex p + 1, fileOffset = 0\<rparr>, F2))
          else Inr ([], p, F1))"

subsection \<open>The contract of a reader\<close>

text \<open>
  \<open>G\<close> is what each file holds in the end and \<open>N\<close> the last index. What the reader sees of the
  current file is a prefix of it, and a file whose successor exists is complete: the writer
  closes a file before it opens the next one.
\<close>

definition content :: "logdir \<Rightarrow> int \<Rightarrow> string" where
  "content G i = (case G i of None \<Rightarrow> [] | Some c \<Rightarrow> c)"

definition ahead :: "logdir \<Rightarrow> int \<Rightarrow> logpos \<Rightarrow> string list" where
  "ahead G N p = lines_of (seek (content G (fileIndex p)) (fileOffset p)) @
     concat (map (\<lambda>i. lines_of (content G i)) [fileIndex p + 1..N])"

definition snapshots :: "logdir \<Rightarrow> int \<Rightarrow> logdir \<Rightarrow> logdir \<Rightarrow> int \<Rightarrow> bool" where
  "snapshots G N F0 F1 i =
     ((\<forall>c. F1 i = Some c \<longrightarrow> take (length c) (content G i) = c) \<and>
      (F0 (i + 1) \<noteq> None \<longrightarrow> i + 1 \<le> N \<and> F1 i \<in> {None, Some (content G i)}))"

text \<open>Calls in sequence, each in its own environment; the lines handed over so far.\<close>

fun reads :: "('env \<Rightarrow> logpos \<Rightarrow> (string list \<times> logpos) res) \<Rightarrow> 'env list \<Rightarrow> logpos \<Rightarrow> (string list \<times> logpos) res" where
  "reads step [] p = Inr ([], p)"
| "reads step (e # es) p = bindE (step e p) (\<lambda>(ls, p1). bindE (reads step es p1) (\<lambda>(ls', p2). Inr (ls @ ls', p2)))"

locale line_source =
  fixes step :: "'env \<Rightarrow> logpos \<Rightarrow> (string list \<times> logpos) res"
    and good :: "'env \<Rightarrow> int \<Rightarrow> bool"
    and stream :: "logpos \<Rightarrow> string list"
  assumes step_stream: "good e (fileIndex p) \<Longrightarrow> step e p = Inr (ls, p') \<Longrightarrow> stream p = ls @ stream p'"
    and step_index: "step e p = Inr (ls, p') \<Longrightarrow> fileIndex p \<le> fileIndex p'"
begin

lemma reads_stream:
  assumes "\<And>e i. e \<in> set es \<Longrightarrow> good e i" and "reads step es p = Inr (ls, p')"
  shows "stream p = ls @ stream p'"
  using assms
proof (induction es arbitrary: p ls)
  case (Cons e es)
  then obtain l1 p1 l2 where s: "step e p = Inr (l1, p1)" and r: "reads step es p1 = Inr (l2, p')"
    and ls: "ls = l1 @ l2" by auto
  from s Cons.prems(1) have "stream p = l1 @ stream p1" by (auto intro: step_stream)
  moreover have "stream p1 = l2 @ stream p'" using Cons.IH [OF _ r] Cons.prems(1) by auto
  ultimately show ?case using ls by simp
qed simp

lemma reads_index: "reads step es p = Inr (ls, p') \<Longrightarrow> fileIndex p \<le> fileIndex p'"
  by (induction es arbitrary: p ls) (force dest: step_index)+

end

lemma lines_of_seek:
  assumes c: "take (length c) g = c" and "0 \<le> off"
    and its: "read_lines (seek c off) off [] = its" "its \<noteq> []"
  shows "lines_of (seek g off) = map fst its @ lines_of (seek g (snd (last its)))" "off < snd (last its)"
proof -
  obtain u where g: "g = c @ u" using c by (metis append_take_drop_id)
  have s: "seek c off = drop (nat off) c" using assms(2) by (simp add: seek_def)
  have nn: "drop (nat off) c \<noteq> []"
    using its s by (auto simp: read_lines.simps [of "[]"])
  then have "seek g off = drop (nat off) c @ u" using assms(2) by (simp add: seek_def g)
  moreover have l: "off < snd (last its) \<and> (\<forall>u. lines_of (drop (nat off) c @ u) =
      map fst its @ lines_of (drop (nat (snd (last its) - off)) (drop (nat off) c @ u)))"
    using read_lines_ahead [of "drop (nat off) c" off "[]"] its s by auto
  moreover have "drop (nat (snd (last its) - off)) (drop (nat off) c @ u) = seek g (snd (last its))"
  proof -
    have "drop (nat off) c @ u = drop (nat off) g" using nn by (simp add: g)
    moreover have "nat (snd (last its) - off) + nat off = nat (snd (last its))"
      using conjunct1 [OF l] assms(2) by linarith
    ultimately show ?thesis using l assms(2) by (simp add: seek_def)
  qed
  ultimately show "lines_of (seek g off) = map fst its @ lines_of (seek g (snd (last its)))" by simp
  show "off < snd (last its)" using l by blast
qed

lemma read_lines_none: "read_lines s off [] = [] \<Longrightarrow> CHR 0x0A \<notin> set s"
  using read_lines_ahead [of s off "[]"] by auto

lemma ahead_next:
  "fileIndex p < N \<Longrightarrow> lines_of (seek (content G (fileIndex p)) (fileOffset p)) = [] \<Longrightarrow>
     ahead G N p = ahead G N \<lparr>fileIndex = fileIndex p + 1, fileOffset = 0\<rparr>"
  by (simp add: ahead_def seek_def upto_rec1)

text \<open>What both readers do with the two snapshots, and the law they keep.\<close>

lemma read_step_stream:
  assumes sn: "snapshots G N F0 F1 (fileIndex p)" and c: "F1 (fileIndex p) = Some c"
    and its: "its = read_lines (seek c (fileOffset p)) (fileOffset p) []"
    and p': "p' = (if its \<noteq> [] then p\<lparr>fileOffset := snd (last its)\<rparr>
                   else if F0 (fileIndex p + 1) \<noteq> None then \<lparr>fileIndex = fileIndex p + 1, fileOffset = 0\<rparr>
                   else p)"
  shows "ahead G N p = map fst its @ ahead G N p'"
proof (cases "its = []")
  case False
  then have "0 \<le> fileOffset p"
    using its by (auto simp: seek_def read_lines.simps [of "[]"] split: if_splits)
  moreover have "take (length c) (content G (fileIndex p)) = c"
    using sn c by (simp add: snapshots_def)
  ultimately have "lines_of (seek (content G (fileIndex p)) (fileOffset p)) =
      map fst its @ lines_of (seek (content G (fileIndex p)) (snd (last its)))"
    using its False by (intro lines_of_seek(1)) auto
  then show ?thesis using False p' by (simp add: ahead_def)
next
  case True
  show ?thesis
  proof (cases "F0 (fileIndex p + 1) = None")
    case False
    then have "content G (fileIndex p) = c" "fileIndex p < N"
      using sn c by (auto simp: snapshots_def)
    moreover have "CHR 0x0A \<notin> set (seek c (fileOffset p))"
      using True its read_lines_none [of "seek c (fileOffset p)" "fileOffset p"] by simp
    ultimately show ?thesis
      using True False p' ahead_next [of p N G] by simp
  qed (use True p' in simp)
qed

definition read1 :: "int \<Rightarrow> (int \<Rightarrow> bool) \<Rightarrow> logdir \<times> logdir \<Rightarrow> logpos \<Rightarrow> (string list \<times> logpos) res" where
  "read1 keep rm e p = bindE (tryReadLog1 keep rm (fst e) (snd e) p) (\<lambda>(its, p', _). Inr (map fst its, p'))"

definition read0 :: "int \<Rightarrow> (int \<Rightarrow> bool) \<Rightarrow> int \<Rightarrow> int option \<times> logdir \<times> logdir \<Rightarrow> logpos \<Rightarrow> (string list \<times> logpos) res" where
  "read0 keep rm mt e p =
     bindE (tryReadLog0 keep rm (fst e) mt (fst (snd e)) (snd (snd e)) p) (\<lambda>(ls, p', _). Inr (ls, p'))"

lemma tryReadLog1_cases:
  assumes "tryReadLog1 keep rm F0 F1 p = Inr (its, p', F2)"
  shows "\<exists>c. F1 (fileIndex p) = Some c \<and> its = read_lines (seek c (fileOffset p)) (fileOffset p) [] \<and>
     p' = (if its \<noteq> [] then p\<lparr>fileOffset := snd (last its)\<rparr>
           else if F0 (fileIndex p + 1) \<noteq> None then \<lparr>fileIndex = fileIndex p + 1, fileOffset = 0\<rparr> else p)"
  using assms by (auto simp: tryReadLog1_def Let_def split: option.splits if_splits)

lemma tryReadLog0_cases:
  assumes "tryReadLog0 keep rm mt t F0 F1 p = Inr (ls, p', F2)"
  shows "\<exists>c its. F1 (fileIndex p) = Some c \<and> its = read_lines (seek c (fileOffset p)) (fileOffset p) [] \<and>
     ls = map fst its \<and>
     p' = (if its \<noteq> [] then p\<lparr>fileOffset := snd (last its)\<rparr>
           else if F0 (fileIndex p + 1) \<noteq> None then \<lparr>fileIndex = fileIndex p + 1, fileOffset = 0\<rparr> else p)"
  using assms by (auto simp: tryReadLog0_def Let_def split: option.splits if_splits)

interpretation log1_source: line_source "read1 keep rm" "\<lambda>e. snapshots G N (fst e) (snd e)" "ahead G N"
  for keep rm G N
proof unfold_locales
  fix e p ls p'
  assume "read1 keep rm e p = Inr (ls, p')"
  then obtain its F2 where "tryReadLog1 keep rm (fst e) (snd e) p = Inr (its, p', F2)" and ls: "ls = map fst its"
    by (auto simp: read1_def)
  from tryReadLog1_cases [OF this(1)] obtain c where c: "snd e (fileIndex p) = Some c"
    "its = read_lines (seek c (fileOffset p)) (fileOffset p) []"
    "p' = (if its \<noteq> [] then p\<lparr>fileOffset := snd (last its)\<rparr>
           else if fst e (fileIndex p + 1) \<noteq> None then \<lparr>fileIndex = fileIndex p + 1, fileOffset = 0\<rparr> else p)"
    by blast
  show "fileIndex p \<le> fileIndex p'" using c(3) by auto
  assume "snapshots G N (fst e) (snd e) (fileIndex p)"
  from read_step_stream [OF this c] show "ahead G N p = ls @ ahead G N p'" by (simp add: ls)
qed

interpretation log0_source: line_source "read0 keep rm mt" "\<lambda>e. snapshots G N (fst (snd e)) (snd (snd e))" "ahead G N"
  for keep rm mt G N
proof unfold_locales
  fix e p ls p'
  assume "read0 keep rm mt e p = Inr (ls, p')"
  then obtain F2 where "tryReadLog0 keep rm (fst e) mt (fst (snd e)) (snd (snd e)) p = Inr (ls, p', F2)"
    by (auto simp: read0_def)
  from tryReadLog0_cases [OF this] obtain c its where c: "snd (snd e) (fileIndex p) = Some c"
    "its = read_lines (seek c (fileOffset p)) (fileOffset p) []"
    "p' = (if its \<noteq> [] then p\<lparr>fileOffset := snd (last its)\<rparr>
           else if fst (snd e) (fileIndex p + 1) \<noteq> None then \<lparr>fileIndex = fileIndex p + 1, fileOffset = 0\<rparr> else p)"
    and ls: "ls = map fst its"
    by blast
  show "fileIndex p \<le> fileIndex p'" using c(3) by auto
  assume "snapshots G N (fst (snd e)) (snd (snd e)) (fileIndex p)"
  from read_step_stream [OF this c] show "ahead G N p = ls @ ahead G N p'" by (simp add: ls)
qed

subsection \<open>Properties\<close>

text \<open>
  C22. \<open>log1producer\<close> reads log0 exactly once: over any number of calls of \<open>tryReadLog0\<close>, each
  at another moment of the growing files, with old files removed on the way, the lines handed
  over followed by those still ahead are the lines that were ahead at the start. No line is
  lost, repeated, cut or reordered, also where one file ends and the next begins.
\<close>

theorem log0_read_once:
  assumes "\<And>e i. e \<in> set es \<Longrightarrow> snapshots G N (fst (snd e)) (snd (snd e)) i"
    and "reads (read0 keep rm mt) es p = Inr (ls, p')"
  shows "ahead G N p = ls @ ahead G N p' \<and> fileIndex p \<le> fileIndex p'"
  using log0_source.reads_stream [OF assms] log0_source.reads_index [OF assms(2)] by simp

theorem log0_read_once_witness:
  "let G = [0 \<mapsto> ''ab'' @ [CHR 0x0A] @ ''c'' @ [CHR 0x0A], 1 \<mapsto> ''d'' @ [CHR 0x0A]];
     es = [(Some 5, Map.empty, [0 \<mapsto> ''ab'' @ [CHR 0x0A] @ ''c'']), (Some 5, G, G), (Some 5, G, G), (Some 5, G, G)];
     p = \<lparr>fileIndex = 0, fileOffset = 0\<rparr>; p' = \<lparr>fileIndex = 1, fileOffset = 2\<rparr> in
   ahead G 1 p = [''ab'', ''c'', ''d''] @ ahead G 1 p' \<and> fileIndex p \<le> fileIndex p'"
proof -
  let ?G = "[0 :: int \<mapsto> ''ab'' @ [CHR 0x0A] @ ''c'' @ [CHR 0x0A], 1 \<mapsto> ''d'' @ [CHR 0x0A]]"
  let ?es = "[(Some (5 :: int), Map.empty, [0 \<mapsto> ''ab'' @ [CHR 0x0A] @ ''c'']), (Some 5, ?G, ?G), (Some 5, ?G, ?G), (Some 5, ?G, ?G)]"
  have "snapshots ?G 1 (fst (snd e)) (snd (snd e)) i" if "e \<in> set ?es" for e i
    using that by (auto simp: snapshots_def content_def split: if_splits)
  moreover have "reads (read0 2 (\<lambda>_. True) 5) ?es \<lparr>fileIndex = 0, fileOffset = 0\<rparr> =
      Inr ([''ab'', ''c'', ''d''], \<lparr>fileIndex = 1, fileOffset = 2\<rparr>)"
    by (simp add: read0_def tryReadLog0_def read_lines.simps getline_by_def seek_def tryRemoveOld.simps to_int32_def)
  ultimately show ?thesis unfolding Let_def by (rule log0_read_once)
qed

end
