(* ===== verification/LogWriter.thy ===== *)
theory LogWriter
  imports LogFiles
begin

text \<open>
  Writing a directory of numbered log files: the state of the writer that \<open>log1producer\<close> and the
  notification log of \<open>tparser\<close> share, and the contract both keep. A write appends its text to
  the current file and may close it; the locale shows that the directory then only grows, that a
  file is left for good before the next one appears (the contract the readers of theory
  LogFiles rely on), and that the lines in the directory are those of the writes.
\<close>

record log1w =
  w_index :: int
  w_open :: bool
  w_files :: logdir
  w_ticks :: nat

subsection \<open>The directory while it is written\<close>

definition is_prefix :: "string \<Rightarrow> string \<Rightarrow> bool" where
  "is_prefix s t = (take (length s) t = s)"

definition grows :: "'a log1w_scheme \<Rightarrow> 'a log1w_scheme \<Rightarrow> bool" where
  "grows w w' = ((\<forall>i. is_prefix (content (w_files w) i) (content (w_files w') i)) \<and>
     (\<forall>i < w_index w. w_files w' i = w_files w i) \<and> w_index w \<le> w_index w')"

definition w_inv :: "'a log1w_scheme \<Rightarrow> bool" where
  "w_inv w = (- 1 \<le> w_index w \<and> (\<forall>i. w_files w i \<noteq> None \<longrightarrow> 0 \<le> i \<and> i \<le> w_index w))"

lemma is_prefix_refl [simp]: "is_prefix s s"
  by (simp add: is_prefix_def)

lemma is_prefix_iff: "is_prefix s t \<longleftrightarrow> (\<exists>u. t = s @ u)"
  by (metis append_eq_conv_conj is_prefix_def append_take_drop_id)

lemma is_prefix_trans: "is_prefix r s \<Longrightarrow> is_prefix s t \<Longrightarrow> is_prefix r t"
  by (auto simp: is_prefix_iff)

lemma grows_refl [simp]: "grows w w"
  by (simp add: grows_def)

lemma grows_trans: "grows u v \<Longrightarrow> grows v w \<Longrightarrow> grows u w"
  unfolding grows_def by (force intro: is_prefix_trans)

lemma is_prefix_antisym: "is_prefix s t \<Longrightarrow> is_prefix t s \<Longrightarrow> s = t"
  by (auto simp: is_prefix_iff)

text \<open>What a reader may see of the current file between two states of the writer.\<close>

definition visible :: "'a log1w_scheme \<Rightarrow> 'a log1w_scheme \<Rightarrow> logdir \<Rightarrow> bool" where
  "visible w w' F = (\<forall>i c. F i = Some c \<longrightarrow>
     is_prefix (content (w_files w) i) c \<and> is_prefix c (content (w_files w') i))"

lemma writer_snapshots:
  assumes "w_inv w0" and "grows w0 w1" and "grows w1 w2" and "visible w1 w2 F1"
  shows "snapshots (w_files w2) (w_index w2) (w_files w0) F1 i"
proof -
  have "i + 1 \<le> w_index w2 \<and> F1 i \<in> {None, Some (content (w_files w2) i)}" if "w_files w0 (i + 1) \<noteq> None"
  proof -
    have i: "i < w_index w0" using assms(1) that by (auto simp: w_inv_def)
    then have "w_files w1 i = w_files w0 i" "w_files w2 i = w_files w1 i"
      using assms(2,3) by (auto simp: grows_def)
    then have "content (w_files w1) i = content (w_files w2) i" by (simp add: content_def)
    then have "c = content (w_files w2) i" if "F1 i = Some c" for c
      using assms(4) that unfolding visible_def by (metis is_prefix_antisym)
    moreover have "i + 1 \<le> w_index w2"
      using i assms(2,3) by (auto simp: grows_def)
    ultimately show ?thesis by (cases "F1 i") auto
  qed
  then show ?thesis
    using assms(4) by (auto simp: snapshots_def visible_def is_prefix_def)
qed

subsection \<open>The lines of the directory\<close>

definition whole :: "string \<Rightarrow> bool" where
  "whole s = (s = [] \<or> last s = CHR 0x0A)"

definition all_lines :: "'a log1w_scheme \<Rightarrow> string list" where
  "all_lines w = concat (map (\<lambda>i. lines_of (content (w_files w) i)) [0..w_index w])"

definition all_whole :: "'a log1w_scheme \<Rightarrow> bool" where
  "all_whole w = (\<forall>i. whole (content (w_files w) i))"

lemma lines_of_whole: "whole s \<Longrightarrow> lines_of (s @ t) = lines_of s @ lines_of t"
proof (induction s rule: lines_of.induct)
  case (1 s)
  show ?case
  proof (cases "CHR 0x0A \<in> set s")
    case True
    then obtain l r where s: "s = l @ CHR 0x0A # r" and l: "CHR 0x0A \<notin> set l"
      using newline_split by blast
    have gl: "getline_by CHR 0x0A s = (l, r)" using l by (simp add: s getline_by_sep)
    have "whole r" using "1.prems" by (auto simp: s whole_def split: if_splits)
    with "1.IH" True gl have "lines_of (r @ t) = lines_of r @ lines_of t" by simp
    with l show ?thesis by (simp add: s)
  next
    case False
    with "1.prems" have "s = []" unfolding whole_def by (metis last_in_set)
    then show ?thesis by simp
  qed
qed

lemma upto_snoc: "i \<le> j \<Longrightarrow> [i..j] = [i..j - 1] @ [j]"
  by (simp add: upto_rec2)

subsection \<open>The contract of a writer\<close>

text \<open>The file of the next write, and the texts of a sequence of writes from the \<open>n\<close>th on.\<close>

definition next_file :: "'a log1w_scheme \<Rightarrow> int" where
  "next_file w = (if w_index w = - 1 then 0 else w_index w)"

fun chunks :: "('i \<Rightarrow> nat \<Rightarrow> string) \<Rightarrow> nat \<Rightarrow> 'i list \<Rightarrow> string list" where
  "chunks f n [] = []"
| "chunks f n (x # xs) = f x n # chunks f (Suc n) xs"

text \<open>
  A moment of the run of a writer: the reader saw the directory after \<open>i\<close> of the items
  (\<open>F0\<close>, some old files perhaps gone), then the current file at some later moment, perhaps in
  the middle of a write (\<open>F1\<close>).
\<close>

definition seen :: "('i \<Rightarrow> 'a log1w_scheme \<Rightarrow> 'a log1w_scheme res) \<Rightarrow> 'i list \<Rightarrow> 'a log1w_scheme \<Rightarrow> 'a log1w_scheme \<Rightarrow>
    logdir \<Rightarrow> logdir \<Rightarrow> bool" where
  "seen step items w0 w F0 F1 =
     (\<exists>i j a b. i \<le> j \<and> foldE step (take i items) w0 = Inr a \<and> foldE step (take j items) w0 = Inr b \<and>
        (\<forall>k. F0 k \<noteq> None \<longrightarrow> w_files a k \<noteq> None) \<and> visible b w F1)"

locale log_writer =
  fixes step :: "'i \<Rightarrow> 'a log1w_scheme \<Rightarrow> 'a log1w_scheme res"
    and chunk :: "'i \<Rightarrow> nat \<Rightarrow> string"
  assumes write_appends: "step x w = Inr w' \<Longrightarrow>
      w_files w' = (w_files w)(next_file w := Some (content (w_files w) (next_file w) @ chunk x (w_ticks w))) \<and>
      next_file w \<le> w_index w' \<and> w_index w' \<le> next_file w + 1 \<and> w_ticks w' = Suc (w_ticks w)"
begin

lemma write_grows:
  assumes inv: "w_inv w" and wr: "step x w = Inr w'"
  shows "w_inv w' \<and> grows w w'"
proof -
  define idx where "idx = next_file w"
  have W: "w_files w' = (w_files w)(idx := Some (content (w_files w) idx @ chunk x (w_ticks w)))" "idx \<le> w_index w'" "w_index w' \<le> idx + 1"
    using write_appends [OF wr] by (simp_all add: idx_def)
  have le: "w_index w \<le> idx" "0 \<le> idx" using inv by (auto simp: idx_def next_file_def w_inv_def)
  have "0 \<le> i \<and> i \<le> w_index w'" if "w_files w' i \<noteq> None" for i
  proof (cases "i = idx")
    case False
    then have "w_files w i \<noteq> None" using that W(1) by simp
    then have "0 \<le> i \<and> i \<le> w_index w" using inv by (simp add: w_inv_def)
    then show ?thesis using le W(2) by linarith
  qed (use le W(2) in simp)
  moreover have "- 1 \<le> w_index w'" using le W(2) by linarith
  moreover have "is_prefix (content (w_files w) i) (content (w_files w') i)" for i
    by (simp add: W(1) content_def is_prefix_def)
  moreover have "w_files w' i = w_files w i" if "i < w_index w" for i
    using that le by (simp add: W(1))
  ultimately show ?thesis using le W(2) by (auto simp: w_inv_def grows_def)
qed

lemma run_grows: "w_inv w \<Longrightarrow> foldE step items w = Inr w' \<Longrightarrow> w_inv w' \<and> grows w w'"
proof (induction items arbitrary: w)
  case (Cons x items)
  then obtain v where v: "step x w = Inr v" "foldE step items v = Inr w'" by auto
  with Cons write_grows [OF Cons.prems(1) v(1)] show ?case by (blast intro: grows_trans)
qed simp

lemma write_lines:
  assumes inv: "w_inv w" and wh: "all_whole w" "whole (chunk x (w_ticks w))" and wr: "step x w = Inr w'"
  shows "all_lines w' = all_lines w @ lines_of (chunk x (w_ticks w))" "all_whole w'"
proof -
  define idx where "idx = next_file w"
  define ln where "ln = chunk x (w_ticks w)"
  have W: "w_files w' = (w_files w)(idx := Some (content (w_files w) idx @ ln))" "idx \<le> w_index w'" "w_index w' \<le> idx + 1"
    using write_appends [OF wr] by (simp_all add: idx_def ln_def)
  have idx: "0 \<le> idx" using inv by (auto simp: idx_def next_file_def w_inv_def)
  have beyond: "content (w_files w) i = []" if "w_index w < i" for i
    using inv that by (fastforce simp: w_inv_def content_def split: option.splits)
  show "all_whole w'"
    unfolding all_whole_def
  proof
    fix i
    have "whole (content (w_files w) idx)" "whole (content (w_files w) i)" using wh(1) by (simp_all add: all_whole_def)
    then show "whole (content (w_files w') i)"
      using wh(2) by (cases "ln = []") (auto simp: W(1) content_def whole_def ln_def)
  qed
  have old: "all_lines w = concat (map (\<lambda>i. lines_of (content (w_files w) i)) [0..idx])"
    using beyond by (auto simp: all_lines_def idx_def next_file_def)
  have "content (w_files w') idx = content (w_files w) idx @ ln" by (simp add: W(1) content_def)
  then have last: "lines_of (content (w_files w') idx) = lines_of (content (w_files w) idx) @ lines_of ln"
    using wh by (simp add: all_whole_def lines_of_whole)
  have "concat (map (\<lambda>i. lines_of (content (w_files w') i)) [0..idx]) = all_lines w @ lines_of ln"
  proof -
    have "content (w_files w') i = content (w_files w) i" if "i \<in> set [0..idx - 1]" for i
      using that by (simp add: W(1) content_def)
    then have "concat (map (\<lambda>i. lines_of (content (w_files w') i)) [0..idx - 1]) =
        concat (map (\<lambda>i. lines_of (content (w_files w) i)) [0..idx - 1])"
      by (intro arg_cong [where f = concat] map_cong) auto
    then show ?thesis using idx last by (simp add: old upto_snoc)
  qed
  moreover have "lines_of (content (w_files w') (idx + 1)) = []"
    using beyond [of "idx + 1"] by (simp add: W(1) content_def idx_def next_file_def split: if_splits)
  moreover have "w_index w' = idx \<or> w_index w' = idx + 1" using W(2,3) by linarith
  ultimately show "all_lines w' = all_lines w @ lines_of (chunk x (w_ticks w))"
    using idx unfolding ln_def by (auto simp: all_lines_def upto_snoc [of 0 "idx + 1"])
qed

lemma run_lines:
  assumes "w_inv w" and "all_whole w" and "\<And>x n. x \<in> set items \<Longrightarrow> whole (chunk x n)" and "foldE step items w = Inr w'"
  shows "all_lines w' = all_lines w @ concat (map lines_of (chunks chunk (w_ticks w) items)) \<and> all_whole w'"
  using assms
proof (induction items arbitrary: w)
  case (Cons x items)
  then obtain v where v: "step x w = Inr v" "foldE step items v = Inr w'" by auto
  have wh: "whole (chunk x (w_ticks w))" using Cons.prems(3) by simp
  note A = write_lines [OF Cons.prems(1,2) wh v(1)]
  have "w_inv v" "w_ticks v = Suc (w_ticks w)" using write_grows [OF Cons.prems(1) v(1)] write_appends [OF v(1)] by blast+
  then show ?case using Cons.IH [of v] v(2) A Cons.prems(3) by simp
qed simp

lemma seen_snapshots:
  assumes w0: "w_inv w0" and run: "foldE step items w0 = Inr w" and "seen step items w0 w F0 F1"
  shows "snapshots (w_files w) (w_index w) F0 F1 k"
proof -
  obtain i j a b where s: "i \<le> j" "foldE step (take i items) w0 = Inr a" "foldE step (take j items) w0 = Inr b"
    "\<forall>k. F0 k \<noteq> None \<longrightarrow> w_files a k \<noteq> None" "visible b w F1"
    using assms(3) unfolding seen_def by blast
  have a: "w_inv a" using run_grows [OF w0 s(2)] by simp
  have "take j items = take i items @ take (j - i) (drop i items)"
    using s(1) by (metis le_add_diff_inverse take_add)
  then have "foldE step (take (j - i) (drop i items)) a = Inr b" using s(2,3) by (simp add: foldE_append)
  moreover have "foldE step (drop j items) b = Inr w"
    using s(3) run foldE_append [of step "take j items" "drop j items" w0] by simp
  moreover have "w_inv b" using run_grows [OF w0 s(3)] by simp
  ultimately have "grows a b" "grows b w" using run_grows a by blast+
  from writer_snapshots [OF a this s(5), of k] s(4) show ?thesis by (simp add: snapshots_def)
qed

end

lemma ahead_start: "0 \<le> w_index w \<Longrightarrow> ahead (w_files w) (w_index w) \<lparr>fileIndex = 0, fileOffset = 0\<rparr> = all_lines w"
  by (simp add: ahead_def all_lines_def seek_def upto_rec1 [of 0])

end
