(* ===== verification/Log1Producer.thy ===== *)
theory Log1Producer
  imports LogWriter
begin

text \<open>
  \<open>Log1Producer\<close> (src/jiexi/src/Log1Producer.cc): writing the log1 files, rebuilding the
  window of blocks from them, bringing the log up to bitcoind, and one round of the main loop.

  What bitcoind answers (\<open>getblockhash\<close>, \<open>getblock\<close>), the clock and whether a file operation
  succeeds are parameters. \<open>running\<close> is true throughout: stopping the process between two
  steps leaves the state of the steps made.

  The lemmas: \<open>writeLog1\<close> keeps the contract of a writer (theory LogWriter); the synchronisation ends with the window at
  the height and hash bitcoind gave, having logged one block line per step.
\<close>

record log1env =
  clock :: "nat \<Rightarrow> tm"
  l1_config :: config
  fopen_ok :: "int \<Rightarrow> bool"
  fwrite_ok :: "nat \<Rightarrow> bool"

definition log1FileMaxSize :: "config \<Rightarrow> int" where
  "log1FileMaxSize cfg =
     (let m = Config_getInt_default cfg ''log1.file.max.size.mb'' 50 * 1024 * 1024 in
      if m > 2147483647 then 2147483647 else m)"

definition writeLog1 :: "log1env \<Rightarrow> int \<Rightarrow> string \<Rightarrow> log1w \<Rightarrow> log1w res" where
  "writeLog1 E type line w =
     (let idx = (if w_index w = - 1 then 0 else w_index w) in
      if \<not> w_open w \<and> \<not> fopen_ok E idx then Inl (Throw ''open file failure'') else
      let logLine = log1_line (clock E (w_ticks w)) type line in
      if \<not> fwrite_ok E (w_ticks w) then Inl (Throw ''fwrite return size_t is NOT match line length'') else
      let c = content (w_files w) idx @ logLine;
          full = (int (length c) > log1FileMaxSize (l1_config E))
      in Inr \<lparr>w_index = (if full then idx + 1 else idx), w_open = (\<not> full),
              w_files = (w_files w)(idx := Some c), w_ticks = w_ticks w + 1\<rparr>)"

definition writeLog1Tx :: "log1env \<Rightarrow> (CTransaction \<Rightarrow> uint256) \<Rightarrow> int \<Rightarrow> CTransaction \<Rightarrow> log1w \<Rightarrow> log1w res" where
  "writeLog1Tx E gh type tx w = writeLog1 E type (tx_content gh tx) w"

definition writeLog1Block :: "log1env \<Rightarrow> blk_hash \<Rightarrow> int \<Rightarrow> CBlock \<Rightarrow> log1w \<Rightarrow> log1w res" where
  "writeLog1Block E bh height blk w = writeLog1 E TYPE_BLOCK (block_content bh height blk) w"

subsection \<open>The state of the reader of log0\<close>

definition log0_status :: "logpos \<Rightarrow> string" where
  \<comment> \<open>the content \<open>writeLog0IdxOffset\<close> puts into the file \<open>LOG0_STATUS\<close>\<close>
  "log0_status p = fmt_d (fileIndex p) @ '','' @ fmt_d (fileOffset p)"

definition getLog0IdxOffset :: "string option \<Rightarrow> logpos res" where
  "getLog0IdxOffset file =
     (case file of
        None \<Rightarrow> Inl (Throw ''fileGetContents failure'')
      | Some s \<Rightarrow>
          let arr = split s CHR '','' in
          bindE (assertE ''arr.size() == 2'' (length arr = 2)) (\<lambda>_.
          Inr \<lparr>fileIndex = atoi (arr ! 0), fileOffset = atoi (arr ! 1)\<rparr>))"

lemma getLog0IdxOffset_status: "getLog0IdxOffset (Some (log0_status p)) = Inr p"
proof -
  have "split (fmt_d (fileIndex p) @ '','' @ fmt_d (fileOffset p)) CHR '','' = [fmt_d (fileIndex p), fmt_d (fileOffset p)]"
    by (simp add: split_def split_loop.simps [of _ _ _ "_ @ _"] split_loop.simps [of _ _ _ "fmt_d _"]
        getline_by_sep getline_by_last)
  then show ?thesis by (simp add: getLog0IdxOffset_def log0_status_def Let_def)
qed

subsection \<open>Rebuilding the window of blocks\<close>

definition initLog1_line :: "blk_hash \<Rightarrow> string \<Rightarrow> chain \<Rightarrow> chain res" where
  "initLog1_line bh line c =
     bindE (Log1_parse line) (\<lambda>item.
     if \<not> isBlock item then Inr c
     else bindE (getBlock bh item) (\<lambda>(b, item).
       if length (ch_blocks c) = 0 then Chain_pushFirst (l_blockHeight item) (block_hash bh b) c
       else Chain_push (l_blockHeight item) (block_hash bh b) (hashPrevBlock b) c))"

definition initLog1 :: "config \<Rightarrow> blk_hash \<Rightarrow> int sset \<Rightarrow> logdir \<Rightarrow> chain \<Rightarrow> (int \<times> chain) res" where
  \<comment> \<open>\<open>filesIdxs\<close>: the indices found in the directory; a file that is gone reads as empty\<close>
  "initLog1 cfg bh filesIdxs F c =
     (let idx = fold (\<lambda>i m. if i > m then i else m) filesIdxs (- 1) in
      bindE
        (if idx = - 1 then
           bindE (Config_getInt cfg ''log1.begin.block.height'') (\<lambda>h.
           let beginHeight = to_int32 h in
           bindE (if beginHeight \<ge> 0
                  then bindE (Config_get cfg ''log1.begin.block.hash'') (\<lambda>s. Inr (SetHex s))
                  else Inr 0)
             (\<lambda>beginHash. Chain_pushFirst beginHeight beginHash c))
         else foldE (\<lambda>i. foldE (initLog1_line bh) (split (content F i) CHR 0x0A)) filesIdxs c)
        (\<lambda>c'. if length (ch_blocks c') = 0 then Inl (Throw ''can't find any blocks in log1 files'')
              else Inr (idx, c')))"

subsection \<open>Synchronising with bitcoind\<close>

text \<open>
  The first loop: pop blocks off the window until its current block is bitcoind's block of
  that height; each pop logs the block below, which is how \<open>log2producer\<close> learns of it.
\<close>

function sync_back ::
  "log1env \<Rightarrow> blk_hash \<Rightarrow> (int \<Rightarrow> string res) \<Rightarrow> (string \<Rightarrow> CBlock res) \<Rightarrow> chain \<Rightarrow> log1w \<Rightarrow> (chain \<times> log1w) res" where
  "sync_back E bh rpc_hash rpc_block c w =
     (if getCurHeight c = - 1 then Inr (c, w)
      else bindE (rpc_hash (getCurHeight c)) (\<lambda>s.
        if GetHex (getCurHash c) = s then Inr (c, w)
        else let c' = Chain_pop c in
          if length (ch_blocks c') = 0 then Inl (Throw ''can't find matched block, bitcoind has a big fork'')
          else bindE (rpc_block (GetHex (getCurHash c'))) (\<lambda>b.
               bindE (writeLog1Block E bh (getCurHeight c') b w) (\<lambda>w'.
               sync_back E bh rpc_hash rpc_block c' w'))))"
  by pat_completeness auto
termination
  by (relation "measure (\<lambda>(E, bh, rh, rb, c, w). length (ch_blocks c))")
    (auto simp: Chain_pop_def getCurHeight_def split: if_splits)

text \<open>The second loop: fetch and log block after block up to the height of log0's first line.\<close>

definition sync_forward_step ::
  "log1env \<Rightarrow> blk_hash \<Rightarrow> (int \<Rightarrow> string res) \<Rightarrow> (string \<Rightarrow> CBlock res) \<Rightarrow> chain \<Rightarrow> log1w \<Rightarrow> (chain \<times> log1w) res" where
  "sync_forward_step E bh rpc_hash rpc_block c w =
     (let height = getCurHeight c + 1 in
      bindE (rpc_hash (getCurHeight c + 1)) (\<lambda>s.
      bindE (rpc_block s) (\<lambda>b.
      bindE (assertE ''block.GetHash().ToString() == hashStr'' (GetHex (block_hash bh b) = s)) (\<lambda>_.
      bindE (assertE ''chain_.getCurHash() == block.hashPrevBlock'' (getCurHash c = hashPrevBlock b)) (\<lambda>_.
      bindE (Chain_push height (block_hash bh b) (hashPrevBlock b) c) (\<lambda>c'.
      bindE (writeLog1Block E bh height b w) (\<lambda>w'. Inr (c', w'))))))))"

partial_function (option) sync_forward ::
  "log1env \<Rightarrow> blk_hash \<Rightarrow> (int \<Rightarrow> string res) \<Rightarrow> (string \<Rightarrow> CBlock res) \<Rightarrow> int \<Rightarrow> chain \<Rightarrow> log1w \<Rightarrow> ((chain \<times> log1w) res) option" where
  "sync_forward E bh rpc_hash rpc_block target c w =
     (if getCurHeight c < target then
        (case sync_forward_step E bh rpc_hash rpc_block c w of
           Inl e \<Rightarrow> Some (Inl e)
         | Inr (c', w') \<Rightarrow> sync_forward E bh rpc_hash rpc_block target c' w')
      else Some (Inr (c, w)))"

definition log0_first_line :: "blk_hash \<Rightarrow> string \<Rightarrow> (int \<times> uint256 \<times> logpos) res" where
  \<comment> \<open>\<open>s\<close>: the content of log0's first file; \<open>tellg\<close> gives -1 once the end was reached\<close>
  "log0_first_line bh s =
     (if s = [] then Inl (Throw ''read log0 first line failure'') else
      let line = fst (getline_by CHR 0x0A s) in
      bindE (Log1_parse line) (\<lambda>item.
      if \<not> isBlock item then Inl (Throw ''log0 first line is NOT block'')
      else bindE (getBlock bh item) (\<lambda>(b, item).
        Inr (l_blockHeight item, block_hash bh b,
             \<lparr>fileIndex = 0, fileOffset = (if CHR 0x0A \<in> set s then int (length line) + 1 else - 1)\<rparr>))))"

definition syncBitcoind ::
  "log1env \<Rightarrow> blk_hash \<Rightarrow> (int \<Rightarrow> string res) \<Rightarrow> (string \<Rightarrow> CBlock res) \<Rightarrow> string \<Rightarrow> chain \<Rightarrow> log1w \<Rightarrow>
     (logpos \<times> chain \<times> log1w) res" where
  "syncBitcoind E bh rpc_hash rpc_block log0 c w =
     bindE (log0_first_line bh log0) (\<lambda>(log0FirstLineHeight, _, p).
     bindE (assertE ''chain_.size() >= 1'' (length (ch_blocks c) \<ge> 1)) (\<lambda>_.
     bindE (sync_back E bh rpc_hash rpc_block c w) (\<lambda>(c1, w1).
     if getCurHeight c1 > log0FirstLineHeight
     then Inl (Throw ''chain_.getCurHeight() is higher than log0FirstLineHeight'')
     else case sync_forward E bh rpc_hash rpc_block log0FirstLineHeight c1 w1 of
            None \<Rightarrow> Inl NoReturn
          | Some r \<Rightarrow> bindE r (\<lambda>(c2, w2). Inr (p, c2, w2)))))"

declare sync_back.simps [simp del]

subsection \<open>The main loop\<close>

definition log1_run_line ::
  "log1env \<Rightarrow> (CTransaction \<Rightarrow> uint256) \<Rightarrow> blk_hash \<Rightarrow> string \<Rightarrow> chain \<times> log1w \<Rightarrow> (chain \<times> log1w) res" where
  "log1_run_line E gh bh line s =
     (let (c, w) = s in
      bindE (Log1_parse line) (\<lambda>item.
      if isAcceptTx item \<or> isRemoveTx item then
        bindE (getTx gh item) (\<lambda>(tx, item).
        bindE (writeLog1Tx E gh (l_type item) tx w) (\<lambda>w'. Inr (c, w')))
      else if isBlock item then
        bindE (getBlock bh item) (\<lambda>(b, item).
        bindE (Chain_push (l_blockHeight item) (block_hash bh b) (hashPrevBlock b) c) (\<lambda>c'.
        bindE (writeLog1Block E bh (l_blockHeight item) b w) (\<lambda>w'. Inr (c', w'))))
      else Inl (Throw ''invalid log0 type'')))"

definition log1_run_lines ::
  "log1env \<Rightarrow> (CTransaction \<Rightarrow> uint256) \<Rightarrow> blk_hash \<Rightarrow> string list \<Rightarrow> chain \<times> log1w \<Rightarrow> (chain \<times> log1w) res" where
  "log1_run_lines E gh bh lines s = foldE (log1_run_line E gh bh) lines s"

subsection \<open>The directory while it is written\<close>

definition writes :: "log1env \<Rightarrow> (int \<times> string) list \<Rightarrow> log1w \<Rightarrow> log1w res" where
  "writes E items w = foldE (\<lambda>(ty, l). writeLog1 E ty l) items w"

lemma writeLog1_InrD:
  assumes "writeLog1 E ty l w = Inr w'"
  shows "w_files w' = (w_files w)(next_file w := Some (content (w_files w) (next_file w) @ log1_line (clock E (w_ticks w)) ty l)) \<and>
    next_file w \<le> w_index w' \<and> w_index w' \<le> next_file w + 1 \<and> w_ticks w' = Suc (w_ticks w)"
  using assms by (auto simp: writeLog1_def Let_def next_file_def split: if_splits)

interpretation log1_writer: log_writer "\<lambda>(ty, l). writeLog1 E ty l" "\<lambda>(ty, l) n. log1_line (clock E n) ty l" for E
  by unfold_locales (clarsimp dest!: writeLog1_InrD)

lemma log1_line_lines:
  "CHR 0x0A \<notin> set l \<Longrightarrow> lines_of (log1_line now ty l) = [date_FT now @ '','' @ fmt_d ty @ '','' @ l]"
  using lines_of_line [of "date_FT now @ '','' @ fmt_d ty @ '','' @ l" "[]"] newline_notin_fmt
  by (simp add: log1_line_def)

text \<open>The text of a sequence of writes, one line per item, stamped by the clock.\<close>

fun stamped :: "(nat \<Rightarrow> tm) \<Rightarrow> nat \<Rightarrow> (int \<times> string) list \<Rightarrow> string list" where
  "stamped now n [] = []"
| "stamped now n ((ty, l) # items) = (date_FT (now n) @ '','' @ fmt_d ty @ '','' @ l) # stamped now (Suc n) items"

lemma chunks_stamped:
  "\<forall>x \<in> set items. CHR 0x0A \<notin> set (snd x) \<Longrightarrow>
     concat (map lines_of (chunks (\<lambda>(ty, l) n. log1_line (clock E n) ty l) n items)) = stamped (clock E) n items"
  by (induction "clock E" n items rule: stamped.induct) (simp_all add: log1_line_lines)

lemma writes_all_lines:
  assumes "w_inv w" and "all_whole w" and "\<forall>x \<in> set items. CHR 0x0A \<notin> set (snd x)"
    and "writes E items w = Inr w'"
  shows "all_lines w' = all_lines w @ stamped (clock E) (w_ticks w) items \<and> all_whole w'"
proof -
  have "whole ((\<lambda>(ty, l) n. log1_line (clock E n) ty l) x n)" for x n by (simp add: split_beta whole_def log1_line_def)
  from log1_writer.run_lines [OF assms(1,2) this] assms(3,4) show ?thesis by (simp add: writes_def chunks_stamped)
qed

lemma stamped_parse_tx:
  "ty = TYPE_ACCEPT_TX \<or> ty = TYPE_REMOVE_TX \<Longrightarrow>
     Log1_parse (date_FT now @ '','' @ fmt_d ty @ '','' @ tx_content gh tx) =
     Inr (Log1_reset\<lparr>l_content := GetHex (gh tx) @ EncodeHexTx tx, l_type := ty\<rparr>)"
  unfolding tx_content_def by (intro Log1_parse_tx) (auto simp: tx_codec.enc_ne)

lemma stamped_parse_block:
  "Log1_parse (date_FT now @ '','' @ fmt_d TYPE_BLOCK @ '','' @ block_content bh h b) =
     Inr (Log1_reset\<lparr>l_blockHeight := h, l_content := GetHex (block_hash bh b) @ EncodeHexBlock b, l_type := TYPE_BLOCK\<rparr>)"
  unfolding block_content_def by (intro Log1_parse_block) (auto simp: blk_codec.enc_ne)

subsection \<open>The synchronisation reaches its goal\<close>

text \<open>
  bitcoind's answers are those of one chain: \<open>at h\<close> is its block of height \<open>h\<close>, each block's
  predecessor is the block below, and blocks are found by the text of their hash.
\<close>

definition rpc_chain ::
  "blk_hash \<Rightarrow> (int \<Rightarrow> string res) \<Rightarrow> (string \<Rightarrow> CBlock res) \<Rightarrow> (int \<Rightarrow> CBlock) \<Rightarrow> int \<Rightarrow> bool" where
  "rpc_chain bh rpc_hash rpc_block at tip =
     (\<forall>h. 0 \<le> h \<and> h \<le> tip \<longrightarrow>
        rpc_hash h = Inr (GetHex (block_hash bh (at h))) \<and>
        rpc_block (GetHex (block_hash bh (at h))) = Inr (at h) \<and>
        hashPrevBlock (at h) = (if h = 0 then 0 else block_hash bh (at (h - 1))))"

definition io_ok :: "log1env \<Rightarrow> bool" where
  "io_ok E = ((\<forall>i. fopen_ok E i) \<and> (\<forall>n. fwrite_ok E n))"

lemma writeLog1_ok: "io_ok E \<Longrightarrow> \<exists>w'. writeLog1 E ty l w = Inr w'"
  by (simp add: writeLog1_def io_ok_def Let_def)

lemma writes_Cons: "writes E ((ty, l) # items) w = bindE (writeLog1 E ty l w) (writes E items)"
  by (simp add: writes_def [abs_def])

definition block_items :: "blk_hash \<Rightarrow> (int \<Rightarrow> CBlock) \<Rightarrow> int list \<Rightarrow> (int \<times> string) list" where
  "block_items bh at hs = map (\<lambda>h. (TYPE_BLOCK, block_content bh h (at h))) hs"

lemma sync_forward_returns:
  assumes "rpc_chain bh rpc_hash rpc_block at target" and "io_ok E"
    and "chain_inv c" and "1 \<le> ch_limit c" "ch_limit c < 2 ^ 64" and "ch_blocks c \<noteq> []"
    and "- 1 \<le> getCurHeight c" "getCurHeight c \<le> target"
    and "getCurHash c = (if getCurHeight c = - 1 then 0 else block_hash bh (at (getCurHeight c)))"
  shows "\<exists>c' w'. sync_forward E bh rpc_hash rpc_block target c w = Some (Inr (c', w')) \<and>
     getCurHeight c' = target \<and> chain_inv c' \<and>
     (getCurHash c' = (if target = - 1 then 0 else block_hash bh (at target))) \<and>
     writes E (block_items bh at [getCurHeight c + 1..target]) w = Inr w'"
  using assms
proof (induction "nat (target - getCurHeight c)" arbitrary: c w)
  case 0
  then have eq: "getCurHeight c = target" by simp
  then have "sync_forward E bh rpc_hash rpc_block target c w = Some (Inr (c, w))"
    by (simp add: sync_forward.simps [of E bh rpc_hash rpc_block target c w])
  with 0 eq show ?case by (simp add: block_items_def writes_def)
next
  case (Suc n)
  let ?h = "getCurHeight c + 1"
  have lt: "getCurHeight c < target" using Suc.hyps(2) by simp
  have h: "0 \<le> ?h" "?h \<le> target" using lt Suc.prems(7) by simp_all
  with Suc.prems(1) have rpc: "rpc_hash ?h = Inr (GetHex (block_hash bh (at ?h)))"
    "rpc_block (GetHex (block_hash bh (at ?h))) = Inr (at ?h)"
    "hashPrevBlock (at ?h) = (if ?h = 0 then 0 else block_hash bh (at (getCurHeight c)))"
    unfolding rpc_chain_def by auto
  have prev: "hashPrevBlock (at ?h) = getCurHash c"
    using rpc(3) Suc.prems(9) by (auto split: if_splits)
  define m where "m = ch_blocks c @ [(?h, block_hash bh (at ?h))]"
  define c' where "c' = c\<lparr>ch_blocks := trim_front (ch_limit c) m\<rparr>"
  have push: "Chain_push ?h (block_hash bh (at ?h)) (hashPrevBlock (at ?h)) c = Inr c'"
    using Suc.prems(3,6) prev by (simp add: Chain_push_forward c'_def m_def)
  have "trim_front (ch_limit c) m = drop (length m - nat (ch_limit c)) m"
    using Suc.prems(4,5) by (intro trim_front_nonneg) auto
  moreover have "length m - nat (ch_limit c) < length m"
    using Suc.prems(4) by (simp add: m_def)
  ultimately have last: "ch_blocks c' \<noteq> []" "last (ch_blocks c') = (?h, block_hash bh (at ?h))"
    by (auto simp: c'_def m_def last_drop)
  then have cur: "getCurHeight c' = ?h" "getCurHash c' = block_hash bh (at ?h)"
    by (auto simp: getCurHeight_def getCurHash_def)
  obtain v where v: "writeLog1 E TYPE_BLOCK (block_content bh ?h (at ?h)) w = Inr v"
    using writeLog1_ok [OF Suc.prems(2)] by blast
  have step: "sync_forward E bh rpc_hash rpc_block target c w = sync_forward E bh rpc_hash rpc_block target c' v"
    using lt rpc(1,2) prev push v
    by (simp add: sync_forward.simps [of E bh rpc_hash rpc_block target c w] sync_forward_step_def writeLog1Block_def)
  have "chain_inv c'" using Chain_push_inv [OF Suc.prems(3,6) push] .
  moreover have "n = nat (target - getCurHeight c')" using Suc.hyps(2) cur by simp
  moreover have "ch_limit c' = ch_limit c" by (simp add: c'_def)
  ultimately obtain c2 w2 where r: "sync_forward E bh rpc_hash rpc_block target c' v = Some (Inr (c2, w2))"
    "getCurHeight c2 = target" "chain_inv c2" "getCurHash c2 = (if target = - 1 then 0 else block_hash bh (at target))"
    "writes E (block_items bh at [getCurHeight c' + 1..target]) v = Inr w2"
    using Suc.hyps(1) [of c' v] Suc.prems h last cur by auto
  have "[?h..target] = ?h # [?h + 1..target]" using h by (simp add: upto_rec1)
  then have "writes E (block_items bh at [?h..target]) w = Inr w2"
    using v r(5) cur by (simp add: block_items_def writes_Cons)
  with step r show ?case by auto
qed

definition matches :: "blk_hash \<Rightarrow> (int \<Rightarrow> CBlock) \<Rightarrow> int \<times> uint256 \<Rightarrow> bool" where
  "matches bh at x = (fst x = - 1 \<or> snd x = block_hash bh (at (fst x)))"

definition rollback_items ::
  "blk_hash \<Rightarrow> (string \<Rightarrow> CBlock res) \<Rightarrow> (int \<times> uint256) list \<Rightarrow> (int \<times> string) list" where
  "rollback_items bh rpc_block ms =
     map (\<lambda>(h, x). (TYPE_BLOCK, block_content bh h (case rpc_block (GetHex x) of Inr b \<Rightarrow> b | Inl _ \<Rightarrow> CBlock_null))) ms"

lemma sync_back_returns:
  assumes "rpc_chain bh rpc_hash rpc_block at tip" and "io_ok E"
    and "\<forall>x \<in> set (ch_blocks c). - 1 \<le> fst x \<and> fst x \<le> tip \<and> (\<exists>b. rpc_block (GetHex (snd x)) = Inr b)"
    and "\<exists>x \<in> set (ch_blocks c). matches bh at x"
  shows "\<exists>n w'. 0 < n \<and> n \<le> length (ch_blocks c) \<and>
     sync_back E bh rpc_hash rpc_block c w = Inr (c\<lparr>ch_blocks := take n (ch_blocks c)\<rparr>, w') \<and>
     matches bh at (ch_blocks c ! (n - 1)) \<and> (\<forall>x \<in> set (drop n (ch_blocks c)). \<not> matches bh at x) \<and>
     writes E (rollback_items bh rpc_block (rev (drop (n - 1) (butlast (ch_blocks c))))) w = Inr w'"
  using assms(3,4)
proof (induction "ch_blocks c" arbitrary: c w rule: rev_induct)
  case Nil
  then show ?case by simp
next
  case (snoc x ms)
  note ms = snoc.hyps(2) [symmetric]
  have cur: "getCurHeight c = fst x" "getCurHash c = snd x"
    by (auto simp: getCurHeight_def getCurHash_def ms)
  show ?case
  proof (cases "matches bh at x")
    case True
    have "sync_back E bh rpc_hash rpc_block c w = Inr (c, w)"
      using True assms(1) snoc.prems(1) cur ms
      by (auto simp: sync_back.simps [of E bh rpc_hash rpc_block c w] matches_def rpc_chain_def)
    moreover have "c\<lparr>ch_blocks := take (length ms + 1) (ch_blocks c)\<rparr> = c" using ms by simp
    ultimately show ?thesis
      using True ms by (intro exI [of _ "length ms + 1"] exI [of _ w])
        (simp add: nth_append rollback_items_def writes_def)
  next
    case False
    define c1 where "c1 = c\<lparr>ch_blocks := ms\<rparr>"
    have c1: "Chain_pop c = c1" "ch_blocks c1 = ms" by (simp_all add: Chain_pop_def c1_def ms)
    from False snoc.prems ms obtain z where "z \<in> set ms" "matches bh at z" by auto
    then have ne: "ms \<noteq> []" by auto
    define y where "y = last ms"
    have yms: "ms = butlast ms @ [y]" using ne by (simp add: y_def)
    have "y \<in> set ms" using ne by (simp add: y_def)
    then obtain b where b: "rpc_block (GetHex (snd y)) = Inr b" using snoc.prems(1) ms by auto
    have cur1: "getCurHeight c1 = fst y" "getCurHash c1 = snd y"
      using ne by (auto simp: getCurHeight_def getCurHash_def c1 y_def)
    obtain v where v: "writeLog1 E TYPE_BLOCK (block_content bh (fst y) b) w = Inr v"
      using writeLog1_ok [OF assms(2)] by blast
    have "fst x \<noteq> - 1" "snd x \<noteq> block_hash bh (at (fst x))" using False by (auto simp: matches_def)
    moreover have "rpc_hash (fst x) = Inr (GetHex (block_hash bh (at (fst x))))"
      using assms(1) snoc.prems(1) ms calculation(1) by (auto simp: rpc_chain_def)
    ultimately have step: "sync_back E bh rpc_hash rpc_block c w = sync_back E bh rpc_hash rpc_block c1 v"
      using cur cur1 c1 ne b v
      by (simp add: sync_back.simps [of E bh rpc_hash rpc_block c w] writeLog1Block_def Let_def)
    obtain n w' where n: "0 < n" "n \<le> length ms"
      "sync_back E bh rpc_hash rpc_block c1 v = Inr (c1\<lparr>ch_blocks := take n ms\<rparr>, w')"
      "matches bh at (ms ! (n - 1))" "\<forall>u \<in> set (drop n ms). \<not> matches bh at u"
      "writes E (rollback_items bh rpc_block (rev (drop (n - 1) (butlast ms)))) v = Inr w'"
      using snoc.hyps(1) [of c1 v] snoc.prems(1) ms c1(2) \<open>z \<in> set ms\<close> \<open>matches bh at z\<close> by auto
    have "rev (drop (n - 1) ms) = y # rev (drop (n - 1) (butlast ms))"
      using arg_cong [OF yms, of "\<lambda>l. rev (drop (n - 1) l)"] n(1,2) by simp
    then have "writes E (rollback_items bh rpc_block (rev (drop (n - 1) (butlast (ch_blocks c))))) w = Inr w'"
      using n(6) v b ms by (cases y) (simp add: rollback_items_def writes_Cons)
    then show ?thesis
      using step n False ms by (intro exI [of _ n] exI [of _ w']) (auto simp: c1_def nth_append)
  qed
qed

text \<open>Both loops together.\<close>

lemma log0_first_line_block:
  assumes "wf_block b"
  shows "log0_first_line bh (date_FT now @ '','' @ fmt_d TYPE_BLOCK @ '','' @ block_content bh h b @ CHR 0x0A # rest) =
     Inr (h, block_hash bh b, \<lparr>fileIndex = 0,
       fileOffset = int (length (date_FT now @ '','' @ fmt_d TYPE_BLOCK @ '','' @ block_content bh h b)) + 1\<rparr>)"
proof -
  let ?l = "date_FT now @ '','' @ fmt_d TYPE_BLOCK @ '','' @ block_content bh h b"
  have nl: "CHR 0x0A \<notin> set ?l" by (simp add: block_content_def)
  have g: "getline_by CHR 0x0A (?l @ CHR 0x0A # rest) = (?l, rest)" using nl by (rule getline_by_sep)
  have eq: "date_FT now @ '','' @ fmt_d TYPE_BLOCK @ '','' @ block_content bh h b @ CHR 0x0A # rest = ?l @ CHR 0x0A # rest"
    by simp
  show ?thesis
    unfolding eq log0_first_line_def g fst_conv Let_def stamped_parse_block [of now bh h b]
    using getBlock_content [OF assms, of bh TYPE_BLOCK h]
    by (simp add: isBlock_def)
qed

lemma chain_inv_take:
  assumes "chain_inv c"
  shows "chain_inv (c\<lparr>ch_blocks := take n (ch_blocks c)\<rparr>)"
proof -
  obtain h where h: "map fst (ch_blocks c) = map (\<lambda>i. h + int i) [0..<length (ch_blocks c)]"
    using assms by (auto simp: chain_inv_def)
  have "map fst (take n (ch_blocks c)) = map (\<lambda>i. h + int i) [0..<length (take n (ch_blocks c))]"
    using arg_cong [OF h, of "take n"] by (simp add: take_map min_def)
  then show ?thesis using assms by (auto simp: chain_inv_def size_exceeds_def)
qed

lemma syncBitcoind_returns:
  assumes rpc: "rpc_chain bh rpc_hash rpc_block at tip" and io: "io_ok E"
    and inv: "chain_inv c" and lim: "1 \<le> ch_limit c" "ch_limit c < 2 ^ 64"
    and win: "\<forall>x \<in> set (ch_blocks c). - 1 \<le> fst x \<and> fst x \<le> tip \<and> (\<exists>b. rpc_block (GetHex (snd x)) = Inr b) \<and>
        (fst x = - 1 \<longrightarrow> snd x = 0) \<and> (matches bh at x \<longrightarrow> fst x \<le> H)"
    and fork: "\<exists>x \<in> set (ch_blocks c). matches bh at x"
    and H: "0 \<le> H" "H \<le> tip" and b: "wf_block b"
    and log0: "log0 = date_FT now @ '','' @ fmt_d TYPE_BLOCK @ '','' @ block_content bh H b @ CHR 0x0A # rest"
  shows "\<exists>n p c' w'. 0 < n \<and> n \<le> length (ch_blocks c) \<and> matches bh at (ch_blocks c ! (n - 1)) \<and>
     (\<forall>x \<in> set (drop n (ch_blocks c)). \<not> matches bh at x) \<and>
     syncBitcoind E bh rpc_hash rpc_block log0 c w = Inr (p, c', w') \<and>
     p = \<lparr>fileIndex = 0, fileOffset = int (length log0 - length rest)\<rparr> \<and>
     chain_inv c' \<and> getCurHeight c' = H \<and> getCurHash c' = block_hash bh (at H) \<and>
     writes E (rollback_items bh rpc_block (rev (drop (n - 1) (butlast (ch_blocks c)))) @
        block_items bh at [fst (ch_blocks c ! (n - 1)) + 1..H]) w = Inr w'"
proof -
  let ?m = "ch_blocks c"
  have "\<forall>x \<in> set ?m. - 1 \<le> fst x \<and> fst x \<le> tip \<and> (\<exists>b. rpc_block (GetHex (snd x)) = Inr b)" using win by blast
  from sync_back_returns [OF rpc io this fork, of w] obtain n w1 where n: "0 < n" "n \<le> length ?m"
    "sync_back E bh rpc_hash rpc_block c w = Inr (c\<lparr>ch_blocks := take n ?m\<rparr>, w1)"
    "matches bh at (?m ! (n - 1))" "\<forall>x \<in> set (drop n ?m). \<not> matches bh at x"
    "writes E (rollback_items bh rpc_block (rev (drop (n - 1) (butlast ?m)))) w = Inr w1" by blast
  define c1 where "c1 = c\<lparr>ch_blocks := take n ?m\<rparr>"
  let ?x = "?m ! (n - 1)"
  have x: "?x \<in> set ?m" using n(1,2) by simp
  have ne: "take n ?m \<noteq> []" using n(1,2) by auto
  have lt: "last (take n ?m) = ?x" using n(1,2) by (simp add: last_conv_nth [OF ne])
  have c1: "ch_blocks c1 = take n ?m" by (simp add: c1_def)
  have "length (take n ?m) \<noteq> 0" using ne by simp
  with ne lt have cur: "getCurHeight c1 = fst ?x" "getCurHash c1 = snd ?x" "ch_blocks c1 \<noteq> []"
    unfolding getCurHeight_def getCurHash_def c1 by (simp_all only: if_False simp_thms)
  have le: "- 1 \<le> fst ?x" "fst ?x \<le> H" using win x n(4) by blast+
  have hash: "getCurHash c1 = (if getCurHeight c1 = - 1 then 0 else block_hash bh (at (getCurHeight c1)))"
    using win x n(4) by (auto simp: cur matches_def)
  have rpcH: "rpc_chain bh rpc_hash rpc_block at H" using rpc H(2) by (simp add: rpc_chain_def)
  have inv1: "chain_inv c1" unfolding c1_def using inv by (rule chain_inv_take)
  have lim1: "1 \<le> ch_limit c1" "ch_limit c1 < 2 ^ 64" using lim by (simp_all add: c1_def)
  have "- 1 \<le> getCurHeight c1" "getCurHeight c1 \<le> H" using le cur by simp_all
  from sync_forward_returns [OF rpcH io inv1 lim1 cur(3) this hash, of w1] obtain c2 w2 where
    f: "sync_forward E bh rpc_hash rpc_block H c1 w1 = Some (Inr (c2, w2))" "getCurHeight c2 = H" "chain_inv c2"
    "getCurHash c2 = (if H = - 1 then 0 else block_hash bh (at H))"
    "writes E (block_items bh at [getCurHeight c1 + 1..H]) w1 = Inr w2" by blast
  have len: "length ?m \<ge> 1" using n(1,2) by simp
  note L = log0_first_line_block [OF b, of bh now H rest, folded log0]
  have "syncBitcoind E bh rpc_hash rpc_block log0 c w = Inr (\<lparr>fileIndex = 0,
       fileOffset = int (length (date_FT now @ '','' @ fmt_d TYPE_BLOCK @ '','' @ block_content bh H b)) + 1\<rparr>, c2, w2)"
    using len n(3) f(1) le cur unfolding syncBitcoind_def L c1_def [symmetric] by simp
  moreover have "int (length log0 - length rest) =
      int (length (date_FT now @ '','' @ fmt_d TYPE_BLOCK @ '','' @ block_content bh H b)) + 1"
    unfolding log0 by simp
  moreover have "writes E (rollback_items bh rpc_block (rev (drop (n - 1) (butlast ?m))) @
      block_items bh at [fst ?x + 1..H]) w = Inr w2"
    using n(6) f(5) cur by (simp add: writes_def foldE_append)
  ultimately show ?thesis
    using n(1,2,4,5) f(2-4) H by (intro exI [of _ n] exI conjI) simp_all
qed

subsection \<open>Properties\<close>


text \<open>The samples: bitcoind's chain of blocks whose hash is their height plus ten.\<close>

definition sample_at :: "int \<Rightarrow> CBlock" where
  "sample_at h = sample_block (word_of_int (h + 10)) (if h = 0 then 0 else word_of_int (h + 9)) 0 []"

definition sample_rpc_hash :: "int \<Rightarrow> string res" where
  "sample_rpc_hash h = Inr (GetHex (block_hash sample_bh (sample_at h)))"

definition sample_rpc_block :: "string \<Rightarrow> CBlock res" where
  "sample_rpc_block s = Inr (sample_at (uint (SetHex s) - 10))"

definition sample_env :: log1env where
  "sample_env = \<lparr>clock = (\<lambda>n. \<lparr>tm_year = 2014, tm_mon = 9, tm_mday = 1, tm_hour = 0, tm_min = 0, tm_sec = n\<rparr>),
     l1_config = [], fopen_ok = (\<lambda>_. True), fwrite_ok = (\<lambda>_. True)\<rparr>"

definition sample_w :: log1w where
  "sample_w = \<lparr>w_index = - 1, w_open = False, w_files = Map.empty, w_ticks = 0\<rparr>"

lemma sample_hash_at: "block_hash sample_bh (sample_at h) = ucast (word_of_int (h + 10) :: 32 word)"
  by (simp add: sample_at_def sample_defs GetBlockHeader_def CBlockHeader.truncate_def)

lemma sample_prev: "hashPrevBlock (sample_at h) = (if h = 0 then 0 else word_of_int (h + 9))"
  by (simp add: sample_at_def sample_block_def)

lemma sample_rpc: "rpc_chain sample_bh sample_rpc_hash sample_rpc_block sample_at 2"
proof -
  have "sample_rpc_block (GetHex (block_hash sample_bh (sample_at h))) = Inr (sample_at h) \<and>
      hashPrevBlock (sample_at h) = (if h = 0 then 0 else block_hash sample_bh (sample_at (h - 1)))"
    if "h = 0 \<or> h = 1 \<or> h = 2" for h
    using that by (elim disjE) (simp_all add: sample_rpc_block_def sample_hash_at sample_prev)
  moreover have "h = 0 \<or> h = 1 \<or> h = 2" if "0 \<le> h" "h \<le> 2" for h :: int using that by arith
  ultimately show ?thesis unfolding rpc_chain_def sample_rpc_hash_def by blast
qed


end
