(* ===== verification/MemRepo.thy ===== *)
theory MemRepo
  imports Samples
begin

text \<open>
  \<open>MemTxRepository\<close> (src/jiexi/src/Log2Producer.cc): the unconfirmed transactions that
  \<open>log2producer\<close> keeps in memory, the outputs they spend, and the changes not yet written to
  the table \<open>0_memrepo_txs\<close>.

  \<open>std::map::operator[]\<close> inserts a default transaction where the key is missing; \<open>txs_at\<close>
  does so too, and the invariant shows that it never happens. The recursion of
  \<open>getSpentEndTx\<close> and the loop of \<open>removeTxAndChildTx\<close> have no bound in the code: they are
  \<open>partial_function (option)\<close>, and they are proved to return whenever the spending relation
  of the pool has no cycle (a transaction commits to the hashes it spends).
\<close>

record memrepo =
  txs :: "(uint256, CTransaction) smap"
  spentOutputs :: "(TxOutputKey, uint256) smap"
  unSyncTxsDelete :: "uint256 sset"
  unSyncTxsInsert :: "uint256 sset"

definition MemTxRepository_init :: memrepo where
  "MemTxRepository_init =
     \<lparr>txs = [], spentOutputs = [], unSyncTxsDelete = [], unSyncTxsInsert = []\<rparr>"

definition isExist :: "memrepo \<Rightarrow> uint256 \<Rightarrow> bool" where
  "isExist m h = (map_of (txs m) h \<noteq> None)"

definition conflicts :: "memrepo \<Rightarrow> CTransaction \<Rightarrow> bool" where
  \<comment> \<open>the first loop of \<open>addTx\<close>: some input is already in the list of spent outputs\<close>
  "conflicts m tx = list_ex (\<lambda>i. map_of (spentOutputs m) (outkey i) \<noteq> None) (vin tx)"

definition addTx :: "(CTransaction \<Rightarrow> uint256) \<Rightarrow> CTransaction \<Rightarrow> memrepo \<Rightarrow> (bool \<times> memrepo) res" where
  "addTx gh tx m =
     bindE (assertE ''tx.IsCoinBase() == false'' (\<not> IsCoinBase tx)) (\<lambda>_.
       let txhash = gh tx in
       if isExist m txhash then Inr (False, m)
       else if conflicts m tx then Inr (False, m)
       else Inr (True, m\<lparr>spentOutputs := fold (\<lambda>i. sm_insert (outkey i) txhash) (vin tx) (spentOutputs m),
                         txs := sm_put txhash tx (txs m),
                         unSyncTxsInsert := ss_ins txhash (unSyncTxsInsert m)\<rparr>))"

definition txs_at :: "uint256 \<Rightarrow> memrepo \<Rightarrow> CTransaction \<times> memrepo" where
  \<comment> \<open>\<open>txs_[h]\<close>\<close>
  "txs_at h m = (case map_of (txs m) h of
       Some t \<Rightarrow> (t, m)
     | None \<Rightarrow> (CTransaction_null, m\<lparr>txs := sm_put h CTransaction_null (txs m)\<rparr>))"

definition first_spent :: "memrepo \<Rightarrow> uint256 \<Rightarrow> nat \<Rightarrow> uint256 option" where
  \<comment> \<open>the loop over the outputs: the transaction that spends the first spent one\<close>
  "first_spent m h n =
     (case filter (\<lambda>i. map_of (spentOutputs m) (h, int i) \<noteq> None) [0..<n] of
        [] \<Rightarrow> None
      | i # _ \<Rightarrow> map_of (spentOutputs m) (h, int i))"

partial_function (option) getSpentEndTx ::
  "(CTransaction \<Rightarrow> uint256) \<Rightarrow> CTransaction \<Rightarrow> memrepo \<Rightarrow> (uint256 \<times> memrepo) option" where
  "getSpentEndTx gh tx m =
     (case first_spent m (gh tx) (length (vout tx)) of
        None \<Rightarrow> Some (gh tx, m)
      | Some h \<Rightarrow> getSpentEndTx gh (fst (txs_at h m)) (snd (txs_at h m)))"

fun getConflictTx_loop ::
  "(CTransaction \<Rightarrow> uint256) \<Rightarrow> CTransaction \<Rightarrow> CTxIn list \<Rightarrow> memrepo \<Rightarrow> (uint256 \<times> memrepo) res" where
  "getConflictTx_loop gh tx [] m = Inr (gh tx, m)"
| "getConflictTx_loop gh tx (i # is) m =
     (case map_of (spentOutputs m) (outkey i) of
        None \<Rightarrow> getConflictTx_loop gh tx is m
      | Some spentTxHash \<Rightarrow>
          if spentTxHash = gh tx then Inl (Throw ''spentTxHash is equal to tx.GetHash()'')
          else (case getSpentEndTx gh (fst (txs_at spentTxHash m)) (snd (txs_at spentTxHash m)) of
                  None \<Rightarrow> Inl NoReturn
                | Some r \<Rightarrow> Inr r))"

definition getConflictTx :: "(CTransaction \<Rightarrow> uint256) \<Rightarrow> CTransaction \<Rightarrow> memrepo \<Rightarrow> (uint256 \<times> memrepo) res" where
  "getConflictTx gh tx m = getConflictTx_loop gh tx (vin tx) m"

definition removeTx :: "uint256 \<Rightarrow> memrepo \<Rightarrow> memrepo res" where
  "removeTx h m =
     (case map_of (txs m) h of
        None \<Rightarrow> Inl (Throw ''tx not in memrepo'')
      | Some tx \<Rightarrow>
          bindE (foldE (\<lambda>i sp. bindE (assertE ''it2 != spentOutputs_.end()'' (map_of sp (outkey i) \<noteq> None))
                                  (\<lambda>_. Inr (sm_del (outkey i) sp)))
                   (vin tx) (spentOutputs m)) (\<lambda>sp.
          Inr (m\<lparr>spentOutputs := sp, txs := sm_del h (txs m),
                 unSyncTxsDelete := ss_ins h (unSyncTxsDelete m)\<rparr>)))"

definition removeTxs :: "uint256 list \<Rightarrow> memrepo \<Rightarrow> memrepo res" where
  "removeTxs hs m = foldE removeTx hs m"

partial_function (option) removeTxAndChildTx ::
  "(CTransaction \<Rightarrow> uint256) \<Rightarrow> CTransaction \<Rightarrow> uint256 list \<Rightarrow> memrepo \<Rightarrow> ((uint256 list \<times> memrepo) res) option" where
  "removeTxAndChildTx gh tx removedHashes m =
     Option.bind (getSpentEndTx gh tx m) (\<lambda>(h, m1).
       case removeTx h m1 of
         Inl e \<Rightarrow> Some (Inl e)
       | Inr m2 \<Rightarrow>
           if gh tx = h then Some (Inr (removedHashes @ [h], m2))
           else removeTxAndChildTx gh tx (removedHashes @ [h]) m2)"

definition removeTx_last :: "(CTransaction \<Rightarrow> uint256) \<Rightarrow> memrepo \<Rightarrow> (uint256 \<times> memrepo) res" where
  \<comment> \<open>\<open>removeTx()\<close>: a leaf below the transaction with the largest hash\<close>
  "removeTx_last gh m =
     bindE (assertE ''size() > 0'' (length (txs m) > 0)) (\<lambda>_.
       case getSpentEndTx gh (snd (last (txs m))) m of
         None \<Rightarrow> Inl NoReturn
       | Some (h, m1) \<Rightarrow> bindE (removeTx h m1) (\<lambda>m2. Inr (h, m2)))"

definition ignoreUnsyncData :: "memrepo \<Rightarrow> memrepo" where
  "ignoreUnsyncData m = m\<lparr>unSyncTxsInsert := [], unSyncTxsDelete := []\<rparr>"

subsection \<open>The pool invariant\<close>

definition mem_inv :: "(CTransaction \<Rightarrow> uint256) \<Rightarrow> memrepo \<Rightarrow> bool" where
  "mem_inv gh m =
     (sm_wf (txs m) \<and> sm_wf (spentOutputs m) \<and> ss_wf (unSyncTxsDelete m) \<and> ss_wf (unSyncTxsInsert m) \<and>
      (\<forall>h t. map_of (txs m) h = Some t \<longrightarrow> gh t = h \<and> distinct (map outkey (vin t))) \<and>
      (\<forall>k h. map_of (spentOutputs m) k = Some h \<longleftrightarrow>
         (\<exists>t. map_of (txs m) h = Some t \<and> k \<in> outkey ` set (vin t))))"

lemma mem_invD:
  assumes "mem_inv gh m"
  shows "sm_wf (txs m)" "sm_wf (spentOutputs m)" "ss_wf (unSyncTxsDelete m)" "ss_wf (unSyncTxsInsert m)"
    "map_of (txs m) h = Some t \<Longrightarrow> gh t = h"
    "map_of (txs m) h = Some t \<Longrightarrow> distinct (map outkey (vin t))"
    "map_of (spentOutputs m) k = Some h \<longleftrightarrow> (\<exists>t. map_of (txs m) h = Some t \<and> k \<in> outkey ` set (vin t))"
  using assms unfolding mem_inv_def by blast+

lemma mem_inv_inserted: "mem_inv gh m \<Longrightarrow> mem_inv gh (m\<lparr>unSyncTxsInsert := []\<rparr>)"
  by (simp add: mem_inv_def)

lemma mem_inv_init: "mem_inv gh MemTxRepository_init"
  by (simp add: mem_inv_def MemTxRepository_init_def)

lemma fold_sm_insert:
  assumes "\<forall>i \<in> set is. map_of sp (f i) = None" and "sm_wf sp"
  shows "sm_wf (fold (\<lambda>i. sm_insert (f i) h) is sp) \<and>
     map_of (fold (\<lambda>i. sm_insert (f i) h) is sp) = (\<lambda>k. if k \<in> f ` set is then Some h else map_of sp k)"
proof -
  have "sm_wf (fold (\<lambda>i. sm_insert (f i) h) is sp) \<and>
     map_of (fold (\<lambda>i. sm_insert (f i) h) is sp) = (\<lambda>k. if k \<in> f ` set is then Some h else map_of sp k)"
    if "\<forall>i \<in> set is. map_of sp (f i) \<in> {None, Some h}" "sm_wf sp" for sp
    using that
  proof (induction "is" arbitrary: sp)
    case (Cons i js)
    let ?sp = "sm_insert (f i) h sp"
    have "\<forall>j \<in> set js. map_of ?sp (f j) \<in> {None, Some h}"
      using Cons.prems(1) by (auto simp: map_of_sm_insert)
    with Cons show ?case by (auto simp: map_of_sm_insert fun_eq_iff)
  qed simp
  with assms show ?thesis by simp
qed

lemma conflicts_iff: "conflicts m tx \<longleftrightarrow> (\<exists>i \<in> set (vin tx). map_of (spentOutputs m) (outkey i) \<noteq> None)"
  by (simp add: conflicts_def list_ex_iff)

lemma addTx_True_iff:
  "\<not> IsCoinBase tx \<Longrightarrow>
     (\<exists>m'. addTx gh tx m = Inr (True, m')) \<longleftrightarrow> \<not> isExist m (gh tx) \<and> \<not> conflicts m tx"
  by (auto simp: addTx_def Let_def)

lemma addTx_False: "addTx gh tx m = Inr (False, m') \<Longrightarrow> m' = m"
  by (auto simp: addTx_def Let_def split: if_splits)

lemma addTx_inv:
  assumes inv: "mem_inv gh m" and d: "distinct (map outkey (vin tx))"
    and add: "addTx gh tx m = Inr (b, m')"
  shows "mem_inv gh m'"
proof (cases b)
  case False
  with add inv show ?thesis by (auto dest: addTx_False)
next
  case True
  let ?h = "gh tx"
  let ?sp = "fold (\<lambda>i. sm_insert (outkey i) ?h) (vin tx) (spentOutputs m)"
  note I = mem_invD [OF inv]
  from add True have ne: "\<not> isExist m ?h" "\<not> conflicts m tx"
    and m': "m' = m\<lparr>spentOutputs := ?sp, txs := sm_put ?h tx (txs m),
                    unSyncTxsInsert := ss_ins ?h (unSyncTxsInsert m)\<rparr>"
    by (auto simp: addTx_def Let_def split: if_splits)
  have fresh: "\<forall>i \<in> set (vin tx). map_of (spentOutputs m) (outkey i) = None"
    using ne(2) by (auto simp: conflicts_iff)
  note sp = fold_sm_insert [OF fresh I(2)]
  have noh: "map_of (txs m) ?h = None" using ne(1) by (simp add: isExist_def)
  have keys: "map_of ?sp k = Some h \<longleftrightarrow>
      (\<exists>t. map_of (sm_put ?h tx (txs m)) h = Some t \<and> k \<in> outkey ` set (vin t))" for k h
  proof (cases "k \<in> outkey ` set (vin tx)")
    case True
    then have "map_of (spentOutputs m) k = None" using fresh by auto
    then show ?thesis using True sp I(7) [of k h] by auto
  next
    case False
    then show ?thesis using sp I(7) [of k h] noh by auto
  qed
  show ?thesis
    unfolding mem_inv_def m' using I d keys sp by (auto split: if_splits)
qed

lemma foldE_del_spent:
  assumes "distinct (map f is)" and "sm_wf sp" and "\<forall>i \<in> set is. map_of sp (f i) \<noteq> None"
  shows "\<exists>sp'. foldE (\<lambda>i sp. bindE (assertE w (map_of sp (f i) \<noteq> None)) (\<lambda>_. Inr (sm_del (f i) sp))) is sp = Inr sp'
     \<and> sm_wf sp' \<and> map_of sp' = (\<lambda>k. if k \<in> f ` set is then None else map_of sp k)"
  using assms
proof (induction "is" arbitrary: sp)
  case (Cons i js)
  have "f j \<noteq> f i" if "j \<in> set js" for j
    using Cons.prems(1) that by (metis distinct.simps(2) image_eqI list.set_map list.simps(9))
  then have "\<forall>j \<in> set js. map_of (sm_del (f i) sp) (f j) \<noteq> None"
    using Cons.prems by auto
  moreover have "distinct (map f js)" "sm_wf (sm_del (f i) sp)" using Cons.prems by auto
  ultimately obtain sp' where
    "foldE (\<lambda>i sp. bindE (assertE w (map_of sp (f i) \<noteq> None)) (\<lambda>_. Inr (sm_del (f i) sp))) js (sm_del (f i) sp) = Inr sp'"
    "sm_wf sp'" "map_of sp' = (\<lambda>k. if k \<in> f ` set js then None else map_of (sm_del (f i) sp) k)"
    using Cons.IH [of "sm_del (f i) sp"] by blast
  with Cons.prems show ?case by (auto simp: fun_eq_iff)
qed simp

text \<open>
  Removing a transaction of the pool succeeds, frees exactly the outputs it spent and keeps
  the invariant.
\<close>

lemma removeTx_ok:
  assumes inv: "mem_inv gh m" and t: "map_of (txs m) h = Some t"
  shows "\<exists>m'. removeTx h m = Inr m' \<and> mem_inv gh m' \<and> map_of (txs m') = (map_of (txs m))(h := None)
     \<and> length (txs m') = length (txs m) - 1
     \<and> unSyncTxsDelete m' = ss_ins h (unSyncTxsDelete m) \<and> unSyncTxsInsert m' = unSyncTxsInsert m
     \<and> map_of (spentOutputs m') = (\<lambda>k. if k \<in> outkey ` set (vin t) then None else map_of (spentOutputs m) k)"
proof -
  note I = mem_invD [OF inv]
  have "\<forall>i \<in> set (vin t). map_of (spentOutputs m) (outkey i) \<noteq> None"
    using I(7) t by blast
  then obtain sp' where sp': "foldE (\<lambda>i sp. bindE (assertE ''it2 != spentOutputs_.end()'' (map_of sp (outkey i) \<noteq> None))
        (\<lambda>_. Inr (sm_del (outkey i) sp))) (vin t) (spentOutputs m) = Inr sp'"
    "sm_wf sp'" "map_of sp' = (\<lambda>k. if k \<in> outkey ` set (vin t) then None else map_of (spentOutputs m) k)"
    using foldE_del_spent [OF I(6) [OF t] I(2)] by blast
  let ?m = "m\<lparr>spentOutputs := sp', txs := sm_del h (txs m), unSyncTxsDelete := ss_ins h (unSyncTxsDelete m)\<rparr>"
  have spent: "map_of sp' k = Some g \<longleftrightarrow>
      (\<exists>u. map_of (sm_del h (txs m)) g = Some u \<and> k \<in> outkey ` set (vin u))" for k g
  proof (cases "k \<in> outkey ` set (vin t)")
    case True
    then have "map_of (spentOutputs m) k = Some h" using I(7) t by blast
    then show ?thesis using True sp'(3) I(1) I(7) [of k g] by auto
  next
    case False
    then show ?thesis using sp'(3) I(1) I(7) [of k g] t by auto
  qed
  have "mem_inv gh ?m"
    unfolding mem_inv_def using I sp' spent by (auto split: if_splits)
  moreover have "removeTx h m = Inr ?m"
    using t sp'(1) by (simp add: removeTx_def)
  ultimately show ?thesis
    using I(1) sp'(3) t by (simp add: length_sm_del)
qed

lemma removeTx_absent: "map_of (txs m) h = None \<Longrightarrow> removeTx h m = Inl (Throw ''tx not in memrepo'')"
  by (simp add: removeTx_def)

subsection \<open>Leaves of the spending relation\<close>

definition spend_edges :: "memrepo \<Rightarrow> (uint256 \<times> uint256) set" where
  \<comment> \<open>from a transaction hash to a pool transaction that spends one of its outputs\<close>
  "spend_edges m = {(h, c). \<exists>k. map_of (spentOutputs m) (h, k) = Some c}"

definition pool_leaf :: "memrepo \<Rightarrow> CTransaction \<Rightarrow> uint256 \<Rightarrow> bool" where
  "pool_leaf m t h = (\<forall>i < length (vout t). map_of (spentOutputs m) (h, int i) = None)"

lemma finite_spend_edges: "finite (spend_edges m)"
proof -
  have "spend_edges m \<subseteq> (\<lambda>(k, c). (fst k, c)) ` set (spentOutputs m)"
    by (force simp: spend_edges_def dest: map_of_SomeD)
  then show ?thesis by (rule finite_subset) simp
qed

lemma first_spent_None: "first_spent m h n = None \<longleftrightarrow> (\<forall>i < n. map_of (spentOutputs m) (h, int i) = None)"
proof -
  let ?P = "\<lambda>i. map_of (spentOutputs m) (h, int i) \<noteq> None"
  show ?thesis
  proof (cases "filter ?P [0..<n]")
    case Nil
    then show ?thesis unfolding first_spent_def by (auto simp: filter_empty_conv)
  next
    case (Cons i js)
    then have "i \<in> set (filter ?P [0..<n])" by simp
    then have "i < n" "?P i" by auto
    then show ?thesis unfolding first_spent_def Cons by auto
  qed
qed

lemma first_spent_Some:
  assumes "first_spent m h n = Some c"
  shows "\<exists>i < n. map_of (spentOutputs m) (h, int i) = Some c"
proof -
  let ?P = "\<lambda>i. map_of (spentOutputs m) (h, int i) \<noteq> None"
  show ?thesis
  proof (cases "filter ?P [0..<n]")
    case Nil
    with assms show ?thesis unfolding first_spent_def by simp
  next
    case (Cons i js)
    then have "i \<in> set (filter ?P [0..<n])" by simp
    then have "i < n" by auto
    moreover have "map_of (spentOutputs m) (h, int i) = Some c"
      using assms unfolding first_spent_def Cons by simp
    ultimately show ?thesis by blast
  qed
qed

text \<open>
  \<open>getSpentEndTx\<close> returns, changes nothing, and its result is a transaction reached along
  spent outputs none of whose own outputs is spent.
\<close>

lemma getSpentEndTx_returns:
  assumes inv: "mem_inv gh m" and ac: "acyclic (spend_edges m)"
  shows "\<exists>h. getSpentEndTx gh tx m = Some (h, m) \<and> (gh tx, h) \<in> (spend_edges m)\<^sup>* \<and>
     (h = gh tx \<and> pool_leaf m tx h \<or> (\<exists>t. map_of (txs m) h = Some t \<and> pool_leaf m t h))"
proof -
  have wf: "wf ((spend_edges m)\<inverse>)"
    using finite_spend_edges ac by (rule finite_acyclic_wf_converse)
  have "\<forall>tx. gh tx = g \<longrightarrow> (\<exists>h. getSpentEndTx gh tx m = Some (h, m) \<and> (gh tx, h) \<in> (spend_edges m)\<^sup>* \<and>
     (h = gh tx \<and> pool_leaf m tx h \<or> (\<exists>t. map_of (txs m) h = Some t \<and> pool_leaf m t h)))" for g
  proof (induction g rule: wf_induct_rule [OF wf])
    case (1 g)
    show ?case
    proof (intro allI impI)
      fix tx assume g: "gh tx = g"
      show "\<exists>h. getSpentEndTx gh tx m = Some (h, m) \<and> (gh tx, h) \<in> (spend_edges m)\<^sup>* \<and>
        (h = gh tx \<and> pool_leaf m tx h \<or> (\<exists>t. map_of (txs m) h = Some t \<and> pool_leaf m t h))"
      proof (cases "first_spent m (gh tx) (length (vout tx))")
        case None
        then have "pool_leaf m tx (gh tx)" by (simp add: first_spent_None pool_leaf_def)
        with None show ?thesis by (simp add: getSpentEndTx.simps [of gh tx m])
      next
        case (Some c)
        then obtain i where i: "map_of (spentOutputs m) (gh tx, int i) = Some c"
          by (auto dest: first_spent_Some)
        then have e: "(gh tx, c) \<in> spend_edges m" by (auto simp: spend_edges_def)
        obtain t where t: "map_of (txs m) c = Some t" using i mem_invD(7) [OF inv] by blast
        then have "gh t = c" by (rule mem_invD(5) [OF inv])
        with "1.IH" [of c] e g obtain h where
          "getSpentEndTx gh t m = Some (h, m)" "(c, h) \<in> (spend_edges m)\<^sup>*"
          "\<exists>u. map_of (txs m) h = Some u \<and> pool_leaf m u h"
          using t by auto
        with Some t e show ?thesis
          by (auto simp: getSpentEndTx.simps [of gh tx m] txs_at_def intro: converse_rtrancl_into_rtrancl)
      qed
    qed
  qed
  then show ?thesis by blast
qed

lemma spend_edges_mono:
  assumes "map_of (spentOutputs m') = (\<lambda>k. if k \<in> K then None else map_of (spentOutputs m) k)"
  shows "spend_edges m' \<subseteq> spend_edges m"
  by (auto simp: spend_edges_def assms split: if_splits)

text \<open>The order in which a tree of transactions is removed: spenders before what they spend.\<close>

definition spenders_first :: "memrepo \<Rightarrow> uint256 list \<Rightarrow> bool" where
  "spenders_first m hs = (\<forall>as h bs. hs = as @ h # bs \<longrightarrow>
     (\<exists>t. map_of (txs m) h = Some t \<and>
        (\<forall>i c. i < length (vout t) \<longrightarrow> map_of (spentOutputs m) (h, int i) = Some c \<longrightarrow> c \<in> set as)))"

lemma spenders_first_Cons:
  assumes inv: "mem_inv gh m" and t: "map_of (txs m) h = Some t" and leaf: "pool_leaf m t h"
    and txs': "map_of (txs m') = (map_of (txs m))(h := None)"
    and sp': "map_of (spentOutputs m') = (\<lambda>k. if k \<in> outkey ` set (vin t) then None else map_of (spentOutputs m) k)"
    and sf: "spenders_first m' hs"
  shows "spenders_first m (h # hs)"
  unfolding spenders_first_def
proof (intro allI impI)
  fix as g bs assume eq: "h # hs = as @ g # bs"
  show "\<exists>u. map_of (txs m) g = Some u \<and>
      (\<forall>i c. i < length (vout u) \<longrightarrow> map_of (spentOutputs m) (g, int i) = Some c \<longrightarrow> c \<in> set as)"
  proof (cases as)
    case Nil
    with eq t leaf show ?thesis by (auto simp: pool_leaf_def)
  next
    case (Cons a as')
    with eq have as: "a = h" "hs = as' @ g # bs" by auto
    with sf obtain u where u: "map_of (txs m') g = Some u"
      "\<And>i c. i < length (vout u) \<Longrightarrow> map_of (spentOutputs m') (g, int i) = Some c \<Longrightarrow> c \<in> set as'"
      unfolding spenders_first_def by blast
    have "c \<in> set as" if "i < length (vout u)" "map_of (spentOutputs m) (g, int i) = Some c" for i c
    proof (cases "(g, int i) \<in> outkey ` set (vin t)")
      case True
      then have "map_of (spentOutputs m) (g, int i) = Some h"
        using t mem_invD(7) [OF inv] by blast
      with that as Cons show ?thesis by simp
    next
      case False
      with that u(2) [of i c] sp' Cons show ?thesis by simp
    qed
    with u(1) txs' show ?thesis by (auto split: if_splits)
  qed
qed

lemma removeTxAndChildTx_returns:
  assumes "mem_inv gh m" and "acyclic (spend_edges m)" and "map_of (txs m) (gh tx) = Some tx"
  shows "\<exists>hs m'. removeTxAndChildTx gh tx acc m = Some (Inr (acc @ hs, m')) \<and> mem_inv gh m' \<and>
     hs \<noteq> [] \<and> last hs = gh tx \<and> distinct hs \<and> set hs \<subseteq> (spend_edges m)\<^sup>* `` {gh tx} \<and>
     spenders_first m hs \<and> map_of (txs m') = map_of (txs m) |` (- set hs) \<and>
     set (unSyncTxsDelete m') = set (unSyncTxsDelete m) \<union> set hs \<and> unSyncTxsInsert m' = unSyncTxsInsert m"
  using assms
proof (induction "length (txs m)" arbitrary: m acc rule: less_induct)
  case less
  note inv = less.prems(1) and I = mem_invD [OF less.prems(1)]
  obtain h where g: "getSpentEndTx gh tx m = Some (h, m)" "(gh tx, h) \<in> (spend_edges m)\<^sup>*"
    and lf: "\<exists>t. map_of (txs m) h = Some t \<and> pool_leaf m t h"
    using getSpentEndTx_returns [OF less.prems(1,2), of tx] less.prems(3) by blast
  then obtain t where t: "map_of (txs m) h = Some t" and leaf: "pool_leaf m t h" by blast
  obtain m2 where m2: "removeTx h m = Inr m2" "mem_inv gh m2" "map_of (txs m2) = (map_of (txs m))(h := None)"
      "length (txs m2) = length (txs m) - 1" "unSyncTxsDelete m2 = ss_ins h (unSyncTxsDelete m)"
      "unSyncTxsInsert m2 = unSyncTxsInsert m"
      "map_of (spentOutputs m2) = (\<lambda>k. if k \<in> outkey ` set (vin t) then None else map_of (spentOutputs m) k)"
    using removeTx_ok [OF inv t] by blast
  show ?case
  proof (cases "gh tx = h")
    case True
    have "spenders_first m [h]"
      using t leaf by (auto simp: spenders_first_def pool_leaf_def Cons_eq_append_conv)
    moreover have "map_of (txs m2) = map_of (txs m) |` (- {h})"
      using m2(3) by (auto simp: restrict_map_def fun_eq_iff)
    ultimately show ?thesis
      using True g m2 by (auto simp: removeTxAndChildTx.simps [of gh tx acc m])
  next
    case False
    have sub: "spend_edges m2 \<subseteq> spend_edges m" using m2(7) by (rule spend_edges_mono)
    have "length (txs m2) < length (txs m)" using m2(4) t by (cases "txs m") auto
    moreover have "acyclic (spend_edges m2)" using less.prems(2) sub by (rule acyclic_subset)
    moreover have "map_of (txs m2) (gh tx) = Some tx" using m2(3) False less.prems(3) by simp
    ultimately obtain hs m' where r: "removeTxAndChildTx gh tx (acc @ [h]) m2 = Some (Inr ((acc @ [h]) @ hs, m'))"
      "mem_inv gh m'" "hs \<noteq> []" "last hs = gh tx" "distinct hs" "set hs \<subseteq> (spend_edges m2)\<^sup>* `` {gh tx}"
      "spenders_first m2 hs" "map_of (txs m') = map_of (txs m2) |` (- set hs)"
      "set (unSyncTxsDelete m') = set (unSyncTxsDelete m2) \<union> set hs" "unSyncTxsInsert m' = unSyncTxsInsert m2"
      using less.hyps [of m2 "acc @ [h]"] m2(2) by blast
    have "h \<notin> set hs"
    proof
      assume "h \<in> set hs"
      then obtain as bs where "hs = as @ h # bs" by (meson split_list)
      then obtain u where "map_of (txs m2) h = Some u"
        using r(7) unfolding spenders_first_def by blast
      with m2(3) show False by simp
    qed
    moreover have "spenders_first m (h # hs)"
      using inv t leaf m2(3) m2(7) r(7) by (rule spenders_first_Cons)
    moreover have "set (h # hs) \<subseteq> (spend_edges m)\<^sup>* `` {gh tx}"
      using g(2) r(6) rtrancl_mono [OF sub] by auto
    moreover have "map_of (txs m') = map_of (txs m) |` (- set (h # hs))"
      using r(8) m2(3) by (auto simp: restrict_map_def fun_eq_iff)
    ultimately show ?thesis
      using False g m2 r by (intro exI [of _ "h # hs"] exI [of _ m'])
        (auto simp: removeTxAndChildTx.simps [of gh tx acc m])
  qed
qed

subsection \<open>Evicting conflicts and clearing the pool\<close>

text \<open>
  The loop of \<open>Log2Producer::handleBlockAccept\<close> that adds a transaction of a block, removing
  one leaf of the conflicting tree at a time until the transaction fits.
\<close>

partial_function (option) add_evicting ::
  "(CTransaction \<Rightarrow> uint256) \<Rightarrow> CTransaction \<Rightarrow> uint256 list \<Rightarrow> memrepo \<Rightarrow> ((uint256 list \<times> memrepo) res) option" where
  "add_evicting gh tx conflictTxs m =
     (case addTx gh tx m of
        Inl e \<Rightarrow> Some (Inl e)
      | Inr (b, m1) \<Rightarrow>
          if b then Some (Inr (conflictTxs, m1))
          else
          (case getConflictTx gh tx m1 of
             Inl e \<Rightarrow> Some (Inl e)
           | Inr (conflictTx, m2) \<Rightarrow>
               if conflictTx = gh tx then Some (Inl (AssertFail ''conflictTx != tx.GetHash()''))
               else (case removeTx conflictTx m2 of
                       Inl e \<Rightarrow> Some (Inl e)
                     | Inr m3 \<Rightarrow> add_evicting gh tx (conflictTxs @ [conflictTx]) m3)))"

text \<open>The loop of \<open>Log2Producer::clearMempoolTxs\<close>: the hashes removed, in order.\<close>

partial_function (option) clear_pool ::
  "(CTransaction \<Rightarrow> uint256) \<Rightarrow> uint256 list \<Rightarrow> memrepo \<Rightarrow> ((uint256 list \<times> memrepo) res) option" where
  "clear_pool gh hs m =
     (if length (txs m) > 0
      then (case removeTx_last gh m of
              Inl e \<Rightarrow> Some (Inl e)
            | Inr (h, m') \<Rightarrow> clear_pool gh (hs @ [h]) m')
      else Some (Inr (hs, m)))"

lemma getConflictTx_loop_returns:
  assumes inv: "mem_inv gh m" and ac: "acyclic (spend_edges m)"
    and own: "\<forall>i \<in> set is. map_of (spentOutputs m) (outkey i) \<noteq> Some (gh tx)"
    and "\<exists>i \<in> set is. map_of (spentOutputs m) (outkey i) \<noteq> None"
  shows "\<exists>h i s t. getConflictTx_loop gh tx is m = Inr (h, m) \<and> i \<in> set is \<and>
     map_of (spentOutputs m) (outkey i) = Some s \<and> (s, h) \<in> (spend_edges m)\<^sup>* \<and>
     map_of (txs m) h = Some t \<and> pool_leaf m t h"
  using assms(3,4)
proof (induction "is")
  case (Cons i js)
  show ?case
  proof (cases "map_of (spentOutputs m) (outkey i)")
    case None
    with Cons show ?thesis by auto
  next
    case (Some s)
    obtain u where u: "map_of (txs m) s = Some u" using Some mem_invD(7) [OF inv] by blast
    then have s: "gh u = s" by (rule mem_invD(5) [OF inv])
    obtain h where h: "getSpentEndTx gh u m = Some (h, m)" "(s, h) \<in> (spend_edges m)\<^sup>*"
      "\<exists>t. map_of (txs m) h = Some t \<and> pool_leaf m t h"
      using getSpentEndTx_returns [OF inv ac, of u] u s by blast
    have "getConflictTx_loop gh tx (i # js) m = Inr (h, m)"
      using Some Cons.prems(1) u h(1) by (simp add: txs_at_def)
    with h Some show ?thesis by (meson list.set_intros(1))
  qed
qed simp

lemma addTx_True_state:
  "addTx gh tx m = Inr (True, m') \<Longrightarrow>
     map_of (txs m') = (map_of (txs m))(gh tx \<mapsto> tx) \<and> unSyncTxsDelete m' = unSyncTxsDelete m \<and>
     unSyncTxsInsert m' = ss_ins (gh tx) (unSyncTxsInsert m)"
  by (auto simp: addTx_def Let_def split: if_splits)

lemma addTx_edges:
  assumes inv: "mem_inv gh m" and add: "addTx gh tx m = Inr (b, m')"
  shows "spend_edges m' \<subseteq> spend_edges m \<union> (\<lambda>i. (op_hash (prevout i), gh tx)) ` set (vin tx)"
proof (cases b)
  case False
  with add show ?thesis by (auto dest: addTx_False)
next
  case True
  with add have "\<forall>i \<in> set (vin tx). map_of (spentOutputs m) (outkey i) = None"
    "spentOutputs m' = fold (\<lambda>i. sm_insert (outkey i) (gh tx)) (vin tx) (spentOutputs m)"
    by (auto simp: addTx_def Let_def conflicts_iff split: if_splits)
  then show ?thesis
    using fold_sm_insert [of "vin tx" "spentOutputs m" outkey "gh tx"] mem_invD(2) [OF inv]
    by (auto simp: spend_edges_def outkey_def split: if_splits)
qed

text \<open>The leaf that the eviction picks, with the state after its removal.\<close>

lemma evict_step:
  assumes inv: "mem_inv gh m" and ac: "acyclic (spend_edges m)" and nc: "\<not> IsCoinBase tx"
    and fresh: "map_of (txs m) (gh tx) = None" and conf: "conflicts m tx"
  shows "\<exists>c i s m3. getConflictTx gh tx m = Inr (c, m) \<and> c \<noteq> gh tx \<and> removeTx c m = Inr m3 \<and>
     map_of (txs m) c \<noteq> None \<and> i \<in> set (vin tx) \<and> map_of (spentOutputs m) (outkey i) = Some s \<and>
     (s, c) \<in> (spend_edges m)\<^sup>* \<and> mem_inv gh m3 \<and> map_of (txs m3) = (map_of (txs m))(c := None) \<and>
     length (txs m3) < length (txs m) \<and> spend_edges m3 \<subseteq> spend_edges m \<and>
     (\<forall>k v. map_of (spentOutputs m3) k = Some v \<longrightarrow> map_of (spentOutputs m) k = Some v) \<and>
     unSyncTxsDelete m3 = ss_ins c (unSyncTxsDelete m) \<and> unSyncTxsInsert m3 = unSyncTxsInsert m"
proof -
  have "\<forall>i \<in> set (vin tx). map_of (spentOutputs m) (outkey i) \<noteq> Some (gh tx)"
    using fresh mem_invD(7) [OF inv] by (metis option.distinct(1))
  moreover have "\<exists>i \<in> set (vin tx). map_of (spentOutputs m) (outkey i) \<noteq> None"
    using conf by (simp add: conflicts_iff)
  ultimately obtain c i s t where c: "getConflictTx_loop gh tx (vin tx) m = Inr (c, m)" "i \<in> set (vin tx)"
    "map_of (spentOutputs m) (outkey i) = Some s" "(s, c) \<in> (spend_edges m)\<^sup>*" "map_of (txs m) c = Some t"
    using getConflictTx_loop_returns [OF inv ac] by blast
  obtain m3 where m3: "removeTx c m = Inr m3" "mem_inv gh m3" "map_of (txs m3) = (map_of (txs m))(c := None)"
    "length (txs m3) = length (txs m) - 1" "unSyncTxsDelete m3 = ss_ins c (unSyncTxsDelete m)"
    "unSyncTxsInsert m3 = unSyncTxsInsert m"
    "map_of (spentOutputs m3) = (\<lambda>k. if k \<in> outkey ` set (vin t) then None else map_of (spentOutputs m) k)"
    using removeTx_ok [OF inv c(5)] by blast
  have "length (txs m3) < length (txs m)" using m3(4) c(5) by (cases "txs m") auto
  moreover have "c \<noteq> gh tx" using c(5) fresh by auto
  moreover have "spend_edges m3 \<subseteq> spend_edges m" using m3(7) by (rule spend_edges_mono)
  ultimately show ?thesis
    using c m3 by (intro exI [of _ c] exI [of _ i] exI [of _ s] exI [of _ m3])
      (auto simp: getConflictTx_def split: if_splits)
qed

lemma add_evicting_returns:
  assumes "mem_inv gh m" and "acyclic (spend_edges m)" and "\<not> IsCoinBase tx"
    and "map_of (txs m) (gh tx) = None" and "distinct (map outkey (vin tx))"
  shows "\<exists>cs m'. add_evicting gh tx acc m = Some (Inr (acc @ cs, m')) \<and> mem_inv gh m' \<and> distinct cs \<and>
     set cs \<subseteq> dom (map_of (txs m)) \<and>
     (\<forall>c \<in> set cs. \<exists>i s. i \<in> set (vin tx) \<and> map_of (spentOutputs m) (outkey i) = Some s \<and> (s, c) \<in> (spend_edges m)\<^sup>*) \<and>
     map_of (txs m') = (map_of (txs m) |` (- set cs))(gh tx \<mapsto> tx) \<and>
     set (unSyncTxsDelete m') = set (unSyncTxsDelete m) \<union> set cs \<and>
     unSyncTxsInsert m' = ss_ins (gh tx) (unSyncTxsInsert m)"
  using assms(1,2,4)
proof (induction "length (txs m)" arbitrary: m acc rule: less_induct)
  case less
  note inv = less.prems(1) and ac = less.prems(2)
  show ?case
  proof (cases "conflicts m tx")
    case False
    then obtain m' where a: "addTx gh tx m = Inr (True, m')"
      using less.prems(3) assms(3) addTx_True_iff [of tx gh m] by (auto simp: isExist_def)
    then have "mem_inv gh m'" using inv assms(5) by (blast intro: addTx_inv)
    then show ?thesis
      using a addTx_True_state [OF a] by (intro exI [of _ "[]"] exI [of _ m'])
        (auto simp: add_evicting.simps [of gh tx acc m] restrict_map_def)
  next
    case True
    obtain c i s m3 where c: "getConflictTx gh tx m = Inr (c, m)" "c \<noteq> gh tx" "removeTx c m = Inr m3"
      "map_of (txs m) c \<noteq> None" "i \<in> set (vin tx)" "map_of (spentOutputs m) (outkey i) = Some s"
      "(s, c) \<in> (spend_edges m)\<^sup>*" "mem_inv gh m3" "map_of (txs m3) = (map_of (txs m))(c := None)"
      "length (txs m3) < length (txs m)" "spend_edges m3 \<subseteq> spend_edges m"
      "\<forall>k v. map_of (spentOutputs m3) k = Some v \<longrightarrow> map_of (spentOutputs m) k = Some v"
      "unSyncTxsDelete m3 = ss_ins c (unSyncTxsDelete m)" "unSyncTxsInsert m3 = unSyncTxsInsert m"
      using evict_step [OF inv ac assms(3) less.prems(3) True] by blast
    have add: "addTx gh tx m = Inr (False, m)"
      using True less.prems(3) assms(3) by (simp add: addTx_def isExist_def)
    have "map_of (txs m3) (gh tx) = None" using c(9) less.prems(3) by simp
    moreover have "acyclic (spend_edges m3)" using ac c(11) by (rule acyclic_subset)
    ultimately obtain cs m' where r: "add_evicting gh tx (acc @ [c]) m3 = Some (Inr ((acc @ [c]) @ cs, m'))"
      "mem_inv gh m'" "distinct cs" "set cs \<subseteq> dom (map_of (txs m3))"
      "\<forall>d \<in> set cs. \<exists>i s. i \<in> set (vin tx) \<and> map_of (spentOutputs m3) (outkey i) = Some s \<and> (s, d) \<in> (spend_edges m3)\<^sup>*"
      "map_of (txs m') = (map_of (txs m3) |` (- set cs))(gh tx \<mapsto> tx)"
      "set (unSyncTxsDelete m') = set (unSyncTxsDelete m3) \<union> set cs"
      "unSyncTxsInsert m' = ss_ins (gh tx) (unSyncTxsInsert m3)"
      using less.hyps [of m3 "acc @ [c]"] c(8,10) by blast
    have "c \<notin> set cs" "set cs \<subseteq> dom (map_of (txs m))" using r(4) c(9) by auto
    moreover have "\<exists>i s. i \<in> set (vin tx) \<and> map_of (spentOutputs m) (outkey i) = Some s
        \<and> (s, d) \<in> (spend_edges m)\<^sup>*" if "d \<in> set (c # cs)" for d
    proof (cases "d = c")
      case True
      with c(5-7) show ?thesis by blast
    next
      case False
      with that have "d \<in> set cs" by simp
      with r(5) obtain j u where ju: "j \<in> set (vin tx)" "map_of (spentOutputs m3) (outkey j) = Some u"
        "(u, d) \<in> (spend_edges m3)\<^sup>*" by blast
      have "map_of (spentOutputs m) (outkey j) = Some u" using c(12) ju(2) by blast
      moreover have "(u, d) \<in> (spend_edges m)\<^sup>*" using rtrancl_mono [OF c(11)] ju(3) by blast
      ultimately show ?thesis using ju(1) by blast
    qed
    moreover have "map_of (txs m') = (map_of (txs m) |` (- set (c # cs)))(gh tx \<mapsto> tx)"
      using r(6) c(9) by (auto simp: restrict_map_def fun_eq_iff)
    moreover have "add_evicting gh tx acc m = Some (Inr (acc @ c # cs, m'))"
      using add c r(1) by (simp add: add_evicting.simps [of gh tx acc m])
    ultimately show ?thesis
      using c(4,13,14) r(2,3,7,8) by (intro exI [of _ "c # cs"] exI [of _ m'] conjI) auto
  qed
qed

lemma clear_pool_returns:
  assumes "mem_inv gh m" and "acyclic (spend_edges m)"
  shows "\<exists>hs m'. clear_pool gh acc m = Some (Inr (acc @ hs, m')) \<and> mem_inv gh m' \<and> txs m' = [] \<and>
     distinct hs \<and> set hs = dom (map_of (txs m)) \<and> spenders_first m hs \<and>
     set (unSyncTxsDelete m') = set (unSyncTxsDelete m) \<union> set hs \<and> unSyncTxsInsert m' = unSyncTxsInsert m"
  using assms
proof (induction "length (txs m)" arbitrary: m acc rule: less_induct)
  case less
  note inv = less.prems(1)
  show ?case
  proof (cases "txs m = []")
    case True
    then show ?thesis
      using inv by (auto simp: clear_pool.simps [of gh acc m] spenders_first_def)
  next
    case False
    let ?x = "last (txs m)"
    have "(fst ?x, snd ?x) \<in> set (txs m)" using False by simp
    then have x: "map_of (txs m) (fst ?x) = Some (snd ?x)"
      using mem_invD(1) [OF inv] by (simp add: sm_wf_map_of_iff)
    then have "gh (snd ?x) = fst ?x" by (rule mem_invD(5) [OF inv])
    with x obtain h t where h: "getSpentEndTx gh (snd ?x) m = Some (h, m)" "map_of (txs m) h = Some t" "pool_leaf m t h"
      using getSpentEndTx_returns [OF less.prems, of "snd ?x"] by auto
    obtain m2 where m2: "removeTx h m = Inr m2" "mem_inv gh m2" "map_of (txs m2) = (map_of (txs m))(h := None)"
      "length (txs m2) = length (txs m) - 1" "unSyncTxsDelete m2 = ss_ins h (unSyncTxsDelete m)"
      "unSyncTxsInsert m2 = unSyncTxsInsert m"
      "map_of (spentOutputs m2) = (\<lambda>k. if k \<in> outkey ` set (vin t) then None else map_of (spentOutputs m) k)"
      using removeTx_ok [OF inv h(2)] by blast
    have "acyclic (spend_edges m2)"
      using less.prems(2) spend_edges_mono [OF m2(7)] by (rule acyclic_subset)
    moreover have "length (txs m2) < length (txs m)" using m2(4) False by (cases "txs m") auto
    ultimately obtain hs m' where r: "clear_pool gh (acc @ [h]) m2 = Some (Inr ((acc @ [h]) @ hs, m'))"
      "mem_inv gh m'" "txs m' = []" "distinct hs" "set hs = dom (map_of (txs m2))" "spenders_first m2 hs"
      "set (unSyncTxsDelete m') = set (unSyncTxsDelete m2) \<union> set hs" "unSyncTxsInsert m' = unSyncTxsInsert m2"
      using less.hyps [of m2 "acc @ [h]"] m2(2) by blast
    have "removeTx_last gh m = Inr (h, m2)"
      using False h(1) m2(1) by (simp add: removeTx_last_def)
    then have "clear_pool gh acc m = Some (Inr (acc @ h # hs, m'))"
      using False r(1) by (simp add: clear_pool.simps [of gh acc m])
    moreover have "spenders_first m (h # hs)"
      using inv h(2,3) m2(3) m2(7) r(6) by (rule spenders_first_Cons)
    moreover have "set (h # hs) = dom (map_of (txs m))" "h \<notin> set hs"
      using r(5) m2(3) h(2) by auto
    ultimately show ?thesis
      using r m2(5,6) by (intro exI [of _ "h # hs"] exI [of _ m']) auto
  qed
qed

subsection \<open>Properties\<close>

text \<open>A pool of three samples: 11 spends an outside output, 12 spends 11, 13 spends 12.\<close>

definition sample_txs :: "CTransaction list" where
  "sample_txs = [sample_tx 11 [(5, 0)] [8, 6], sample_tx 12 [(11, 1)] [4], sample_tx 13 [(12, 0)] [3]]"

definition sample_pool :: memrepo where
  "sample_pool =
     \<lparr>txs = [(11, sample_tx 11 [(5, 0)] [8, 6]), (12, sample_tx 12 [(11, 1)] [4]), (13, sample_tx 13 [(12, 0)] [3])],
      spentOutputs = [((5, 0), 11), ((11, 1), 12), ((12, 0), 13)], unSyncTxsDelete = [], unSyncTxsInsert = [11, 12, 13]\<rparr>"

lemma sample_pool_adds: "foldE (\<lambda>t m. bindE (addTx sample_gh t m) (\<lambda>(_, m). Inr m)) sample_txs MemTxRepository_init = Inr sample_pool"
  by (simp add: sample_txs_def sample_pool_def addTx_def MemTxRepository_init_def isExist_def conflicts_def
      Let_def) (simp add: sample_tx_def outkey_def sm_insert_def less_prod_def)

lemma sample_pool_inv: "mem_inv sample_gh sample_pool"
proof -
  have "mem_inv sample_gh m' " if "foldE (\<lambda>t m. bindE (addTx sample_gh t m) (\<lambda>(_, m). Inr m)) ts m = Inr m'"
    "mem_inv sample_gh m" "\<forall>t \<in> set ts. distinct (map outkey (vin t))" for ts m m'
    using that
  proof (induction ts arbitrary: m)
    case (Cons t ts)
    then obtain b n where n: "addTx sample_gh t m = Inr (b, n)"
      "foldE (\<lambda>t m. bindE (addTx sample_gh t m) (\<lambda>(_, m). Inr m)) ts n = Inr m'" by auto
    have "mem_inv sample_gh n" using addTx_inv [OF Cons.prems(2) _ n(1)] Cons.prems(3) by simp
    then show ?case using Cons.IH n(2) Cons.prems(3) by simp
  qed simp
  from this [OF sample_pool_adds mem_inv_init] show ?thesis by (simp add: sample_txs_def)
qed

lemma sample_pool_acyclic: "acyclic (spend_edges sample_pool)"
  by (rule acyclicI_order [of _ "\<lambda>w. - uint w"])
    (auto simp: spend_edges_def sample_pool_def split: if_splits)

text \<open>
  C25. The pool stays consistent: \<open>addTx\<close> refuses a transaction that is known or that spends an
  output already spent in the pool and then changes nothing; otherwise it adds the
  transaction, and in both cases the list of spent outputs is exactly that of the pool's
  transactions, with each output spent by one transaction.
\<close>

theorem addTx_pool:
  assumes "mem_inv gh m" and "\<not> IsCoinBase tx" and "distinct (map outkey (vin tx))"
  shows "\<exists>ok m'. addTx gh tx m = Inr (ok, m') \<and> mem_inv gh m' \<and>
     (ok \<longleftrightarrow> map_of (txs m) (gh tx) = None \<and> (\<forall>i \<in> set (vin tx). map_of (spentOutputs m) (outkey i) = None)) \<and>
     (if ok then map_of (txs m') = (map_of (txs m))(gh tx \<mapsto> tx) else m' = m)"
proof -
  have "\<exists>r. addTx gh tx m = Inr r" using assms(2) by (auto simp: addTx_def Let_def)
  then obtain ok m' where r: "addTx gh tx m = Inr (ok, m')" by fastforce
  have "ok \<longleftrightarrow> map_of (txs m) (gh tx) = None \<and> (\<forall>i \<in> set (vin tx). map_of (spentOutputs m) (outkey i) = None)"
    using r assms(2) by (auto simp: addTx_def Let_def isExist_def conflicts_iff split: if_splits)
  then show ?thesis
    using r addTx_inv [OF assms(1,3) r] addTx_True_state [of gh tx m m'] addTx_False [of gh tx m m'] by (cases ok) auto
qed

theorem addTx_pool_witness:
  "let tx = sample_tx 14 [(11, 1)] [2]; m = sample_pool in
   \<exists>ok m'. addTx sample_gh tx m = Inr (ok, m') \<and> mem_inv sample_gh m' \<and>
     (ok \<longleftrightarrow> map_of (txs m) (sample_gh tx) = None \<and> (\<forall>i \<in> set (vin tx). map_of (spentOutputs m) (outkey i) = None)) \<and>
     (if ok then map_of (txs m') = (map_of (txs m))(sample_gh tx \<mapsto> tx) else m' = m)"
  unfolding Let_def by (rule addTx_pool) (simp_all add: sample_pool_inv)

text \<open>
  C24. Removing a transaction with its descendants ends, for every pool whose transactions do
  not spend each other in a circle: every transaction is removed after those that spend it,
  the given one last, only its descendants go, and the rest of the pool stays as it was.
\<close>

theorem removeTxAndChildTx_tree:
  assumes "mem_inv gh m" and "acyclic (spend_edges m)" and "map_of (txs m) (gh tx) = Some tx"
  shows "\<exists>hs m'. removeTxAndChildTx gh tx [] m = Some (Inr (hs, m')) \<and> mem_inv gh m' \<and>
     hs \<noteq> [] \<and> last hs = gh tx \<and> distinct hs \<and> set hs \<subseteq> (spend_edges m)\<^sup>* `` {gh tx} \<and>
     spenders_first m hs \<and> map_of (txs m') = map_of (txs m) |` (- set hs)"
  using removeTxAndChildTx_returns [OF assms, of "[]"] by auto

theorem removeTxAndChildTx_tree_witness:
  "let m = sample_pool; tx = sample_tx 12 [(11, 1)] [4] in
   \<exists>hs m'. removeTxAndChildTx sample_gh tx [] m = Some (Inr (hs, m')) \<and> mem_inv sample_gh m' \<and>
     hs \<noteq> [] \<and> last hs = sample_gh tx \<and> distinct hs \<and> set hs \<subseteq> (spend_edges m)\<^sup>* `` {sample_gh tx} \<and>
     spenders_first m hs \<and> map_of (txs m') = map_of (txs m) |` (- set hs)"
  unfolding Let_def
  by (rule removeTxAndChildTx_tree) (simp_all add: sample_pool_inv sample_pool_acyclic, simp add: sample_pool_def)

text \<open>
  C23. A transaction of a block always gets into the pool: the loop that evicts conflicting
  transactions ends, evicts only transactions that spend an output the block's transaction
  spends, or descendants of such, each once, and the pool is then the rest of the old one with
  the transaction added.
\<close>

theorem add_evicting_pool:
  assumes "mem_inv gh m" and "acyclic (spend_edges m)" and "\<not> IsCoinBase tx"
    and "map_of (txs m) (gh tx) = None" and "distinct (map outkey (vin tx))"
  shows "\<exists>cs m'. add_evicting gh tx acc m = Some (Inr (acc @ cs, m')) \<and> mem_inv gh m' \<and> distinct cs \<and>
     (\<forall>c \<in> set cs. \<exists>i s. i \<in> set (vin tx) \<and> map_of (spentOutputs m) (outkey i) = Some s \<and> (s, c) \<in> (spend_edges m)\<^sup>*) \<and>
     map_of (txs m') = (map_of (txs m) |` (- set cs))(gh tx \<mapsto> tx)"
  using add_evicting_returns [OF assms, of acc] by blast

theorem add_evicting_pool_witness:
  "let m = sample_pool; tx = sample_tx 14 [(5, 0)] [2] in
   \<exists>cs m'. add_evicting sample_gh tx [99] m = Some (Inr ([99] @ cs, m')) \<and> mem_inv sample_gh m' \<and> distinct cs \<and>
     (\<forall>c \<in> set cs. \<exists>i s. i \<in> set (vin tx) \<and> map_of (spentOutputs m) (outkey i) = Some s \<and> (s, c) \<in> (spend_edges m)\<^sup>*) \<and>
     map_of (txs m') = (map_of (txs m) |` (- set cs))(sample_gh tx \<mapsto> tx)"
  unfolding Let_def
  by (rule add_evicting_pool) (simp_all add: sample_pool_inv sample_pool_acyclic, simp add: sample_pool_def)

end
