(* ===== verification/BlockTs.thy ===== *)
theory BlockTs
  imports StdMap
begin

text \<open>
  \<open>BlockTimestamp\<close> (src/jiexi/src/Log2Producer.cc): the timestamps of the latest blocks and
  their maximum, which \<open>log2producer\<close> writes into every row of \<open>0_txlogs2\<close> as
  \<open>max_block_timestamp\<close>.

  The lemmas: the kept maximum bounds every kept timestamp and never falls while blocks are
  pushed, the number of kept blocks stays within the limit, and \<open>popBlock\<close> undoes
  \<open>pushBlock\<close> as long as nothing was evicted.
\<close>

record blockts =
  bt_limit :: int
  currMax :: int
  blkTimestamps :: "(int, int) smap"

definition BlockTimestamp_init :: "int \<Rightarrow> blockts" where
  "BlockTimestamp_init limit = \<lparr>bt_limit = limit, currMax = 0, blkTimestamps = []\<rparr>"

definition getMaxTimestamp :: "blockts \<Rightarrow> int" where
  "getMaxTimestamp b = currMax b"

definition pushBlock :: "int \<Rightarrow> int \<Rightarrow> blockts \<Rightarrow> blockts res" where
  "pushBlock height ts b =
     bindE (assertE ''blkTimestamps_.find(height) == blkTimestamps_.end()''
              (map_of (blkTimestamps b) height = None)) (\<lambda>_.
     Inr (b\<lparr>blkTimestamps := trim_front (bt_limit b) (sm_put height ts (blkTimestamps b)),
            currMax := (if ts > currMax b then ts else currMax b)\<rparr>))"

definition popBlock :: "blockts \<Rightarrow> blockts res" where
  "popBlock b =
     bindE (assertE ''blkTimestamps_.size() > 0'' (length (blkTimestamps b) > 0)) (\<lambda>_.
     let m = butlast (blkTimestamps b) in
     Inr (b\<lparr>blkTimestamps := m,
            currMax := fold (\<lambda>it mx. if mx < snd it then snd it else mx) m 0\<rparr>))"

text \<open>The largest of zero and the timestamps of a list of blocks.\<close>

definition max_ts :: "(int, int) smap \<Rightarrow> int" where
  "max_ts m = Max (insert 0 (snd ` set m))"

definition bt_inv :: "blockts \<Rightarrow> bool" where
  "bt_inv b = (sm_wf (blkTimestamps b) \<and> max_ts (blkTimestamps b) \<le> currMax b \<and>
     \<not> size_exceeds (length (blkTimestamps b)) (bt_limit b))"

lemma max_ts_Nil [simp]: "max_ts [] = 0"
  by (simp add: max_ts_def)

lemma max_ts_insert: "max_ts ((h, t) # m) = max t (max_ts m)"
  by (simp add: max_ts_def insert_commute [of 0])

lemma max_ts_le_iff: "max_ts m \<le> x \<longleftrightarrow> 0 \<le> x \<and> (\<forall>t \<in> snd ` set m. t \<le> x)"
  by (simp add: max_ts_def)

lemma max_ts_mono: "set m \<subseteq> set n \<Longrightarrow> max_ts m \<le> max_ts n"
  unfolding max_ts_def by (rule Max_mono) auto

lemma Max_insert_max: "finite S \<Longrightarrow> Max (insert (max (x::int) y) S) = Max (insert x (insert y S))"
  by (cases "S = {}") (simp_all add: max.assoc)

lemma fold_max_ts:
  "fold (\<lambda>it mx. if mx < snd it then snd it else mx) m (a::int) = Max (insert a (snd ` set m))"
proof (induction m arbitrary: a)
  case (Cons x m)
  have "(if a < snd x then snd x else a) = max a (snd x)" by auto
  with Cons show ?case by (simp add: Max_insert_max)
qed simp

lemma fold_max_ts_0: "fold (\<lambda>it mx. if mx < snd it then snd it else mx) m 0 = max_ts m"
  unfolding fold_max_ts max_ts_def ..

lemma max_ts_snoc: "max_ts (m @ [(h, t)]) = max (max_ts m) t"
  by (simp add: max_ts_def insert_commute [of 0] max.commute)

lemma bt_inv_init: "bt_inv (BlockTimestamp_init l)"
  by (simp add: bt_inv_def BlockTimestamp_init_def size_exceeds_def)

lemma pushBlock_inv:
  assumes "bt_inv b" and "pushBlock h ts b = Inr b'"
  shows "bt_inv b'" "currMax b \<le> currMax b'" "ts \<le> currMax b'" "bt_limit b' = bt_limit b"
proof -
  let ?m = "sm_put h ts (blkTimestamps b)"
  from assms(2) have b': "b' = b\<lparr>blkTimestamps := trim_front (bt_limit b) ?m,
      currMax := (if ts > currMax b then ts else currMax b)\<rparr>"
    by (auto simp: pushBlock_def)
  have "max_ts (trim_front (bt_limit b) ?m) \<le> max_ts ((h, ts) # blkTimestamps b)"
    using set_sm_put [of h ts "blkTimestamps b"] set_trim_front [of "bt_limit b" ?m]
    by (intro max_ts_mono) auto
  with assms(1) show "bt_inv b'"
    by (auto simp: bt_inv_def b' max_ts_insert trim_front_bound sm_wf_trim_front)
  show "currMax b \<le> currMax b'" "ts \<le> currMax b'" "bt_limit b' = bt_limit b"
    by (auto simp: b')
qed

lemma popBlock_inv:
  assumes "bt_inv b" and "popBlock b = Inr b'"
  shows "bt_inv b'" "currMax b' = max_ts (blkTimestamps b')"
proof -
  from assms(2) have b': "b' = b\<lparr>blkTimestamps := butlast (blkTimestamps b),
      currMax := max_ts (butlast (blkTimestamps b))\<rparr>"
    by (auto simp: popBlock_def fold_max_ts_0 Let_def)
  with assms(1) show "bt_inv b'" "currMax b' = max_ts (blkTimestamps b')"
    by (auto simp: bt_inv_def sm_wf_butlast size_exceeds_def)
qed

text \<open>Rolling back the block just pushed: exact unless the push evicted the oldest block.\<close>

lemma popBlock_pushBlock:
  assumes "sm_wf (blkTimestamps b)" and "\<forall>k \<in> fst ` set (blkTimestamps b). k < h"
    and "currMax b = max_ts (blkTimestamps b)"
    and "\<not> size_exceeds (Suc (length (blkTimestamps b))) (bt_limit b)"
  shows "bindE (pushBlock h ts b) popBlock = Inr b"
proof -
  have "map_of (blkTimestamps b) h = None"
    using assms(2) by (fastforce simp: map_of_eq_None_iff)
  moreover have "sm_put h ts (blkTimestamps b) = blkTimestamps b @ [(h, ts)]"
    using assms(2) by (rule sm_put_snoc)
  ultimately show ?thesis
    using assms(3,4) by (simp add: pushBlock_def popBlock_def fold_max_ts_0 Let_def trim_front_id)
qed

subsection \<open>Properties\<close>

text \<open>
  C31. Rolling back the block just accepted restores the timestamps: while the limit is not
  reached, \<open>popBlock\<close> undoes \<open>pushBlock\<close> exactly, the maximum included, and after the push the
  maximum is at least the block's time and not below the old one.
\<close>

theorem timestamp_push_pop:
  assumes "bt_inv b" and "\<forall>k \<in> fst ` set (blkTimestamps b). k < h" and "currMax b = max_ts (blkTimestamps b)"
    and "int (length (blkTimestamps b)) < bt_limit b" and "bt_limit b < 2 ^ 64"
  shows "\<exists>b'. pushBlock h ts b = Inr b' \<and> bt_inv b' \<and> max ts (currMax b) \<le> getMaxTimestamp b' \<and> popBlock b' = Inr b"
proof -
  have "\<not> size_exceeds (Suc (length (blkTimestamps b))) (bt_limit b)"
    using assms(4,5) by (simp add: size_exceeds_nonneg)
  then have r: "bindE (pushBlock h ts b) popBlock = Inr b"
    using assms(1-3) by (intro popBlock_pushBlock) (auto simp: bt_inv_def)
  then obtain b' where "pushBlock h ts b = Inr b'" by (cases "pushBlock h ts b") auto
  with r pushBlock_inv [OF assms(1) this] show ?thesis by (auto simp: getMaxTimestamp_def)
qed

theorem timestamp_push_pop_witness:
  "let b = \<lparr>bt_limit = 3, currMax = 90, blkTimestamps = [(5, 90), (6, 80)]\<rparr> in
   \<exists>b'. pushBlock 7 85 b = Inr b' \<and> bt_inv b' \<and> max 85 (currMax b) \<le> getMaxTimestamp b' \<and> popBlock b' = Inr b"
  unfolding Let_def
  by (rule timestamp_push_pop) (auto simp: bt_inv_def sm_wf_def max_ts_def size_exceeds_nonneg)

end
