(* ===== verification/Log2DB.thy ===== *)
theory Log2DB
  imports MemRepo BlockTs LogFiles
begin

text \<open>
  The tables \<open>log2producer\<close> works on (src/install/generate_initialize_sql.sh) and the SQL it
  runs on them: \<open>MemTxRepository::syncToDB\<close>, \<open>updateLog1FileStatus\<close>, \<open>commitBatch\<close>
  (Log2Producer.cc), \<open>insertRawTx\<close>, \<open>insertRawBlock\<close>, \<open>getTxHexByHash\<close> (Util.cc),
  \<open>multiInsert\<close> and \<open>updateOrThrowEx\<close> (MySQLConnection.cc).

  A table is the list of its rows in insertion order, and a statement is its effect on the
  rows, with the unique keys and the affected-row counts that the code checks. The columns
  \<open>created_at\<close> and \<open>updated_at\<close>, which nothing reads, are left out, except in
  \<open>0_explorer_meta\<close>, where MySQL counts a row as affected only if some column changes. Writes
  between \<open>START TRANSACTION\<close> and \<open>COMMIT\<close> are lost when an exception ends the program, as
  is the state of every definition here that gives \<open>Inl\<close>.
\<close>

record log2row =
  row_id :: int
  batch_id :: int
  row_type :: int
  row_height :: int
  row_block_id :: int
  row_max_ts :: int
  row_hash :: uint256

record rawblock =
  rb_id :: int
  rb_hash :: uint256
  rb_height :: int
  rb_chain_id :: int
  rb_hex :: string

record log2db =
  txlogs2 :: "log2row list"
  txlogs2_next_id :: int
  memrepo_txs :: "uint256 list"
  raw_txs :: "int \<Rightarrow> (uint256 \<times> string) list"
  raw_blocks :: "rawblock list"
  raw_blocks_next_id :: int
  explorer_meta :: "string \<Rightarrow> (string \<times> string) option"

definition LOG2TYPE_TX_ACCEPT :: int where "LOG2TYPE_TX_ACCEPT = 100"
definition LOG2TYPE_TX_CONFIRM :: int where "LOG2TYPE_TX_CONFIRM = 200"
definition LOG2TYPE_TX_UNCONFIRM :: int where "LOG2TYPE_TX_UNCONFIRM = 300"
definition LOG2TYPE_TX_REJECT :: int where "LOG2TYPE_TX_REJECT = 400"

lemmas log2_types = LOG2TYPE_TX_ACCEPT_def LOG2TYPE_TX_CONFIRM_def LOG2TYPE_TX_UNCONFIRM_def LOG2TYPE_TX_REJECT_def

definition updateOrThrowEx :: "int \<Rightarrow> 'a \<times> int \<Rightarrow> 'a res" where
  \<comment> \<open>a statement's effect and its affected rows, checked unless the expected number is zero\<close>
  "updateOrThrowEx affectedRows r =
     (if affectedRows \<noteq> 0 \<and> snd r \<noteq> affectedRows then Inl (Throw ''update DB failure'') else Inr (fst r))"

subsection \<open>0\_memrepo\_txs\<close>

definition insert_memrepo :: "uint256 list \<Rightarrow> uint256 list \<Rightarrow> uint256 list res" where
  \<comment> \<open>\<open>multiInsert\<close> into a table with the unique key \<open>tx_hash\<close>\<close>
  "insert_memrepo hs T =
     (if distinct (T @ hs) then Inr (T @ hs) else Inl (Throw ''exec sql failure: duplicate entry''))"

definition delete_memrepo :: "uint256 list \<Rightarrow> uint256 list \<Rightarrow> uint256 list res" where
  \<comment> \<open>\<open>_getMemrepoTxsDeleteSQL\<close> under \<open>updateOrThrowEx(sql, hashVec.size())\<close>\<close>
  "delete_memrepo hs T =
     (let T' = filter (\<lambda>h. h \<notin> set hs) T
      in updateOrThrowEx (int (length hs)) (T', int (length T - length T')))"

fun delete_loop :: "uint256 list \<Rightarrow> uint256 list \<Rightarrow> uint256 list \<Rightarrow> uint256 list res" where
  "delete_loop [] hashVec T = (if length hashVec > 0 then delete_memrepo hashVec T else Inr T)"
| "delete_loop (h # hs) hashVec T =
     (let hashVec' = hashVec @ [h] in
      if length hashVec' > 5000 then bindE (delete_memrepo hashVec' T) (delete_loop hs [])
      else delete_loop hs hashVec' T)"

definition syncToDB :: "memrepo \<Rightarrow> log2db \<Rightarrow> (memrepo \<times> log2db) res" where
  "syncToDB m d =
     bindE (if length (unSyncTxsInsert m) > 0
            then bindE (insert_memrepo (unSyncTxsInsert m) (memrepo_txs d)) (\<lambda>T.
                 Inr (m\<lparr>unSyncTxsInsert := []\<rparr>, T))
            else Inr (m, memrepo_txs d)) (\<lambda>(m1, T1).
     bindE (if length (unSyncTxsDelete m1) > 0
            then bindE (delete_loop (unSyncTxsDelete m1) [] T1) (\<lambda>T.
                 Inr (m1\<lparr>unSyncTxsDelete := []\<rparr>, T))
            else Inr (m1, T1)) (\<lambda>(m2, T2).
     Inr (m2, d\<lparr>memrepo_txs := T2\<rparr>)))"

text \<open>
  The table agrees with the pool up to the changes not yet written; writing them makes it
  the pool.
\<close>

definition sync_inv :: "memrepo \<Rightarrow> uint256 list \<Rightarrow> bool" where
  "sync_inv m T = (distinct T \<and> set (unSyncTxsInsert m) \<inter> set T = {} \<and>
     set (unSyncTxsDelete m) \<subseteq> set T \<union> set (unSyncTxsInsert m) \<and>
     (set T \<union> set (unSyncTxsInsert m)) - set (unSyncTxsDelete m) = dom (map_of (txs m)))"

lemma length_filter_notin:
  "distinct T \<Longrightarrow> distinct hs \<Longrightarrow> set hs \<subseteq> set T \<Longrightarrow>
     length T - length (filter (\<lambda>h. h \<notin> set hs) T) = length hs"
proof -
  assume a: "distinct T" "distinct hs" "set hs \<subseteq> set T"
  have "length T = length (filter (\<lambda>h. h \<in> set hs) T) + length (filter (\<lambda>h. h \<notin> set hs) T)"
    by (rule sum_length_filter_compl [symmetric])
  moreover have "length (filter (\<lambda>h. h \<in> set hs) T) = card (set hs)"
    using a by (metis distinct_card distinct_filter inter_set_filter inf.absorb_iff2 inf_commute)
  ultimately show ?thesis using a(2) by (simp add: distinct_card)
qed

lemma delete_memrepo_ok:
  "distinct T \<Longrightarrow> distinct hs \<Longrightarrow> set hs \<subseteq> set T \<Longrightarrow>
     delete_memrepo hs T = Inr (filter (\<lambda>h. h \<notin> set hs) T)"
  by (simp add: delete_memrepo_def updateOrThrowEx_def Let_def length_filter_notin)

lemma delete_loop_ok:
  "distinct T \<Longrightarrow> distinct (vec @ hs) \<Longrightarrow> set (vec @ hs) \<subseteq> set T \<Longrightarrow>
     delete_loop hs vec T = Inr (filter (\<lambda>h. h \<notin> set (vec @ hs)) T)"
proof (induction hs vec T rule: delete_loop.induct)
  case (1 vec T)
  then show ?case using delete_memrepo_ok [of T vec] by auto
next
  case (2 h hs vec T)
  let ?v = "vec @ [h]"
  show ?case
  proof (cases "length ?v > 5000")
    case True
    have d: "delete_memrepo ?v T = Inr (filter (\<lambda>g. g \<notin> set ?v) T)"
      using "2.prems" by (intro delete_memrepo_ok) auto
    have "delete_loop hs [] (filter (\<lambda>g. g \<notin> set ?v) T) =
        Inr (filter (\<lambda>g. g \<notin> set ([] @ hs)) (filter (\<lambda>g. g \<notin> set ?v) T))"
      using True "2.prems" by (intro "2.IH"(1)) auto
    moreover have "filter (\<lambda>g. g \<notin> set ([] @ hs)) (filter (\<lambda>g. g \<notin> set ?v) T) =
        filter (\<lambda>g. g \<notin> set (vec @ h # hs)) T"
      unfolding filter_filter by (rule filter_cong) auto
    ultimately show ?thesis using True d by (simp add: Let_def)
  next
    case False
    with "2.IH"(2) [of ?v] "2.prems" show ?thesis by (simp add: Let_def)
  qed
qed

lemma syncToDB_ok:
  assumes "sync_inv m (memrepo_txs d)" and "ss_wf (unSyncTxsInsert m)" and "ss_wf (unSyncTxsDelete m)"
  shows "\<exists>T. syncToDB m d = Inr (m\<lparr>unSyncTxsInsert := [], unSyncTxsDelete := []\<rparr>, d\<lparr>memrepo_txs := T\<rparr>) \<and>
     distinct T \<and> set T = dom (map_of (txs m))"
proof -
  let ?T1 = "memrepo_txs d @ unSyncTxsInsert m"
  let ?T2 = "filter (\<lambda>h. h \<notin> set (unSyncTxsDelete m)) ?T1"
  have d1: "distinct ?T1"
    using assms by (auto simp: sync_inv_def dest: ss_wf_distinct)
  have "delete_loop (unSyncTxsDelete m) [] ?T1 = Inr ?T2"
    using delete_loop_ok [of ?T1 "[]" "unSyncTxsDelete m"] d1 assms
    by (auto simp: sync_inv_def dest: ss_wf_distinct)
  then have "syncToDB m d = Inr (m\<lparr>unSyncTxsInsert := [], unSyncTxsDelete := []\<rparr>, d\<lparr>memrepo_txs := ?T2\<rparr>)"
    using d1 by (auto simp: syncToDB_def insert_memrepo_def)
  moreover have "distinct ?T2" using d1 by auto
  moreover have "set ?T2 = dom (map_of (txs m))"
    using assms(1) by (auto simp: sync_inv_def)
  ultimately show ?thesis by blast
qed

subsection \<open>Raw transactions and blocks\<close>

definition raw_table :: "uint256 \<Rightarrow> int" where
  \<comment> \<open>\<open>HexToDecLast2Bytes(hash) % 64\<close>\<close>
  "raw_table h = HexToDecLast2Bytes (GetHex h) mod 64"

definition getTxHexByHash :: "log2db \<Rightarrow> uint256 \<Rightarrow> string res" where
  "getTxHexByHash d h =
     (case filter (\<lambda>r. fst r = h) (raw_txs d (raw_table h)) of
        [r] \<Rightarrow> Inr (snd r)
      | _ \<Rightarrow> Inl (Throw ''can't find rawtx''))"

definition insertRawTx :: "(CTransaction \<Rightarrow> uint256) \<Rightarrow> CTransaction \<Rightarrow> log2db \<Rightarrow> log2db" where
  \<comment> \<open>the returned row id is not used by any caller here\<close>
  "insertRawTx gh tx d =
     (let h = gh tx; i = raw_table h in
      if length (filter (\<lambda>r. fst r = h) (raw_txs d i)) = 1 then d
      else d\<lparr>raw_txs := (raw_txs d)(i := raw_txs d i @ [(h, EncodeHexTx tx)])\<rparr>)"

fun ins_desc :: "rawblock \<Rightarrow> rawblock list \<Rightarrow> rawblock list" where
  "ins_desc r [] = [r]"
| "ins_desc r (s # rs) = (if rb_chain_id r \<ge> rb_chain_id s then r # s # rs else s # ins_desc r rs)"

definition bump_chain_id :: "int \<Rightarrow> rawblock list \<Rightarrow> rawblock list res" where
  \<comment> \<open>\<open>chain_id = chain_id + 1\<close> for one row, under the unique key on height and \<open>chain_id\<close>\<close>
  "bump_chain_id i rows =
     (let upd = (\<lambda>r. if rb_id r = i then r\<lparr>rb_chain_id := rb_chain_id r + 1\<rparr> else r) in
      if distinct (map (\<lambda>r. (rb_height r, rb_chain_id r)) (map upd rows))
      then updateOrThrowEx 1 (map upd rows, int (length (filter (\<lambda>r. rb_id r = i) rows)))
      else Inl (Throw ''exec sql failure: duplicate entry''))"

definition insertRawBlock :: "blk_hash \<Rightarrow> CBlock \<Rightarrow> int \<Rightarrow> log2db \<Rightarrow> (int \<times> log2db) res" where
  "insertRawBlock bh blk height d =
     (let h = block_hash bh blk in
      case filter (\<lambda>r. rb_hash r = h) (raw_blocks d) of
        [r] \<Rightarrow> bindE (assertE ''atoi(row[2]) == height'' (rb_height r = height)) (\<lambda>_. Inr (rb_id r, d))
      | _ \<Rightarrow>
        (let same = foldr ins_desc (filter (\<lambda>r. rb_height r = height) (raw_blocks d)) [] in
         bindE (foldE bump_chain_id (map rb_id same) (raw_blocks d)) (\<lambda>rows.
         let i = raw_blocks_next_id d;
             rows' = rows @ [\<lparr>rb_id = i, rb_hash = h, rb_height = height, rb_chain_id = 0, rb_hex = EncodeHexBlock blk\<rparr>]
         in if distinct (map (\<lambda>r. (rb_height r, rb_chain_id r)) rows')
            then Inr (i, d\<lparr>raw_blocks := rows', raw_blocks_next_id := i + 1\<rparr>)
            else Inl (Throw ''exec sql failure: duplicate entry''))))"

subsection \<open>0\_explorer\_meta and 0\_txlogs2\<close>

definition update_meta :: "string \<Rightarrow> string \<Rightarrow> string \<Rightarrow> log2db \<Rightarrow> log2db \<times> int" where
  \<comment> \<open>\<open>UPDATE 0_explorer_meta SET value, updated_at WHERE key\<close>, with its affected rows\<close>
  "update_meta key val now d =
     (case explorer_meta d key of
        None \<Rightarrow> (d, 0)
      | Some r \<Rightarrow> (d\<lparr>explorer_meta := (explorer_meta d)(key \<mapsto> (val, now))\<rparr>, if r = (val, now) then 0 else 1))"

text \<open>\<open>IFNULL(MAX(batch_id), 0) + 1\<close>\<close>

definition next_batch :: "log2row list \<Rightarrow> int" where
  "next_batch rows = (if rows = [] then 0 else Max (batch_id ` set rows)) + 1"

text \<open>The columns of a row that the handlers fill in, and the insertion of a list of them.\<close>

record log2vals =
  v_type :: int
  v_height :: int
  v_block_id :: int
  v_max_ts :: int
  v_hash :: uint256

definition mk_row :: "int \<Rightarrow> int \<Rightarrow> log2vals \<Rightarrow> log2row" where
  "mk_row i b v = \<lparr>row_id = i, batch_id = b, row_type = v_type v, row_height = v_height v,
     row_block_id = v_block_id v, row_max_ts = v_max_ts v, row_hash = v_hash v\<rparr>"

fun mk_rows :: "int \<Rightarrow> int \<Rightarrow> log2vals list \<Rightarrow> log2row list" where
  "mk_rows i b [] = []"
| "mk_rows i b (v # vs) = mk_row i b v # mk_rows (i + 1) b vs"

definition insert_txlogs2 :: "int \<Rightarrow> log2vals list \<Rightarrow> log2db \<Rightarrow> log2db" where
  \<comment> \<open>\<open>multiInsert\<close> into the table with an AUTO\_INCREMENT key\<close>
  "insert_txlogs2 b vs d =
     d\<lparr>txlogs2 := txlogs2 d @ mk_rows (txlogs2_next_id d) b vs, txlogs2_next_id := txlogs2_next_id d + int (length vs)\<rparr>"

definition set_batch :: "int \<Rightarrow> log2db \<Rightarrow> log2db \<times> int" where
  \<comment> \<open>\<open>UPDATE 0_txlogs2 SET batch_id = b WHERE batch_id = -1\<close>\<close>
  "set_batch b d =
     (d\<lparr>txlogs2 := map (\<lambda>r. if batch_id r = - 1 then r\<lparr>batch_id := b\<rparr> else r) (txlogs2 d)\<rparr>,
      if b = - 1 then 0 else int (length (filter (\<lambda>r. batch_id r = - 1) (txlogs2 d))))"

definition delete_unfinished :: "log2db \<Rightarrow> log2db" where
  \<comment> \<open>\<open>DELETE FROM 0_txlogs2 WHERE batch_id = -1\<close>, the first statement of \<open>initLog2\<close>\<close>
  "delete_unfinished d = d\<lparr>txlogs2 := filter (\<lambda>r. batch_id r \<noteq> - 1) (txlogs2 d)\<rparr>"

definition batches_ok :: "log2row list \<Rightarrow> bool" where
  "batches_ok rows = (\<forall>r \<in> set rows. 0 \<le> batch_id r)"

lemma length_mk_rows [simp]: "length (mk_rows i b vs) = length vs"
  by (induction vs arbitrary: i) auto

lemma mk_rows_batch: "r \<in> set (mk_rows i b vs) \<Longrightarrow> batch_id r = b"
  by (induction vs arbitrary: i) (auto simp: mk_row_def)

lemma mk_rows_set_batch:
  "map (\<lambda>r. if batch_id r = c then r\<lparr>batch_id := b\<rparr> else r) (mk_rows i c vs) = mk_rows i b vs"
  by (induction vs arbitrary: i) (auto simp: mk_row_def)

lemma batches_ok_keep:
  "batches_ok rows \<Longrightarrow> map (\<lambda>r. if batch_id r = - 1 then r\<lparr>batch_id := b\<rparr> else r) rows = rows"
  "batches_ok rows \<Longrightarrow> filter (\<lambda>r. batch_id r = - 1) rows = []"
  "batches_ok rows \<Longrightarrow> filter (\<lambda>r. batch_id r \<noteq> - 1) rows = rows"
  unfolding batches_ok_def
  by (auto intro!: map_idI simp: filter_empty_conv filter_id_conv)

lemma filter_mk_rows: "filter (\<lambda>r. batch_id r = b) (mk_rows i b vs) = mk_rows i b vs"
  "b \<noteq> - 1 \<Longrightarrow> filter (\<lambda>r. batch_id r \<noteq> - 1) (mk_rows i b vs) = mk_rows i b vs"
  "filter (\<lambda>r. batch_id r \<noteq> - 1) (mk_rows i (- 1) vs) = []"
  by (auto simp: filter_id_conv filter_empty_conv dest: mk_rows_batch)

text \<open>
  The batch number the next commit gives out: larger than every finished batch, and not
  negative. Rows of an unfinished batch (-1) in the table do not disturb it.
\<close>

lemma next_batch_fresh:
  assumes "batches_ok rows"
  shows "0 \<le> next_batch (rows @ mk_rows i (- 1) vs)" "r \<in> set rows \<Longrightarrow> batch_id r < next_batch (rows @ mk_rows i (- 1) vs)"
proof -
  let ?all = "rows @ mk_rows i (- 1) vs"
  have le: "batch_id r \<le> Max (batch_id ` set ?all)" if "r \<in> set ?all" for r
    using that by (intro Max_ge) auto
  show "batch_id r < next_batch ?all" if "r \<in> set rows"
    using le [of r] that by (auto simp: next_batch_def)
  show "0 \<le> next_batch ?all"
  proof (cases "?all = []")
    case True
    then show ?thesis by (simp add: next_batch_def)
  next
    case False
    then obtain r where r: "r \<in> set ?all" by (cases ?all) auto
    then have "- 1 \<le> batch_id r" using assms by (auto simp: batches_ok_def dest: mk_rows_batch)
    with le [OF r] False show ?thesis by (simp add: next_batch_def)
  qed
qed

subsection \<open>Properties\<close>

text \<open>
  C27. \<open>syncToDB\<close> makes the table \<open>0_memrepo_txs\<close> the pool: from any table that differs from
  the pool by the pending insertions and deletions, it returns with no change pending and the
  table holding exactly the pool's hashes, each once, however many statements the deletions
  take.
\<close>

theorem syncToDB_pool:
  assumes "sync_inv m (memrepo_txs d)" and "ss_wf (unSyncTxsInsert m)" and "ss_wf (unSyncTxsDelete m)"
  shows "\<exists>T. syncToDB m d = Inr (m\<lparr>unSyncTxsInsert := [], unSyncTxsDelete := []\<rparr>, d\<lparr>memrepo_txs := T\<rparr>) \<and>
     distinct T \<and> set T = dom (map_of (txs m))"
  using assms by (rule syncToDB_ok)

theorem syncToDB_pool_witness:
  "let m = \<lparr>txs = [(2, CTransaction_null), (5, CTransaction_null)], spentOutputs = [], unSyncTxsDelete = [1, 7], unSyncTxsInsert = [5, 7]\<rparr>;
     d = \<lparr>txlogs2 = [], txlogs2_next_id = 1, memrepo_txs = [2, 1], raw_txs = (\<lambda>_. []), raw_blocks = [], raw_blocks_next_id = 1,
       explorer_meta = Map.empty\<rparr> in
   \<exists>T. syncToDB m d = Inr (m\<lparr>unSyncTxsInsert := [], unSyncTxsDelete := []\<rparr>, d\<lparr>memrepo_txs := T\<rparr>) \<and>
     distinct T \<and> set T = dom (map_of (txs m))"
  unfolding Let_def by (rule syncToDB_pool) (auto simp: sync_inv_def split: if_splits)

text \<open>
  The batch number a commit gives out is larger than that of every finished batch and never
  negative, also while rows of an unfinished batch are in the table; the update then turns
  exactly the unfinished rows into that batch.
\<close>

lemma commit_batch_fresh:
  assumes "batches_ok old" and "txlogs2 d = old @ mk_rows i (- 1) vs" and "b = next_batch (txlogs2 d)"
  shows "0 \<le> b \<and> (\<forall>r \<in> set old. batch_id r < b) \<and>
     set_batch b d = (d\<lparr>txlogs2 := old @ mk_rows i b vs\<rparr>, int (length vs))"
  using next_batch_fresh(1) [OF assms(1), of i vs] next_batch_fresh(2) [OF assms(1), of _ i vs] assms(2,3)
  by (simp add: set_batch_def batches_ok_keep [OF assms(1)] mk_rows_set_batch filter_mk_rows)

end
