(* ===== verification/Log2Producer.thy ===== *)
theory Log2Producer
  imports Log2DB
begin

text \<open>
  \<open>Log2Producer\<close> (src/jiexi/src/Log2Producer.cc): the handlers that turn the lines of log1
  into rows of \<open>0_txlogs2\<close>.

  The state is the memory pool, the database, the block timestamps, the current block, the
  position in log1 and the two static variables of \<open>updateLog1FileStatus\<close>. Each handler is
  one definition with the calls of the code in their order; it gives the state after its
  last \<open>COMMIT\<close>, or the exception that ends the program.
\<close>

record log2env =
  e_gh :: "CTransaction \<Rightarrow> uint256"
  e_bh :: blk_hash
  e_now :: string

record log2 =
  l2_mem :: memrepo
  l2_db :: log2db
  l2_ts :: blockts
  l2_height :: int
  l2_hash :: uint256
  l2_log1FileIndex :: int
  l2_currLog1FileOffset :: int
  l2_st_index :: int
  l2_st_offset :: int

definition updateLog1FileStatus :: "log2env \<Rightarrow> log2 \<Rightarrow> log2 res" where
  "updateLog1FileStatus E s =
     bindE (if l2_st_index s \<noteq> l2_log1FileIndex s
            then bindE (updateOrThrowEx 0 (update_meta ''log2producer.log1file.index''
                          (fmt_d (l2_log1FileIndex s)) (e_now E) (l2_db s)))
                   (\<lambda>d. Inr (s\<lparr>l2_db := d, l2_st_index := l2_log1FileIndex s\<rparr>))
            else Inr s) (\<lambda>s1.
     if l2_st_offset s1 \<noteq> l2_currLog1FileOffset s1
     then bindE (updateOrThrowEx 1 (update_meta ''log2producer.log1file.offset''
                   (fmt_d (l2_currLog1FileOffset s1)) (e_now E) (l2_db s1)))
            (\<lambda>d. Inr (s1\<lparr>l2_db := d, l2_st_offset := l2_currLog1FileOffset s1\<rparr>))
     else Inr s1)"

definition commit_rest :: "log2env \<Rightarrow> log2 \<Rightarrow> log2 res" where
  \<comment> \<open>\<open>memRepo_.syncToDB(db_); updateLog1FileStatus(); COMMIT\<close>\<close>
  "commit_rest E s =
     bindE (syncToDB (l2_mem s) (l2_db s)) (\<lambda>(m, d). updateLog1FileStatus E (s\<lparr>l2_mem := m, l2_db := d\<rparr>))"

definition commitBatch :: "log2env \<Rightarrow> nat \<Rightarrow> log2 \<Rightarrow> log2 res" where
  "commitBatch E expectAffectedRows s =
     (let nextBatchID = next_batch (txlogs2 (l2_db s)) in
      bindE (updateOrThrowEx (to_int32 (int expectAffectedRows)) (set_batch nextBatchID (l2_db s))) (\<lambda>d.
      commit_rest E (s\<lparr>l2_db := d\<rparr>)))"

definition reject_vals :: "uint256 \<Rightarrow> log2vals" where
  "reject_vals h = \<lparr>v_type = LOG2TYPE_TX_REJECT, v_height = - 1, v_block_id = - 1, v_max_ts = 0, v_hash = h\<rparr>"

definition handleTxAccept :: "log2env \<Rightarrow> CTransaction \<Rightarrow> log2 \<Rightarrow> log2 res" where
  "handleTxAccept E tx s =
     (let hash = e_gh E tx in
      if isExist (l2_mem s) hash then Inr s
      else bindE (addTx (e_gh E) tx (l2_mem s)) (\<lambda>(res, m).
        if \<not> res then Inr (s\<lparr>l2_mem := m\<rparr>)
        else
          let d = insertRawTx (e_gh E) tx (l2_db s);
              v = \<lparr>v_type = LOG2TYPE_TX_ACCEPT, v_height = - 1, v_block_id = - 1,
                   v_max_ts = getMaxTimestamp (l2_ts s), v_hash = hash\<rparr>
          in commit_rest E (s\<lparr>l2_mem := m, l2_db := insert_txlogs2 (next_batch (txlogs2 d)) [v] d\<rparr>)))"

definition handleTxReject :: "log2env \<Rightarrow> CTransaction \<Rightarrow> log2 \<Rightarrow> log2 res" where
  "handleTxReject E tx s =
     (let hash = e_gh E tx in
      if \<not> isExist (l2_mem s) hash then Inr s
      else
        let d = insertRawTx (e_gh E) tx (l2_db s) in
        case removeTxAndChildTx (e_gh E) tx [] (l2_mem s) of
          None \<Rightarrow> Inl NoReturn
        | Some r \<Rightarrow> bindE r (\<lambda>(removeHashes, m).
            let values = map reject_vals removeHashes in
            commitBatch E (length values) (s\<lparr>l2_mem := m, l2_db := insert_txlogs2 (- 1) values d\<rparr>)))"

text \<open>
  The first loop of \<open>handleBlockAccept\<close>: every transaction of the block but the coinbase goes
  through the pool; those the pool had already are remembered, conflicting ones are evicted.
\<close>

definition block_tx_step ::
  "(CTransaction \<Rightarrow> uint256) \<Rightarrow> CTransaction \<Rightarrow> uint256 list \<times> uint256 sset \<times> uint256 list \<times> memrepo \<Rightarrow>
     (uint256 list \<times> uint256 sset \<times> uint256 list \<times> memrepo) res" where
  "block_tx_step gh tx st =
     (let (txHashs, already, conflictTxs, m) = st in
      if IsCoinBase tx then Inr st
      else let txhash = gh tx; txHashs' = txHashs @ [txhash] in
        if isExist m txhash then Inr (txHashs', ss_ins txhash already, conflictTxs, m)
        else case add_evicting gh tx conflictTxs m of
               None \<Rightarrow> Inl NoReturn
             | Some r \<Rightarrow> bindE r (\<lambda>(conflictTxs', m'). Inr (txHashs', already, conflictTxs', m')))"

definition confirm_vals :: "int \<Rightarrow> int \<Rightarrow> int \<Rightarrow> int \<Rightarrow> uint256 \<Rightarrow> log2vals" where
  "confirm_vals ty height blockId ts h =
     \<lparr>v_type = ty, v_height = height, v_block_id = blockId, v_max_ts = ts, v_hash = h\<rparr>"

definition block_rows ::
  "(CTransaction \<Rightarrow> uint256) \<Rightarrow> uint256 list \<Rightarrow> uint256 sset \<Rightarrow> int \<Rightarrow> int \<Rightarrow> int \<Rightarrow> CTransaction list \<Rightarrow> log2vals list" where
  "block_rows gh conflictTxs already height blockId ts vt =
     map reject_vals conflictTxs @
     concat (map (\<lambda>tx.
       (if gh tx \<notin> set already
        then [\<lparr>v_type = LOG2TYPE_TX_ACCEPT, v_height = - 1, v_block_id = - 1, v_max_ts = ts, v_hash = gh tx\<rparr>]
        else []) @
       [confirm_vals LOG2TYPE_TX_CONFIRM height blockId ts (gh tx)]) vt)"

definition handleBlockAccept :: "log2env \<Rightarrow> int \<Rightarrow> CBlock \<Rightarrow> log2 \<Rightarrow> log2 res" where
  "handleBlockAccept E height blk s =
     bindE (pushBlock height (GetBlockTime blk) (l2_ts s)) (\<lambda>ts.
     bindE (foldE (block_tx_step (e_gh E)) (vtx blk) ([], [], [], l2_mem s)) (\<lambda>(txHashs, already, conflictTxs, m1).
     bindE (assertE ''conflictTxsSet.size() == conflictTxs.size()''
              (length conflictTxs = 0 \<or> length (ss_of_list conflictTxs) = length conflictTxs)) (\<lambda>_.
     bindE (removeTxs txHashs m1) (\<lambda>m2.
     bindE (insertRawBlock (e_bh E) blk height (l2_db s)) (\<lambda>(blockId, d1).
     let d2 = fold (insertRawTx (e_gh E)) (vtx blk) d1;
         values = block_rows (e_gh E) conflictTxs already height blockId (getMaxTimestamp ts) (vtx blk)
     in commitBatch E (length values)
          (s\<lparr>l2_mem := m2, l2_ts := ts, l2_db := insert_txlogs2 (- 1) values d2\<rparr>))))))"

definition clearMempoolTxs :: "log2env \<Rightarrow> log2 \<Rightarrow> log2 res" where
  "clearMempoolTxs E s =
     (case clear_pool (e_gh E) [] (l2_mem s) of
        None \<Rightarrow> Inl NoReturn
      | Some r \<Rightarrow> bindE r (\<lambda>(hashes, m).
          let values = map reject_vals hashes in
          bindE (commitBatch E (length values) (s\<lparr>l2_mem := m, l2_db := insert_txlogs2 (- 1) values (l2_db s)\<rparr>)) (\<lambda>s'.
          if length (memrepo_txs (l2_db s')) \<noteq> 0 then Inl (Throw ''table.0_memrepo_txs SHOULD be empty'')
          else Inr s')))"

definition rollback_add :: "(CTransaction \<Rightarrow> uint256) \<Rightarrow> CTransaction \<Rightarrow> memrepo \<Rightarrow> memrepo res" where
  "rollback_add gh tx m =
     (if IsCoinBase tx then Inr m
      else bindE (addTx gh tx m) (\<lambda>(ok, m').
        if ok then Inr m' else Inl (Throw ''thare are conflict txs, should not happened'')))"

definition rollback_rows :: "(CTransaction \<Rightarrow> uint256) \<Rightarrow> int \<Rightarrow> int \<Rightarrow> int \<Rightarrow> CTransaction list \<Rightarrow> log2vals list" where
  "rollback_rows gh height blockId ts vt =
     map (\<lambda>tx. confirm_vals LOG2TYPE_TX_UNCONFIRM height blockId ts (gh tx)) (rev vt) @
     [confirm_vals LOG2TYPE_TX_REJECT height blockId ts (gh (hd vt))]"

definition handleBlockRollback :: "log2env \<Rightarrow> int \<Rightarrow> CBlock \<Rightarrow> log2 \<Rightarrow> log2 res" where
  "handleBlockRollback E height blk s =
     bindE (foldE (rollback_add (e_gh E)) (rev (vtx blk)) (l2_mem s)) (\<lambda>m.
     bindE (insertRawBlock (e_bh E) blk height (l2_db s)) (\<lambda>(blockId, d).
     if vtx blk = [] then Inl (UB ''blk.vtx[0]'') else
     let values = rollback_rows (e_gh E) height blockId (getMaxTimestamp (l2_ts s)) (vtx blk) in
     bindE (popBlock (l2_ts s)) (\<lambda>ts.
     commitBatch E (length values) (s\<lparr>l2_mem := m, l2_ts := ts, l2_db := insert_txlogs2 (- 1) values d\<rparr>))))"

definition getBlockByHash :: "uint256 \<Rightarrow> log2db \<Rightarrow> CBlock res" where
  "getBlockByHash hash d =
     (case filter (\<lambda>r. rb_hash r = hash) (raw_blocks d) of
        [r] \<Rightarrow> (case DecodeHexBlk (rb_hex r) of
                  None \<Rightarrow> Inl (Throw ''decode block fail'')
                | Some b \<Rightarrow> Inr b)
      | _ \<Rightarrow> Inl (AssertFail ''res.numRows() == 1''))"

definition handleBlock :: "log2env \<Rightarrow> log1 \<Rightarrow> log2 \<Rightarrow> log2 res" where
  "handleBlock E item s =
     (let h = l_blockHeight item in
      bindE
        (if h > l2_height s then
           bindE (assertE ''log1Item.blockHeight_ == currBlockHeight_ + 1'' (h = l2_height s + 1)) (\<lambda>_.
           bindE (getBlock (e_bh E) item) (\<lambda>(blk, item).
           bindE (handleBlockAccept E h blk s) (\<lambda>s'. Inr (item, s'))))
         else if h < l2_height s then
           bindE (assertE ''log1Item.blockHeight_ + 1 == currBlockHeight_'' (h + 1 = l2_height s)) (\<lambda>_.
           bindE (getBlockByHash (l2_hash s) (l2_db s)) (\<lambda>currBlock.
           bindE (getBlock (e_bh E) item) (\<lambda>(blk, item).
           bindE (assertE ''currBlock.hashPrevBlock == log1Item.getBlock().GetHash()''
                    (hashPrevBlock currBlock = block_hash (e_bh E) blk)) (\<lambda>_.
           bindE (handleBlockRollback E (l2_height s) currBlock s) (\<lambda>s'. Inr (item, s'))))))
         else Inl (Throw ''block are same height''))
        (\<lambda>(item, s').
         bindE (getBlock (e_bh E) item) (\<lambda>(blk, _).
         Inr (s'\<lparr>l2_height := h, l2_hash := block_hash (e_bh E) blk\<rparr>))))"

definition log2_run_line :: "log2env \<Rightarrow> string \<times> int \<Rightarrow> log2 \<Rightarrow> log2 res" where
  \<comment> \<open>one line of log1 with the offset after it\<close>
  "log2_run_line E l s0 =
     (let s = s0\<lparr>l2_currLog1FileOffset := snd l\<rparr> in
      bindE (Log1_parse (fst l)) (\<lambda>item.
      if isAcceptTx item then bindE (getTx (e_gh E) item) (\<lambda>(tx, _). handleTxAccept E tx s)
      else if isRemoveTx item then bindE (getTx (e_gh E) item) (\<lambda>(tx, _). handleTxReject E tx s)
      else if isBlock item then handleBlock E item s
      else if isClearMemtxs item then clearMempoolTxs E s
      else Inl (Throw ''invalid log1 type'')))"

definition log2_run_lines :: "log2env \<Rightarrow> (string \<times> int) list \<Rightarrow> log2 \<Rightarrow> log2 res" where
  "log2_run_lines E ls s = foldE (log2_run_line E) ls s"

definition load_memrepo_tx :: "(CTransaction \<Rightarrow> uint256) \<Rightarrow> log2db \<Rightarrow> uint256 \<Rightarrow> memrepo \<Rightarrow> memrepo res" where
  "load_memrepo_tx gh d hash m =
     bindE (getTxHexByHash d hash) (\<lambda>txHex.
     case DecodeHexTx txHex of
       None \<Rightarrow> Inl (Throw ''decode tx failure'')
     | Some tx \<Rightarrow> bindE (addTx gh tx m) (\<lambda>(ok, m').
         if ok then Inr m' else Inl (Throw ''add tx to mem repo fail'')))"

definition initLog2_loadMemrepoTxs :: "(CTransaction \<Rightarrow> uint256) \<Rightarrow> log2db \<Rightarrow> memrepo \<Rightarrow> memrepo res" where
  \<comment> \<open>\<open>ORDER BY position\<close> is insertion order; an empty table returns before \<open>ignoreUnsyncData\<close>\<close>
  "initLog2_loadMemrepoTxs gh d m =
     (if length (memrepo_txs d) = 0 then Inr m
      else bindE (foldE (load_memrepo_tx gh d) (memrepo_txs d) m) (\<lambda>m'. Inr (ignoreUnsyncData m')))"

end
