(* ===== verification/TxHistory.thy ===== *)
theory TxHistory
  imports Log2Producer
begin

text \<open>
  What \<open>log2producer\<close> promises to \<open>tparser\<close> (the comment in src/jiexi/src/Log2Producer.h): the
  rows of \<open>0_txlogs2\<close> move every transaction through
  accept -> reject or accept -> confirm -> unconfirm -> reject, and nothing else.

  \<open>tx_trans\<close> is that state machine and \<open>legal\<close> a history of rows that obeys it. Each handler is
  shown to add a legal piece of history, under the conditions a valid block satisfies, and
  to leave the memory pool equal to the set of unconfirmed transactions of the history and
  the table \<open>0_memrepo_txs\<close> equal to the pool.
\<close>

datatype txstate = Absent | Unconfirmed | Confirmed

inductive tx_trans :: "txstate \<Rightarrow> int \<Rightarrow> txstate \<Rightarrow> bool" where
  accept: "tx_trans Absent LOG2TYPE_TX_ACCEPT Unconfirmed"
| confirm: "tx_trans Unconfirmed LOG2TYPE_TX_CONFIRM Confirmed"
| unconfirm: "tx_trans Confirmed LOG2TYPE_TX_UNCONFIRM Unconfirmed"
| reject: "tx_trans Unconfirmed LOG2TYPE_TX_REJECT Absent"

inductive legal :: "(uint256 \<Rightarrow> txstate) \<Rightarrow> (int \<times> uint256) list \<Rightarrow> (uint256 \<Rightarrow> txstate) \<Rightarrow> bool" where
  none: "legal \<sigma> [] \<sigma>"
| row: "tx_trans (\<sigma> h) ty x \<Longrightarrow> legal (\<sigma>(h := x)) rows \<tau> \<Longrightarrow> legal \<sigma> ((ty, h) # rows) \<tau>"

inductive_simps tx_trans_simps: "tx_trans x ty y"
inductive_simps legal_Nil [simp]: "legal \<sigma> [] \<tau>"
inductive_simps legal_Cons: "legal \<sigma> ((ty, h) # rows) \<tau>"

definition event :: "log2row \<Rightarrow> int \<times> uint256" where
  "event r = (row_type r, row_hash r)"

definition vevent :: "log2vals \<Rightarrow> int \<times> uint256" where
  "vevent v = (v_type v, v_hash v)"

lemma events_mk_rows: "map event (mk_rows i b vs) = map vevent vs"
  by (induction vs arbitrary: i) (auto simp: event_def vevent_def mk_row_def)

lemma legal_append: "legal \<sigma> xs \<tau> \<Longrightarrow> legal \<tau> ys \<upsilon> \<Longrightarrow> legal \<sigma> (xs @ ys) \<upsilon>"
  by (induction rule: legal.induct) (auto intro: legal.intros)

lemma tx_trans_det: "tx_trans x ty y \<Longrightarrow> tx_trans x ty z \<Longrightarrow> y = z"
  by (auto simp: tx_trans_simps log2_types)

lemma legal_det: "legal \<sigma> rows \<tau> \<Longrightarrow> legal \<sigma> rows \<upsilon> \<Longrightarrow> \<tau> = \<upsilon>"
proof (induction rule: legal.induct)
  case (row \<sigma> h ty x rows \<tau>)
  from row.prems obtain y where "tx_trans (\<sigma> h) ty y" "legal (\<sigma>(h := y)) rows \<upsilon>"
    by (auto simp: legal_Cons)
  with row tx_trans_det show ?case by blast
qed simp

subsection \<open>Pieces of history\<close>

lemma vevent_simps [simp]:
  "vevent (reject_vals h) = (LOG2TYPE_TX_REJECT, h)"
  "vevent (confirm_vals ty height bid mts h) = (ty, h)"
  "vevent \<lparr>v_type = ty, v_height = a, v_block_id = b, v_max_ts = c, v_hash = h\<rparr> = (ty, h)"
  by (simp_all add: vevent_def reject_vals_def confirm_vals_def)

lemma legal_all:
  assumes "tx_trans x ty y" and "distinct hs" and "\<forall>h \<in> set hs. \<sigma> h = x"
  shows "legal \<sigma> (map (Pair ty) hs) (\<lambda>h. if h \<in> set hs then y else \<sigma> h)"
  using assms(2,3)
proof (induction hs arbitrary: \<sigma>)
  case (Cons h hs)
  have "(\<lambda>g. if g \<in> set hs then y else (\<sigma>(h := y)) g) = (\<lambda>g. if g \<in> set (h # hs) then y else \<sigma> g)"
    by auto
  moreover have "legal (\<sigma>(h := y)) (map (Pair ty) hs) (\<lambda>g. if g \<in> set hs then y else (\<sigma>(h := y)) g)"
    using Cons.prems by (intro Cons.IH) auto
  ultimately have "legal (\<sigma>(h := y)) (map (Pair ty) hs) (\<lambda>g. if g \<in> set (h # hs) then y else \<sigma> g)"
    by (simp only:)
  moreover have "tx_trans (\<sigma> h) ty y" using Cons.prems assms(1) by simp
  ultimately show ?case by (simp only: list.map) (rule legal.row)
qed simp

definition block_events :: "uint256 list \<Rightarrow> uint256 list \<Rightarrow> (int \<times> uint256) list" where
  "block_events already hs = concat (map (\<lambda>h.
     (if h \<notin> set already then [(LOG2TYPE_TX_ACCEPT, h)] else []) @ [(LOG2TYPE_TX_CONFIRM, h)]) hs)"

lemma events_block_rows:
  "map vevent (block_rows gh cs already height bid mts vt) =
     map (Pair LOG2TYPE_TX_REJECT) cs @ block_events already (map gh vt)"
  by (induction vt) (auto simp: block_rows_def block_events_def)

lemma events_rollback_rows:
  "map vevent (rollback_rows gh height bid mts vt) =
     map (Pair LOG2TYPE_TX_UNCONFIRM) (rev (map gh vt)) @ [(LOG2TYPE_TX_REJECT, gh (hd vt))]"
  by (simp add: rollback_rows_def rev_map)

lemma legal_block:
  assumes "distinct hs" and "\<forall>h \<in> set hs. \<sigma> h = (if h \<in> set already then Unconfirmed else Absent)"
  shows "legal \<sigma> (block_events already hs) (\<lambda>h. if h \<in> set hs then Confirmed else \<sigma> h)"
  using assms
proof (induction hs arbitrary: \<sigma>)
  case (Cons h hs)
  let ?s = "\<sigma>(h := Confirmed)"
  have "(\<lambda>g. if g \<in> set hs then Confirmed else ?s g) = (\<lambda>g. if g \<in> set (h # hs) then Confirmed else \<sigma> g)"
    by auto
  moreover have "legal ?s (block_events already hs) (\<lambda>g. if g \<in> set hs then Confirmed else ?s g)"
    using Cons.prems by (intro Cons.IH) auto
  ultimately have rest: "legal ?s (block_events already hs) (\<lambda>g. if g \<in> set (h # hs) then Confirmed else \<sigma> g)"
    by (simp only:)
  show ?case
  proof (cases "h \<in> set already")
    case True
    then have "tx_trans (\<sigma> h) LOG2TYPE_TX_CONFIRM Confirmed" using Cons.prems confirm by simp
    from legal.row [OF this rest] True show ?thesis by (simp add: block_events_def)
  next
    case False
    then have acc: "tx_trans (\<sigma> h) LOG2TYPE_TX_ACCEPT Unconfirmed" using Cons.prems accept by simp
    have "tx_trans ((\<sigma>(h := Unconfirmed)) h) LOG2TYPE_TX_CONFIRM Confirmed" using confirm by simp
    moreover have "(\<sigma>(h := Unconfirmed))(h := Confirmed) = ?s" by simp
    ultimately have "legal (\<sigma>(h := Unconfirmed)) ((LOG2TYPE_TX_CONFIRM, h) # block_events already hs)
        (\<lambda>g. if g \<in> set (h # hs) then Confirmed else \<sigma> g)"
      using rest legal.row [of "\<sigma>(h := Unconfirmed)" h LOG2TYPE_TX_CONFIRM Confirmed] by simp
    from legal.row [OF acc this] False show ?thesis by (simp add: block_events_def)
  qed
qed (simp add: block_events_def)

lemma legal_rollback:
  assumes "distinct hs" and "\<forall>h \<in> set hs. \<sigma> h = Confirmed" and "hs \<noteq> []"
  shows "legal \<sigma> (map (Pair LOG2TYPE_TX_UNCONFIRM) (rev hs) @ [(LOG2TYPE_TX_REJECT, hd hs)])
     (\<lambda>h. if h = hd hs then Absent else if h \<in> set hs then Unconfirmed else \<sigma> h)"
proof -
  let ?t = "\<lambda>h. if h \<in> set hs then Unconfirmed else \<sigma> h"
  have "legal \<sigma> (map (Pair LOG2TYPE_TX_UNCONFIRM) (rev hs)) ?t"
    using legal_all [OF unconfirm, of "rev hs" \<sigma>] assms by simp
  moreover have "tx_trans (?t (hd hs)) LOG2TYPE_TX_REJECT Absent" using assms(3) reject by simp
  then have "legal ?t [(LOG2TYPE_TX_REJECT, hd hs)] (?t(hd hs := Absent))"
    by (rule legal.row [of ?t "hd hs"]) (rule legal.none)
  ultimately have "legal \<sigma> (map (Pair LOG2TYPE_TX_UNCONFIRM) (rev hs) @ [(LOG2TYPE_TX_REJECT, hd hs)])
      (?t(hd hs := Absent))" by (rule legal_append)
  moreover have "?t(hd hs := Absent) =
      (\<lambda>h. if h = hd hs then Absent else if h \<in> set hs then Unconfirmed else \<sigma> h)" by auto
  ultimately show ?thesis by (simp only:)
qed

subsection \<open>Committing a batch\<close>

text \<open>
  Between two log lines: nothing of the pool is left to write, the table holds the hashes of
  the pool, and no unfinished batch is in the table.
\<close>

definition synced :: "(CTransaction \<Rightarrow> uint256) \<Rightarrow> log2 \<Rightarrow> bool" where
  "synced gh s = (mem_inv gh (l2_mem s) \<and> unSyncTxsInsert (l2_mem s) = [] \<and> unSyncTxsDelete (l2_mem s) = [] \<and>
     distinct (memrepo_txs (l2_db s)) \<and> set (memrepo_txs (l2_db s)) = dom (map_of (txs (l2_mem s))) \<and>
     batches_ok (txlogs2 (l2_db s)))"

text \<open>
  The position in log1 can be recorded: both rows exist, and writing the offset changes its
  row (a row that does not change is not counted as affected).
\<close>

definition meta_ok :: "log2env \<Rightarrow> log2 \<Rightarrow> bool" where
  "meta_ok E s = (explorer_meta (l2_db s) ''log2producer.log1file.index'' \<noteq> None \<and>
     (\<exists>r. explorer_meta (l2_db s) ''log2producer.log1file.offset'' = Some r \<and>
        (l2_st_offset s = l2_currLog1FileOffset s \<or> r \<noteq> (fmt_d (l2_currLog1FileOffset s), e_now E))))"

text \<open>The parts of the state that recording the position leaves alone.\<close>

definition same_but_meta :: "log2 \<Rightarrow> log2 \<Rightarrow> bool" where
  "same_but_meta s s' = (l2_mem s' = l2_mem s \<and> l2_ts s' = l2_ts s \<and> l2_height s' = l2_height s \<and>
     l2_hash s' = l2_hash s \<and> l2_db s' = (l2_db s)\<lparr>explorer_meta := explorer_meta (l2_db s')\<rparr>)"

lemma updateLog1FileStatus_ok:
  assumes "meta_ok E s"
  shows "\<exists>s'. updateLog1FileStatus E s = Inr s' \<and> same_but_meta s s' \<and>
     l2_st_offset s' = l2_currLog1FileOffset s \<and> l2_st_index s' = l2_log1FileIndex s"
proof -
  have ne: "''log2producer.log1file.index'' \<noteq> ''log2producer.log1file.offset''" by simp
  show ?thesis
    using assms ne
    by (auto simp: updateLog1FileStatus_def update_meta_def updateOrThrowEx_def meta_ok_def same_but_meta_def)
qed

lemma commit_rest_ok:
  assumes "mem_inv gh (l2_mem s)" and "sync_inv (l2_mem s) (memrepo_txs (l2_db s))" and "meta_ok E s"
    and "batches_ok (txlogs2 (l2_db s))"
  shows "\<exists>s'. commit_rest E s = Inr s' \<and> synced gh s' \<and>
     l2_mem s' = (l2_mem s)\<lparr>unSyncTxsInsert := [], unSyncTxsDelete := []\<rparr> \<and>
     txlogs2 (l2_db s') = txlogs2 (l2_db s) \<and> raw_txs (l2_db s') = raw_txs (l2_db s) \<and>
     raw_blocks (l2_db s') = raw_blocks (l2_db s) \<and> l2_ts s' = l2_ts s \<and>
     l2_height s' = l2_height s \<and> l2_hash s' = l2_hash s"
proof -
  have wf: "ss_wf (unSyncTxsInsert (l2_mem s))" "ss_wf (unSyncTxsDelete (l2_mem s))"
    using assms(1) by (auto simp: mem_inv_def)
  obtain T where T: "syncToDB (l2_mem s) (l2_db s) =
      Inr ((l2_mem s)\<lparr>unSyncTxsInsert := [], unSyncTxsDelete := []\<rparr>, (l2_db s)\<lparr>memrepo_txs := T\<rparr>)"
    "distinct T" "set T = dom (map_of (txs (l2_mem s)))"
    using syncToDB_ok [OF assms(2) wf] by blast
  define s1 where "s1 = s\<lparr>l2_mem := (l2_mem s)\<lparr>unSyncTxsInsert := [], unSyncTxsDelete := []\<rparr>,
      l2_db := (l2_db s)\<lparr>memrepo_txs := T\<rparr>\<rparr>"
  have "meta_ok E s1" using assms(3) by (simp add: meta_ok_def s1_def)
  then obtain s' where s': "updateLog1FileStatus E s1 = Inr s'" "same_but_meta s1 s'"
    using updateLog1FileStatus_ok by blast
  have "mem_inv gh (l2_mem s1)" using assms(1) by (simp add: mem_inv_def s1_def)
  moreover have "commit_rest E s = Inr s'" using T(1) s'(1) by (simp add: commit_rest_def s1_def)
  moreover have "txlogs2 (l2_db s') = txlogs2 (l2_db s) \<and> raw_txs (l2_db s') = raw_txs (l2_db s) \<and>
     raw_blocks (l2_db s') = raw_blocks (l2_db s) \<and> memrepo_txs (l2_db s') = T"
  proof -
    have eq: "l2_db s' = (l2_db s1)\<lparr>explorer_meta := explorer_meta (l2_db s')\<rparr>"
      using s'(2) by (simp add: same_but_meta_def)
    show ?thesis
      using arg_cong [OF eq, of txlogs2] arg_cong [OF eq, of raw_txs] arg_cong [OF eq, of raw_blocks]
        arg_cong [OF eq, of memrepo_txs] by (simp add: s1_def)
  qed
  ultimately show ?thesis
    using s' T(2,3) assms(4)
    by (intro exI [of _ s'] conjI) (simp_all add: synced_def same_but_meta_def s1_def)
qed

lemma commitBatch_ok:
  assumes "mem_inv gh (l2_mem s)" and "sync_inv (l2_mem s) (memrepo_txs (l2_db s))" and "meta_ok E s"
    and rows: "txlogs2 (l2_db s) = old @ mk_rows i (- 1) vs" and old: "batches_ok old" and "length vs < 2 ^ 31"
  shows "\<exists>s' b. commitBatch E (length vs) s = Inr s' \<and> synced gh s' \<and>
     l2_mem s' = (l2_mem s)\<lparr>unSyncTxsInsert := [], unSyncTxsDelete := []\<rparr> \<and>
     txlogs2 (l2_db s') = old @ mk_rows i b vs \<and> (\<forall>r \<in> set old. batch_id r < b) \<and>
     raw_txs (l2_db s') = raw_txs (l2_db s) \<and> raw_blocks (l2_db s') = raw_blocks (l2_db s) \<and>
     l2_ts s' = l2_ts s \<and> l2_height s' = l2_height s \<and> l2_hash s' = l2_hash s"
proof -
  define b where "b = next_batch (txlogs2 (l2_db s))"
  have b: "0 \<le> b" "\<And>r. r \<in> set old \<Longrightarrow> batch_id r < b"
    using next_batch_fresh(1) [OF old, of i vs] next_batch_fresh(2) [OF old, of _ i vs] by (auto simp: b_def rows)
  define d where "d = (l2_db s)\<lparr>txlogs2 := old @ mk_rows i b vs\<rparr>"
  have "set_batch b (l2_db s) = (d, int (length vs))"
    using b(1) by (simp add: set_batch_def rows d_def batches_ok_keep [OF old] mk_rows_set_batch filter_mk_rows)
  moreover have "to_int32 (int (length vs)) = int (length vs)"
    using assms(6) by (intro to_int32_id) auto
  ultimately have cb: "commitBatch E (length vs) s = commit_rest E (s\<lparr>l2_db := d\<rparr>)"
    by (simp add: commitBatch_def updateOrThrowEx_def b_def Let_def)
  have "batches_ok (old @ mk_rows i b vs)"
    using old b(1) by (auto simp: batches_ok_def dest: mk_rows_batch)
  moreover have "meta_ok E (s\<lparr>l2_db := d\<rparr>)" using assms(3) by (simp add: meta_ok_def d_def)
  ultimately obtain s' where "commit_rest E (s\<lparr>l2_db := d\<rparr>) = Inr s'" "synced gh s'"
    "l2_mem s' = (l2_mem s)\<lparr>unSyncTxsInsert := [], unSyncTxsDelete := []\<rparr>"
    "txlogs2 (l2_db s') = old @ mk_rows i b vs" "raw_txs (l2_db s') = raw_txs (l2_db s)"
    "raw_blocks (l2_db s') = raw_blocks (l2_db s)"
    "l2_ts s' = l2_ts s" "l2_height s' = l2_height s" "l2_hash s' = l2_hash s"
    using commit_rest_ok [of gh "s\<lparr>l2_db := d\<rparr>" E] assms(1,2) by (auto simp: d_def)
  with cb b(2) show ?thesis by (intro exI [of _ s'] exI [of _ b] conjI) simp_all
qed

definition agrees :: "(uint256 \<Rightarrow> txstate) \<Rightarrow> memrepo \<Rightarrow> bool" where
  "agrees \<sigma> m = (\<forall>h. \<sigma> h = Unconfirmed \<longleftrightarrow> h \<in> dom (map_of (txs m)))"

lemma agrees_unsync [simp]:
  "agrees \<sigma> (m\<lparr>unSyncTxsInsert := a, unSyncTxsDelete := b\<rparr>) = agrees \<sigma> m"
  by (simp add: agrees_def)

text \<open>Hashes that never form a cycle: each transaction ranks above those whose outputs it spends.\<close>

definition ranked :: "(CTransaction \<Rightarrow> uint256) \<Rightarrow> (uint256 \<Rightarrow> nat) \<Rightarrow> CTransaction \<Rightarrow> bool" where
  "ranked gh rank t = (\<forall>i \<in> set (vin t). rank (op_hash (prevout i)) < rank (gh t))"

definition pool_ranked :: "(CTransaction \<Rightarrow> uint256) \<Rightarrow> (uint256 \<Rightarrow> nat) \<Rightarrow> memrepo \<Rightarrow> bool" where
  "pool_ranked gh rank m = (\<forall>h t. map_of (txs m) h = Some t \<longrightarrow> ranked gh rank t)"

lemma spend_edge_iff:
  assumes "mem_inv gh m"
  shows "(p, q) \<in> spend_edges m \<longleftrightarrow>
     (\<exists>t i. map_of (txs m) q = Some t \<and> i \<in> set (vin t) \<and> op_hash (prevout i) = p)"
  using mem_invD(7) [OF assms] by (force simp: spend_edges_def outkey_def)

lemma pool_ranked_acyclic:
  assumes "mem_inv gh m" and "pool_ranked gh rank m"
  shows "acyclic (spend_edges m)"
proof (rule acyclic_subset)
  show "acyclic (inv_image less_than rank)"
    by (rule wf_acyclic) (simp add: wf_inv_image)
  show "spend_edges m \<subseteq> inv_image less_than rank"
  proof
    fix x assume "x \<in> spend_edges m"
    then obtain p q where x: "x = (p, q)" "(p, q) \<in> spend_edges m" by (cases x) auto
    then obtain t i where t: "map_of (txs m) q = Some t" "i \<in> set (vin t)" "op_hash (prevout i) = p"
      using spend_edge_iff [OF assms(1)] by blast
    then have "gh t = q" using mem_invD(5) [OF assms(1)] by blast
    with t assms(2) show "x \<in> inv_image less_than rank"
      by (auto simp: x pool_ranked_def ranked_def)
  qed
qed

subsection \<open>Accepting and rejecting a transaction\<close>

lemma insertRawTx_frame [simp]:
  "txlogs2 (insertRawTx gh tx d) = txlogs2 d" "memrepo_txs (insertRawTx gh tx d) = memrepo_txs d"
  "explorer_meta (insertRawTx gh tx d) = explorer_meta d" "raw_blocks (insertRawTx gh tx d) = raw_blocks d"
  "txlogs2_next_id (insertRawTx gh tx d) = txlogs2_next_id d"
  by (simp_all add: insertRawTx_def Let_def)

lemma synced_sync_inv: "synced gh s \<Longrightarrow> sync_inv (l2_mem s) (memrepo_txs (l2_db s))"
  by (simp add: synced_def sync_inv_def)


subsection \<open>Batches of the other handlers\<close>

definition db_frame :: "log2db \<Rightarrow> log2db \<Rightarrow> bool" where
  "db_frame d d' = (txlogs2 d' = txlogs2 d \<and> memrepo_txs d' = memrepo_txs d \<and> explorer_meta d' = explorer_meta d \<and>
     txlogs2_next_id d' = txlogs2_next_id d)"

lemma db_frame_refl [simp]: "db_frame d d"
  by (simp add: db_frame_def)

lemma db_frame_trans: "db_frame a b \<Longrightarrow> db_frame b c \<Longrightarrow> db_frame a c"
  by (simp add: db_frame_def)

lemma db_frame_rawtx [simp]: "db_frame d (insertRawTx gh tx d)"
  by (simp add: db_frame_def)

lemma db_frame_rawtxs: "db_frame d (fold (insertRawTx gh) ts d)"
  by (induction ts arbitrary: d) (auto intro: db_frame_trans [OF db_frame_rawtx])

lemma db_frame_rawblock: "insertRawBlock bh blk height d = Inr (i, d') \<Longrightarrow> db_frame d d'"
  by (auto simp: insertRawBlock_def db_frame_def Let_def split: list.splits if_splits)

lemma batch_history:
  assumes sy: "synced gh s" and fr: "db_frame (l2_db s) d" and mi: "meta_ok E s" and len: "length vs < 2 ^ 31"
    and m: "mem_inv gh m" "sync_inv m (memrepo_txs (l2_db s))"
    and ev: "legal \<sigma> (map vevent vs) \<sigma>'" and ag: "agrees \<sigma>' m"
  shows "\<exists>s' rows. commitBatch E (length vs) (s\<lparr>l2_mem := m, l2_ts := bts, l2_db := insert_txlogs2 (- 1) vs d\<rparr>) = Inr s' \<and>
     synced gh s' \<and> txlogs2 (l2_db s') = txlogs2 (l2_db s) @ rows \<and> legal \<sigma> (map event rows) \<sigma>' \<and>
     agrees \<sigma>' (l2_mem s') \<and> (\<exists>i b. rows = mk_rows i b vs \<and> (\<forall>r \<in> set (txlogs2 (l2_db s)). batch_id r < b)) \<and>
     txs (l2_mem s') = txs m \<and> l2_ts s' = bts \<and> l2_height s' = l2_height s \<and> l2_hash s' = l2_hash s \<and>
     raw_txs (l2_db s') = raw_txs d \<and> raw_blocks (l2_db s') = raw_blocks d"
proof -
  define s1 where "s1 = s\<lparr>l2_mem := m, l2_ts := bts, l2_db := insert_txlogs2 (- 1) vs d\<rparr>"
  have rows: "txlogs2 (l2_db s1) = txlogs2 (l2_db s) @ mk_rows (txlogs2_next_id (l2_db s)) (- 1) vs"
    using fr by (simp add: s1_def insert_txlogs2_def db_frame_def)
  have mi1: "meta_ok E s1" using mi fr by (simp add: meta_ok_def s1_def insert_txlogs2_def db_frame_def)
  have m1: "mem_inv gh (l2_mem s1)" "sync_inv (l2_mem s1) (memrepo_txs (l2_db s1))"
    using m fr by (simp_all add: s1_def insert_txlogs2_def db_frame_def)
  have ok: "batches_ok (txlogs2 (l2_db s))" using sy by (simp add: synced_def)
  have s1: "l2_mem s1 = m" "raw_txs (l2_db s1) = raw_txs d" "raw_blocks (l2_db s1) = raw_blocks d"
    "l2_ts s1 = bts" "l2_height s1 = l2_height s" "l2_hash s1 = l2_hash s"
    by (simp_all add: s1_def insert_txlogs2_def)
  obtain s' b where s': "commitBatch E (length vs) s1 = Inr s'" "synced gh s'"
    "l2_mem s' = m\<lparr>unSyncTxsInsert := [], unSyncTxsDelete := []\<rparr>"
    "txlogs2 (l2_db s') = txlogs2 (l2_db s) @ mk_rows (txlogs2_next_id (l2_db s)) b vs"
    "\<forall>r \<in> set (txlogs2 (l2_db s)). batch_id r < b" "raw_txs (l2_db s') = raw_txs d" "raw_blocks (l2_db s') = raw_blocks d"
    "l2_ts s' = bts" "l2_height s' = l2_height s" "l2_hash s' = l2_hash s"
    using commitBatch_ok [OF m1 mi1 rows ok len, unfolded s1] by blast
  have "legal \<sigma> (map event (mk_rows (txlogs2_next_id (l2_db s)) b vs)) \<sigma>'" using ev by (simp add: events_mk_rows)
  moreover have "agrees \<sigma>' (l2_mem s')" "txs (l2_mem s') = txs m" using ag s'(3) by simp_all
  moreover have "\<exists>i c. mk_rows (txlogs2_next_id (l2_db s)) b vs = mk_rows i c vs \<and>
      (\<forall>r \<in> set (txlogs2 (l2_db s)). batch_id r < c)" using s'(5) by blast
  ultimately show ?thesis
    using s' by (intro exI [of _ s'] exI [of _ "mk_rows (txlogs2_next_id (l2_db s)) b vs"] conjI) (simp_all add: s1_def)
qed

text \<open>Removing pool transactions: the pool, the pending changes and the history.\<close>

lemma removed_sync:
  assumes sy: "synced gh s" and "set hs \<subseteq> dom (map_of (txs (l2_mem s)))"
    and "map_of (txs m) = map_of (txs (l2_mem s)) |` (- set hs)"
    and "set (unSyncTxsDelete m) = set (unSyncTxsDelete (l2_mem s)) \<union> set hs"
    and "unSyncTxsInsert m = unSyncTxsInsert (l2_mem s)"
  shows "sync_inv m (memrepo_txs (l2_db s))"
  using assms by (auto simp: sync_inv_def synced_def)

lemma removed_agrees:
  assumes "agrees \<sigma> m0" and "map_of (txs m) = map_of (txs m0) |` (- set hs)" and "set hs \<subseteq> dom (map_of (txs m0))"
  shows "agrees (\<lambda>h. if h \<in> set hs then Absent else \<sigma> h) m"
proof -
  have "h \<in> dom (map_of (txs m)) \<longleftrightarrow> h \<in> dom (map_of (txs m0)) \<and> h \<notin> set hs" for h
    by (simp add: assms(2))
  then show ?thesis using assms(1) unfolding agrees_def by simp
qed

lemma removed_legal:
  assumes "agrees \<sigma> m0" and "set hs \<subseteq> dom (map_of (txs m0))" and "distinct hs"
  shows "legal \<sigma> (map vevent (map reject_vals hs)) (\<lambda>h. if h \<in> set hs then Absent else \<sigma> h)"
proof -
  have "map vevent (map reject_vals hs) = map (Pair LOG2TYPE_TX_REJECT) hs" by simp
  moreover have "\<forall>h \<in> set hs. \<sigma> h = Unconfirmed" using assms by (auto simp: agrees_def)
  ultimately show ?thesis using legal_all [OF reject assms(3)] by (simp only:)
qed

lemma reject_batch:
  assumes sy: "synced gh s" and ag: "agrees \<sigma> (l2_mem s)" and mi: "meta_ok E s" and fr: "db_frame (l2_db s) d"
    and inv: "mem_inv gh m" and hs: "distinct hs" "set hs \<subseteq> dom (map_of (txs (l2_mem s)))"
    and m: "map_of (txs m) = map_of (txs (l2_mem s)) |` (- set hs)"
      "set (unSyncTxsDelete m) = set (unSyncTxsDelete (l2_mem s)) \<union> set hs"
      "unSyncTxsInsert m = unSyncTxsInsert (l2_mem s)"
    and len: "length (txs (l2_mem s)) < 2 ^ 31"
  shows "\<exists>s' rows. commitBatch E (length (map reject_vals hs))
      (s\<lparr>l2_mem := m, l2_db := insert_txlogs2 (- 1) (map reject_vals hs) d\<rparr>) = Inr s' \<and>
     synced gh s' \<and> txlogs2 (l2_db s') = txlogs2 (l2_db s) @ rows \<and>
     map event rows = map (Pair LOG2TYPE_TX_REJECT) hs \<and>
     legal \<sigma> (map event rows) (\<lambda>h. if h \<in> set hs then Absent else \<sigma> h) \<and>
     agrees (\<lambda>h. if h \<in> set hs then Absent else \<sigma> h) (l2_mem s') \<and> txs (l2_mem s') = txs m"
proof -
  let ?t = "\<lambda>h. if h \<in> set hs then Absent else \<sigma> h"
  have "card (set hs) \<le> card (dom (map_of (txs (l2_mem s))))"
    using hs(2) by (intro card_mono) (auto simp: finite_dom_map_of)
  also have "\<dots> \<le> length (txs (l2_mem s))"
    using card_length [of "map fst (txs (l2_mem s))"] by (simp add: dom_map_of_conv_image_fst)
  finally have l: "length (map reject_vals hs) < 2 ^ 31" using hs(1) len by (simp add: distinct_card)
  have "sync_inv m (memrepo_txs (l2_db s))" using sy hs(2) m by (rule removed_sync)
  from batch_history [OF sy fr mi l inv this removed_legal [OF ag hs(2,1)] removed_agrees [OF ag m(1) hs(2)], of "l2_ts s"]
  obtain s' rows where s': "commitBatch E (length (map reject_vals hs))
      (s\<lparr>l2_mem := m, l2_ts := l2_ts s, l2_db := insert_txlogs2 (- 1) (map reject_vals hs) d\<rparr>) = Inr s'"
    "synced gh s'" "txlogs2 (l2_db s') = txlogs2 (l2_db s) @ rows" "legal \<sigma> (map event rows) ?t"
    "agrees ?t (l2_mem s')" "\<exists>i b. rows = mk_rows i b (map reject_vals hs)" "txs (l2_mem s') = txs m"
    by blast
  moreover have "map event rows = map (Pair LOG2TYPE_TX_REJECT) hs" using s'(6) by (auto simp: events_mk_rows)
  ultimately show ?thesis
    by (intro exI [of _ s'] exI [of _ rows] conjI) simp_all
qed

lemma spenders_first_sub: "spenders_first m hs \<Longrightarrow> set hs \<subseteq> dom (map_of (txs m))"
  unfolding spenders_first_def by (meson domI split_list subsetI)

text \<open>
  C14. Rejecting a transaction of the pool rejects its descendants too: one row each, spenders
  before what they spend, the transaction itself last; the rows are a legal piece of history
  and pool, table and history agree afterwards.
\<close>

lemma handleTxReject_history:
  assumes sy: "synced gh s" and ag: "agrees \<sigma> (l2_mem s)" and gh: "e_gh E = gh" and mi: "meta_ok E s"
    and rk: "pool_ranked gh rank (l2_mem s)" and tx: "map_of (txs (l2_mem s)) (gh tx) = Some tx"
    and len: "length (txs (l2_mem s)) < 2 ^ 31"
  shows "\<exists>s' rows hs. handleTxReject E tx s = Inr s' \<and> synced gh s' \<and>
     txlogs2 (l2_db s') = txlogs2 (l2_db s) @ rows \<and> map event rows = map (Pair LOG2TYPE_TX_REJECT) hs \<and>
     last hs = gh tx \<and> hs \<noteq> [] \<and> spenders_first (l2_mem s) hs \<and>
     legal \<sigma> (map event rows) (\<lambda>h. if h \<in> set hs then Absent else \<sigma> h) \<and>
     agrees (\<lambda>h. if h \<in> set hs then Absent else \<sigma> h) (l2_mem s')"
proof -
  have inv: "mem_inv gh (l2_mem s)" using sy by (simp add: synced_def)
  obtain hs m where rm: "removeTxAndChildTx gh tx [] (l2_mem s) = Some (Inr ([] @ hs, m))" "mem_inv gh m" "hs \<noteq> []"
    "last hs = gh tx" "distinct hs" "spenders_first (l2_mem s) hs"
    "map_of (txs m) = map_of (txs (l2_mem s)) |` (- set hs)"
    "set (unSyncTxsDelete m) = set (unSyncTxsDelete (l2_mem s)) \<union> set hs" "unSyncTxsInsert m = unSyncTxsInsert (l2_mem s)"
    using removeTxAndChildTx_returns [OF inv pool_ranked_acyclic [OF inv rk] tx, of "[]"] by blast
  obtain s' rows where s': "commitBatch E (length (map reject_vals hs))
      (s\<lparr>l2_mem := m, l2_db := insert_txlogs2 (- 1) (map reject_vals hs) (insertRawTx gh tx (l2_db s))\<rparr>) = Inr s'"
    "synced gh s'" "txlogs2 (l2_db s') = txlogs2 (l2_db s) @ rows" "map event rows = map (Pair LOG2TYPE_TX_REJECT) hs"
    "legal \<sigma> (map event rows) (\<lambda>h. if h \<in> set hs then Absent else \<sigma> h)"
    "agrees (\<lambda>h. if h \<in> set hs then Absent else \<sigma> h) (l2_mem s')"
    using reject_batch [OF sy ag mi db_frame_rawtx rm(2,5) spenders_first_sub [OF rm(6)] rm(7-9) len, of gh tx] by blast
  have "handleTxReject E tx s = Inr s'"
    using tx gh rm(1) s'(1) by (simp add: handleTxReject_def isExist_def Let_def)
  with s'(2-6) rm(3,4,6) show ?thesis by blast
qed

text \<open>
  C15. Clearing the pool rejects every transaction in it once, spenders before what they spend,
  and leaves pool and table empty.
\<close>

lemma clearMempoolTxs_history:
  assumes sy: "synced gh s" and ag: "agrees \<sigma> (l2_mem s)" and gh: "e_gh E = gh" and mi: "meta_ok E s"
    and rk: "pool_ranked gh rank (l2_mem s)" and len: "length (txs (l2_mem s)) < 2 ^ 31"
  shows "\<exists>s' rows hs. clearMempoolTxs E s = Inr s' \<and> synced gh s' \<and> txs (l2_mem s') = [] \<and>
     txlogs2 (l2_db s') = txlogs2 (l2_db s) @ rows \<and> map event rows = map (Pair LOG2TYPE_TX_REJECT) hs \<and>
     spenders_first (l2_mem s) hs \<and> set hs = dom (map_of (txs (l2_mem s))) \<and>
     legal \<sigma> (map event rows) (\<lambda>h. if h \<in> set hs then Absent else \<sigma> h)"
proof -
  have inv: "mem_inv gh (l2_mem s)" using sy by (simp add: synced_def)
  obtain hs m where rm: "clear_pool gh [] (l2_mem s) = Some (Inr ([] @ hs, m))" "mem_inv gh m" "txs m = []"
    "distinct hs" "set hs = dom (map_of (txs (l2_mem s)))" "spenders_first (l2_mem s) hs"
    "set (unSyncTxsDelete m) = set (unSyncTxsDelete (l2_mem s)) \<union> set hs" "unSyncTxsInsert m = unSyncTxsInsert (l2_mem s)"
    using clear_pool_returns [OF inv pool_ranked_acyclic [OF inv rk], of "[]"] by blast
  have "map_of (txs (l2_mem s)) h = None" if "h \<notin> set hs" for h using that rm(5) by (simp add: domIff)
  then have "map_of (txs m) = map_of (txs (l2_mem s)) |` (- set hs)"
    by (auto simp: rm(3) restrict_map_def fun_eq_iff)
  with rm(5) obtain s' rows where s': "commitBatch E (length (map reject_vals hs))
      (s\<lparr>l2_mem := m, l2_db := insert_txlogs2 (- 1) (map reject_vals hs) (l2_db s)\<rparr>) = Inr s'"
    "synced gh s'" "txlogs2 (l2_db s') = txlogs2 (l2_db s) @ rows" "map event rows = map (Pair LOG2TYPE_TX_REJECT) hs"
    "legal \<sigma> (map event rows) (\<lambda>h. if h \<in> set hs then Absent else \<sigma> h)" "txs (l2_mem s') = txs m"
    using reject_batch [OF sy ag mi db_frame_refl rm(2,4) _ _ rm(7,8) len] by blast
  have "memrepo_txs (l2_db s') = []" using s'(2,6) rm(3) by (simp add: synced_def)
  then have "clearMempoolTxs E s = Inr s'"
    using gh rm(1) s'(1) by (simp add: clearMempoolTxs_def Let_def)
  with s'(2-6) rm(3,5,6) show ?thesis by (intro exI [of _ s'] exI [of _ rows] exI [of _ hs]) simp
qed

subsection \<open>A block\<close>

definition spends :: "CTransaction list \<Rightarrow> CTransaction list" where
  "spends vt = filter (\<lambda>t. \<not> IsCoinBase t) vt"

text \<open>
  What a valid block guarantees against the pool \<open>m\<close>: its transactions are distinct, no output
  is spent twice in it, a transaction of the pool that the block builds on is in the block,
  the pool holds the block's own transactions under their hashes, and no coinbase.
\<close>

definition block_ok ::
  "(CTransaction \<Rightarrow> uint256) \<Rightarrow> (uint256 \<Rightarrow> nat) \<Rightarrow> CTransaction list \<Rightarrow> memrepo \<Rightarrow> bool" where
  "block_ok gh rank vt m =
     (distinct (map gh vt) \<and>
      (\<forall>t \<in> set (spends vt). distinct (map outkey (vin t)) \<and> ranked gh rank t) \<and>
      (\<forall>t \<in> set (spends vt). \<forall>u \<in> set (spends vt). gh t \<noteq> gh u \<longrightarrow>
         outkey ` set (vin t) \<inter> outkey ` set (vin u) = {}) \<and>
      (\<forall>t \<in> set (spends vt). \<forall>i \<in> set (vin t). map_of (txs m) (op_hash (prevout i)) \<noteq> None \<longrightarrow>
         op_hash (prevout i) \<in> gh ` set (spends vt)) \<and>
      (\<forall>t \<in> set (spends vt). \<forall>u. map_of (txs m) (gh t) = Some u \<longrightarrow> u = t) \<and>
      (\<forall>t \<in> set vt. IsCoinBase t \<longrightarrow> map_of (txs m) (gh t) = None))"

lemma block_okD:
  assumes "block_ok gh rank vt m"
  shows "distinct (map gh vt)"
    "t \<in> set (spends vt) \<Longrightarrow> distinct (map outkey (vin t))" "t \<in> set (spends vt) \<Longrightarrow> ranked gh rank t"
    "t \<in> set (spends vt) \<Longrightarrow> u \<in> set (spends vt) \<Longrightarrow> i \<in> set (vin t) \<Longrightarrow> j \<in> set (vin u) \<Longrightarrow> outkey i = outkey j \<Longrightarrow> gh t = gh u"
    "t \<in> set (spends vt) \<Longrightarrow> i \<in> set (vin t) \<Longrightarrow> map_of (txs m) (op_hash (prevout i)) \<noteq> None \<Longrightarrow>
       op_hash (prevout i) \<in> gh ` set (spends vt)"
    "t \<in> set (spends vt) \<Longrightarrow> map_of (txs m) (gh t) = Some u \<Longrightarrow> u = t"
    "t \<in> set vt \<Longrightarrow> IsCoinBase t \<Longrightarrow> map_of (txs m) (gh t) = None"
proof -
  show "gh t = gh u" if "t \<in> set (spends vt)" "u \<in> set (spends vt)" "i \<in> set (vin t)" "j \<in> set (vin u)" "outkey i = outkey j"
  proof (rule ccontr)
    assume "gh t \<noteq> gh u"
    then have "outkey ` set (vin t) \<inter> outkey ` set (vin u) = {}"
      using assms that(1,2) unfolding block_ok_def by blast
    then show False using that(3-5) by (metis disjoint_iff imageI)
  qed
qed (use assms in \<open>auto simp: block_ok_def\<close>)

text \<open>The pool in the middle of the block: part of the old pool, and block transactions.\<close>

definition mid_pool ::
  "(CTransaction \<Rightarrow> uint256) \<Rightarrow> CTransaction list \<Rightarrow> memrepo \<Rightarrow> uint256 list \<Rightarrow> memrepo \<Rightarrow> bool" where
  "mid_pool gh pre m0 cs m = (map_of (txs m) =
     (map_of (txs m0) |` (- set cs)) ++ map_of (map (\<lambda>t. (gh t, t)) (spends pre)))"

lemma map_of_gh:
  "distinct (map gh ts) \<Longrightarrow> map_of (map (\<lambda>t. (gh t, t)) ts) h = Some t \<longleftrightarrow> t \<in> set ts \<and> gh t = h"
  by (subst map_of_eq_Some_iff) (auto simp: comp_def)

lemma map_of_gh_None: "map_of (map (\<lambda>t. (gh t, t)) ts) h = None \<longleftrightarrow> h \<notin> gh ` set ts"
  by (auto simp: map_of_eq_None_iff image_comp)

lemma spends_append [simp]: "spends (a @ b) = spends a @ spends b"
  by (simp add: spends_def)

lemma spends_single [simp]: "spends [t] = (if IsCoinBase t then [] else [t])" "spends [] = []"
  by (simp_all add: spends_def)

lemma distinct_spends: "distinct (map gh vt) \<Longrightarrow> distinct (map gh (spends vt))"
  by (induction vt) (auto simp: spends_def)

lemma mid_pool_Some:
  assumes "mid_pool gh pre m0 cs m" and "distinct (map gh pre)"
  shows "map_of (txs m) h = Some t \<longleftrightarrow>
     (t \<in> set (spends pre) \<and> gh t = h \<or> h \<notin> gh ` set (spends pre) \<and> h \<notin> set cs \<and> map_of (txs m0) h = Some t)"
  using assms map_of_gh [OF distinct_spends [OF assms(2)], of h] map_of_gh_None [of gh "spends pre" h]
  by (auto simp: mid_pool_def map_add_Some_iff restrict_map_def)

lemma mid_pool_dom:
  "mid_pool gh pre m0 cs m \<Longrightarrow>
     h \<in> dom (map_of (txs m)) \<longleftrightarrow> h \<in> gh ` set (spends pre) \<or> h \<notin> set cs \<and> h \<in> dom (map_of (txs m0))"
  using map_of_gh_None [of gh "spends pre" h]
  by (auto simp: mid_pool_def map_add_def restrict_map_def split: option.splits if_splits)

text \<open>An evicted transaction is never one of the block's.\<close>

lemma evicted_not_in_block:
  assumes ok: "block_ok gh rank vt m0" and mp: "mid_pool gh pre m0 cs m" and inv: "mem_inv gh m"
    and pre: "vt = pre @ post"
    and tx: "t \<in> set (spends vt)" "map_of (txs m) (gh t) = None"
    and i: "i \<in> set (vin t)" "map_of (spentOutputs m) (outkey i) = Some s" and path: "(s, c) \<in> (spend_edges m)\<^sup>*"
  shows "c \<notin> gh ` set (spends vt) \<and> c \<notin> gh ` set vt \<and> map_of (txs m) c \<noteq> None"
proof -
  have dpre: "distinct (map gh pre)" using block_okD(1) [OF ok] pre by simp
  note mid = mid_pool_Some [OF mp dpre]
  have sub: "u \<in> set (spends vt)" if "u \<in> set (spends pre)" for u using that pre by simp
  have stored: "u = v" if "map_of (txs m) (gh u) = Some v" "u \<in> set (spends vt)" for u v
  proof -
    have inj: "inj_on gh (set vt)" using block_okD(1) [OF ok] by (simp add: distinct_map)
    have "set (spends vt) \<subseteq> set vt" by (auto simp: spends_def)
    with that mid [of "gh u" v] show ?thesis
      using inj sub block_okD(6) [OF ok that(2), of v] unfolding inj_on_def by blast
  qed
  have start: "map_of (txs m) s \<noteq> None \<and> s \<notin> gh ` set (spends vt)"
  proof -
    obtain v where v: "map_of (txs m) s = Some v" "outkey i \<in> outkey ` set (vin v)"
      using i(2) mem_invD(7) [OF inv] by blast
    have "s \<notin> gh ` set (spends vt)"
    proof
      assume "s \<in> gh ` set (spends vt)"
      then obtain u where u: "u \<in> set (spends vt)" "s = gh u" by blast
      with stored v have "v = u" by blast
      with v(2) obtain j where "j \<in> set (vin u)" "outkey i = outkey j" by blast
      then have "gh t = gh u" using block_okD(4) [OF ok tx(1) u(1) i(1)] by blast
      with tx(2) v(1) u(2) show False by simp
    qed
    with v(1) show ?thesis by simp
  qed
  have step: "map_of (txs m) q \<noteq> None \<and> q \<notin> gh ` set (spends vt)"
    if e: "(p, q) \<in> spend_edges m" and p: "map_of (txs m) p \<noteq> None \<and> p \<notin> gh ` set (spends vt)" for p q
  proof -
    obtain v j where v: "map_of (txs m) q = Some v" "j \<in> set (vin v)" "op_hash (prevout j) = p"
      using e spend_edge_iff [OF inv] by blast
    have "q \<notin> gh ` set (spends vt)"
    proof
      assume "q \<in> gh ` set (spends vt)"
      then obtain u where u: "u \<in> set (spends vt)" "q = gh u" by blast
      with stored v(1) have "v = u" by blast
      moreover have "map_of (txs m0) p \<noteq> None" using p mid [of p] sub by (metis image_eqI not_None_eq)
      ultimately have "p \<in> gh ` set (spends vt)" using block_okD(5) [OF ok u(1)] v(2,3) by blast
      with p show False by blast
    qed
    with v(1) show ?thesis by simp
  qed
  from path have c: "map_of (txs m) c \<noteq> None \<and> c \<notin> gh ` set (spends vt)"
    by (induction rule: rtrancl_induct) (use start step in blast)+
  moreover have "c \<notin> gh ` set vt"
  proof
    assume "c \<in> gh ` set vt"
    then obtain u where u: "u \<in> set vt" "c = gh u" by blast
    with c have "IsCoinBase u" by (auto simp: spends_def)
    then have "map_of (txs m0) c = None" using block_okD(7) [OF ok u(1)] u(2) by simp
    moreover obtain v where "map_of (txs m) c = Some v" using c by blast
    ultimately have "c \<in> gh ` set (spends pre)" using mid [of c v] by auto
    with sub c show False by blast
  qed
  ultimately show ?thesis by blast
qed

definition loop_inv ::
  "(CTransaction \<Rightarrow> uint256) \<Rightarrow> CTransaction list \<Rightarrow> memrepo \<Rightarrow> CTransaction list \<Rightarrow>
     uint256 list \<times> uint256 sset \<times> uint256 list \<times> memrepo \<Rightarrow> bool" where
  "loop_inv gh vt m0 pre st =
     (let (hs, already, cs, m) = st in
      hs = map gh (spends pre) \<and> set already = gh ` set (spends pre) \<inter> dom (map_of (txs m0)) \<and>
      distinct cs \<and> set cs \<subseteq> dom (map_of (txs m0)) \<and> set cs \<inter> gh ` set vt = {} \<and>
      mem_inv gh m \<and> mid_pool gh pre m0 cs m \<and>
      set (unSyncTxsDelete m) = set (unSyncTxsDelete m0) \<union> set cs \<and>
      set (unSyncTxsInsert m) = set (unSyncTxsInsert m0) \<union> (gh ` set (spends pre) - dom (map_of (txs m0))))"

lemma mid_pool_ranked:
  assumes ok: "block_ok gh rank vt m0" and "pool_ranked gh rank m0" and "mid_pool gh pre m0 cs m" and "vt = pre @ post"
  shows "pool_ranked gh rank m"
  unfolding pool_ranked_def
proof (intro allI impI)
  fix h t assume "map_of (txs m) h = Some t"
  then have "t \<in> set (spends vt) \<or> map_of (txs m0) h = Some t"
    using mid_pool_Some [OF assms(3)] block_okD(1) [OF ok] assms(4) by auto
  then show "ranked gh rank t" using block_okD(3) [OF ok] assms(2) by (auto simp: pool_ranked_def)
qed

lemma spends_snoc: "spends (pre @ [t]) = (if IsCoinBase t then spends pre else spends pre @ [t])"
  by (simp add: spends_def)

lemma block_loop_step:
  assumes ok: "block_ok gh rank vt m0" and rk: "pool_ranked gh rank m0" and vt: "vt = pre @ t # post"
    and I: "loop_inv gh vt m0 pre st"
  shows "\<exists>st'. block_tx_step gh t st = Inr st' \<and> loop_inv gh vt m0 (pre @ [t]) st'"
proof -
  obtain hs already cs m where st: "st = (hs, already, cs, m)" by (cases st)
  note L = I [unfolded loop_inv_def st, simplified]
  show ?thesis
  proof (cases "IsCoinBase t")
    case True
    then show ?thesis
      using L by (simp add: block_tx_step_def st loop_inv_def spends_snoc mid_pool_def)
  next
    case nc: False
    have tvt: "t \<in> set (spends vt)" using nc vt by (simp add: spends_def)
    have dist: "distinct (map gh (pre @ [t]))" using block_okD(1) [OF ok] vt by simp
    then have new: "gh t \<notin> gh ` set (spends pre)" by (auto simp: spends_def)
    have tcs: "gh t \<notin> set cs" using L vt by auto
    have mp: "mid_pool gh pre m0 cs m" using L by simp
    note mid = mid_pool_Some [OF mp]
    have dpre: "distinct (map gh pre)" using dist by simp
    have same: "map_of (txs m) (gh t) = map_of (txs m0) (gh t)"
      using mid [OF dpre, of "gh t"] new tcs by (metis not_Some_eq option.inject image_eqI)
    have sp: "map (\<lambda>t. (gh t, t)) (spends (pre @ [t])) = map (\<lambda>t. (gh t, t)) (spends pre) @ [(gh t, t)]"
      using nc by (simp add: spends_snoc)
    have ext: "map_of (map (\<lambda>t. (gh t, t)) (spends (pre @ [t]))) = (map_of (map (\<lambda>t. (gh t, t)) (spends pre)))(gh t \<mapsto> t)"
      using new map_of_gh_None [of gh "spends pre" "gh t"] unfolding sp
      by (auto simp: map_add_def fun_eq_iff split: option.splits)
    show ?thesis
    proof (cases "map_of (txs m0) (gh t)")
      case (Some u)
      then have u: "u = t" using block_okD(6) [OF ok tvt] by blast
      have "isExist m (gh t)" using same Some by (simp add: isExist_def)
      moreover have "mid_pool gh (pre @ [t]) m0 cs m"
      proof -
        have "map_of (txs m) = (map_of (txs m))(gh t \<mapsto> t)" using same Some u by (simp add: fun_upd_idem)
        then show ?thesis using mp unfolding mid_pool_def ext by simp
      qed
      ultimately show ?thesis
        using L nc Some by (auto simp: block_tx_step_def st loop_inv_def spends_snoc Let_def)
    next
      case None
      then have noh: "map_of (txs m) (gh t) = None" using same by simp
      have inv: "mem_inv gh m" using L by simp
      have ac: "acyclic (spend_edges m)"
        using inv mid_pool_ranked [OF ok rk mp vt] by (rule pool_ranked_acyclic)
      obtain ds m' where a: "add_evicting gh t cs m = Some (Inr (cs @ ds, m'))" "mem_inv gh m'" "distinct ds"
        "\<forall>c \<in> set ds. \<exists>i s. i \<in> set (vin t) \<and> map_of (spentOutputs m) (outkey i) = Some s \<and> (s, c) \<in> (spend_edges m)\<^sup>*"
        "map_of (txs m') = (map_of (txs m) |` (- set ds))(gh t \<mapsto> t)"
        "set (unSyncTxsDelete m') = set (unSyncTxsDelete m) \<union> set ds"
        "unSyncTxsInsert m' = ss_ins (gh t) (unSyncTxsInsert m)"
        using add_evicting_returns [OF inv ac nc noh block_okD(2) [OF ok tvt], of cs] by blast
      have ev: "c \<notin> gh ` set (spends vt) \<and> c \<notin> gh ` set vt \<and> map_of (txs m) c \<noteq> None" if "c \<in> set ds" for c
        using a(4) that evicted_not_in_block [OF ok mp inv vt tvt noh] by blast
      have ds: "set ds \<subseteq> dom (map_of (txs m0)) - set cs"
      proof
        fix c assume c: "c \<in> set ds"
        obtain v where "map_of (txs m) c = Some v" using ev [OF c] by blast
        moreover have "c \<notin> gh ` set (spends pre)" using ev [OF c] vt by auto
        ultimately show "c \<in> dom (map_of (txs m0)) - set cs" using mid [OF dpre, of c v] by auto
      qed
      have "mid_pool gh (pre @ [t]) m0 (cs @ ds) m'"
      proof -
        have "map_of (txs m) |` (- set ds) =
            (map_of (txs m0) |` (- set (cs @ ds))) ++ map_of (map (\<lambda>t. (gh t, t)) (spends pre))"
        proof
          fix h
          show "(map_of (txs m) |` (- set ds)) h =
            ((map_of (txs m0) |` (- set (cs @ ds))) ++ map_of (map (\<lambda>t. (gh t, t)) (spends pre))) h"
          proof (cases "h \<in> set ds")
            case True
            then have "h \<notin> gh ` set (spends pre)" using ev [OF True] vt by auto
            then show ?thesis
              using True map_of_gh_None [of gh "spends pre" h] by (simp add: map_add_def)
          next
            case False
            then show ?thesis
              using mp by (auto simp: mid_pool_def map_add_def restrict_map_def split: option.splits)
          qed
        qed
        then show ?thesis unfolding mid_pool_def ext a(5) by simp
      qed
      moreover have "\<not> isExist m (gh t)" using noh by (simp add: isExist_def)
      moreover have "set ds \<inter> gh ` set vt = {}" using ev by auto
      ultimately show ?thesis
        using L nc None a(1-3,6,7) ds
        by (intro exI [of _ "(hs @ [gh t], already, cs @ ds, m')"] conjI)
          (auto simp: block_tx_step_def st loop_inv_def spends_snoc Let_def)
    qed
  qed
qed

lemma block_loop:
  assumes ok: "block_ok gh rank vt m0" and "pool_ranked gh rank m0" and inv: "mem_inv gh m0"
  shows "\<exists>st. foldE (block_tx_step gh) vt ([], [], [], m0) = Inr st \<and> loop_inv gh vt m0 vt st"
proof (rule foldE_rule [where I = "loop_inv gh vt m0"])
  show "loop_inv gh vt m0 [] ([], [], [], m0)"
    using inv by (simp add: loop_inv_def mid_pool_def restrict_map_def)
qed (use block_loop_step [OF assms(1,2)] in blast)

lemma removeTxs_ok:
  assumes "mem_inv gh m" and "distinct hs" and "set hs \<subseteq> dom (map_of (txs m))"
  shows "\<exists>m'. removeTxs hs m = Inr m' \<and> mem_inv gh m' \<and> map_of (txs m') = map_of (txs m) |` (- set hs) \<and>
     set (unSyncTxsDelete m') = set (unSyncTxsDelete m) \<union> set hs \<and> unSyncTxsInsert m' = unSyncTxsInsert m"
  using assms
proof (induction hs arbitrary: m)
  case Nil
  then show ?case by (auto simp: removeTxs_def restrict_map_def)
next
  case (Cons h hs)
  then obtain t where "map_of (txs m) h = Some t" by auto
  then obtain m1 where m1: "removeTx h m = Inr m1" "mem_inv gh m1" "map_of (txs m1) = (map_of (txs m))(h := None)"
    "unSyncTxsDelete m1 = ss_ins h (unSyncTxsDelete m)" "unSyncTxsInsert m1 = unSyncTxsInsert m"
    using removeTx_ok [OF Cons.prems(1)] by blast
  have sub: "set hs \<subseteq> dom (map_of (txs m1))" using Cons.prems m1(3) by auto
  have "distinct hs" using Cons.prems by simp
  from Cons.IH [OF m1(2) this sub] obtain m' where m': "removeTxs hs m1 = Inr m'" "mem_inv gh m'"
    "map_of (txs m') = map_of (txs m1) |` (- set hs)"
    "set (unSyncTxsDelete m') = set (unSyncTxsDelete m1) \<union> set hs" "unSyncTxsInsert m' = unSyncTxsInsert m1"
    by blast
  have "removeTxs (h # hs) m = Inr m'" using m1(1) m'(1) by (simp add: removeTxs_def)
  moreover have "map_of (txs m') = map_of (txs m) |` (- set (h # hs))"
    using m'(3) m1(3) by (auto simp: restrict_map_def fun_eq_iff)
  ultimately show ?case using m' m1 by auto
qed

lemma length_ss_of_list: "distinct xs \<Longrightarrow> length (ss_of_list xs) = length xs"
  by (metis distinct_card set_ss_of_list ss_wf_distinct ss_wf_of_list)

lemma length_block_rows: "length (block_rows gh cs already height bid mts vt) \<le> length cs + 2 * length vt"
  by (induction vt) (auto simp: block_rows_def)

lemma block_pool:
  assumes ok: "block_ok gh rank vt m0" and rk: "pool_ranked gh rank m0" and inv: "mem_inv gh m0"
  shows "\<exists>hs already cs m m2. foldE (block_tx_step gh) vt ([], [], [], m0) = Inr (hs, already, cs, m) \<and>
     removeTxs hs m = Inr m2 \<and> mem_inv gh m2 \<and> distinct cs \<and> set cs \<subseteq> dom (map_of (txs m0)) \<and>
     set cs \<inter> gh ` set vt = {} \<and> set already = gh ` set vt \<inter> dom (map_of (txs m0)) \<and>
     dom (map_of (txs m2)) = dom (map_of (txs m0)) - set cs - gh ` set vt \<and>
     set (unSyncTxsDelete m2) = set (unSyncTxsDelete m0) \<union> set cs \<union> gh ` set (spends vt) \<and>
     set (unSyncTxsInsert m2) = set (unSyncTxsInsert m0) \<union> (gh ` set (spends vt) - dom (map_of (txs m0)))"
proof -
  obtain hs already cs m where loop: "foldE (block_tx_step gh) vt ([], [], [], m0) = Inr (hs, already, cs, m)"
    and L: "loop_inv gh vt m0 vt (hs, already, cs, m)"
    using block_loop [OF ok rk inv] by (metis prod_cases4)
  have hs: "hs = map gh (spends vt)" and al: "set already = gh ` set (spends vt) \<inter> dom (map_of (txs m0))"
    and cs: "distinct cs" "set cs \<subseteq> dom (map_of (txs m0))" "set cs \<inter> gh ` set vt = {}"
    and im: "mem_inv gh m" and mp: "mid_pool gh vt m0 cs m"
    and un: "set (unSyncTxsDelete m) = set (unSyncTxsDelete m0) \<union> set cs"
      "set (unSyncTxsInsert m) = set (unSyncTxsInsert m0) \<union> (gh ` set (spends vt) - dom (map_of (txs m0)))"
    using L unfolding loop_inv_def by simp_all
  have hsd: "distinct hs" "set hs = gh ` set (spends vt)" using hs distinct_spends [OF block_okD(1) [OF ok]] by auto
  have "set hs \<subseteq> dom (map_of (txs m))" unfolding hsd(2) using mid_pool_dom [OF mp] by blast
  then obtain m2 where m2: "removeTxs hs m = Inr m2" "mem_inv gh m2" "map_of (txs m2) = map_of (txs m) |` (- set hs)"
    "set (unSyncTxsDelete m2) = set (unSyncTxsDelete m) \<union> set hs" "unSyncTxsInsert m2 = unSyncTxsInsert m"
    using removeTxs_ok [OF im hsd(1)] by blast
  have nocb: "gh t \<notin> dom (map_of (txs m0))" if "t \<in> set vt" "IsCoinBase t" for t
    using block_okD(7) [OF ok that] by blast
  have sp: "h \<in> gh ` set (spends vt) \<longleftrightarrow> h \<in> gh ` set vt" if "h \<in> dom (map_of (txs m0))" for h
    using that nocb by (auto simp: spends_def)
  have "dom (map_of (txs m2)) = dom (map_of (txs m0)) - set cs - gh ` set vt"
  proof (rule set_eqI)
    fix h
    have "h \<in> dom (map_of (txs m2)) \<longleftrightarrow> h \<in> dom (map_of (txs m)) \<and> h \<notin> gh ` set (spends vt)"
      by (simp add: m2(3) hsd(2))
    then show "h \<in> dom (map_of (txs m2)) \<longleftrightarrow> h \<in> dom (map_of (txs m0)) - set cs - gh ` set vt"
      unfolding mid_pool_dom [OF mp, of h] Diff_iff using sp [of h] by argo
  qed
  moreover have "set already = gh ` set vt \<inter> dom (map_of (txs m0))" unfolding al using sp by blast
  ultimately show ?thesis
    using loop m2(1,2) cs un m2(4,5) hsd(2)
    by (intro exI [of _ hs] exI [of _ already] exI [of _ cs] exI [of _ m] exI [of _ m2]) simp
qed

text \<open>What the rows of an accepted block do to the states.\<close>

lemma block_legal:
  assumes ag: "agrees \<sigma> m0" and st: "\<forall>h \<in> set hs. \<sigma> h \<noteq> Confirmed" and hs: "distinct hs" and cs: "distinct cs"
    and sub: "set cs \<subseteq> dom (map_of (txs m0))" and dis: "set cs \<inter> set hs = {}"
    and al: "set already = set hs \<inter> dom (map_of (txs m0))"
  shows "legal \<sigma> (map (Pair LOG2TYPE_TX_REJECT) cs @ block_events already hs)
     (\<lambda>h. if h \<in> set hs then Confirmed else if h \<in> set cs then Absent else \<sigma> h)"
proof (rule legal_append)
  let ?s1 = "\<lambda>h. if h \<in> set cs then Absent else \<sigma> h"
  show "legal \<sigma> (map (Pair LOG2TYPE_TX_REJECT) cs) ?s1"
    using sub ag by (intro legal_all [OF reject cs]) (auto simp: agrees_def)
  have "?s1 h = (if h \<in> set already then Unconfirmed else Absent)" if "h \<in> set hs" for h
  proof -
    have "h \<notin> set cs" "\<sigma> h \<noteq> Confirmed" "\<sigma> h = Unconfirmed \<longleftrightarrow> h \<in> set already"
      using that dis st ag al by (auto simp: agrees_def)
    then show ?thesis by (cases "\<sigma> h") auto
  qed
  then show "legal ?s1 (block_events already hs) (\<lambda>h. if h \<in> set hs then Confirmed else if h \<in> set cs then Absent else \<sigma> h)"
    using hs by (intro legal_block) blast+
qed

lemma distinct_pool_length: "distinct cs \<Longrightarrow> set cs \<subseteq> dom (map_of m) \<Longrightarrow> length cs \<le> length m"
  by (metis card_mono card_length distinct_card dom_map_of_conv_image_fst finite_dom_map_of le_trans length_map list.set_map)

lemma handleBlockAccept_returns:
  assumes sy: "synced gh s" and ag: "agrees \<sigma> (l2_mem s)" and gh: "e_gh E = gh" and mi: "meta_ok E s"
    and rk: "pool_ranked gh rank (l2_mem s)" and ok: "block_ok gh rank (vtx blk) (l2_mem s)"
    and st: "\<forall>t \<in> set (vtx blk). \<sigma> (gh t) \<noteq> Confirmed"
    and ts: "pushBlock height (GetBlockTime blk) (l2_ts s) = Inr ts"
    and raw: "insertRawBlock (e_bh E) blk height (l2_db s) = Inr (bid, d1)"
    and len: "length (txs (l2_mem s)) + 2 * length (vtx blk) < 2 ^ 31"
  shows "\<exists>s' rows cs. handleBlockAccept E height blk s = Inr s' \<and> synced gh s' \<and>
     txlogs2 (l2_db s') = txlogs2 (l2_db s) @ rows \<and>
     set cs \<subseteq> dom (map_of (txs (l2_mem s))) - gh ` set (vtx blk) \<and>
     map event rows = map (Pair LOG2TYPE_TX_REJECT) cs @
       block_events (filter (isExist (l2_mem s)) (map gh (vtx blk))) (map gh (vtx blk)) \<and>
     legal \<sigma> (map event rows) (\<lambda>h. if h \<in> gh ` set (vtx blk) then Confirmed else if h \<in> set cs then Absent else \<sigma> h) \<and>
     agrees (\<lambda>h. if h \<in> gh ` set (vtx blk) then Confirmed else if h \<in> set cs then Absent else \<sigma> h) (l2_mem s') \<and>
     l2_ts s' = ts"
proof -
  let ?m0 = "l2_mem s" and ?vt = "vtx blk"
  have "mem_inv gh ?m0" using sy by (simp add: synced_def)
  from block_pool [OF ok rk this] obtain hs already cs m m2 where
    loop: "foldE (block_tx_step gh) ?vt ([], [], [], ?m0) = Inr (hs, already, cs, m)" "removeTxs hs m = Inr m2" "mem_inv gh m2"
    and cs: "distinct cs" "set cs \<subseteq> dom (map_of (txs ?m0))" "set cs \<inter> gh ` set ?vt = {}"
    and al: "set already = gh ` set ?vt \<inter> dom (map_of (txs ?m0))"
    and dom: "dom (map_of (txs m2)) = dom (map_of (txs ?m0)) - set cs - gh ` set ?vt"
    and un: "set (unSyncTxsDelete m2) = set (unSyncTxsDelete ?m0) \<union> set cs \<union> gh ` set (spends ?vt)"
      "set (unSyncTxsInsert m2) = set (unSyncTxsInsert ?m0) \<union> (gh ` set (spends ?vt) - dom (map_of (txs ?m0)))"
    by metis
  define vs where "vs = block_rows gh cs already height bid (getMaxTimestamp ts) ?vt"
  let ?s2 = "\<lambda>h. if h \<in> gh ` set ?vt then Confirmed else if h \<in> set cs then Absent else \<sigma> h"
  have ev: "map vevent vs = map (Pair LOG2TYPE_TX_REJECT) cs @ block_events already (map gh ?vt)"
    unfolding vs_def by (rule events_block_rows)
  have leg: "legal \<sigma> (map vevent vs) ?s2"
    unfolding ev using block_legal [OF ag, of "map gh ?vt" cs already] st cs al block_okD(1) [OF ok] by simp
  have ag2: "agrees ?s2 m2" using ag unfolding agrees_def dom by auto
  have sub: "gh ` set (spends ?vt) \<subseteq> gh ` set ?vt" by (auto simp: spends_def)
  have pool_cb: "h \<in> gh ` set (spends ?vt)" if "h \<in> gh ` set ?vt" "h \<in> dom (map_of (txs ?m0))" for h
    using that block_okD(7) [OF ok] by (auto simp: spends_def)
  have dom2: "dom (map_of (txs m2)) = dom (map_of (txs ?m0)) - set cs - gh ` set (spends ?vt)"
    unfolding dom using sub pool_cb by blast
  have sync: "sync_inv m2 (memrepo_txs (l2_db s))"
    using sy un cs(2) unfolding sync_inv_def dom2 synced_def by auto
  have lenv: "length vs < 2 ^ 31"
    using length_block_rows [of gh cs already height bid "getMaxTimestamp ts" ?vt] len
      distinct_pool_length [OF cs(1,2)] by (simp add: vs_def)
  have fr: "db_frame (l2_db s) (fold (insertRawTx gh) ?vt d1)"
    using db_frame_rawblock [OF raw] db_frame_rawtxs by (rule db_frame_trans)
  obtain s' rows where s': "commitBatch E (length vs)
      (s\<lparr>l2_mem := m2, l2_ts := ts, l2_db := insert_txlogs2 (- 1) vs (fold (insertRawTx gh) ?vt d1)\<rparr>) = Inr s'"
    "synced gh s'" "txlogs2 (l2_db s') = txlogs2 (l2_db s) @ rows" "legal \<sigma> (map event rows) ?s2"
    "agrees ?s2 (l2_mem s')" "\<exists>i b. rows = mk_rows i b vs" "l2_ts s' = ts"
    using batch_history [OF sy fr mi lenv loop(3) sync leg ag2, of ts] by blast
  have h: "handleBlockAccept E height blk s = Inr s'"
    using ts loop(1,2) cs(1) raw s'(1) gh
    by (simp add: handleBlockAccept_def length_ss_of_list vs_def Let_def)
  have "block_events already (map gh ?vt) = block_events (filter (isExist ?m0) (map gh ?vt)) (map gh ?vt)"
    unfolding block_events_def al
    by (intro arg_cong [where f = concat] map_cong) (auto simp: isExist_def)
  then have evr: "map event rows = map (Pair LOG2TYPE_TX_REJECT) cs @
      block_events (filter (isExist ?m0) (map gh ?vt)) (map gh ?vt)"
    using s'(6) ev by (auto simp: events_mk_rows)
  have "set cs \<subseteq> dom (map_of (txs ?m0)) - gh ` set ?vt" using cs(2,3) by blast
  with h s'(2-5,7) evr show ?thesis by blast
qed

subsection \<open>Rolling a block back\<close>

text \<open>
  What holds of the block that is the current one: its first transaction is its only
  coinbase, nothing in it is spent twice, and no pool transaction spends what it spends.
\<close>

definition rollback_ok :: "(CTransaction \<Rightarrow> uint256) \<Rightarrow> CTransaction list \<Rightarrow> memrepo \<Rightarrow> bool" where
  "rollback_ok gh vt m =
     (vt \<noteq> [] \<and> IsCoinBase (hd vt) \<and> (\<forall>t \<in> set (tl vt). \<not> IsCoinBase t) \<and> distinct (map gh vt) \<and>
      (\<forall>t \<in> set (tl vt). distinct (map outkey (vin t)) \<and> map_of (txs m) (gh t) = None \<and>
         (\<forall>i \<in> set (vin t). map_of (spentOutputs m) (outkey i) = None)) \<and>
      (\<forall>t \<in> set (tl vt). \<forall>u \<in> set (tl vt). gh t \<noteq> gh u \<longrightarrow> outkey ` set (vin t) \<inter> outkey ` set (vin u) = {}))"

lemma addTx_spent:
  assumes "mem_inv gh m" and "addTx gh tx m = Inr (True, m')"
  shows "map_of (spentOutputs m') = (\<lambda>k. if k \<in> outkey ` set (vin tx) then Some (gh tx) else map_of (spentOutputs m) k)"
proof -
  have "\<forall>i \<in> set (vin tx). map_of (spentOutputs m) (outkey i) = None"
    "spentOutputs m' = fold (\<lambda>i. sm_insert (outkey i) (gh tx)) (vin tx) (spentOutputs m)"
    using assms(2) by (auto simp: addTx_def Let_def conflicts_iff split: if_splits)
  then show ?thesis
    using fold_sm_insert [of "vin tx" "spentOutputs m" outkey "gh tx"] mem_invD(2) [OF assms(1)] by simp
qed

lemma rollback_adds:
  assumes "mem_inv gh m" and "\<forall>t \<in> set ts. \<not> IsCoinBase t" and "distinct (map gh ts)"
    and "\<forall>t \<in> set ts. distinct (map outkey (vin t)) \<and> map_of (txs m) (gh t) = None \<and>
         (\<forall>i \<in> set (vin t). map_of (spentOutputs m) (outkey i) = None)"
    and "\<forall>t \<in> set ts. \<forall>u \<in> set ts. gh t \<noteq> gh u \<longrightarrow> outkey ` set (vin t) \<inter> outkey ` set (vin u) = {}"
  shows "\<exists>m'. foldE (rollback_add gh) ts m = Inr m' \<and> mem_inv gh m' \<and>
     dom (map_of (txs m')) = dom (map_of (txs m)) \<union> gh ` set ts \<and>
     unSyncTxsDelete m' = unSyncTxsDelete m \<and> set (unSyncTxsInsert m') = set (unSyncTxsInsert m) \<union> gh ` set ts"
  using assms
proof (induction ts arbitrary: m)
  case (Cons t ts)
  have t: "\<not> IsCoinBase t" "distinct (map outkey (vin t))" "map_of (txs m) (gh t) = None"
    "\<forall>i \<in> set (vin t). map_of (spentOutputs m) (outkey i) = None"
    using Cons.prems by simp_all
  then obtain m1 where m1: "addTx gh t m = Inr (True, m1)"
    using addTx_True_iff [of t gh m] by (auto simp: isExist_def conflicts_iff)
  note S = addTx_True_state [OF m1] addTx_spent [OF Cons.prems(1) m1]
  have inv1: "mem_inv gh m1" using Cons.prems(1) t(2) m1 by (rule addTx_inv)
  have ne: "gh u \<noteq> gh t" if "u \<in> set ts" for u
    using Cons.prems(3) that by (metis distinct.simps(2) image_eqI list.set_map list.simps(9))
  have "distinct (map outkey (vin u)) \<and> map_of (txs m1) (gh u) = None \<and>
      (\<forall>i \<in> set (vin u). map_of (spentOutputs m1) (outkey i) = None)" if u: "u \<in> set ts" for u
  proof -
    have "outkey ` set (vin t) \<inter> outkey ` set (vin u) = {}"
      using Cons.prems(5) u ne [OF u] by (metis list.set_intros)
    then have "outkey i \<notin> outkey ` set (vin t)" if "i \<in> set (vin u)" for i using that by blast
    then show ?thesis using Cons.prems(4) u ne [OF u] S by simp
  qed
  moreover have "distinct (map gh ts)" "\<forall>u \<in> set ts. \<not> IsCoinBase u" using Cons.prems(2,3) by simp_all
  moreover have "\<forall>t \<in> set ts. \<forall>u \<in> set ts. gh t \<noteq> gh u \<longrightarrow> outkey ` set (vin t) \<inter> outkey ` set (vin u) = {}"
    using Cons.prems(5) by (meson list.set_intros(2))
  ultimately obtain m' where m': "foldE (rollback_add gh) ts m1 = Inr m'" "mem_inv gh m'"
    "dom (map_of (txs m')) = dom (map_of (txs m1)) \<union> gh ` set ts" "unSyncTxsDelete m' = unSyncTxsDelete m1"
    "set (unSyncTxsInsert m') = set (unSyncTxsInsert m1) \<union> gh ` set ts"
    using Cons.IH [OF inv1] by blast
  have "foldE (rollback_add gh) (t # ts) m = Inr m'"
    using t(1) m1 m'(1) by (simp add: rollback_add_def)
  then show ?case using m'(2-5) S by auto
qed simp

lemma rollback_pool:
  assumes inv: "mem_inv gh m0" and ok: "rollback_ok gh vt m0"
  shows "\<exists>m. foldE (rollback_add gh) (rev vt) m0 = Inr m \<and> mem_inv gh m \<and>
     dom (map_of (txs m)) = dom (map_of (txs m0)) \<union> gh ` set (tl vt) \<and> unSyncTxsDelete m = unSyncTxsDelete m0 \<and>
     set (unSyncTxsInsert m) = set (unSyncTxsInsert m0) \<union> gh ` set (tl vt) \<and>
     (\<forall>t \<in> set (tl vt). map_of (txs m0) (gh t) = None)"
proof -
  obtain cb rest where vt: "vt = cb # rest" using ok by (cases vt) (auto simp: rollback_ok_def)
  have R: "IsCoinBase cb" "\<forall>t \<in> set rest. \<not> IsCoinBase t" "distinct (gh cb # map gh rest)"
    "\<forall>t \<in> set rest. distinct (map outkey (vin t)) \<and> map_of (txs m0) (gh t) = None \<and>
         (\<forall>i \<in> set (vin t). map_of (spentOutputs m0) (outkey i) = None)"
    "\<forall>t \<in> set rest. \<forall>u \<in> set rest. gh t \<noteq> gh u \<longrightarrow> outkey ` set (vin t) \<inter> outkey ` set (vin u) = {}"
    using ok unfolding rollback_ok_def vt by simp_all
  have "distinct (map gh (rev rest))" using R(3) by (simp add: rev_map [symmetric])
  then obtain m where m: "foldE (rollback_add gh) (rev rest) m0 = Inr m" "mem_inv gh m"
    "dom (map_of (txs m)) = dom (map_of (txs m0)) \<union> gh ` set rest" "unSyncTxsDelete m = unSyncTxsDelete m0"
    "set (unSyncTxsInsert m) = set (unSyncTxsInsert m0) \<union> gh ` set rest"
    using rollback_adds [OF inv, of "rev rest"] R(2,4,5) by auto
  have "foldE (rollback_add gh) (rev vt) m0 = Inr m"
    using m(1) R(1) by (simp add: vt foldE_append rollback_add_def)
  with m(2-5) R(4) show ?thesis by (auto simp: vt)
qed

lemma rollback_agrees:
  assumes ag: "agrees \<sigma> m0" and st: "\<forall>t \<in> set vt. \<sigma> (gh t) = Confirmed" and ok: "rollback_ok gh vt m0"
    and dom: "dom (map_of (txs m)) = dom (map_of (txs m0)) \<union> gh ` set (tl vt)"
  shows "agrees (\<lambda>h. if h = gh (hd vt) then Absent else if h \<in> gh ` set vt then Unconfirmed else \<sigma> h) m"
  unfolding agrees_def
proof
  fix h
  obtain cb rest where vt: "vt = cb # rest" using ok by (cases vt) (auto simp: rollback_ok_def)
  have cb: "gh cb \<notin> gh ` set rest" using ok by (auto simp: rollback_ok_def vt)
  have a: "\<sigma> h = Unconfirmed \<longleftrightarrow> h \<in> dom (map_of (txs m0))" using ag by (simp add: agrees_def)
  have e: "gh ` set vt = insert (gh cb) (gh ` set rest)" "hd vt = cb" "tl vt = rest" by (simp_all add: vt)
  consider "h = gh cb" | "h \<noteq> gh cb" "h \<in> gh ` set rest" | "h \<notin> insert (gh cb) (gh ` set rest)" by blast
  then show "((if h = gh (hd vt) then Absent else if h \<in> gh ` set vt then Unconfirmed else \<sigma> h) = Unconfirmed) =
      (h \<in> dom (map_of (txs m)))"
  proof cases
    case 1
    then have "h \<notin> dom (map_of (txs m0))" using a st vt by simp
    with 1 cb show ?thesis unfolding dom e by simp
  qed (use a in \<open>auto simp: dom e\<close>)
qed

lemma handleBlockRollback_returns:
  assumes sy: "synced gh s" and ag: "agrees \<sigma> (l2_mem s)" and gh: "e_gh E = gh" and mi: "meta_ok E s"
    and ok: "rollback_ok gh (vtx blk) (l2_mem s)" and st: "\<forall>t \<in> set (vtx blk). \<sigma> (gh t) = Confirmed"
    and raw: "insertRawBlock (e_bh E) blk height (l2_db s) = Inr (bid, d1)"
    and ts: "popBlock (l2_ts s) = Inr ts" and len: "length (vtx blk) + 1 < 2 ^ 31"
  shows "\<exists>s' rows. handleBlockRollback E height blk s = Inr s' \<and> synced gh s' \<and>
     txlogs2 (l2_db s') = txlogs2 (l2_db s) @ rows \<and>
     map event rows = map (Pair LOG2TYPE_TX_UNCONFIRM) (rev (map gh (vtx blk))) @ [(LOG2TYPE_TX_REJECT, gh (hd (vtx blk)))] \<and>
     legal \<sigma> (map event rows) (\<lambda>h. if h = gh (hd (vtx blk)) then Absent else if h \<in> gh ` set (vtx blk) then Unconfirmed else \<sigma> h) \<and>
     agrees (\<lambda>h. if h = gh (hd (vtx blk)) then Absent else if h \<in> gh ` set (vtx blk) then Unconfirmed else \<sigma> h) (l2_mem s') \<and>
     l2_ts s' = ts"
proof -
  let ?vt = "vtx blk" and ?m0 = "l2_mem s"
  let ?t = "\<lambda>h. if h = gh (hd ?vt) then Absent else if h \<in> gh ` set ?vt then Unconfirmed else \<sigma> h"
  have vt: "?vt \<noteq> []" "distinct (map gh ?vt)" using ok by (auto simp: rollback_ok_def)
  have "mem_inv gh ?m0" using sy by (simp add: synced_def)
  from rollback_pool [OF this ok] obtain m where m: "foldE (rollback_add gh) (rev ?vt) ?m0 = Inr m" "mem_inv gh m"
    "dom (map_of (txs m)) = dom (map_of (txs ?m0)) \<union> gh ` set (tl ?vt)" "unSyncTxsDelete m = unSyncTxsDelete ?m0"
    "set (unSyncTxsInsert m) = set (unSyncTxsInsert ?m0) \<union> gh ` set (tl ?vt)"
    "\<forall>t \<in> set (tl ?vt). map_of (txs ?m0) (gh t) = None" by blast
  define vs where "vs = rollback_rows gh height bid (getMaxTimestamp (l2_ts s)) ?vt"
  have ev: "map vevent vs = map (Pair LOG2TYPE_TX_UNCONFIRM) (rev (map gh ?vt)) @ [(LOG2TYPE_TX_REJECT, gh (hd ?vt))]"
    unfolding vs_def by (rule events_rollback_rows)
  have e: "gh ` set ?vt = set (map gh ?vt)" "gh (hd ?vt) = hd (map gh ?vt)" using vt(1) by (simp_all add: hd_map)
  have leg: "legal \<sigma> (map vevent vs) ?t"
    unfolding ev e using vt st by (intro legal_rollback) auto
  note ag2 = rollback_agrees [OF ag st ok m(3)]
  have "sync_inv m (memrepo_txs (l2_db s))"
    using sy m(3-6) by (auto simp: sync_inv_def synced_def)
  from batch_history [OF sy db_frame_rawblock [OF raw] mi _ m(2) this leg ag2, of ts]
  obtain s' rows where s': "commitBatch E (length vs) (s\<lparr>l2_mem := m, l2_ts := ts, l2_db := insert_txlogs2 (- 1) vs d1\<rparr>) = Inr s'"
    "synced gh s'" "txlogs2 (l2_db s') = txlogs2 (l2_db s) @ rows" "legal \<sigma> (map event rows) ?t" "agrees ?t (l2_mem s')"
    "\<exists>i b. rows = mk_rows i b vs" "l2_ts s' = ts"
    using len by (auto simp: vs_def rollback_rows_def)
  have "handleBlockRollback E height blk s = Inr s'"
    using m(1) raw ts s'(1) gh vt by (simp add: handleBlockRollback_def vs_def Let_def)
  moreover have "map event rows = map (Pair LOG2TYPE_TX_UNCONFIRM) (rev (map gh ?vt)) @ [(LOG2TYPE_TX_REJECT, gh (hd ?vt))]"
    using s'(6) ev by (auto simp: events_mk_rows)
  ultimately show ?thesis using s'(2-5,7) by blast
qed

subsection \<open>Properties\<close>

text \<open>
  A sample state: the three pool transactions of \<open>sample_pool\<close>, the block of height 5 (a
  coinbase 20 and the transaction 21) as the current one, and a position in log1 to record.
\<close>

definition sample_E :: log2env where
  "sample_E = \<lparr>e_gh = sample_gh, e_bh = sample_bh, e_now = ''now''\<rparr>"

definition sample_blk :: CBlock where
  "sample_blk = sample_block 7 6 900 [sample_coinbase 20, sample_tx 21 [(3, 0)] [1]]"

definition sample_db :: log2db where
  "sample_db = \<lparr>txlogs2 = [], txlogs2_next_id = 1, memrepo_txs = [12, 11, 13], raw_txs = (\<lambda>_. []),
     raw_blocks = [\<lparr>rb_id = 1, rb_hash = 7, rb_height = 5, rb_chain_id = 0, rb_hex = EncodeHexBlock sample_blk\<rparr>],
     raw_blocks_next_id = 2,
     explorer_meta = [''log2producer.log1file.index'' \<mapsto> (''0'', ''old''), ''log2producer.log1file.offset'' \<mapsto> (''0'', ''old'')]\<rparr>"

definition sample_log2 :: log2 where
  "sample_log2 = \<lparr>l2_mem = sample_pool\<lparr>unSyncTxsInsert := []\<rparr>, l2_db = sample_db,
     l2_ts = \<lparr>bt_limit = 20, currMax = 900, blkTimestamps = [(4, 800), (5, 900)]\<rparr>, l2_height = 5, l2_hash = 7,
     l2_log1FileIndex = 0, l2_currLog1FileOffset = 300, l2_st_index = - 1, l2_st_offset = - 1\<rparr>"

definition sample_states :: "uint256 \<Rightarrow> txstate" where
  "sample_states h = (if h \<in> {11, 12, 13} then Unconfirmed else if h \<in> {20, 21} then Confirmed else Absent)"

lemma sample_synced: "synced sample_gh sample_log2"
proof -
  have "mem_inv sample_gh (sample_pool\<lparr>unSyncTxsInsert := []\<rparr>)"
    using sample_pool_inv by (rule mem_inv_inserted)
  moreover have "dom (map_of (txs sample_pool)) = {11, 12, 13}" by (auto simp: sample_pool_def)
  ultimately show ?thesis
    by (simp add: synced_def sample_log2_def sample_db_def batches_ok_def insert_commute)
      (simp add: sample_pool_def)
qed

lemma sample_agrees: "agrees sample_states (l2_mem sample_log2)"
  by (auto simp: agrees_def sample_states_def sample_log2_def sample_pool_def)

lemma sample_meta: "meta_ok sample_E sample_log2"
  by (simp add: meta_ok_def sample_log2_def sample_db_def sample_E_def fmt_d_def)

lemma sample_ranked: "pool_ranked sample_gh unat (l2_mem sample_log2)"
  by (auto simp: pool_ranked_def ranked_def sample_log2_def sample_pool_def sample_tx_def sample_gh_def split: if_splits)

lemma sample_E_gh: "e_gh sample_E = sample_gh" by (simp add: sample_E_def)


definition sample_next :: CBlock where
  "sample_next = sample_block 8 7 950 [sample_coinbase 22, sample_tx 11 [(5, 0)] [8, 6], sample_tx 23 [(11, 1)] [2]]"


text \<open>
  C12. Rolling the current block back adds a legal piece of history: every transaction of the
  block is unconfirmed, the last one first, then the coinbase is rejected; the other
  transactions are unconfirmed and back in the pool.
\<close>

theorem block_rollback_history:
  assumes "synced gh s" and "agrees \<sigma> (l2_mem s)" and "e_gh E = gh" and "meta_ok E s"
    and "rollback_ok gh (vtx blk) (l2_mem s)" and "\<forall>t \<in> set (vtx blk). \<sigma> (gh t) = Confirmed"
    and "insertRawBlock (e_bh E) blk height (l2_db s) = Inr (bid, d1)"
    and "popBlock (l2_ts s) = Inr ts" and "length (vtx blk) + 1 < 2 ^ 31"
  shows "\<exists>s' rows. handleBlockRollback E height blk s = Inr s' \<and> synced gh s' \<and>
     txlogs2 (l2_db s') = txlogs2 (l2_db s) @ rows \<and>
     map event rows = map (Pair LOG2TYPE_TX_UNCONFIRM) (rev (map gh (vtx blk))) @ [(LOG2TYPE_TX_REJECT, gh (hd (vtx blk)))] \<and>
     legal \<sigma> (map event rows) (\<lambda>h. if h = gh (hd (vtx blk)) then Absent else if h \<in> gh ` set (vtx blk) then Unconfirmed else \<sigma> h) \<and>
     agrees (\<lambda>h. if h = gh (hd (vtx blk)) then Absent else if h \<in> gh ` set (vtx blk) then Unconfirmed else \<sigma> h) (l2_mem s') \<and>
     l2_ts s' = ts"
  using assms by (rule handleBlockRollback_returns)

theorem block_rollback_history_witness:
  "\<exists>s' rows. handleBlockRollback sample_E 5 sample_blk sample_log2 = Inr s' \<and> synced sample_gh s' \<and>
     txlogs2 (l2_db s') = txlogs2 sample_db @ rows \<and>
     map event rows = [(LOG2TYPE_TX_UNCONFIRM, 21), (LOG2TYPE_TX_UNCONFIRM, 20), (LOG2TYPE_TX_REJECT, 20)]"
proof -
  have ok: "rollback_ok sample_gh (vtx sample_blk) (l2_mem sample_log2)"
    by (simp add: rollback_ok_def sample_blk_def sample_block_def sample_log2_def sample_pool_def)
      (simp add: sample_tx_def outkey_def)
  have st: "\<forall>t \<in> set (vtx sample_blk). sample_states (sample_gh t) = Confirmed"
    by (simp add: sample_blk_def sample_block_def sample_states_def)
  have raw: "insertRawBlock (e_bh sample_E) sample_blk 5 (l2_db sample_log2) = Inr (1, sample_db)"
    by (simp add: insertRawBlock_def Let_def sample_log2_def sample_db_def sample_E_def sample_blk_def sample_block_def
        sample_bh_def GetBlockHeader_def CBlockHeader.truncate_def)
  have ts: "popBlock (l2_ts sample_log2) = Inr \<lparr>bt_limit = 20, currMax = 800, blkTimestamps = [(4, 800)]\<rparr>"
    by (simp add: popBlock_def sample_log2_def)
  have len: "length (vtx sample_blk) + 1 < 2 ^ 31" by (simp add: sample_blk_def sample_block_def)
  have v: "map sample_gh (vtx sample_blk) = [20, 21]" "sample_gh (hd (vtx sample_blk)) = 20" "l2_db sample_log2 = sample_db"
    by (simp_all add: sample_blk_def sample_block_def sample_log2_def)
  from block_rollback_history [OF sample_synced sample_agrees sample_E_gh sample_meta ok st raw ts len]
  show ?thesis unfolding v by auto
qed


theorem handleTxReject_history_witness:
  "\<exists>s' rows hs. handleTxReject sample_E (sample_tx 12 [(11, 1)] [4]) sample_log2 = Inr s' \<and> synced sample_gh s' \<and>
     txlogs2 (l2_db s') = txlogs2 sample_db @ rows \<and> map event rows = map (Pair LOG2TYPE_TX_REJECT) hs \<and>
     last hs = 12 \<and> spenders_first (l2_mem sample_log2) hs"
proof -
  have tx: "map_of (txs (l2_mem sample_log2)) (sample_gh (sample_tx 12 [(11, 1)] [4])) = Some (sample_tx 12 [(11, 1)] [4])"
    by (simp add: sample_log2_def sample_pool_def)
  have len: "length (txs (l2_mem sample_log2)) < 2 ^ 31" by (simp add: sample_log2_def sample_pool_def)
  have db: "l2_db sample_log2 = sample_db" "sample_gh (sample_tx 12 [(11, 1)] [4]) = 12" by (simp_all add: sample_log2_def)
  from handleTxReject_history [OF sample_synced sample_agrees sample_E_gh sample_meta sample_ranked tx len]
  show ?thesis unfolding db by blast
qed

theorem clearMempoolTxs_history_witness:
  "\<exists>s' rows hs. clearMempoolTxs sample_E sample_log2 = Inr s' \<and> txs (l2_mem s') = [] \<and>
     txlogs2 (l2_db s') = txlogs2 sample_db @ rows \<and> map event rows = map (Pair LOG2TYPE_TX_REJECT) hs \<and>
     spenders_first (l2_mem sample_log2) hs"
proof -
  have len: "length (txs (l2_mem sample_log2)) < 2 ^ 31" by (simp add: sample_log2_def sample_pool_def)
  have db: "l2_db sample_log2 = sample_db" by (simp add: sample_log2_def)
  from clearMempoolTxs_history [OF sample_synced sample_agrees sample_E_gh sample_meta sample_ranked len]
  show ?thesis unfolding db by blast
qed

end
