(* ===== verification/RawStore.thy ===== *)
theory RawStore
  imports TxHistory
begin

text \<open>
  The raw transactions and blocks in MySQL: \<open>insertRawBlock\<close> keeps the unique keys of
  \<open>0_raw_blocks\<close> while it moves the blocks of the same height up by one \<open>chain_id\<close>, what was
  stored can be read back (\<open>getBlockByHash\<close>, \<open>getTxHexByHash\<close>), and loading the table
  \<open>0_memrepo_txs\<close> at start-up rebuilds the memory pool.
\<close>

definition raw_blocks_ok :: "log2db \<Rightarrow> bool" where
  "raw_blocks_ok d =
     (distinct (map rb_id (raw_blocks d)) \<and> distinct (map rb_hash (raw_blocks d)) \<and>
      distinct (map (\<lambda>r. (rb_height r, rb_chain_id r)) (raw_blocks d)) \<and>
      (\<forall>r \<in> set (raw_blocks d). rb_id r < raw_blocks_next_id d \<and> 0 \<le> rb_chain_id r))"

definition bumped :: "int set \<Rightarrow> rawblock \<Rightarrow> rawblock" where
  "bumped K r = (if rb_id r \<in> K then r\<lparr>rb_chain_id := rb_chain_id r + 1\<rparr> else r)"

lemma bumped_simps [simp]:
  "rb_id (bumped K r) = rb_id r" "rb_hash (bumped K r) = rb_hash r" "rb_height (bumped K r) = rb_height r"
  "rb_hex (bumped K r) = rb_hex r"
  by (simp_all add: bumped_def)

lemma bumped_chain: "rb_chain_id (bumped K r) = (if rb_id r \<in> K then rb_chain_id r + 1 else rb_chain_id r)"
  by (simp add: bumped_def)

lemma set_ins_desc [simp]: "set (ins_desc r rs) = insert r (set rs)"
  by (induction rs) auto

lemma sorted_ins_desc:
  "sorted_wrt (\<lambda>a b. rb_chain_id b \<le> rb_chain_id a) rs \<Longrightarrow> sorted_wrt (\<lambda>a b. rb_chain_id b \<le> rb_chain_id a) (ins_desc r rs)"
  by (induction rs) auto

lemma foldr_ins_desc:
  "set (foldr ins_desc rs []) = set rs \<and> sorted_wrt (\<lambda>a b. rb_chain_id b \<le> rb_chain_id a) (foldr ins_desc rs []) \<and>
     length (foldr ins_desc rs []) = length rs"
proof (induction rs)
  case (Cons r rs)
  have "length (ins_desc a bs) = Suc (length bs)" for a bs by (induction bs) auto
  with Cons show ?case by (simp add: sorted_ins_desc)
qed simp

lemma distinct_keys_iff:
  "distinct (map f xs) \<Longrightarrow> r \<in> set xs \<Longrightarrow> s \<in> set xs \<Longrightarrow> f r = f s \<Longrightarrow> r = s"
  by (auto simp: distinct_map inj_on_def)

lemma distinct_map_comp:
  "distinct (map f xs) \<Longrightarrow> (\<And>r s. r \<in> set xs \<Longrightarrow> s \<in> set xs \<Longrightarrow> g r = g s \<Longrightarrow> f r = f s) \<Longrightarrow> distinct (map g xs)"
  unfolding distinct_map inj_on_def by blast

lemma filter_unique:
  "distinct (map f xs) \<Longrightarrow> filter (\<lambda>r. f r = k) xs = [] \<or> (\<exists>r. filter (\<lambda>r. f r = k) xs = [r] \<and> r \<in> set xs \<and> f r = k)"
proof (induction xs)
  case (Cons x xs)
  show ?case
  proof (cases "f x = k")
    case True
    then have "filter (\<lambda>r. f r = k) xs = []" using Cons.prems by (auto simp: filter_empty_conv image_iff)
    with True show ?thesis by simp
  qed (use Cons in auto)
qed simp

lemma bump_all:
  assumes ids: "distinct (map rb_id rows)" and keys: "distinct (map (\<lambda>r. (rb_height r, rb_chain_id r)) rows)"
    and same: "set same = {r \<in> set rows. rb_height r = h}"
    and srt: "sorted_wrt (\<lambda>a b. rb_chain_id b \<le> rb_chain_id a) same" and ds: "distinct same"
  shows "foldE bump_chain_id (map rb_id same) rows = Inr (map (bumped (rb_id ` set same)) rows)"
proof -
  have "foldE bump_chain_id (map rb_id post) (map (bumped (rb_id ` set pre)) rows) =
      Inr (map (bumped (rb_id ` set same)) rows)" if "same = pre @ post" for pre post
    using that
  proof (induction post arbitrary: pre)
    case Nil
    then show ?case by simp
  next
    case (Cons x post)
    let ?K = "rb_id ` set pre" and ?L = "rb_id ` set (pre @ [x])"
    have x: "x \<in> set rows" "rb_height x = h" using same Cons.prems by auto
    have inK: "rb_id r \<in> rb_id ` set ps \<longleftrightarrow> r \<in> set ps" if "r \<in> set rows" "set ps \<subseteq> set same" for r ps
      using that ids same by (auto dest: distinct_keys_iff)
    have xK: "rb_id x \<notin> ?K" using inK [OF x(1), of pre] ds Cons.prems by auto
    have upd: "map (\<lambda>r. if rb_id r = rb_id x then r\<lparr>rb_chain_id := rb_chain_id r + 1\<rparr> else r) (map (bumped ?K) rows) =
        map (bumped ?L) rows"
      using xK by (auto simp: bumped_def)
    have "distinct (map (\<lambda>r. (rb_height r, rb_chain_id r)) (map (bumped ?L) rows))"
      unfolding list.map_comp
    proof (rule distinct_map_comp [OF keys])
      fix r s
      assume rs: "r \<in> set rows" "s \<in> set rows"
        and eq: "((\<lambda>r. (rb_height r, rb_chain_id r)) \<circ> bumped ?L) r = ((\<lambda>r. (rb_height r, rb_chain_id r)) \<circ> bumped ?L) s"
      have no: False if ab: "a \<in> set rows" "b \<in> set rows" "rb_height a = rb_height b"
        "rb_id a \<in> ?L" "rb_id b \<notin> ?L" "rb_chain_id a + 1 = rb_chain_id b" for a b
      proof -
        have "set (pre @ [x]) \<subseteq> set same" using Cons.prems by auto
        with inK ab have a: "a \<in> set (pre @ [x])" and b: "b \<notin> set (pre @ [x])" by blast+
        have "rb_height a = h" using a same Cons.prems by auto
        then have "b \<in> set post" using b ab(2,3) same Cons.prems by auto
        then have "rb_chain_id b \<le> rb_chain_id a"
          using a srt Cons.prems by (auto simp: sorted_wrt_append)
        with ab(6) show False by simp
      qed
      then show "(rb_height r, rb_chain_id r) = (rb_height s, rb_chain_id s)"
        using eq rs no [of r s] no [of s r] by (auto simp: bumped_chain split: if_splits)
    qed
    moreover have "length (filter (\<lambda>r. rb_id r = rb_id x) (map (bumped ?K) rows)) = 1"
    proof -
      have "filter (\<lambda>r. rb_id r = rb_id x) rows \<noteq> []" using x(1) by (auto simp: filter_empty_conv)
      then have "length (filter (\<lambda>r. rb_id r = rb_id x) rows) = 1"
        using filter_unique [OF ids, of "rb_id x"] by auto
      then show ?thesis by (simp add: filter_map comp_def)
    qed
    ultimately have "bump_chain_id (rb_id x) (map (bumped ?K) rows) = Inr (map (bumped ?L) rows)"
      unfolding bump_chain_id_def Let_def upd by (simp add: updateOrThrowEx_def)
    moreover have "same = (pre @ [x]) @ post" using Cons.prems by simp
    ultimately show ?case using Cons.IH [of "pre @ [x]"] by simp
  qed
  moreover have "map (bumped {}) rows = rows" by (simp add: bumped_def [abs_def])
  ultimately show ?thesis by (metis append_Nil image_empty list.set(1))
qed

lemma insertRawBlock_new:
  assumes "filter (\<lambda>r. rb_hash r = block_hash bh blk) (raw_blocks d) = []"
    and "foldE bump_chain_id (map rb_id (foldr ins_desc (filter (\<lambda>r. rb_height r = height) (raw_blocks d)) [])) (raw_blocks d) =
      Inr rows"
    and "distinct (map (\<lambda>r. (rb_height r, rb_chain_id r)) (rows @
      [\<lparr>rb_id = raw_blocks_next_id d, rb_hash = block_hash bh blk, rb_height = height, rb_chain_id = 0, rb_hex = EncodeHexBlock blk\<rparr>]))"
  shows "insertRawBlock bh blk height d = Inr (raw_blocks_next_id d, d\<lparr>raw_blocks := rows @
      [\<lparr>rb_id = raw_blocks_next_id d, rb_hash = block_hash bh blk, rb_height = height, rb_chain_id = 0, rb_hex = EncodeHexBlock blk\<rparr>],
      raw_blocks_next_id := raw_blocks_next_id d + 1\<rparr>)"
  using assms by (simp add: insertRawBlock_def Let_def)

lemma raw_blocks_ok_add:
  assumes "distinct (map rb_id rows)" and "distinct (map rb_hash rows)" and "h \<notin> set (map rb_hash rows)"
    and "\<forall>r \<in> set rows. rb_id r < i \<and> 0 \<le> rb_chain_id r"
    and "distinct (map (\<lambda>r. (rb_height r, rb_chain_id r))
      (rows @ [\<lparr>rb_id = i, rb_hash = h, rb_height = height, rb_chain_id = 0, rb_hex = hex\<rparr>]))"
  shows "raw_blocks_ok (d\<lparr>raw_blocks := rows @
      [\<lparr>rb_id = i, rb_hash = h, rb_height = height, rb_chain_id = 0, rb_hex = hex\<rparr>], raw_blocks_next_id := i + 1\<rparr>)"
  using assms unfolding raw_blocks_ok_def by fastforce

text \<open>
  A new block is added with \<open>chain_id\<close> 0, and the others of its height move up by one; the
  unique keys hold again. A known block keeps its row.
\<close>

lemma insertRawBlock_ok:
  assumes ok: "raw_blocks_ok d" and h: "\<forall>r \<in> set (raw_blocks d). rb_hash r = block_hash bh blk \<longrightarrow> rb_height r = height"
  shows "\<exists>i d'. insertRawBlock bh blk height d = Inr (i, d') \<and> raw_blocks_ok d' \<and>
     (if block_hash bh blk \<in> rb_hash ` set (raw_blocks d) then d' = d
      else raw_blocks d' = map (\<lambda>r. if rb_height r = height then r\<lparr>rb_chain_id := rb_chain_id r + 1\<rparr> else r) (raw_blocks d) @
        [\<lparr>rb_id = i, rb_hash = block_hash bh blk, rb_height = height, rb_chain_id = 0, rb_hex = EncodeHexBlock blk\<rparr>])"
proof -
  let ?R = "raw_blocks d" and ?h = "block_hash bh blk"
  have D: "distinct (map rb_id ?R)" "distinct (map rb_hash ?R)"
    "distinct (map (\<lambda>r. (rb_height r, rb_chain_id r)) ?R)"
    "\<And>r. r \<in> set ?R \<Longrightarrow> rb_id r < raw_blocks_next_id d \<and> 0 \<le> rb_chain_id r"
    using ok unfolding raw_blocks_ok_def by blast+
  from filter_unique [OF D(2), of ?h] show ?thesis
  proof
    assume "\<exists>r. filter (\<lambda>r. rb_hash r = ?h) ?R = [r] \<and> r \<in> set ?R \<and> rb_hash r = ?h"
    then obtain r where "filter (\<lambda>r. rb_hash r = ?h) ?R = [r]" "r \<in> set ?R" "rb_hash r = ?h" by blast
    moreover from this have "?h \<in> rb_hash ` set ?R" by force
    ultimately show ?thesis using h ok by (simp add: insertRawBlock_def Let_def)
  next
    assume none: "filter (\<lambda>r. rb_hash r = ?h) ?R = []"
    let ?same = "foldr ins_desc (filter (\<lambda>r. rb_height r = height) ?R) []"
    note F = foldr_ins_desc [of "filter (\<lambda>r. rb_height r = height) ?R"]
    have "distinct (filter (\<lambda>r. rb_height r = height) ?R)" using D(1) by (auto simp: distinct_map)
    then have ds: "distinct ?same" using F by (metis card_distinct distinct_card)
    have set: "set ?same = {r \<in> set ?R. rb_height r = height}" using F by auto
    have bump: "foldE bump_chain_id (map rb_id ?same) ?R = Inr (map (bumped (rb_id ` set ?same)) ?R)"
      using D(1,3) set conjunct1 [OF conjunct2 [OF F]] ds by (rule bump_all)
    have inK: "rb_id r \<in> rb_id ` set ?same \<longleftrightarrow> rb_height r = height" if "r \<in> set ?R" for r
      using that D(1) set by (auto dest: distinct_keys_iff)
    have eq: "map (bumped (rb_id ` set ?same)) ?R =
        map (\<lambda>r. if rb_height r = height then r\<lparr>rb_chain_id := rb_chain_id r + 1\<rparr> else r) ?R"
      using inK by (auto simp: bumped_def)
    let ?rows = "map (\<lambda>r. if rb_height r = height then r\<lparr>rb_chain_id := rb_chain_id r + 1\<rparr> else r) ?R"
    let ?new = "\<lparr>rb_id = raw_blocks_next_id d, rb_hash = ?h, rb_height = height, rb_chain_id = 0, rb_hex = EncodeHexBlock blk\<rparr>"
    have "distinct (map (\<lambda>r. (rb_height r, rb_chain_id r)) ?rows)"
      unfolding list.map_comp
    proof (rule distinct_map_comp [OF D(3)])
      fix r s
      let ?u = "\<lambda>r. if rb_height r = height then r\<lparr>rb_chain_id := rb_chain_id r + 1\<rparr> else r"
      assume "((\<lambda>r. (rb_height r, rb_chain_id r)) \<circ> ?u) r = ((\<lambda>r. (rb_height r, rb_chain_id r)) \<circ> ?u) s"
      then show "(rb_height r, rb_chain_id r) = (rb_height s, rb_chain_id s)"
        by (cases "rb_height r = height"; cases "rb_height s = height") simp_all
    qed
    moreover have "(height, 0) \<notin> set (map (\<lambda>r. (rb_height r, rb_chain_id r)) ?rows)"
    proof
      assume "(height, 0) \<in> set (map (\<lambda>r. (rb_height r, rb_chain_id r)) ?rows)"
      then obtain r where r: "r \<in> set ?R" and e: "(height, 0) = (\<lambda>r. (rb_height r, rb_chain_id r))
          (if rb_height r = height then r\<lparr>rb_chain_id := rb_chain_id r + 1\<rparr> else r)" by auto
      then show False using D(4) [OF r] by (cases "rb_height r = height") simp_all
    qed
    ultimately have dk: "distinct (map (\<lambda>r. (rb_height r, rb_chain_id r)) (?rows @ [?new]))" by simp
    have "insertRawBlock bh blk height d =
        Inr (raw_blocks_next_id d, d\<lparr>raw_blocks := ?rows @ [?new], raw_blocks_next_id := raw_blocks_next_id d + 1\<rparr>)"
      using insertRawBlock_new [of bh blk d height ?rows] none bump dk unfolding eq by blast
    moreover have "raw_blocks_ok (d\<lparr>raw_blocks := ?rows @ [?new], raw_blocks_next_id := raw_blocks_next_id d + 1\<rparr>)"
    proof (rule raw_blocks_ok_add)
      have m: "map rb_id ?rows = map rb_id ?R" "map rb_hash ?rows = map rb_hash ?R" by auto
      show "distinct (map rb_id ?rows)" "distinct (map rb_hash ?rows)" unfolding m using D(1,2) by simp_all
      show "?h \<notin> set (map rb_hash ?rows)" unfolding m using none by (auto simp: filter_empty_conv)
      show "\<forall>r \<in> set ?rows. rb_id r < raw_blocks_next_id d \<and> 0 \<le> rb_chain_id r" by (auto dest!: D(4))
    qed (rule dk)
    moreover have "?h \<notin> rb_hash ` set ?R" using none by (auto simp: filter_empty_conv)
    ultimately show ?thesis by simp
  qed
qed

subsection \<open>Reading back\<close>

lemma getBlockByHash_insert:
  assumes ok: "raw_blocks_ok d" and new: "block_hash bh blk \<notin> rb_hash ` set (raw_blocks d)" and wf: "wf_block blk"
    and ins: "insertRawBlock bh blk height d = Inr (i, d')"
  shows "getBlockByHash (block_hash bh blk) d' = Inr blk"
    and "h \<noteq> block_hash bh blk \<Longrightarrow> getBlockByHash h d' = getBlockByHash h d"
proof -
  let ?u = "\<lambda>r. if rb_height r = height then r\<lparr>rb_chain_id := rb_chain_id r + 1\<rparr> else r"
  have "\<forall>r \<in> set (raw_blocks d). rb_hash r = block_hash bh blk \<longrightarrow> rb_height r = height" using new by force
  with insertRawBlock_ok [of d bh blk height] ok new ins
  have d': "raw_blocks d' = map ?u (raw_blocks d) @
      [\<lparr>rb_id = i, rb_hash = block_hash bh blk, rb_height = height, rb_chain_id = 0, rb_hex = EncodeHexBlock blk\<rparr>]"
    by auto
  have F: "filter (\<lambda>r. rb_hash r = k) (map ?u rows) = map ?u (filter (\<lambda>r. rb_hash r = k) rows)" for k rows
    by (induction rows) auto
  have "filter (\<lambda>r. rb_hash r = block_hash bh blk) (raw_blocks d) = []" using new by (auto simp: filter_empty_conv image_iff)
  then show "getBlockByHash (block_hash bh blk) d' = Inr blk"
    using wf unfolding getBlockByHash_def d' by (simp add: F DecodeHexBlk_EncodeHexBlock)
  assume "h \<noteq> block_hash bh blk"
  then show "getBlockByHash h d' = getBlockByHash h d"
    unfolding getBlockByHash_def d' by (auto simp: F split: list.splits)
qed

definition raw_txs_ok :: "log2db \<Rightarrow> bool" where
  "raw_txs_ok d = (\<forall>i. distinct (map fst (raw_txs d i)))"

lemma getTxHexByHash_insert:
  assumes "raw_txs_ok d"
  shows "raw_txs_ok (insertRawTx gh tx d)"
    and "\<forall>x. getTxHexByHash d (gh tx) = Inr x \<longrightarrow> x = EncodeHexTx tx \<Longrightarrow>
      getTxHexByHash (insertRawTx gh tx d) (gh tx) = Inr (EncodeHexTx tx)"
    and "h \<noteq> gh tx \<Longrightarrow> getTxHexByHash (insertRawTx gh tx d) h = getTxHexByHash d h"
proof -
  let ?i = "raw_table (gh tx)"
  have "distinct (map fst (raw_txs d ?i))" using assms by (simp add: raw_txs_ok_def)
  note U = filter_unique [OF this, of "gh tx"]
  show "raw_txs_ok (insertRawTx gh tx d)"
    using assms U by (auto simp: raw_txs_ok_def insertRawTx_def Let_def filter_empty_conv)
  show "getTxHexByHash (insertRawTx gh tx d) (gh tx) = Inr (EncodeHexTx tx)"
    if "\<forall>x. getTxHexByHash d (gh tx) = Inr x \<longrightarrow> x = EncodeHexTx tx"
    using U that by (auto simp: getTxHexByHash_def insertRawTx_def Let_def)
  show "getTxHexByHash (insertRawTx gh tx d) h = getTxHexByHash d h" if "h \<noteq> gh tx"
    using that by (auto simp: getTxHexByHash_def insertRawTx_def Let_def)
qed

subsection \<open>Loading the pool at start-up\<close>

definition stored :: "(CTransaction \<Rightarrow> uint256) \<Rightarrow> log2db \<Rightarrow> uint256 \<Rightarrow> CTransaction \<Rightarrow> bool" where
  "stored gh d h t = (getTxHexByHash d h = Inr (EncodeHexTx t) \<and> wf_tx t \<and> \<not> IsCoinBase t)"

lemma load_prefix:
  assumes inv: "mem_inv gh m" and st: "\<And>h t. map_of (txs m) h = Some t \<Longrightarrow> stored gh d h t"
  shows "distinct hs \<Longrightarrow> set hs \<subseteq> dom (map_of (txs m)) \<Longrightarrow>
     \<exists>n. foldE (load_memrepo_tx gh d) hs MemTxRepository_init = Inr n \<and> mem_inv gh n \<and>
       map_of (txs n) = map_of (txs m) |` set hs"
proof (induction hs rule: rev_induct)
  case Nil
  then show ?case by (auto simp: MemTxRepository_init_def mem_inv_init [unfolded MemTxRepository_init_def])
next
  case (snoc h hs)
  then obtain n where n: "foldE (load_memrepo_tx gh d) hs MemTxRepository_init = Inr n" "mem_inv gh n"
    "map_of (txs n) = map_of (txs m) |` set hs" by auto
  from snoc.prems obtain t where t: "map_of (txs m) h = Some t" by auto
  note I = mem_invD [OF inv]
  have g: "gh t = h" using t by (rule I(5))
  have "\<not> isExist n (gh t)" using n(3) g snoc.prems(1) by (simp add: isExist_def)
  moreover have "\<not> conflicts n t"
  proof
    assume "conflicts n t"
    then obtain i h' where i: "i \<in> set (vin t)" "map_of (spentOutputs n) (outkey i) = Some h'"
      by (auto simp: conflicts_iff)
    then obtain t' where t': "map_of (txs n) h' = Some t'" "outkey i \<in> outkey ` set (vin t')"
      using mem_invD(7) [OF n(2)] by blast
    then have h': "h' \<in> set hs" "map_of (txs m) h' = Some t'" using n(3) by (auto simp: restrict_map_def split: if_splits)
    then have "map_of (spentOutputs m) (outkey i) = Some h'" using t'(2) I(7) by blast
    moreover have "map_of (spentOutputs m) (outkey i) = Some h" using t i(1) I(7) by blast
    ultimately show False using h'(1) snoc.prems(1) by simp
  qed
  ultimately obtain n' where n': "addTx gh t n = Inr (True, n')"
    using addTx_True_iff [of t gh n] st [OF t] by (auto simp: stored_def)
  have "load_memrepo_tx gh d h n = Inr n'"
    using st [OF t] n' by (simp add: load_memrepo_tx_def stored_def DecodeHexTx_EncodeHexTx)
  moreover have "mem_inv gh n'" using n(2) I(6) [OF t] n' by (rule addTx_inv)
  moreover have "map_of (txs n') = map_of (txs m) |` set (hs @ [h])"
    using addTx_True_state [OF n'] n(3) t g by (auto simp: restrict_map_def fun_eq_iff)
  ultimately show ?case using n(1) by (simp add: foldE_append)
qed

lemma option_eqI: "(\<And>h. x = Some h \<longleftrightarrow> y = Some h) \<Longrightarrow> x = y"
  by (cases x) (auto intro: option.exhaust [of y])

lemma restrict_dom: "f |` dom f = f"
  by (auto simp: restrict_map_def fun_eq_iff domIff)

text \<open>
  When the table \<open>0_memrepo_txs\<close> holds the hashes of the pool, in any order, and the raw transactions are stored, loading the table gives back the pool, the
  list of spent outputs included.
\<close>

lemma reload_pool:
  assumes inv: "mem_inv gh m" and st: "\<And>h t. map_of (txs m) h = Some t \<Longrightarrow> stored gh d h t"
    and T: "distinct (memrepo_txs d)" "set (memrepo_txs d) = dom (map_of (txs m))"
    and un: "unSyncTxsInsert m = []" "unSyncTxsDelete m = []"
  shows "initLog2_loadMemrepoTxs gh d MemTxRepository_init = Inr m"
proof -
  obtain n where n: "foldE (load_memrepo_tx gh d) (memrepo_txs d) MemTxRepository_init = Inr n" "mem_inv gh n"
    "map_of (txs n) = map_of (txs m)"
    using load_prefix [OF inv st T(1)] unfolding T(2) restrict_dom by blast
  have t: "txs n = txs m" using mem_invD(1) [OF n(2)] mem_invD(1) [OF inv] n(3) by (rule sm_wf_inject)
  have "map_of (spentOutputs n) = map_of (spentOutputs m)"
  proof
    fix k
    have "map_of (spentOutputs n) k = Some h \<longleftrightarrow> map_of (spentOutputs m) k = Some h" for h
      using mem_invD(7) [OF n(2)] mem_invD(7) [OF inv] n(3) by simp
    then show "map_of (spentOutputs n) k = map_of (spentOutputs m) k" by (rule option_eqI)
  qed
  with mem_invD(2) [OF n(2)] mem_invD(2) [OF inv] have "spentOutputs n = spentOutputs m" by (rule sm_wf_inject)
  with t un have eq: "ignoreUnsyncData n = m" by (simp add: ignoreUnsyncData_def)
  have "MemTxRepository_init = m" if "memrepo_txs d = []"
  proof -
    have "n = MemTxRepository_init" using n(1) that by simp
    then show ?thesis using eq by (simp add: ignoreUnsyncData_def MemTxRepository_init_def)
  qed
  then show ?thesis using n(1) eq by (simp add: initLog2_loadMemrepoTxs_def)
qed

definition sample_raw_txs :: "int \<Rightarrow> (uint256 \<times> string) list" where
  "sample_raw_txs i = map (\<lambda>t. (sample_gh t, EncodeHexTx t)) (filter (\<lambda>t. raw_table (sample_gh t) = i) sample_txs)"

lemma sample_stored:
  assumes "map_of (txs (l2_mem sample_log2)) h = Some t" and "raw_txs d = sample_raw_txs"
  shows "stored sample_gh d h t"
proof -
  have t: "(h, t) \<in> set [(11, sample_tx 11 [(5, 0)] [8, 6]), (12, sample_tx 12 [(11, 1)] [4]), (13, sample_tx 13 [(12, 0)] [3])]"
    using map_of_SomeD [OF assms(1)] by (simp add: sample_log2_def sample_pool_def)
  then have "wf_tx t \<and> \<not> IsCoinBase t"
    by (auto simp: sample_tx_def wf_tx_def wf_script_def wf_txout_def MAX_SIZE_def IsCoinBase_def COutPoint_IsNull_def)
  moreover have "filter (\<lambda>r. fst r = h) (raw_txs d (raw_table h)) = [(h, EncodeHexTx t)]"
    using t assms(2) by (auto simp: sample_txs_def sample_raw_txs_def)
  ultimately show ?thesis by (simp add: stored_def getTxHexByHash_def)
qed

subsection \<open>Properties\<close>

text \<open>
  C26. A new block enters \<open>0_raw_blocks\<close> with \<open>chain_id\<close> 0 while the other blocks of its height
  move up by one, one update at a time without ever breaking the unique keys on the hash and
  on height and \<open>chain_id\<close>; afterwards the block can be read back by its hash, and every other
  block reads as before.
\<close>

theorem insertRawBlock_keys:
  assumes "raw_blocks_ok d" and "block_hash bh blk \<notin> rb_hash ` set (raw_blocks d)" and "wf_block blk"
  shows "\<exists>i d'. insertRawBlock bh blk height d = Inr (i, d') \<and> raw_blocks_ok d' \<and>
     raw_blocks d' = map (\<lambda>r. if rb_height r = height then r\<lparr>rb_chain_id := rb_chain_id r + 1\<rparr> else r) (raw_blocks d) @
        [\<lparr>rb_id = i, rb_hash = block_hash bh blk, rb_height = height, rb_chain_id = 0, rb_hex = EncodeHexBlock blk\<rparr>] \<and>
     getBlockByHash (block_hash bh blk) d' = Inr blk \<and>
     (\<forall>h. h = block_hash bh blk \<or> getBlockByHash h d' = getBlockByHash h d)"
proof -
  have "\<forall>r \<in> set (raw_blocks d). rb_hash r = block_hash bh blk \<longrightarrow> rb_height r = height" using assms(2) by force
  with insertRawBlock_ok [of d bh blk height] assms(1,2) obtain i d' where
    ins: "insertRawBlock bh blk height d = Inr (i, d')" "raw_blocks_ok d'"
    "raw_blocks d' = map (\<lambda>r. if rb_height r = height then r\<lparr>rb_chain_id := rb_chain_id r + 1\<rparr> else r) (raw_blocks d) @
        [\<lparr>rb_id = i, rb_hash = block_hash bh blk, rb_height = height, rb_chain_id = 0, rb_hex = EncodeHexBlock blk\<rparr>]"
    by auto
  have "getBlockByHash (block_hash bh blk) d' = Inr blk" "\<And>h. h \<noteq> block_hash bh blk \<Longrightarrow> getBlockByHash h d' = getBlockByHash h d"
    using getBlockByHash_insert [of d bh blk height i d'] assms ins(1) by auto
  with ins show ?thesis by blast
qed

theorem insertRawBlock_keys_witness:
  "let blk = sample_block 9 6 901 [sample_coinbase 30] in
   \<exists>i d'. insertRawBlock sample_bh blk 5 sample_db = Inr (i, d') \<and> raw_blocks_ok d' \<and>
     getBlockByHash (block_hash sample_bh blk) d' = Inr blk"
proof -
  let ?blk = "sample_block 9 6 901 [sample_coinbase 30]"
  have d: "raw_blocks_ok sample_db" by (simp add: raw_blocks_ok_def sample_db_def)
  have new: "block_hash sample_bh ?blk \<notin> rb_hash ` set (raw_blocks sample_db)"
    by (simp add: sample_db_def sample_bh_def sample_block_def GetBlockHeader_def CBlockHeader.truncate_def)
  have wf: "wf_block ?blk"
    by (simp add: sample_defs wf_block_def wf_tx_def wf_script_def wf_txout_def MAX_SIZE_def)
  show ?thesis unfolding Let_def using insertRawBlock_keys [of sample_db sample_bh ?blk 5, OF d new wf] by blast
qed

end
