(* ===== verification/KVDB.thy ===== *)
theory KVDB
  imports TxTypes StdMap
begin

text \<open>
  The key-value store of \<open>tparser\<close> (src/jiexi/src/KVDB.cc, KVDB.h) and the FlatBuffers tables
  it holds (src/flatbuffers/explorer.fbs).

  RocksDB is a library the program calls: the record \<open>rocks\<close> holds its operations as
  parameters, and \<open>rocks_ok R V\<close> states their documented behaviour, where \<open>V\<close> reads a database
  as a map from keys to values. A value is either the bytes the program stores as a string
  or one of its tables: \<open>GetRoot\<close> of the bytes a \<open>FlatBufferBuilder\<close> finished gives the fields
  that were put in (all scalars are stored, since the builders set \<open>ForceDefaults\<close>, so
  \<open>mutate_x\<close> is a record update), and reading a value as a table it is not is undefined
  behaviour. A \<open>double\<close> is kept as its bit pattern.

  The keys are the strings the code formats. \<open>kvkey\<close> names their kinds, \<open>key_str\<close> is the text,
  and no two keys have the same text, so writes to one kind of record never touch another.
\<close>

section \<open>Tables\<close>

record fb_TxInput =
  ti_sequence :: "32 word"
  ti_script_asm :: string
  ti_script_hex :: string
  ti_prev_tx_hash :: string
  ti_prev_position :: int
  ti_prev_value :: int
  ti_prev_addresses :: "string list"

record fb_TxOutput =
  to_value :: int
  to_addresses :: "string list"
  to_script_asm :: string
  to_script_hex :: string
  to_script_type :: string

record fb_Tx =
  ft_block_height :: int
  ft_block_time :: "32 word"
  ft_is_coinbase :: bool
  ft_version :: int
  ft_lock_time :: "32 word"
  ft_size :: int
  ft_fee :: int
  ft_inputs :: "fb_TxInput list"
  ft_inputs_count :: int
  ft_inputs_value :: int
  ft_outputs :: "fb_TxOutput list"
  ft_outputs_count :: int
  ft_outputs_value :: int
  ft_created_at :: "32 word"
  ft_is_double_spend :: bool

record fb_TxSpentBy =
  ts_position :: int
  ts_tx_hash :: string

record fb_UnconfirmedTx =
  ut_tx_hash :: string
  ut_fee :: int
  ut_size :: int

record fb_Block =
  fk_height :: int
  fk_version :: int
  fk_mrkl_root :: string
  fk_timestamp :: "32 word"
  fk_bits :: "32 word"
  fk_nonce :: "32 word"
  fk_prev_block_hash :: string
  fk_next_block_hash :: string
  fk_size :: int
  fk_pool_difficulty :: "64 word"
  fk_difficulty :: "64 word"
  fk_tx_count :: "32 word"
  fk_reward_block :: int
  fk_reward_fees :: int
  fk_created_at :: "32 word"
  fk_is_orphan :: bool
  fk_curr_max_timestamp :: "32 word"

record fb_Address =
  fa_received :: int
  fa_sent :: int
  fa_tx_count :: int
  fa_unconfirmed_tx_count :: int
  fa_unconfirmed_received :: int
  fa_unconfirmed_sent :: int
  fa_unspent_tx_count :: int
  fa_unspent_tx_max_index :: int
  fa_last_confirmed_tx_index :: int

record fb_AddressTx =
  at_balance_diff :: int
  at_tx_hash :: string
  at_tx_height :: int
  at_tx_block_time :: "32 word"

record fb_AddressUnspent =
  au_value :: int
  au_tx_hash :: string
  au_position :: int
  au_position2 :: int

datatype kvval =
    VStr string
  | VTx fb_Tx
  | VSpentBy fb_TxSpentBy
  | VUnconfirmed fb_UnconfirmedTx
  | VBlock fb_Block
  | VAddress fb_Address
  | VAddressTx fb_AddressTx
  | VUnspent fb_AddressUnspent
  | VUnspentIdx int

definition value_empty :: "kvval \<Rightarrow> bool" where
  \<comment> \<open>\<open>value.size() == 0\<close>: a finished table is never empty\<close>
  "value_empty v = (v = VStr [])"

text \<open>\<open>flatbuffers::GetRoot<T>(value.data())\<close>\<close>

definition root_Tx :: "kvval \<Rightarrow> fb_Tx res" where
  "root_Tx v = (case v of VTx t \<Rightarrow> Inr t | _ \<Rightarrow> Inl (UB ''GetRoot<fbe::Tx>''))"

definition root_Block :: "kvval \<Rightarrow> fb_Block res" where
  "root_Block v = (case v of VBlock t \<Rightarrow> Inr t | _ \<Rightarrow> Inl (UB ''GetRoot<fbe::Block>''))"

definition root_Address :: "kvval \<Rightarrow> fb_Address res" where
  "root_Address v = (case v of VAddress t \<Rightarrow> Inr t | _ \<Rightarrow> Inl (UB ''GetRoot<fbe::Address>''))"

definition root_AddressTx :: "kvval \<Rightarrow> fb_AddressTx res" where
  "root_AddressTx v = (case v of VAddressTx t \<Rightarrow> Inr t | _ \<Rightarrow> Inl (UB ''GetRoot<fbe::AddressTx>''))"

definition root_UnspentIdx :: "kvval \<Rightarrow> int res" where
  "root_UnspentIdx v = (case v of VUnspentIdx t \<Rightarrow> Inr t | _ \<Rightarrow> Inl (UB ''GetRoot<fbe::AddressUnspentIdx>''))"

definition value_string :: "kvval \<Rightarrow> string res" where
  \<comment> \<open>the bytes of a value used as text\<close>
  "value_string v = (case v of VStr s \<Rightarrow> Inr s | _ \<Rightarrow> Inl (UB ''text of a table''))"

lemma root_simps [simp]:
  "root_Tx (VTx t) = Inr t" "root_Block (VBlock b) = Inr b" "root_Address (VAddress a) = Inr a"
  "root_AddressTx (VAddressTx x) = Inr x" "root_UnspentIdx (VUnspentIdx i) = Inr i"
  "value_string (VStr s) = Inr s"
  by (simp_all add: root_Tx_def root_Block_def root_Address_def root_AddressTx_def root_UnspentIdx_def
      value_string_def)

section \<open>Keys\<close>

datatype kvkey =
    KTx uint256
  | KSpend uint256 int
  | KUnconfirmed uint256
  | KHeight int
  | KBlock uint256
  | KBlockTxs uint256 int
  | KOrphan int
  | KTimestamp "32 word" int
  | KExtra uint256
  | KAddr string
  | KAddrTx string int
  | KAddrTxIdx string uint256
  | KUnspent string int
  | KUnspentIdx string uint256 int
  | KOffset
  | KUnconfCount
  | KUnconfSize

fun key_str :: "kvkey \<Rightarrow> string" where
  "key_str (KTx h) = ''01_'' @ ToString h"
| "key_str (KSpend h n) = ''02_'' @ ToString h @ ''_'' @ fmt_d n"
| "key_str (KUnconfirmed h) = ''03_'' @ ToString h"
| "key_str (KHeight n) = ''10_'' @ fmt_010d n"
| "key_str (KBlock h) = ''11_'' @ ToString h"
| "key_str (KBlockTxs h n) = ''12_'' @ ToString h @ ''_'' @ fmt_d n"
| "key_str (KOrphan n) = ''13_'' @ fmt_010d n"
| "key_str (KTimestamp t n) = ''14_'' @ fmt_010d (uint t) @ ''_'' @ fmt_010d n"
| "key_str (KExtra h) = ''15_'' @ ToString h"
| "key_str (KAddr a) = ''20_'' @ a"
| "key_str (KAddrTx a i) = ''21_'' @ a @ ''_'' @ fmt_010d i"
| "key_str (KAddrTxIdx a h) = ''22_'' @ a @ ''_'' @ ToString h"
| "key_str (KUnspent a i) = ''23_'' @ a @ ''_'' @ fmt_010d i"
| "key_str (KUnspentIdx a h n) = ''24_'' @ a @ ''_'' @ ToString h @ ''_'' @ fmt_d n"
| "key_str KOffset = ''90_tparser_txlogs_offset_id''"
| "key_str KUnconfCount = ''90_tparser_unconfirmed_txs_count''"
| "key_str KUnconfSize = ''90_tparser_unconfirmed_txs_size''"

lemma append_sep3_inject:
  assumes "c \<notin> set ys" and "c \<notin> set zs" and "length hs = length gs"
  shows "xs @ c # hs @ c # ys = us @ c # gs @ c # zs \<longleftrightarrow> xs = us \<and> hs = gs \<and> ys = zs"
proof -
  have "xs @ c # hs @ c # ys = us @ c # gs @ c # zs \<longleftrightarrow> xs @ c # hs = us @ c # gs \<and> ys = zs"
    using append_sep_inject [OF assms(1,2), of "xs @ c # hs" "us @ c # gs"] by simp
  also have "xs @ c # hs = us @ c # gs \<longleftrightarrow> xs = us \<and> hs = gs"
    using assms(3) by (auto simp: append_eq_append_conv)
  finally show ?thesis by auto
qed

fun key_kind :: "kvkey \<Rightarrow> nat" where
  "key_kind (KTx h) = 1" | "key_kind (KSpend h n) = 2" | "key_kind (KUnconfirmed h) = 3"
| "key_kind (KHeight n) = 10" | "key_kind (KBlock h) = 11" | "key_kind (KBlockTxs h n) = 12"
| "key_kind (KOrphan n) = 13" | "key_kind (KTimestamp t n) = 14" | "key_kind (KExtra h) = 15"
| "key_kind (KAddr a) = 20" | "key_kind (KAddrTx a i) = 21" | "key_kind (KAddrTxIdx a h) = 22"
| "key_kind (KUnspent a i) = 23" | "key_kind (KUnspentIdx a h n) = 24"
| "key_kind KOffset = 90" | "key_kind KUnconfCount = 90" | "key_kind KUnconfSize = 90"

lemma digits_val_key: "digits_val 0 (take 2 (key_str k)) = key_kind k"
  by (cases k) (simp_all add: is_digit_def digit_val_def)

lemma key_str_inject [simp, key_simps]: "key_str k = key_str l \<longleftrightarrow> k = l"
proof
  assume eq: "key_str k = key_str l"
  then have "key_kind k = key_kind l" by (metis digits_val_key)
  with eq show "k = l"
    by (cases k; cases l; simp add: append_sep_inject append_sep3_inject append_same_length word_uint_eq_iff)
qed simp

declare key_str.simps [simp del]

section \<open>The library and its contract\<close>

datatype rk_status = RkOk kvval | RkNotFound | RkError

record 'db rocks =
  rk_Get :: "'db \<Rightarrow> string \<Rightarrow> rk_status"
  rk_MultiGet :: "'db \<Rightarrow> string list \<Rightarrow> kvval list"
  rk_Put :: "'db \<Rightarrow> string \<Rightarrow> kvval \<Rightarrow> bool \<times> 'db"
  rk_Delete :: "'db \<Rightarrow> string \<Rightarrow> bool \<times> 'db"
  rk_Iterator :: "'db \<Rightarrow> (string \<times> kvval) list"

text \<open>
  The documented behaviour on a database without I/O errors: \<open>Put\<close> and \<open>Delete\<close> succeed and
  change one key, \<open>Get\<close> and \<open>MultiGet\<close> read the last value (an absent key of \<open>MultiGet\<close>
  gives an empty value), and an iterator runs over the entries in the order of the keys.
\<close>

definition rocks_ok :: "'db rocks \<Rightarrow> ('db \<Rightarrow> string \<Rightarrow> kvval option) \<Rightarrow> bool" where
  "rocks_ok R V =
     ((\<forall>db k. rk_Get R db k = (case V db k of None \<Rightarrow> RkNotFound | Some v \<Rightarrow> RkOk v)) \<and>
      (\<forall>db ks. rk_MultiGet R db ks = map (\<lambda>k. case V db k of None \<Rightarrow> VStr [] | Some v \<Rightarrow> v) ks) \<and>
      (\<forall>db k v. fst (rk_Put R db k v) \<and> V (snd (rk_Put R db k v)) = (V db)(k \<mapsto> v)) \<and>
      (\<forall>db k. fst (rk_Delete R db k) \<and> V (snd (rk_Delete R db k)) = (V db)(k := None)) \<and>
      (\<forall>db. sm_wf (rk_Iterator R db) \<and> map_of (rk_Iterator R db) = V db))"

text \<open>A store that satisfies the contract: a list of entries, the newest first.\<close>

definition list_rocks :: "(string \<times> kvval) list rocks" where
  "list_rocks =
     \<lparr>rk_Get = (\<lambda>db k. case map_of db k of None \<Rightarrow> RkNotFound | Some v \<Rightarrow> RkOk v),
      rk_MultiGet = (\<lambda>db. map (\<lambda>k. case map_of db k of None \<Rightarrow> VStr [] | Some v \<Rightarrow> v)),
      rk_Put = (\<lambda>db k v. (True, (k, v) # db)),
      rk_Delete = (\<lambda>db k. (True, filter (\<lambda>e. fst e \<noteq> k) db)),
      rk_Iterator = (\<lambda>db. foldr (\<lambda>(k, v). sm_put k v) db [])\<rparr>"

lemma map_of_filter_key: "map_of (filter (\<lambda>e. fst e \<noteq> k) db) = (map_of db)(k := None)"
  by (induction db) (auto simp: fun_eq_iff)

lemma sorted_entries: "sm_wf (foldr (\<lambda>(k, v). sm_put k v) db [])"
  "map_of (foldr (\<lambda>(k, v). sm_put k v) db []) = map_of db"
  by (induction db) (auto simp: fun_eq_iff)

lemma list_rocks_ok: "rocks_ok list_rocks map_of"
  by (simp add: rocks_ok_def list_rocks_def map_of_filter_key sorted_entries)

section \<open>KVDB\<close>

definition KVDB_del :: "'db rocks \<Rightarrow> string \<Rightarrow> 'db \<Rightarrow> 'db res" where
  "KVDB_del R key db =
     (case rk_Delete R db key of (ok, db') \<Rightarrow>
        if ok then Inr db' else Inl (Throw (''delete key: '' @ key @ '' fail'')))"

definition KVDB_get :: "'db rocks \<Rightarrow> string \<Rightarrow> 'db \<Rightarrow> kvval res" where
  \<comment> \<open>only a missing key raises: after any other failure the value is left cleared\<close>
  "KVDB_get R key db =
     (case rk_Get R db key of
        RkOk v \<Rightarrow> Inr v
      | RkNotFound \<Rightarrow> Inl (Throw (''not found key: '' @ key))
      | RkError \<Rightarrow> Inr (VStr []))"

definition KVDB_getMayNotExist :: "'db rocks \<Rightarrow> string \<Rightarrow> 'db \<Rightarrow> bool \<times> kvval" where
  "KVDB_getMayNotExist R key db =
     (case rk_Get R db key of
        RkOk v \<Rightarrow> (True, v)
      | RkNotFound \<Rightarrow> (False, VStr [])
      | RkError \<Rightarrow> (True, VStr []))"

definition KVDB_set :: "'db rocks \<Rightarrow> string \<Rightarrow> kvval \<Rightarrow> 'db \<Rightarrow> 'db res" where
  "KVDB_set R key v db =
     (case rk_Put R db key v of (ok, db') \<Rightarrow>
        if ok then Inr db' else Inl (Throw (''set key fail, key: '' @ key)))"

definition KVDB_multiGet :: "'db rocks \<Rightarrow> string list \<Rightarrow> 'db \<Rightarrow> kvval list" where
  "KVDB_multiGet R keys db = rk_MultiGet R db keys"

text \<open>The database as a map from the kinds of keys.\<close>

definition kv_view :: "('db \<Rightarrow> string \<Rightarrow> kvval option) \<Rightarrow> 'db \<Rightarrow> kvkey \<Rightarrow> kvval option" where
  "kv_view V db k = V db (key_str k)"

lemma KVDB_get_view [kv_simps]:
  "rocks_ok R V \<Longrightarrow> KVDB_get R (key_str k) db =
     (case kv_view V db k of None \<Rightarrow> Inl (Throw (''not found key: '' @ key_str k)) | Some v \<Rightarrow> Inr v)"
  by (auto simp: KVDB_get_def rocks_ok_def kv_view_def split: option.splits)

lemma KVDB_getMayNotExist_view [kv_simps]:
  "rocks_ok R V \<Longrightarrow> KVDB_getMayNotExist R (key_str k) db =
     (case kv_view V db k of None \<Rightarrow> (False, VStr []) | Some v \<Rightarrow> (True, v))"
  by (auto simp: KVDB_getMayNotExist_def rocks_ok_def kv_view_def split: option.splits)

lemma KVDB_multiGet_view [kv_simps]:
  "rocks_ok R V \<Longrightarrow> KVDB_multiGet R (map key_str ks) db =
     map (\<lambda>k. case kv_view V db k of None \<Rightarrow> VStr [] | Some v \<Rightarrow> v) ks"
  by (simp add: KVDB_multiGet_def rocks_ok_def kv_view_def)

lemma KVDB_set_view:
  assumes "rocks_ok R V"
  obtains db' where "KVDB_set R (key_str k) v db = Inr db'" and "kv_view V db' = (kv_view V db)(k \<mapsto> v)"
proof -
  obtain ok db' where p: "rk_Put R db (key_str k) v = (ok, db')" by fastforce
  with assms have "ok" "V db' = (V db)(key_str k \<mapsto> v)"
    unfolding rocks_ok_def by (metis fst_conv, metis snd_conv)
  with p show ?thesis
    by (intro that [of db']) (auto simp: KVDB_set_def kv_view_def fun_eq_iff)
qed

lemma KVDB_del_view:
  assumes "rocks_ok R V"
  obtains db' where "KVDB_del R (key_str k) db = Inr db'" and "kv_view V db' = (kv_view V db)(k := None)"
proof -
  obtain ok db' where p: "rk_Delete R db (key_str k) = (ok, db')" by fastforce
  with assms have "ok" "V db' = (V db)(key_str k := None)"
    unfolding rocks_ok_def by (metis fst_conv, metis snd_conv)
  with p show ?thesis
    by (intro that [of db']) (auto simp: KVDB_del_def kv_view_def fun_eq_iff)
qed

subsection \<open>Ranges of keys\<close>

definition keys_full :: "nat \<Rightarrow> int \<Rightarrow> bool" where
  \<comment> \<open>\<open>keys.size() >= limit\<close>: the \<open>int32_t\<close> is converted to \<open>size_t\<close>\<close>
  "keys_full n limit = (limit mod 2 ^ 64 \<le> int n)"

fun range_loop :: "(string \<Rightarrow> bool) \<Rightarrow> int \<Rightarrow> int \<Rightarrow> int \<Rightarrow> (string \<times> kvval) list \<Rightarrow> (string \<times> kvval) list \<Rightarrow>
    (string \<times> kvval) list" where
  \<comment> \<open>the loop of both directions: \<open>inside\<close> is its bound, the list the iterator's way\<close>
  "range_loop inside limit offset cnt [] acc = acc"
| "range_loop inside limit offset cnt (e # es) acc =
     (if \<not> inside (fst e) then acc
      else let cnt = cnt + 1 in
        if offset \<noteq> 0 \<and> offset > cnt - 1 then range_loop inside limit offset cnt es acc
        else let acc = acc @ [e] in
          if keys_full (length acc) limit then acc else range_loop inside limit offset cnt es acc)"

definition KVDB_rangeGT :: "'db rocks \<Rightarrow> string \<Rightarrow> string \<Rightarrow> int \<Rightarrow> int \<Rightarrow> 'db \<Rightarrow> (string \<times> kvval) list res" where
  "KVDB_rangeGT R start end limit offset db =
     bindE (assertE ''start <= end'' (c_str start \<le> c_str end)) (\<lambda>_.
     Inr (range_loop (\<lambda>k. c_str k \<le> c_str end) limit offset 0
            (dropWhile (\<lambda>e. fst e < start) (rk_Iterator R db)) []))"

definition KVDB_rangeLT :: "'db rocks \<Rightarrow> string \<Rightarrow> string \<Rightarrow> int \<Rightarrow> int \<Rightarrow> 'db \<Rightarrow> (string \<times> kvval) list res" where
  \<comment> \<open>\<open>it->key()\<close> is read before \<open>it->Valid()\<close> is asked\<close>
  "KVDB_rangeLT R start end limit offset db =
     bindE (assertE ''start >= end'' (c_str start \<ge> c_str end)) (\<lambda>_.
     case dropWhile (\<lambda>e. fst e < start) (rk_Iterator R db) of
       [] \<Rightarrow> Inl (UB ''key of an iterator that is not valid'')
     | e # _ \<Rightarrow>
         let before = rev (takeWhile (\<lambda>e. fst e < start) (rk_Iterator R db)) in
         Inr (range_loop (\<lambda>k. c_str k \<ge> c_str end) limit offset 0
                (if fst e \<noteq> start then before else e # before) []))"

definition KVDB_range :: "'db rocks \<Rightarrow> string \<Rightarrow> string \<Rightarrow> int \<Rightarrow> int \<Rightarrow> 'db \<Rightarrow> (string \<times> kvval) list res" where
  "KVDB_range R start end limit offset db =
     (let offset = (if offset < 0 then 0 else offset) in
      if c_str start \<le> c_str end then KVDB_rangeGT R start end limit offset db
      else KVDB_rangeLT R start end limit offset db)"

lemma range_loop_takes:
  assumes "0 \<le> offset" and "0 < limit" and "limit < 2 ^ 31" and "0 \<le> cnt" and "int (length acc) < limit"
  shows "range_loop inside limit offset cnt es acc =
     acc @ take (nat limit - length acc) (drop (nat (offset - cnt)) (takeWhile (\<lambda>e. inside (fst e)) es))"
  using assms(4,5)
proof (induction es arbitrary: cnt acc)
  case (Cons e es)
  have full: "keys_full n limit \<longleftrightarrow> limit \<le> int n" for n
    using assms(2,3) by (simp add: keys_full_def)
  show ?case
  proof (cases "inside (fst e)")
    case True
    show ?thesis
    proof (cases "offset > cnt")
      case skip: True
      then have "nat (offset - cnt) = Suc (nat (offset - (cnt + 1)))" using Cons.prems by simp
      with True skip Cons.prems Cons.IH [of "cnt + 1" acc] show ?thesis by (simp add: Let_def)
    next
      case False
      then have d: "nat (offset - cnt) = 0" "nat (offset - (cnt + 1)) = 0" by simp_all
      show ?thesis
      proof (cases "limit \<le> int (length (acc @ [e]))")
        case stop: True
        with Cons.prems have "nat limit - length acc = Suc 0" by simp
        with True False d stop show ?thesis by (simp add: Let_def full)
      next
        case more: False
        with Cons.prems have "nat limit - length acc = Suc (nat limit - length (acc @ [e]))" by simp
        with True False d more Cons.prems Cons.IH [of "cnt + 1" "acc @ [e]"] show ?thesis
          by (simp add: Let_def full)
      qed
    qed
  qed simp
qed simp

lemma sm_wf_takeWhile:
  assumes "sm_wf m" and "\<And>x y. x < y \<Longrightarrow> P y \<Longrightarrow> P x"
  shows "takeWhile (\<lambda>e. P (fst e)) m = filter (\<lambda>e. P (fst e)) m"
  using assms(1)
proof (induction m)
  case (Cons e m)
  obtain k v where e: "e = (k, v)" by fastforce
  show ?case
  proof (cases "P k")
    case False
    have "\<forall>x \<in> set m. \<not> P (fst x)"
      using Cons.prems e False assms(2) by fastforce
    then have "filter (\<lambda>e. P (fst e)) m = []" by (simp add: filter_empty_conv)
    with False e show ?thesis by simp
  qed (use Cons e in auto)
qed simp

lemma sm_wf_takeWhile_le: "sm_wf m \<Longrightarrow> takeWhile (\<lambda>e. fst e \<le> b) m = filter (\<lambda>e. fst e \<le> b) m"
  by (rule sm_wf_takeWhile) auto

lemma sm_wf_dropWhile_less: "sm_wf m \<Longrightarrow> dropWhile (\<lambda>e. fst e < b) m = filter (\<lambda>e. b \<le> fst e) m"
proof (induction m)
  case (Cons e m)
  obtain k v where e: "e = (k, v)" by fastforce
  show ?case
  proof (cases "k < b")
    case False
    with Cons.prems e have "filter (\<lambda>e. b \<le> fst e) m = m" by (fastforce simp: filter_id_conv)
    with False e show ?thesis by simp
  qed (use Cons e in auto)
qed simp

lemma sm_wf_takeWhile_less: "sm_wf m \<Longrightarrow> takeWhile (\<lambda>e. fst e < b) m = filter (\<lambda>e. fst e < b) m"
  by (rule sm_wf_takeWhile) auto

lemma sm_wf_rev_takeWhile_ge: "sm_wf m \<Longrightarrow> takeWhile (\<lambda>e. b \<le> fst e) (rev m) = rev (filter (\<lambda>e. b \<le> fst e) m)"
proof (induction m rule: rev_induct)
  case (snoc e m)
  obtain k v where e: "e = (k, v)" by fastforce
  show ?case
  proof (cases "b \<le> k")
    case False
    with snoc.prems e have "filter (\<lambda>e. b \<le> fst e) m = []"
      by (fastforce simp: filter_empty_conv sm_wf_append)
    with False e show ?thesis by simp
  qed (use snoc e in \<open>auto simp: sm_wf_append\<close>)
qed simp

lemma sm_wf_filter: "sm_wf m \<Longrightarrow> sm_wf (filter P m)"
  by (induction m) auto

lemma takeWhile_all: "(\<And>x. x \<in> set xs \<Longrightarrow> P x = Q x) \<Longrightarrow> takeWhile P xs = takeWhile Q xs"
  by (induction xs) auto

lemma KVDB_range_keys:
  assumes "rocks_ok R V" and "0 < limit" and "limit < 2 ^ 31"
    and "\<forall>e \<in> set (rk_Iterator R db). if start \<le> end then c_str (fst e) \<le> end \<longleftrightarrow> fst e \<le> end
      else fst e \<le> start \<longrightarrow> (end \<le> c_str (fst e) \<longleftrightarrow> end \<le> fst e)"
    and "CHR 0x00 \<notin> set start" and "CHR 0x00 \<notin> set end"
    and "end < start \<Longrightarrow> \<exists>e \<in> set (rk_Iterator R db). start \<le> fst e"
  shows "KVDB_range R start end limit offset db =
     Inr (take (nat limit) (drop (nat offset)
       (if start \<le> end then filter (\<lambda>e. start \<le> fst e \<and> fst e \<le> end) (rk_Iterator R db)
        else rev (filter (\<lambda>e. end \<le> fst e \<and> fst e \<le> start) (rk_Iterator R db)))))"
proof -
  let ?m = "rk_Iterator R db"
  have wf: "sm_wf ?m" using assms(1) by (simp add: rocks_ok_def)
  have id: "CHR 0x00 \<notin> set s \<Longrightarrow> c_str s = s" for s by (induction s) (auto simp: c_str_def)
  define off where "off = (if offset < 0 then 0 else offset)"
  have off: "0 \<le> off" "nat off = nat offset" by (simp_all add: off_def)
  show ?thesis
  proof (cases "start \<le> end")
    case True
    have "takeWhile (\<lambda>e. c_str (fst e) \<le> end) (filter (\<lambda>e. start \<le> fst e) ?m) =
        takeWhile (\<lambda>e. fst e \<le> end) (filter (\<lambda>e. start \<le> fst e) ?m)"
      using assms(4) True by (intro takeWhile_all) auto
    also have "\<dots> = filter (\<lambda>e. start \<le> fst e \<and> fst e \<le> end) ?m"
      using sm_wf_takeWhile_le [OF sm_wf_filter [OF wf]] by (simp add: conj_commute)
    finally show ?thesis
      using True assms(2,3,5,6) off range_loop_takes [of off limit 0 "[]"]
      by (simp add: KVDB_range_def KVDB_rangeGT_def id sm_wf_dropWhile_less [OF wf] flip: off_def)
  next
    case False
    let ?b = "rev (filter (\<lambda>e. fst e < start) ?m)"
    from False assms(7) have "filter (\<lambda>e. start \<le> fst e) ?m \<noteq> []" by (auto simp: filter_empty_conv)
    then obtain e es where e: "filter (\<lambda>e. start \<le> fst e) ?m = e # es"
      by (cases "filter (\<lambda>e. start \<le> fst e) ?m") auto
    have cs: "takeWhile (\<lambda>e. end \<le> c_str (fst e)) (rev (filter Q ?m)) =
        rev (filter (\<lambda>e. Q e \<and> end \<le> fst e) ?m)" if "\<And>e. Q e \<Longrightarrow> fst e \<le> start" for Q
    proof -
      have "takeWhile (\<lambda>e. end \<le> c_str (fst e)) (rev (filter Q ?m)) =
          takeWhile (\<lambda>e. end \<le> fst e) (rev (filter Q ?m))"
        using assms(4) False that by (intro takeWhile_all) auto
      then show ?thesis using sm_wf_rev_takeWhile_ge [OF sm_wf_filter [OF wf]] by (simp add: conj_commute)
    qed
    have eq: "(if fst e \<noteq> start then ?b else e # ?b) = rev (filter (\<lambda>e. fst e \<le> start) ?m)"
    proof -
      have m: "?m = filter (\<lambda>e. fst e < start) ?m @ e # es"
        using takeWhile_dropWhile_id [of "\<lambda>e. fst e < start" ?m] e
        by (simp add: sm_wf_dropWhile_less [OF wf] sm_wf_takeWhile_less [OF wf])
      have "sm_wf (e # es)" using sm_wf_filter [OF wf] e by metis
      moreover have "start \<le> fst e" using Cons_eq_filterD [OF e [symmetric]] by auto
      ultimately have "\<forall>x \<in> set es. start < fst x" by (cases e) fastforce
      then have "filter (\<lambda>x. fst x \<le> start) es = []" by (auto simp: filter_empty_conv)
      moreover have "filter (\<lambda>x. fst x \<le> start) ?m =
          filter (\<lambda>e. fst e < start) ?m @ filter (\<lambda>x. fst x \<le> start) (e # es)"
        by (subst m) (auto intro!: filter_cong)
      ultimately show ?thesis using \<open>start \<le> fst e\<close> by auto
    qed
    show ?thesis
      using False assms(2,3,5,6) off range_loop_takes [of off limit 0 "[]"] cs [of "\<lambda>e. fst e \<le> start"]
      by (simp add: KVDB_range_def KVDB_rangeLT_def id sm_wf_dropWhile_less [OF wf]
          sm_wf_takeWhile_less [OF wf] e eq conj_commute flip: off_def)
  qed
qed

lemma c_str_le: "c_str k \<le> (k :: string)"
  by (induction k) (auto simp: c_str_def)

lemma c_str_below:
  "CHR 0x00 \<notin> set b \<Longrightarrow> c_str k \<le> b \<Longrightarrow> k \<le> b \<or> (\<exists>r. k = b @ CHR 0x00 # r)"
proof (induction b arbitrary: k)
  case Nil
  then show ?case by (cases k) (auto simp: c_str_def split: if_splits)
next
  case (Cons d b)
  show ?case
  proof (cases k)
    case k: (Cons c k')
    show ?thesis
    proof (cases "c = CHR 0x00")
      case True
      then have "(of_char d :: nat) \<noteq> of_char c" using Cons.prems(1) of_char_eq_iff [of d c, where 'a = nat] by auto
      then have "c < d" using True by (simp add: less_char_def)
      then show ?thesis by (simp add: k)
    qed (use Cons k in \<open>auto simp: c_str_def\<close>)
  qed simp
qed

lemma KVDB_range_slice:
  assumes "rocks_ok R V" and "0 < limit" and "limit < 2 ^ 31"
    and "\<forall>e \<in> set (rk_Iterator R db). CHR 0x00 \<notin> set (fst e)"
    and "CHR 0x00 \<notin> set start" and "CHR 0x00 \<notin> set end"
    and "end < start \<Longrightarrow> \<exists>e \<in> set (rk_Iterator R db). start \<le> fst e"
  shows "KVDB_range R start end limit offset db =
     Inr (take (nat limit) (drop (nat offset)
       (if start \<le> end then filter (\<lambda>e. start \<le> fst e \<and> fst e \<le> end) (rk_Iterator R db)
        else rev (filter (\<lambda>e. end \<le> fst e \<and> fst e \<le> start) (rk_Iterator R db)))))"
  by (rule KVDB_range_keys) (use assms in \<open>auto simp: c_str_id\<close>)

text \<open>
  C36. \<open>KVDB::range\<close> on keys without a NUL byte: ascending when the start is not after the
  end, and otherwise descending (provided some key is not before the start, which the
  descending scan relies on), it returns the entries with keys from start to end, both
  included, in that order, after skipping \<open>offset\<close> of them and at most \<open>limit\<close> of them.
\<close>

theorem range_slice:
  assumes "rocks_ok R V" and "0 < limit" and "limit < 2 ^ 31"
    and "\<forall>e \<in> set (rk_Iterator R db). CHR 0x00 \<notin> set (fst e)"
    and "CHR 0x00 \<notin> set start" and "CHR 0x00 \<notin> set end"
    and "end < start \<Longrightarrow> \<exists>e \<in> set (rk_Iterator R db). start \<le> fst e"
  shows "KVDB_range R start end limit offset db =
     Inr (take (nat limit) (drop (nat offset)
       (if start \<le> end then filter (\<lambda>e. start \<le> fst e \<and> fst e \<le> end) (rk_Iterator R db)
        else rev (filter (\<lambda>e. end \<le> fst e \<and> fst e \<le> start) (rk_Iterator R db)))))"
  by (rule KVDB_range_slice [OF assms])

lemma range_slice_witness:
  "KVDB_range list_rocks ''c'' ''a'' 2 1 [(''a'', VStr ''1''), (''c'', VStr ''3''), (''b'', VStr ''2'')] =
     Inr [(''b'', VStr ''2''), (''a'', VStr ''1'')]"
proof -
  let ?db = "[(''a'', VStr ''1''), (''c'', VStr ''3''), (''b'', VStr ''2'')]"
  have it: "rk_Iterator list_rocks ?db = [(''a'', VStr ''1''), (''b'', VStr ''2''), (''c'', VStr ''3'')]"
    by (simp add: list_rocks_def less_char_def)
  have "KVDB_range list_rocks ''c'' ''a'' 2 1 ?db =
     Inr (take (nat 2) (drop (nat 1)
       (if ''c'' \<le> ''a'' then filter (\<lambda>e. ''c'' \<le> fst e \<and> fst e \<le> ''a'') (rk_Iterator list_rocks ?db)
        else rev (filter (\<lambda>e. ''a'' \<le> fst e \<and> fst e \<le> ''c'') (rk_Iterator list_rocks ?db)))))"
    by (rule range_slice [OF list_rocks_ok]) (simp_all add: it)
  then show ?thesis by (simp add: it less_char_def less_eq_char_def)
qed

subsection \<open>Outputs a transaction spends\<close>

fun first_hashes :: "uint256 list \<Rightarrow> CTxIn list \<Rightarrow> uint256 list" where
  \<comment> \<open>the hashes that reach \<open>keys\<close>: \<open>seen\<close> is \<open>prevTxHashSet\<close>\<close>
  "first_hashes seen [] = []"
| "first_hashes seen (i # is) =
     (if op_hash (prevout i) \<in> set seen then first_hashes seen is
      else op_hash (prevout i) # first_hashes (op_hash (prevout i) # seen) is)"

fun prev_outputs :: "(string, kvval) smap \<Rightarrow> CTxIn list \<Rightarrow> fb_TxOutput list res" where
  \<comment> \<open>an absent map entry is a null pointer, and \<open>operator[]\<close> does not check the position\<close>
  "prev_outputs prevTxs [] = Inr []"
| "prev_outputs prevTxs (i # is) =
     (case map_of prevTxs (ToString (op_hash (prevout i))) of
        None \<Rightarrow> Inl (UB ''null fbe::Tx'')
      | Some v \<Rightarrow>
          bindE (root_Tx v) (\<lambda>t.
            if unat (op_n (prevout i)) < length (ft_outputs t)
            then bindE (prev_outputs prevTxs is) (\<lambda>os. Inr (ft_outputs t ! unat (op_n (prevout i)) # os))
            else Inl (UB ''outputs()[ppos]'')))"

definition KVDB_getPrevTxOutputs :: "'db rocks \<Rightarrow> CTransaction \<Rightarrow> 'db \<Rightarrow> fb_TxOutput list res" where
  "KVDB_getPrevTxOutputs R tx db =
     (if IsCoinBase tx then Inr []
      else
        let keys = map (\<lambda>h. key_str (KTx h)) (first_hashes [] (vin tx));
            prevTxsData = KVDB_multiGet R keys db;
            prevTxs = fold (\<lambda>(k, v). sm_insert (drop 3 k) v) (zip keys prevTxsData) []
        in bindE (prev_outputs prevTxs (vin tx)) (\<lambda>os.
           bindE (assertE ''tx.vin.size() == prevTxOutputs.size()'' (length (vin tx) = length os)) (\<lambda>_.
           Inr os)))"

text \<open>The output an input spends, when the database knows it.\<close>

definition prev_output :: "(kvkey \<Rightarrow> kvval option) \<Rightarrow> COutPoint \<Rightarrow> fb_TxOutput option" where
  "prev_output W p =
     (case W (KTx (op_hash p)) of
        Some (VTx t) \<Rightarrow> if unat (op_n p) < length (ft_outputs t) then Some (ft_outputs t ! unat (op_n p)) else None
      | _ \<Rightarrow> None)"

lemma set_first_hashes: "set (first_hashes seen is) = (\<lambda>i. op_hash (prevout i)) ` set is - set seen"
  by (induction seen "is" rule: first_hashes.induct) auto

lemma map_of_insert_all:
  "map_of (fold (\<lambda>(k, v). sm_insert (drop 3 k) v) kvs m) x =
     (case map_of m x of Some v \<Rightarrow> Some v | None \<Rightarrow> map_of (map (\<lambda>(k, v). (drop 3 k, v)) kvs) x)"
proof (induction kvs arbitrary: m)
  case (Cons e kvs)
  then show ?case by (cases e) (auto simp: map_of_sm_insert split: option.splits)
qed (simp split: option.splits)

lemma map_of_zip_drop:
  "map_of (map (\<lambda>(k, v). (drop 3 k, v)) (zip (map (\<lambda>h. key_str (KTx h)) hs) (map f hs))) (ToString h) =
     (if h \<in> set hs then Some (f h) else None)"
  by (induction hs) (auto simp: key_str.simps)

lemma prev_outputs_known:
  assumes "\<forall>i \<in> set is. map_of m (ToString (op_hash (prevout i))) = W (KTx (op_hash (prevout i)))"
    and "\<forall>i \<in> set is. prev_output W (prevout i) \<noteq> None"
  shows "prev_outputs m is = Inr (map (\<lambda>i. the (prev_output W (prevout i))) is)"
  using assms by (induction m "is" rule: prev_outputs.induct)
    (auto simp: prev_output_def split: option.splits kvval.splits if_splits)

lemma getPrevTxOutputs_ok [kv_simps]:
  assumes "rocks_ok R V" and "\<not> IsCoinBase tx"
    and known: "\<forall>i \<in> set (vin tx). prev_output (kv_view V db) (prevout i) \<noteq> None"
  shows "KVDB_getPrevTxOutputs R tx db = Inr (map (\<lambda>i. the (prev_output (kv_view V db) (prevout i))) (vin tx))"
proof -
  let ?W = "kv_view V db" and ?hs = "first_hashes [] (vin tx)"
  let ?f = "\<lambda>k. case ?W k of None \<Rightarrow> VStr [] | Some v \<Rightarrow> v"
  have get: "KVDB_multiGet R (map (\<lambda>h. key_str (KTx h)) ?hs) db = map (\<lambda>h. ?f (KTx h)) ?hs"
    using KVDB_multiGet_view [OF assms(1), of "map KTx ?hs" db] by (simp add: comp_def)
  have "map_of (fold (\<lambda>(k, v). sm_insert (drop 3 k) v)
      (zip (map (\<lambda>h. key_str (KTx h)) ?hs) (map (\<lambda>h. ?f (KTx h)) ?hs)) [])
      (ToString (op_hash (prevout i))) = ?W (KTx (op_hash (prevout i)))" if "i \<in> set (vin tx)" for i
    using that known unfolding map_of_insert_all map_of_zip_drop
    by (auto simp: set_first_hashes prev_output_def split: option.splits)
  then have "prev_outputs (fold (\<lambda>(k, v). sm_insert (drop 3 k) v)
      (zip (map (\<lambda>h. key_str (KTx h)) ?hs) (map (\<lambda>h. ?f (KTx h)) ?hs)) []) (vin tx) =
      Inr (map (\<lambda>i. the (prev_output ?W (prevout i))) (vin tx))"
    by (intro prev_outputs_known [OF _ known]) auto
  then show ?thesis
    using assms(2) by (simp add: KVDB_getPrevTxOutputs_def get Let_def)
qed

end
