(* ===== verification/ParserState.thy ===== *)
theory ParserState
  imports KVDB Log1
begin

text \<open>
  The state of \<open>tparser\<close> (src/jiexi/src/Parser.cc, Parser.h): the database handle, the counters of
  unconfirmed transactions, the current height, and the two static variables of
  \<open>_getAddressInfo\<close>, the address cache and its use counter.

  The cache maps addresses to pointers. Its objects are the list \<open>p_heap\<close>, a pointer is a
  position in it: the code never frees them, so a pointer stays valid when the cache drops
  its entry. \<open>addr->field = v\<close> is \<open>setInfo\<close>. What the rest of the development reads is
  \<open>info\<close>, the record of an address as the next \<open>_getAddressInfo\<close> would find it; with
  room in the cache, \<open>_getAddressInfo\<close> changes nothing of it and a write through the pointer it returns changes the
  record of that address only.

  \<open>penv\<close> holds what the code calls outside of itself: RocksDB, \<open>GetHash\<close>, \<open>Solver\<close>,
  \<open>ExtractDestination\<close> and the Base58 text of addresses, the disassembly of scripts, the
  clock, the floating point difficulty; \<open>pe_objectText\<close> is the text that \<open>%s\<close> makes of a
  \<open>uint256\<close> object passed to the variadic \<open>Strings::Format\<close>, which C++ does not define.
\<close>

record AddressInfo =
  txCount :: int
  received :: int
  sent :: int
  unconfirmedTxCount :: int
  unconfirmedReceived :: int
  unconfirmedSent :: int
  unspentTxCount :: int
  unspentTxIndex :: int
  lastConfirmedTxIdx :: int
  lastUseIdx :: int

definition AddressInfo_new :: "int \<Rightarrow> AddressInfo" where
  "AddressInfo_new idx =
     \<lparr>txCount = 0, received = 0, sent = 0, unconfirmedTxCount = 0, unconfirmedReceived = 0,
      unconfirmedSent = 0, unspentTxCount = 0, unspentTxIndex = - 1, lastConfirmedTxIdx = - 1,
      lastUseIdx = idx\<rparr>"

definition AddressInfo_of :: "fb_Address \<Rightarrow> int \<Rightarrow> AddressInfo" where
  "AddressInfo_of a idx =
     \<lparr>txCount = fa_tx_count a, received = fa_received a, sent = fa_sent a,
      unconfirmedTxCount = fa_unconfirmed_tx_count a, unconfirmedReceived = fa_unconfirmed_received a,
      unconfirmedSent = fa_unconfirmed_sent a, unspentTxCount = fa_unspent_tx_count a,
      unspentTxIndex = fa_unspent_tx_max_index a, lastConfirmedTxIdx = fa_last_confirmed_tx_index a,
      lastUseIdx = idx\<rparr>"

datatype txnouttype = TX_NONSTANDARD | TX_PUBKEY | TX_PUBKEYHASH | TX_SCRIPTHASH | TX_MULTISIG | TX_NULL_DATA

record 'db penv =
  pe_rocks :: "'db rocks"
  pe_gh :: "CTransaction \<Rightarrow> uint256"
  pe_bh :: "CBlockHeader \<Rightarrow> uint256"
  pe_Solver :: "string \<Rightarrow> bool \<times> txnouttype \<times> string list"
  pe_ExtractDestination :: "string \<Rightarrow> string option"
  pe_keyAddress :: "string \<Rightarrow> string"
  pe_objectText :: "uint256 \<Rightarrow> string"
  pe_asm :: "string \<Rightarrow> string"
  pe_time :: "32 word"
  pe_gmtime :: "32 word \<Rightarrow> tm"
  pe_difficulty :: "32 word \<Rightarrow> 64 word"
  pe_interval :: int
  pe_notifyBeginHeight :: int

record 'db pstate =
  p_kv :: 'db
  p_cache :: "(string, nat) smap"
  p_heap :: "AddressInfo list"
  p_lastUseIdx :: int
  p_unconfirmedTxsCount :: int
  p_unconfirmedTxsSize :: int
  p_currBlockHeight :: int
  p_notified :: "string list"

section \<open>The database through the parser\<close>

definition kvset :: "'db penv \<Rightarrow> string \<Rightarrow> kvval \<Rightarrow> 'db pstate \<Rightarrow> 'db pstate res" where
  "kvset E key v s = bindE (KVDB_set (pe_rocks E) key v (p_kv s)) (\<lambda>db. Inr (s\<lparr>p_kv := db\<rparr>))"

definition kvdel :: "'db penv \<Rightarrow> string \<Rightarrow> 'db pstate \<Rightarrow> 'db pstate res" where
  "kvdel E key s = bindE (KVDB_del (pe_rocks E) key (p_kv s)) (\<lambda>db. Inr (s\<lparr>p_kv := db\<rparr>))"

definition kvget :: "'db penv \<Rightarrow> string \<Rightarrow> 'db pstate \<Rightarrow> kvval res" where
  "kvget E key s = KVDB_get (pe_rocks E) key (p_kv s)"

definition kvgetMayNotExist :: "'db penv \<Rightarrow> string \<Rightarrow> 'db pstate \<Rightarrow> bool \<times> kvval" where
  "kvgetMayNotExist E key s = KVDB_getMayNotExist (pe_rocks E) key (p_kv s)"

section \<open>_getAddressInfo\<close>

definition kMaxCacheCount :: int where
  "kMaxCacheCount = 500 * 10000"

definition clear_cache :: "'db pstate \<Rightarrow> 'db pstate" where
  "clear_cache s =
     s\<lparr>p_cache := filter (\<lambda>(a, p). lastUseIdx (p_heap s ! p) > p_lastUseIdx s - kMaxCacheCount div 2) (p_cache s)\<rparr>"

definition getAddressInfo :: "'db penv \<Rightarrow> string \<Rightarrow> 'db pstate \<Rightarrow> (nat \<times> 'db pstate) res" where
  "getAddressInfo E address s =
     (case map_of (p_cache s) address of
        Some p \<Rightarrow> Inr (p, s)
      | None \<Rightarrow>
          let value = snd (kvgetMayNotExist E (key_str (KAddr address)) s) in
          bindE (if value_empty value then Inr (AddressInfo_new (p_lastUseIdx s))
                 else bindE (root_Address value) (\<lambda>a. Inr (AddressInfo_of a (p_lastUseIdx s)))) (\<lambda>addressPtr.
          let s1 = s\<lparr>p_heap := p_heap s @ [addressPtr], p_lastUseIdx := p_lastUseIdx s + 1,
                     p_cache := sm_put address (length (p_heap s)) (p_cache s)\<rparr>;
              s2 = (if int (length (p_cache s1)) > kMaxCacheCount then clear_cache s1 else s1)
          in case map_of (p_cache s2) address of
               None \<Rightarrow> Inl (AssertFail ''it != _addrTxCache.end()'')
             | Some p \<Rightarrow> Inr (p, s2)))"

definition setInfo :: "nat \<Rightarrow> (AddressInfo \<Rightarrow> AddressInfo) \<Rightarrow> 'db pstate \<Rightarrow> 'db pstate" where
  \<comment> \<open>an assignment through the pointer\<close>
  "setInfo p f s = s\<lparr>p_heap := (p_heap s)[p := f (p_heap s ! p)]\<rparr>"

definition fbAddress :: "AddressInfo \<Rightarrow> fb_Address" where
  "fbAddress a =
     \<lparr>fa_received = received a, fa_sent = sent a, fa_tx_count = txCount a,
      fa_unconfirmed_tx_count = unconfirmedTxCount a, fa_unconfirmed_received = unconfirmedReceived a,
      fa_unconfirmed_sent = unconfirmedSent a, fa_unspent_tx_count = unspentTxCount a,
      fa_unspent_tx_max_index = unspentTxIndex a, fa_last_confirmed_tx_index = lastConfirmedTxIdx a\<rparr>"

definition flush_one :: "'db penv \<Rightarrow> string \<times> int \<Rightarrow> 'db pstate \<Rightarrow> 'db pstate res" where
  "flush_one E it s =
     bindE (getAddressInfo E (fst it) s) (\<lambda>(addr, s).
     kvset E (key_str (KAddr (fst it))) (VAddress (fbAddress (p_heap s ! addr))) s)"

definition flushAddressInfo :: "'db penv \<Rightarrow> (string, int) smap \<Rightarrow> 'db pstate \<Rightarrow> 'db pstate res" where
  "flushAddressInfo E addressBalance s = foldE (flush_one E) addressBalance s"

section \<open>What the state says\<close>

definition view :: "('db \<Rightarrow> string \<Rightarrow> kvval option) \<Rightarrow> 'db pstate \<Rightarrow> kvkey \<Rightarrow> kvval option" where
  "view V s = kv_view V (p_kv s)"

definition stored_info :: "(kvkey \<Rightarrow> kvval option) \<Rightarrow> string \<Rightarrow> fb_Address" where
  "stored_info W a = (case W (KAddr a) of Some (VAddress x) \<Rightarrow> x | _ \<Rightarrow> fbAddress (AddressInfo_new 0))"

definition info :: "('db \<Rightarrow> string \<Rightarrow> kvval option) \<Rightarrow> 'db pstate \<Rightarrow> string \<Rightarrow> fb_Address" where
  "info V s a = (case map_of (p_cache s) a of
     Some p \<Rightarrow> fbAddress (p_heap s ! p) | None \<Rightarrow> stored_info (view V s) a)"

definition ctl :: "'db pstate \<Rightarrow> int \<times> int \<times> int \<times> string list" where
  "ctl s = (p_unconfirmedTxsCount s, p_unconfirmedTxsSize s, p_currBlockHeight s, p_notified s)"

text \<open>
  The cache is consistent, and it has room for the addresses \<open>A\<close> without dropping entries.
\<close>

definition raw_ok :: "('db \<Rightarrow> string \<Rightarrow> kvval option) \<Rightarrow> 'db \<Rightarrow> bool" where
  \<comment> \<open>every key in the database is one that the program formats\<close>
  "raw_ok V db = (\<forall>k. V db k \<noteq> None \<longrightarrow> k \<in> range key_str)"

lemma KVDB_set_raw:
  assumes "rocks_ok R V" and "KVDB_set R (key_str k) v db = Inr db'" and "raw_ok V db"
  shows "raw_ok V db'"
proof -
  obtain ok x where p: "rk_Put R db (key_str k) v = (ok, x)" by fastforce
  with assms(1) have "V x = (V db)(key_str k \<mapsto> v)" unfolding rocks_ok_def by (metis snd_conv)
  moreover have "x = db'" using assms(2) p by (simp add: KVDB_set_def split: if_splits)
  ultimately show ?thesis using assms(3) by (auto simp: raw_ok_def)
qed

lemma KVDB_del_raw:
  assumes "rocks_ok R V" and "KVDB_del R key db = Inr db'" and "raw_ok V db"
  shows "raw_ok V db'"
proof -
  obtain ok x where p: "rk_Delete R db key = (ok, x)" by fastforce
  with assms(1) have "V x = (V db)(key := None)" unfolding rocks_ok_def by (metis snd_conv)
  moreover have "x = db'" using assms(2) p by (simp add: KVDB_del_def split: if_splits)
  ultimately show ?thesis using assms(3) by (auto simp: raw_ok_def)
qed

definition cache_ok :: "('db \<Rightarrow> string \<Rightarrow> kvval option) \<Rightarrow> string set \<Rightarrow> 'db pstate \<Rightarrow> bool" where
  "cache_ok V A s =
     (sm_wf (p_cache s) \<and> distinct (map snd (p_cache s)) \<and> (\<forall>e \<in> set (p_cache s). snd e < length (p_heap s)) \<and>
      finite A \<and> int (card (fst ` set (p_cache s) \<union> A)) \<le> kMaxCacheCount \<and>
      (\<forall>a v. view V s (KAddr a) = Some v \<longrightarrow> (\<exists>x. v = VAddress x)) \<and> raw_ok V (p_kv s))"

definition st :: "('db \<Rightarrow> string \<Rightarrow> kvval option) \<Rightarrow> string set \<Rightarrow> 'db pstate \<Rightarrow> (kvkey \<Rightarrow> kvval option) \<Rightarrow>
    (string \<Rightarrow> fb_Address) \<Rightarrow> bool" where
  "st V A s W I = (cache_ok V A s \<and> view V s = W \<and> info V s = I)"

definition points :: "'db pstate \<Rightarrow> string \<Rightarrow> nat \<Rightarrow> bool" where
  "points s a p = (map_of (p_cache s) a = Some p)"

lemma fbAddress_inverse [simp]: "fbAddress (AddressInfo_of x n) = x"
  by (simp add: fbAddress_def AddressInfo_of_def)

lemma points_inj: "distinct (map snd m) \<Longrightarrow> map_of m a = Some p \<Longrightarrow> map_of m b = Some p \<Longrightarrow> a = b"
  by (metis distinct_map inj_onD map_of_SomeD prod.inject snd_conv)

lemma points_valid: "cache_ok V A s \<Longrightarrow> map_of (p_cache s) a = Some p \<Longrightarrow> p < length (p_heap s)"
  by (fastforce simp: cache_ok_def dest: map_of_SomeD)

lemma distinct_snd_put:
  "sm_wf m \<Longrightarrow> map_of m a = None \<Longrightarrow> distinct (map snd m) \<Longrightarrow> \<forall>e \<in> set m. snd e < n \<Longrightarrow>
     distinct (map snd (sm_put a n m)) \<and> (\<forall>e \<in> set (sm_put a n m). snd e < Suc n)"
proof (induction a n m rule: sm_put.induct)
  case (2 k v a b m)
  then show ?case using set_sm_put [of k v m] by (fastforce split: if_splits)
qed simp

lemma getAddressInfo_rule:
  assumes st: "st V A s W I" and R: "rocks_ok (pe_rocks E) V" and a: "a \<in> A"
    and Q: "\<And>p s'. st V A s' W I \<Longrightarrow> ctl s' = ctl s \<Longrightarrow> points s' a p \<Longrightarrow> Q (p, s')"
  shows "returns (getAddressInfo E a s) Q"
proof (cases "map_of (p_cache s) a")
  case (Some p)
  with st Q [of s p] show ?thesis by (simp add: getAddressInfo_def points_def)
next
  case None
  let ?n = "p_lastUseIdx s" and ?p = "length (p_heap s)"
  from st have ok: "cache_ok V A s" and W: "view V s = W" and I: "info V s = I" by (auto simp: st_def)
  have val: "snd (kvgetMayNotExist E (key_str (KAddr a)) s) = (case W (KAddr a) of None \<Rightarrow> VStr [] | Some v \<Rightarrow> v)"
    using R W by (simp add: kvgetMayNotExist_def KVDB_getMayNotExist_view view_def split: option.splits)
  obtain x where x: "(if value_empty (snd (kvgetMayNotExist E (key_str (KAddr a)) s)) then Inr (AddressInfo_new ?n)
      else bindE (root_Address (snd (kvgetMayNotExist E (key_str (KAddr a)) s))) (\<lambda>b. Inr (AddressInfo_of b ?n))) = Inr x"
    "fbAddress x = stored_info W a"
  proof (cases "W (KAddr a)")
    case None
    then show ?thesis
      by (intro that [of "AddressInfo_new ?n"]) (simp_all add: val value_empty_def stored_info_def fbAddress_def AddressInfo_new_def)
  next
    case (Some v)
    with ok W obtain y where "v = VAddress y" unfolding cache_ok_def by blast
    with Some show ?thesis
      by (intro that [of "AddressInfo_of y ?n"]) (simp_all add: val value_empty_def stored_info_def)
  qed
  define s1 where "s1 = s\<lparr>p_heap := p_heap s @ [x], p_lastUseIdx := ?n + 1, p_cache := sm_put a ?p (p_cache s)\<rparr>"
  have keys: "fst ` set (p_cache s1) \<union> A = fst ` set (p_cache s) \<union> A" using a by (auto simp: s1_def)
  have "length (p_cache s1) = card (fst ` set (p_cache s1))"
    using ok by (intro length_sm_wf) (simp add: s1_def cache_ok_def)
  also have "\<dots> \<le> card (fst ` set (p_cache s1) \<union> A)" using ok by (intro card_mono) (auto simp: cache_ok_def)
  finally have "int (length (p_cache s1)) \<le> kMaxCacheCount" using ok keys by (simp add: cache_ok_def)
  then have get: "getAddressInfo E a s = Inr (?p, s1)"
    using None x(1) by (simp add: getAddressInfo_def Let_def flip: s1_def) (simp add: s1_def)
  have "view V s1 = W" using W by (simp add: s1_def view_def)
  moreover have "cache_ok V A s1"
    using ok keys None distinct_snd_put [of "p_cache s" a ?p]
    by (auto simp: cache_ok_def s1_def view_def)
  moreover have "info V s1 b = I b" for b
  proof (cases "b = a")
    case True
    have "I a = stored_info W a" using None W by (simp add: info_def flip: I)
    with True x(2) show ?thesis by (simp add: info_def s1_def)
  next
    case False
    then have "map_of (p_cache s1) b = map_of (p_cache s) b" by (simp add: s1_def)
    moreover have "p_heap s1 ! p = p_heap s ! p" if "map_of (p_cache s) b = Some p" for p
      using points_valid [OF ok that] by (simp add: s1_def nth_append)
    ultimately show ?thesis using W by (simp add: info_def view_def s1_def flip: I split: option.splits)
  qed
  ultimately have "st V A s1 W I" by (auto simp: st_def)
  then show ?thesis using get Q [of s1 ?p] by (simp add: ctl_def s1_def points_def)
qed

lemma info_points: "st V A s W I \<Longrightarrow> points s a p \<Longrightarrow> fbAddress (p_heap s ! p) = I a"
  by (auto simp: st_def info_def points_def)

lemma info_fields:
  assumes "st V A s W I" and "points s a p"
  shows "txCount (p_heap s ! p) = fa_tx_count (I a)" "unspentTxIndex (p_heap s ! p) = fa_unspent_tx_max_index (I a)"
    "lastConfirmedTxIdx (p_heap s ! p) = fa_last_confirmed_tx_index (I a)"
  unfolding info_points [OF assms, symmetric] by (simp_all add: fbAddress_def)

lemma setInfo_st:
  assumes "st V A s W I" and "points s a p" and "\<And>x. fbAddress (f x) = g (fbAddress x)"
  shows "st V A (setInfo p f s) W (I(a := g (I a))) \<and> ctl (setInfo p f s) = ctl s \<and> points (setInfo p f s) a p \<and>
    p_kv (setInfo p f s) = p_kv s"
proof -
  from assms(1) have ok: "cache_ok V A s" and W: "view V s = W" and I: "info V s = I" by (auto simp: st_def)
  let ?s = "setInfo p f s"
  have p: "p < length (p_heap s)" using points_valid [OF ok] assms(2) by (simp add: points_def)
  have "info V ?s b = (I(a := g (I a))) b" for b
  proof (cases "map_of (p_cache s) b")
    case None
    with assms(2) have "b \<noteq> a" by (auto simp: points_def)
    with None show ?thesis by (simp add: info_def setInfo_def view_def flip: I)
  next
    case (Some q)
    have "q = p \<longleftrightarrow> b = a"
      using Some assms(2) ok by (auto simp: points_def cache_ok_def dest: points_inj)
    moreover have "b = a \<Longrightarrow> p = q" using Some assms(2) by (simp add: points_def)
    ultimately show ?thesis
      using Some p assms(3) by (cases "b = a") (auto simp: info_def setInfo_def simp flip: I)
  qed
  then have "info V ?s = I(a := g (I a))" by blast
  moreover have "cache_ok V A ?s" using ok by (simp add: cache_ok_def setInfo_def view_def)
  moreover have "view V ?s = W" using W by (simp add: setInfo_def view_def)
  ultimately show ?thesis using assms(2) by (simp add: st_def ctl_def points_def setInfo_def)
qed

lemma st_kv:
  assumes "st V A s W I" and "kv_view V db = W'" and "\<And>a. W' (KAddr a) = W (KAddr a)" and "raw_ok V db"
  shows "st V A (s\<lparr>p_kv := db\<rparr>) W' I"
proof -
  have "stored_info W' = stored_info W" using assms(3) by (auto simp: stored_info_def)
  moreover have "cache_ok V A (s\<lparr>p_kv := db\<rparr>)"
    using assms by (simp add: cache_ok_def st_def view_def)
  moreover have "info V (s\<lparr>p_kv := db\<rparr>) a = I a" for a
    using assms(1,2) \<open>stored_info W' = stored_info W\<close>
    by (auto simp: st_def info_def view_def split: option.splits)
  ultimately show ?thesis using assms(2) by (auto simp: st_def view_def)
qed

definition addr_key :: "kvkey \<Rightarrow> bool" where
  "addr_key k = (\<exists>a. k = KAddr a)"

lemma addr_key_simps [simp]:
  "addr_key (KAddr a)" "\<not> addr_key (KTx h)" "\<not> addr_key (KSpend h n)" "\<not> addr_key (KUnconfirmed h)"
  "\<not> addr_key (KHeight n)" "\<not> addr_key (KBlock h)" "\<not> addr_key (KBlockTxs h n)" "\<not> addr_key (KOrphan n)"
  "\<not> addr_key (KTimestamp t n)" "\<not> addr_key (KExtra h)" "\<not> addr_key (KAddrTx a n)" "\<not> addr_key (KAddrTxIdx a h)"
  "\<not> addr_key (KUnspent a n)" "\<not> addr_key (KUnspentIdx a h n)" "\<not> addr_key KOffset" "\<not> addr_key KUnconfCount"
  "\<not> addr_key KUnconfSize"
  by (simp_all add: addr_key_def)

lemma kvset_rule:
  assumes "st V A s W I" and "rocks_ok (pe_rocks E) V" and "\<not> addr_key k"
    and "\<And>s'. st V A s' (W(k \<mapsto> v)) I \<Longrightarrow> ctl s' = ctl s \<Longrightarrow> \<forall>a p. points s a p \<longrightarrow> points s' a p \<Longrightarrow> Q s'"
  shows "returns (kvset E (key_str k) v s) Q"
proof -
  obtain db where db: "KVDB_set (pe_rocks E) (key_str k) v (p_kv s) = Inr db"
    "kv_view V db = (kv_view V (p_kv s))(k \<mapsto> v)" using KVDB_set_view [OF assms(2)] by metis
  have "raw_ok V db" using KVDB_set_raw [OF assms(2) db(1)] assms(1) by (simp add: st_def cache_ok_def)
  then have "st V A (s\<lparr>p_kv := db\<rparr>) (W(k \<mapsto> v)) I"
    using assms(1,3) db(2) by (intro st_kv [OF assms(1)]) (auto simp: st_def view_def)
  with db(1) assms(4) [of "s\<lparr>p_kv := db\<rparr>"] show ?thesis by (simp add: kvset_def ctl_def points_def)
qed

lemma kvdel_rule:
  assumes "st V A s W I" and "rocks_ok (pe_rocks E) V" and "\<not> addr_key k"
    and "\<And>s'. st V A s' (W(k := None)) I \<Longrightarrow> ctl s' = ctl s \<Longrightarrow> \<forall>a p. points s a p \<longrightarrow> points s' a p \<Longrightarrow> Q s'"
  shows "returns (kvdel E (key_str k) s) Q"
proof -
  obtain db where db: "KVDB_del (pe_rocks E) (key_str k) (p_kv s) = Inr db"
    "kv_view V db = (kv_view V (p_kv s))(k := None)" using KVDB_del_view [OF assms(2)] by metis
  have "raw_ok V db" using KVDB_del_raw [OF assms(2) db(1)] assms(1) by (simp add: st_def cache_ok_def)
  then have "st V A (s\<lparr>p_kv := db\<rparr>) (W(k := None)) I"
    using assms(1,3) db(2) by (intro st_kv [OF assms(1)]) (auto simp: st_def view_def)
  with db(1) assms(4) [of "s\<lparr>p_kv := db\<rparr>"] show ?thesis by (simp add: kvdel_def ctl_def points_def)
qed

lemma kvget_st [kv_simps]:
  "st V A s W I \<Longrightarrow> rocks_ok (pe_rocks E) V \<Longrightarrow> kvget E (key_str k) s =
     (case W k of None \<Rightarrow> Inl (Throw (''not found key: '' @ key_str k)) | Some v \<Rightarrow> Inr v)"
  by (auto simp: kvget_def KVDB_get_view st_def view_def)

lemma kvgetMayNotExist_st [kv_simps]:
  "st V A s W I \<Longrightarrow> rocks_ok (pe_rocks E) V \<Longrightarrow> kvgetMayNotExist E (key_str k) s =
     (case W k of None \<Rightarrow> (False, VStr []) | Some v \<Rightarrow> (True, v))"
  by (auto simp: kvgetMayNotExist_def KVDB_getMayNotExist_view st_def view_def)

lemma kvget_rule:
  assumes "st V A s W I" and "rocks_ok (pe_rocks E) V" and "W k = Some v" and "Q v"
  shows "returns (kvget E (key_str k) s) Q"
  using assms by (simp add: kvget_st)

text \<open>Deleting a key that is perhaps not the text of any record's key.\<close>

lemma kvdel_raw_rule:
  assumes "st V A s W I" and R: "rocks_ok (pe_rocks E) V" and "\<not> addr_key k" and key: "\<And>l. key_str l = key \<Longrightarrow> l = k"
    and Q: "\<And>s' W'. st V A s' W' I \<Longrightarrow> W' = W \<or> W' = W(k := None) \<Longrightarrow> ctl s' = ctl s \<Longrightarrow>
      \<forall>a p. points s a p \<longrightarrow> points s' a p \<Longrightarrow> Q s'"
  shows "returns (kvdel E key s) Q"
proof (cases "key = key_str k")
  case True
  then show ?thesis using assms(1-3) Q by (auto intro: kvdel_rule)
next
  case False
  obtain ok db' where p: "rk_Delete (pe_rocks E) (p_kv s) key = (ok, db')" by fastforce
  with R have "ok" "V db' = (V (p_kv s))(key := None)"
    unfolding rocks_ok_def by (metis fst_conv, metis snd_conv)
  moreover have "key_str l \<noteq> key" for l using key False by blast
  ultimately have "kv_view V db' = kv_view V (p_kv s)" by (simp add: kv_view_def fun_eq_iff)
  moreover have "raw_ok V db'"
    using KVDB_del_raw [OF R, of key "p_kv s" db'] p \<open>ok\<close> assms(1) by (simp add: KVDB_del_def st_def cache_ok_def)
  ultimately have "st V A (s\<lparr>p_kv := db'\<rparr>) W I"
    using assms(1) by (intro st_kv [OF assms(1)]) (auto simp: st_def view_def)
  then show ?thesis
    using p \<open>ok\<close> Q [of "s\<lparr>p_kv := db'\<rparr>" W] by (simp add: kvdel_def KVDB_del_def ctl_def points_def)
qed

end
