(* ===== verification/AddrChain.thy ===== *)
theory AddrChain
  imports ParserState "HOL-Library.Multiset"
begin

text \<open>
  The chain of transactions of every address (src/jiexi/src/Parser.cc). The records
  \<open>21_{address}_{index}\<close> number the transactions of an address, first the confirmed ones in
  the order of their confirmation, then the unconfirmed ones; \<open>22_{address}_{tx_hash}\<close> finds
  the position of a transaction, and \<open>20_{address}\<close> (through the cache) holds the counts and sums
  and the position of the last confirmed transaction.

  \<open>acceptTx\<close> appends to the chain, \<open>confirmTx\<close> moves its transaction to the first unconfirmed
  position (\<open>_switchTxNode\<close>) and marks it, \<open>unconfirmTx\<close> gives up the last confirmed one, and
  \<open>rejectTx\<close> moves its transaction to the end and cuts it off. The loops that move a
  transaction are \<open>partial_function\<close>s.

  A \<open>book\<close> gives every address the list of its confirmed and the list of its unconfirmed
  transactions, and \<open>book_ok\<close> says that the records and the counters are exactly those of
  the book. Each operation is shown to return and to do its abstract operation on the book.
\<close>

record TxLog2 =
  tl_id :: int
  tl_type :: int
  tl_blkHeight :: int
  tl_blkId :: int
  tl_maxBlkTimestamp :: "32 word"
  tl_ymd :: int
  tl_createdAt :: string
  tl_txHex :: string
  tl_txHash :: uint256
  tl_tx :: CTransaction
  tl_txId :: int

record AddressTxNode =
  nd_txBlockTime :: "32 word"
  nd_txHeight :: int
  nd_balanceDiff :: int
  nd_idx :: int

section \<open>Operations\<close>

definition balanceReceived :: "int \<Rightarrow> int" where
  "balanceReceived d = (if d > 0 then d else 0)"

definition balanceSent :: "int \<Rightarrow> int" where
  "balanceSent d = (if d < 0 then d * - 1 else 0)"

definition insertAddressTx :: "'db penv \<Rightarrow> TxLog2 \<Rightarrow> string \<times> int \<Rightarrow> 'db pstate \<Rightarrow> 'db pstate res" where
  "insertAddressTx E txLog2 it s =
     (let address = fst it; balanceDiff = snd it in
      bindE (getAddressInfo E address s) (\<lambda>(addr, s).
      let addressTxIndex = txCount (p_heap s ! addr) in
      bindE (kvset E (key_str (KAddrTx address addressTxIndex))
         (VAddressTx \<lparr>at_balance_diff = balanceDiff, at_tx_hash = ToString (tl_txHash txLog2), at_tx_height = - 1,
            at_tx_block_time = tl_maxBlkTimestamp txLog2\<rparr>) s) (\<lambda>s.
      bindE (kvset E (key_str (KAddrTxIdx address (tl_txHash txLog2))) (VStr (fmt_d addressTxIndex)) s) (\<lambda>s.
      Inr (setInfo addr (\<lambda>i. i\<lparr>received := received i + balanceReceived balanceDiff,
         sent := sent i + balanceSent balanceDiff,
         unconfirmedReceived := unconfirmedReceived i + balanceReceived balanceDiff,
         unconfirmedSent := unconfirmedSent i + balanceSent balanceDiff,
         unconfirmedTxCount := unconfirmedTxCount i + 1, txCount := txCount i + 1\<rparr>) s)))))"

definition accpetTx_insertAddressTxs :: "'db penv \<Rightarrow> TxLog2 \<Rightarrow> (string, int) smap \<Rightarrow> 'db pstate \<Rightarrow> 'db pstate res" where
  "accpetTx_insertAddressTxs E txLog2 addressBalance s = foldE (insertAddressTx E txLog2) addressBalance s"

definition getAddressTxNode :: "'db penv \<Rightarrow> string \<Rightarrow> uint256 \<Rightarrow> 'db pstate \<Rightarrow> AddressTxNode res" where
  "getAddressTxNode E address txhash s =
     bindE (kvget E (key_str (KAddrTxIdx address txhash)) s) (\<lambda>value.
     bindE (throwUnless ''can't find kv item by key'' (\<not> value_empty value)) (\<lambda>_.
     bindE (value_string value) (\<lambda>text.
     let index = atoi text in
     bindE (kvget E (key_str (KAddrTx address index)) s) (\<lambda>value.
     bindE (root_AddressTx value) (\<lambda>addressTx.
     Inr \<lparr>nd_txBlockTime = at_tx_block_time addressTx, nd_txHeight = at_tx_height addressTx,
          nd_balanceDiff = at_balance_diff addressTx, nd_idx = index\<rparr>)))))"

definition switchTxNode :: "'db penv \<Rightarrow> string \<Rightarrow> int \<Rightarrow> int \<Rightarrow> 'db pstate \<Rightarrow> 'db pstate res" where
  "switchTxNode E address idx1 idx2 s =
     (let keys = map key_str [KAddrTx address idx1, KAddrTx address idx2];
          values = KVDB_multiGet (pe_rocks E) keys (p_kv s) in
      bindE (root_AddressTx (values ! 0)) (\<lambda>addressTx1.
      bindE (root_AddressTx (values ! 1)) (\<lambda>addressTx2.
      bindE (kvset E (keys ! 0) (values ! 1) s) (\<lambda>s.
      bindE (kvset E (keys ! 1) (values ! 0) s) (\<lambda>s.
      bindE (kvset E (''22_'' @ address @ ''_'' @ c_str (at_tx_hash addressTx1)) (VStr (fmt_d idx2)) s) (\<lambda>s.
      kvset E (''22_'' @ address @ ''_'' @ c_str (at_tx_hash addressTx2)) (VStr (fmt_d idx1)) s))))))"

definition confirmAddressTxNode :: "'db penv \<Rightarrow> string \<Rightarrow> AddressTxNode \<Rightarrow> nat \<Rightarrow> 'db pstate \<Rightarrow> 'db pstate res" where
  "confirmAddressTxNode E address node addr s =
     (let s = setInfo addr (\<lambda>i. i\<lparr>unconfirmedReceived := unconfirmedReceived i - balanceReceived (nd_balanceDiff node),
          unconfirmedSent := unconfirmedSent i - balanceSent (nd_balanceDiff node),
          unconfirmedTxCount := unconfirmedTxCount i - 1, lastConfirmedTxIdx := nd_idx node\<rparr>) s;
          key = key_str (KAddrTx address (nd_idx node)) in
      bindE (kvget E key s) (\<lambda>value.
      bindE (root_AddressTx value) (\<lambda>addressTx.
      kvset E key (VAddressTx (addressTx\<lparr>at_tx_block_time := nd_txBlockTime node, at_tx_height := nd_txHeight node\<rparr>)) s)))"

definition unconfirmAddressTxNode :: "'db penv \<Rightarrow> string \<Rightarrow> AddressTxNode \<Rightarrow> nat \<Rightarrow> 'db pstate \<Rightarrow> 'db pstate res" where
  "unconfirmAddressTxNode E address node addr s =
     (let s = setInfo addr (\<lambda>i. i\<lparr>unconfirmedReceived := unconfirmedReceived i + balanceReceived (nd_balanceDiff node),
          unconfirmedSent := unconfirmedSent i + balanceSent (nd_balanceDiff node),
          unconfirmedTxCount := unconfirmedTxCount i + 1, lastConfirmedTxIdx := lastConfirmedTxIdx i - 1\<rparr>) s;
          key = key_str (KAddrTx address (nd_idx node)) in
      bindE (assertE ''addr->lastConfirmedTxIdx_ >= -1'' (lastConfirmedTxIdx (p_heap s ! addr) \<ge> - 1)) (\<lambda>_.
      bindE (assertE ''node->idx_ - 1 == addr->lastConfirmedTxIdx_''
        (nd_idx node - 1 = lastConfirmedTxIdx (p_heap s ! addr))) (\<lambda>_.
      bindE (kvget E key s) (\<lambda>value.
      bindE (root_AddressTx value) (\<lambda>addressTx.
      kvset E key (VAddressTx (addressTx\<lparr>at_tx_block_time := 0, at_tx_height := - 1\<rparr>)) s)))))"

partial_function (option) confirm_position ::
  "'db penv \<Rightarrow> string \<Rightarrow> uint256 \<Rightarrow> nat \<Rightarrow> 'db pstate \<Rightarrow> ((AddressTxNode \<times> 'db pstate) res) option" where
  \<comment> \<open>the loop of \<open>confirmTx\<close>\<close>
  "confirm_position E address txhash addr s =
     (case getAddressTxNode E address txhash s of
        Inl e \<Rightarrow> Some (Inl e)
      | Inr currNode \<Rightarrow>
          if lastConfirmedTxIdx (p_heap s ! addr) + 1 = nd_idx currNode then Some (Inr (currNode, s))
          else (case switchTxNode E address (lastConfirmedTxIdx (p_heap s ! addr) + 1) (nd_idx currNode) s of
                  Inl e \<Rightarrow> Some (Inl e)
                | Inr s' \<Rightarrow> confirm_position E address txhash addr s'))"

definition confirmAddressTx :: "'db penv \<Rightarrow> TxLog2 \<Rightarrow> string \<times> int \<Rightarrow> 'db pstate \<Rightarrow> 'db pstate res" where
  \<comment> \<open>the body of the loop over the addresses in \<open>confirmTx\<close>\<close>
  "confirmAddressTx E txLog2 it s =
     bindE (getAddressInfo E (fst it) s) (\<lambda>(addrInfo, s).
     case confirm_position E (fst it) (tl_txHash txLog2) addrInfo s of
       None \<Rightarrow> Inl NoReturn
     | Some r \<Rightarrow> bindE r (\<lambda>(currNode, s).
         confirmAddressTxNode E (fst it)
           (currNode\<lparr>nd_txBlockTime := tl_maxBlkTimestamp txLog2, nd_txHeight := tl_blkHeight txLog2\<rparr>) addrInfo s))"

definition unconfirmAddressTx :: "'db penv \<Rightarrow> TxLog2 \<Rightarrow> string \<times> int \<Rightarrow> 'db pstate \<Rightarrow> 'db pstate res" where
  "unconfirmAddressTx E txLog2 it s =
     bindE (getAddressInfo E (fst it) s) (\<lambda>(addrInfo, s).
     bindE (getAddressTxNode E (fst it) (tl_txHash txLog2) s) (\<lambda>currNode.
     unconfirmAddressTxNode E (fst it) currNode addrInfo s))"

definition removeAddressTxNode ::
  "'db penv \<Rightarrow> string \<Rightarrow> int \<Rightarrow> uint256 \<Rightarrow> int \<Rightarrow> nat \<Rightarrow> 'db pstate \<Rightarrow> 'db pstate res" where
  \<comment> \<open>the hash object itself, not its text, goes to the \<open>%s\<close> of \<open>key22\<close>\<close>
  "removeAddressTxNode E address idx txhash balanceDiff addr s =
     bindE (assertE ''addr->txCount_ == idx + 1'' (txCount (p_heap s ! addr) = idx + 1)) (\<lambda>_.
     bindE (kvdel E (key_str (KAddrTx address idx)) s) (\<lambda>s.
     bindE (kvdel E (''22_'' @ address @ ''_'' @ pe_objectText E txhash) s) (\<lambda>s.
     Inr (setInfo addr (\<lambda>i. i\<lparr>txCount := txCount i - 1, received := received i - balanceReceived balanceDiff,
        sent := sent i - balanceSent balanceDiff,
        unconfirmedReceived := unconfirmedReceived i - balanceReceived balanceDiff,
        unconfirmedSent := unconfirmedSent i - balanceSent balanceDiff,
        unconfirmedTxCount := unconfirmedTxCount i - 1\<rparr>) s))))"

partial_function (option) reject_position ::
  "'db penv \<Rightarrow> string \<Rightarrow> uint256 \<Rightarrow> nat \<Rightarrow> 'db pstate \<Rightarrow> ((AddressTxNode \<times> 'db pstate) res) option" where
  \<comment> \<open>the loop of \<open>_rejectAddressTxs\<close>\<close>
  "reject_position E address txhash addr s =
     (case getAddressTxNode E address txhash s of
        Inl e \<Rightarrow> Some (Inl e)
      | Inr currNode \<Rightarrow>
          if nd_idx currNode + 1 = txCount (p_heap s ! addr) then Some (Inr (currNode, s))
          else (case bindE (assertE ''addrInfo->txCount_ >= 2'' (txCount (p_heap s ! addr) \<ge> 2)) (\<lambda>_.
                  switchTxNode E address (txCount (p_heap s ! addr) - 1) (nd_idx currNode) s) of
                  Inl e \<Rightarrow> Some (Inl e)
                | Inr s' \<Rightarrow> reject_position E address txhash addr s'))"

definition rejectAddressTx :: "'db penv \<Rightarrow> TxLog2 \<Rightarrow> string \<times> int \<Rightarrow> 'db pstate \<Rightarrow> 'db pstate res" where
  "rejectAddressTx E txLog2 it s =
     bindE (getAddressInfo E (fst it) s) (\<lambda>(addrInfo, s).
     case reject_position E (fst it) (tl_txHash txLog2) addrInfo s of
       None \<Rightarrow> Inl NoReturn
     | Some r \<Rightarrow> bindE r (\<lambda>(currNode, s).
         removeAddressTxNode E (fst it) (txCount (p_heap s ! addrInfo) - 1) (tl_txHash txLog2)
           (nd_balanceDiff currNode) addrInfo s))"

definition rejectAddressTxs :: "'db penv \<Rightarrow> TxLog2 \<Rightarrow> (string, int) smap \<Rightarrow> 'db pstate \<Rightarrow> 'db pstate res" where
  "rejectAddressTxs E txLog2 addressBalance s = foldE (rejectAddressTx E txLog2) addressBalance s"

section \<open>The book of an address\<close>

record entry =
  e_hash :: uint256
  e_diff :: int
  e_height :: int
  e_time :: "32 word"

type_synonym page = "entry list \<times> entry list"  \<comment> \<open>confirmed, unconfirmed\<close>
type_synonym book = "string \<Rightarrow> page"

definition node_of :: "entry \<Rightarrow> kvval" where
  "node_of e = VAddressTx \<lparr>at_balance_diff = e_diff e, at_tx_hash = ToString (e_hash e),
     at_tx_height = e_height e, at_tx_block_time = e_time e\<rparr>"

definition chain_at :: "(kvkey \<Rightarrow> kvval option) \<Rightarrow> string \<Rightarrow> entry list \<Rightarrow> bool" where
  "chain_at W a L =
     ((\<forall>i. W (KAddrTx a i) = (if 0 \<le> i \<and> i < int (length L) then Some (node_of (L ! nat i)) else None)) \<and>
      (\<forall>i < length L. W (KAddrTxIdx a (e_hash (L ! i))) = Some (VStr (fmt_d (int i)))) \<and>
      distinct (map e_hash L))"

definition total :: "(int \<Rightarrow> int) \<Rightarrow> entry list \<Rightarrow> int" where
  "total f L = (\<Sum>e \<leftarrow> L. f (e_diff e))"

text \<open>The record of an address, its unspent counters apart.\<close>

definition page_info :: "page \<Rightarrow> int \<Rightarrow> int \<Rightarrow> fb_Address" where
  "page_info pg u m = (case pg of (C, U) \<Rightarrow>
     \<lparr>fa_received = total balanceReceived (C @ U), fa_sent = total balanceSent (C @ U),
      fa_tx_count = int (length (C @ U)), fa_unconfirmed_tx_count = int (length U),
      fa_unconfirmed_received = total balanceReceived U, fa_unconfirmed_sent = total balanceSent U,
      fa_unspent_tx_count = u, fa_unspent_tx_max_index = m, fa_last_confirmed_tx_index = int (length C) - 1\<rparr>)"

definition chain_ok :: "(kvkey \<Rightarrow> kvval option) \<Rightarrow> fb_Address \<Rightarrow> string \<Rightarrow> page \<Rightarrow> bool" where
  "chain_ok W i a pg =
     (chain_at W a (fst pg @ snd pg) \<and> (\<exists>u m. i = page_info pg u m) \<and>
      (\<forall>e \<in> set (fst pg). 0 \<le> e_height e) \<and> (\<forall>e \<in> set (snd pg). e_height e = - 1))"

definition book_ok :: "(kvkey \<Rightarrow> kvval option) \<Rightarrow> (string \<Rightarrow> fb_Address) \<Rightarrow> book \<Rightarrow> bool" where
  "book_ok W I B = (\<forall>a. chain_ok W (I a) a (B a))"

text \<open>The operations on the book.\<close>

definition swap :: "nat \<Rightarrow> nat \<Rightarrow> 'a list \<Rightarrow> 'a list" where
  "swap i j xs = xs[i := xs ! j, j := xs ! i]"

definition page_accept :: "entry \<Rightarrow> page \<Rightarrow> page" where
  "page_accept e pg = (fst pg, snd pg @ [e])"

definition page_confirm :: "nat \<Rightarrow> int \<Rightarrow> 32 word \<Rightarrow> page \<Rightarrow> page" where
  "page_confirm q height time pg =
     (fst pg @ [(snd pg ! q)\<lparr>e_height := height, e_time := time\<rparr>], tl (swap 0 q (snd pg)))"

definition page_unconfirm :: "page \<Rightarrow> page" where
  "page_unconfirm pg = (butlast (fst pg), (last (fst pg))\<lparr>e_height := - 1, e_time := 0\<rparr> # snd pg)"

definition page_reject :: "nat \<Rightarrow> page \<Rightarrow> page" where
  "page_reject q pg = (fst pg, butlast (swap (length (snd pg) - 1) q (snd pg)))"

text \<open>Keys of the chain of an address, and what a handler of chains leaves alone.\<close>

fun chain_key_of :: "string \<Rightarrow> kvkey \<Rightarrow> bool" where
  "chain_key_of a (KAddrTx b i) = (b = a)"
| "chain_key_of a (KAddrTxIdx b h) = (b = a)"
| "chain_key_of a _ = False"

definition only_chain :: "string \<Rightarrow> (kvkey \<Rightarrow> kvval option) \<Rightarrow> (kvkey \<Rightarrow> kvval option) \<Rightarrow> bool" where
  "only_chain a W W' = (\<forall>k. \<not> chain_key_of a k \<longrightarrow> W' k = W k)"

definition chain_frame :: "string set \<Rightarrow> (kvkey \<Rightarrow> kvval option) \<Rightarrow> (string \<Rightarrow> fb_Address) \<Rightarrow> (kvkey \<Rightarrow> kvval option) \<Rightarrow>
    (string \<Rightarrow> fb_Address) \<Rightarrow> bool" where
  "chain_frame D W I W' I' = ((\<forall>k. (\<forall>a. \<not> chain_key_of a k) \<longrightarrow> W' k = W k) \<and> (\<forall>a. a \<notin> D \<longrightarrow> I' a = I a) \<and>
     (\<forall>a. fa_unspent_tx_count (I' a) = fa_unspent_tx_count (I a) \<and>
          fa_unspent_tx_max_index (I' a) = fa_unspent_tx_max_index (I a)))"

text \<open>The outcome of an operation on chains: the new book, and nothing else changed.\<close>

definition book_step :: "('db \<Rightarrow> string \<Rightarrow> kvval option) \<Rightarrow> string set \<Rightarrow> 'db pstate \<Rightarrow> (kvkey \<Rightarrow> kvval option) \<Rightarrow>
    (string \<Rightarrow> fb_Address) \<Rightarrow> string set \<Rightarrow> book \<Rightarrow> 'db pstate \<Rightarrow> bool" where
  "book_step V A s W I D B s' =
     (\<exists>W' I'. st V A s' W' I' \<and> ctl s' = ctl s \<and> chain_frame D W I W' I' \<and> book_ok W' I' B)"

lemma book_stepI:
  "st V A s' W' I' \<Longrightarrow> ctl s' = ctl s \<Longrightarrow> chain_frame D W I W' I' \<Longrightarrow> book_ok W' I' B \<Longrightarrow> book_step V A s W I D B s'"
  by (auto simp: book_step_def)

lemma only_chain_refl [simp]: "only_chain a W W"
  by (simp add: only_chain_def)

lemma only_chain_put [simp]:
  "only_chain a W (W'(KAddrTx a i := v)) = only_chain a W W'" "only_chain a W (W'(KAddrTxIdx a h := v)) = only_chain a W W'"
  by (auto simp: only_chain_def fun_upd_def) (metis chain_key_of.simps(1,2))+

lemma only_chain_frame:
  "only_chain a W W' \<Longrightarrow> fa_unspent_tx_count i = fa_unspent_tx_count (I a) \<Longrightarrow>
     fa_unspent_tx_max_index i = fa_unspent_tx_max_index (I a) \<Longrightarrow> chain_frame {a} W I W' (I(a := i))"
  by (auto simp: only_chain_def chain_frame_def)

lemma length_swap [simp]: "length (swap i j xs) = length xs"
  by (simp add: swap_def)

lemma mset_swap': "i < length xs \<Longrightarrow> j < length xs \<Longrightarrow> mset (swap i j xs) = mset xs"
  using mset_swap [of i xs j] by (simp add: swap_def list_update_swap)
    (metis list_update_swap mset_swap)

lemma set_swap: "i < length xs \<Longrightarrow> j < length xs \<Longrightarrow> set (swap i j xs) = set xs"
  by (metis mset_swap' set_mset_mset)

lemma nth_swap: "i < length xs \<Longrightarrow> j < length xs \<Longrightarrow> k < length xs \<Longrightarrow>
    swap i j xs ! k = (if k = j then xs ! i else if k = i then xs ! j else xs ! k)"
  by (auto simp: swap_def nth_list_update)

lemma swap_Nil [simp]: "swap i j xs = [] \<longleftrightarrow> xs = []"
  by (simp add: swap_def)

lemma swap_head: "q < length xs \<Longrightarrow> swap 0 q xs ! 0 = xs ! q"
  using nth_swap [of 0 xs q 0] by (cases xs) auto

lemma swap_last:
  assumes "q < length xs"
  shows "swap (length xs - 1) q xs = butlast (swap (length xs - 1) q xs) @ [xs ! q]"
proof -
  let ?l = "length xs - 1"
  have l: "?l < length xs" "swap ?l q xs \<noteq> []" using assms by auto
  have "last (swap ?l q xs) = swap ?l q xs ! ?l" using l by (simp add: last_conv_nth)
  also have "\<dots> = xs ! q" using nth_swap [OF l(1) assms l(1)] by simp
  finally show ?thesis using append_butlast_last_id [OF l(2)] by simp
qed

lemma swap_append2: "swap (length xs + i) (length xs + j) (xs @ ys) = xs @ swap i j ys"
  by (simp add: swap_def list_update_append nth_append)

lemma total_simps [simp]:
  "total f [] = 0" "total f (e # L) = f (e_diff e) + total f L" "total f (L @ M) = total f L + total f M"
  by (simp_all add: total_def)

lemma total_mset: "mset L = mset M \<Longrightarrow> total f L = total f M"
  unfolding total_def by (metis mset_map sum_mset_sum_list)

lemma total_swap: "i < length L \<Longrightarrow> j < length L \<Longrightarrow> total f (swap i j L) = total f L"
  by (intro total_mset mset_swap')

lemma chain_frame_trans:
  "chain_frame D W I W' I' \<Longrightarrow> chain_frame D W' I' W'' I'' \<Longrightarrow> chain_frame D W I W'' I''"
  by (simp add: chain_frame_def)

lemma chain_frame_refl [simp]: "chain_frame D W I W I"
  by (simp add: chain_frame_def)

lemma chain_at_cong:
  "(\<And>i. W' (KAddrTx a i) = W (KAddrTx a i)) \<Longrightarrow> (\<And>h. W' (KAddrTxIdx a h) = W (KAddrTxIdx a h)) \<Longrightarrow>
     chain_at W' a L = chain_at W a L"
  by (simp add: chain_at_def)

lemma book_ok_upd:
  assumes "book_ok W I B" and "chain_ok W' i a pg" and "only_chain a W W'"
  shows "book_ok W' (I(a := i)) (B(a := pg))"
proof -
  have "chain_at W' b L = chain_at W b L" if "b \<noteq> a" for b L
    using assms(3) that by (intro chain_at_cong) (auto simp: only_chain_def)
  with assms(1,2) show ?thesis by (auto simp: book_ok_def chain_ok_def)
qed

lemma chain_at_append:
  assumes at: "chain_at W a L" and new: "e_hash e \<notin> e_hash ` set L"
  shows "chain_at (W(KAddrTx a (int (length L)) \<mapsto> node_of e, KAddrTxIdx a (e_hash e) \<mapsto> VStr (fmt_d (int (length L)))))
    a (L @ [e])"
proof -
  have "e_hash (L ! i) \<noteq> e_hash e" if "i < length L" for i using new that by (metis image_eqI nth_mem)
  then show ?thesis
    using at new unfolding chain_at_def
    by (intro conjI allI) (auto simp: nth_append less_Suc_eq nat_less_iff)
qed

section \<open>Appending\<close>

lemma insertAddressTx_ok:
  assumes st: "st V A s W I" and R: "rocks_ok (pe_rocks E) V" and a: "a \<in> A" and B: "book_ok W I B"
    and new: "tl_txHash l \<notin> e_hash ` set (fst (B a) @ snd (B a))"
  shows "returns (insertAddressTx E l (a, d) s) (book_step V A s W I {a}
     (B(a := page_accept \<lparr>e_hash = tl_txHash l, e_diff = d, e_height = - 1, e_time = tl_maxBlkTimestamp l\<rparr> (B a))))"
proof -
  let ?e = "\<lparr>e_hash = tl_txHash l, e_diff = d, e_height = - 1, e_time = tl_maxBlkTimestamp l\<rparr>"
  obtain C U where pg: "B a = (C, U)" by fastforce
  from B have ok: "chain_ok W (I a) a (C, U)" by (metis book_ok_def pg)
  let ?n = "int (length (C @ U))"
  let ?W = "W(KAddrTx a ?n \<mapsto> node_of ?e, KAddrTxIdx a (tl_txHash l) \<mapsto> VStr (fmt_d ?n))"
  let ?g = "\<lambda>i. i\<lparr>fa_received := fa_received i + balanceReceived d, fa_sent := fa_sent i + balanceSent d,
     fa_unconfirmed_received := fa_unconfirmed_received i + balanceReceived d,
     fa_unconfirmed_sent := fa_unconfirmed_sent i + balanceSent d,
     fa_unconfirmed_tx_count := fa_unconfirmed_tx_count i + 1, fa_tx_count := fa_tx_count i + 1\<rparr>"
  from ok obtain u m where i: "I a = page_info (C, U) u m"
    and at: "chain_at W a (C @ U)" by (auto simp: chain_ok_def)
  from i have n: "fa_tx_count (I a) = ?n" by (simp add: page_info_def)
  have at': "chain_at ?W a (C @ U @ [?e])"
    using chain_at_append [OF at, of ?e] new pg by simp
  have "?g (I a) = page_info (C, U @ [?e]) u m"
    by (simp add: i page_info_def)
  then have ok': "chain_ok ?W (?g (I a)) a (page_accept ?e (B a))"
    using ok at' by (auto simp: chain_ok_def page_accept_def pg)
  show ?thesis
    unfolding insertAddressTx_def Let_def fst_conv snd_conv
  proof (rule returns_bind, rule getAddressInfo_rule [OF st R a], clarify)
    fix p s1 assume s1: "st V A s1 W I" "ctl s1 = ctl s" "points s1 a p"
    have c: "txCount (p_heap s1 ! p) = ?n" using info_fields(1) [OF s1(1,3)] n by simp
    show "returns (bindE (kvset E (key_str (KAddrTx a (txCount (p_heap s1 ! p))))
       (VAddressTx \<lparr>at_balance_diff = d, at_tx_hash = ToString (tl_txHash l), at_tx_height = - 1,
          at_tx_block_time = tl_maxBlkTimestamp l\<rparr>) s1) (\<lambda>s.
      bindE (kvset E (key_str (KAddrTxIdx a (tl_txHash l))) (VStr (fmt_d (txCount (p_heap s1 ! p)))) s) (\<lambda>s.
      Inr (setInfo p (\<lambda>i. i\<lparr>received := received i + balanceReceived d, sent := sent i + balanceSent d,
         unconfirmedReceived := unconfirmedReceived i + balanceReceived d,
         unconfirmedSent := unconfirmedSent i + balanceSent d,
         unconfirmedTxCount := unconfirmedTxCount i + 1, txCount := txCount i + 1\<rparr>) s))))
      (book_step V A s W I {a} (B(a := page_accept ?e (B a))))"
      unfolding c
    proof (rule returns_bind, rule kvset_rule [OF s1(1) R], simp, rule returns_bind, rule kvset_rule [OF _ R], assumption,
        simp, unfold returns_Inr)
      fix s2 s3
      assume s2: "ctl s2 = ctl s1" "\<forall>b q. points s1 b q \<longrightarrow> points s2 b q"
        and s3: "st V A s3 (W(KAddrTx a ?n \<mapsto> VAddressTx \<lparr>at_balance_diff = d, at_tx_hash = ToString (tl_txHash l),
            at_tx_height = - 1, at_tx_block_time = tl_maxBlkTimestamp l\<rparr>,
            KAddrTxIdx a (tl_txHash l) \<mapsto> VStr (fmt_d ?n))) I" "ctl s3 = ctl s2"
          "\<forall>b q. points s2 b q \<longrightarrow> points s3 b q"
      let ?f = "\<lambda>i. i\<lparr>received := received i + balanceReceived d, sent := sent i + balanceSent d,
         unconfirmedReceived := unconfirmedReceived i + balanceReceived d,
         unconfirmedSent := unconfirmedSent i + balanceSent d,
         unconfirmedTxCount := unconfirmedTxCount i + 1, txCount := txCount i + 1\<rparr>"
      have "st V A s3 ?W I" using s3(1) by (simp add: node_of_def)
      moreover have "points s3 a p" using s1(3) s2(2) s3(3) by blast
      ultimately have "st V A (setInfo p ?f s3) ?W (I(a := ?g (I a))) \<and> ctl (setInfo p ?f s3) = ctl s3"
        using setInfo_st [of V A s3 ?W I a p ?f ?g] by (simp add: fbAddress_def)
      then have "st V A (setInfo p ?f s3) ?W (I(a := ?g (I a)))" "ctl (setInfo p ?f s3) = ctl s"
        using s1(2) s2(1) s3(2) by (simp_all only:)
      moreover have "book_ok ?W (I(a := ?g (I a))) (B(a := page_accept ?e (B a)))"
        by (rule book_ok_upd [OF B ok']) simp
      moreover have "chain_frame {a} W I ?W (I(a := ?g (I a)))" by (rule only_chain_frame) simp_all
      ultimately show "book_step V A s W I {a} (B(a := page_accept ?e (B a))) (setInfo p ?f s3)"
        by (intro book_stepI)
    qed
  qed
qed

section \<open>Finding and moving\<close>

lemma getAddressTxNode_at:
  assumes "st V A s W I" and "rocks_ok (pe_rocks E) V" and "chain_at W a L" and "n < length L"
  shows "getAddressTxNode E a (e_hash (L ! n)) s =
     Inr \<lparr>nd_txBlockTime = e_time (L ! n), nd_txHeight = e_height (L ! n), nd_balanceDiff = e_diff (L ! n),
          nd_idx = int n\<rparr>"
proof -
  from assms(3,4) have "W (KAddrTxIdx a (e_hash (L ! n))) = Some (VStr (fmt_d (int n)))"
    "W (KAddrTx a (int n)) = Some (node_of (L ! n))" by (simp_all add: chain_at_def)
  then show ?thesis
    by (simp add: getAddressTxNode_def kvget_st [OF assms(1,2)] value_empty_def node_of_def Let_def)
qed

lemma c_str_ToString [simp]: "c_str (ToString h) = ToString h"
proof -
  have "c \<noteq> CHR 0x00" if "c \<in> set (ToString h)" for c
    using that GetHex_chars is_hexchar_special(1) by metis
  then show ?thesis by (simp add: c_str_def takeWhile_eq_all_conv)
qed

lemma chain_at_swap:
  assumes at: "chain_at W a L" and i: "i < length L" and j: "j < length L" and ij: "i \<noteq> j"
  shows "chain_at (W(KAddrTx a (int i) \<mapsto> node_of (L ! j), KAddrTx a (int j) \<mapsto> node_of (L ! i),
      KAddrTxIdx a (e_hash (L ! i)) \<mapsto> VStr (fmt_d (int j)), KAddrTxIdx a (e_hash (L ! j)) \<mapsto> VStr (fmt_d (int i))))
    a (swap i j L)"
    (is "chain_at ?W a ?L")
proof -
  from at have d: "distinct (map e_hash L)" by (simp add: chain_at_def)
  then have inj: "e_hash (L ! k) = e_hash (L ! l) \<longleftrightarrow> k = l" if "k < length L" "l < length L" for k l
    using that by (metis length_map nth_eq_iff_index_eq nth_map)
  have "?W (KAddrTx a k) = (if 0 \<le> k \<and> k < int (length ?L) then Some (node_of (?L ! nat k)) else None)" for k
  proof -
    have "k = int i \<longleftrightarrow> 0 \<le> k \<and> nat k = i" "k = int j \<longleftrightarrow> 0 \<le> k \<and> nat k = j" by auto
    then show ?thesis using at i j ij by (auto simp: chain_at_def nth_swap nat_less_iff)
  qed
  moreover have "?W (KAddrTxIdx a (e_hash (?L ! k))) = Some (VStr (fmt_d (int k)))" if "k < length ?L" for k
    using at i j ij that by (auto simp: chain_at_def nth_swap inj)
  moreover have "distinct (map e_hash ?L)"
  proof -
    have "mset (map e_hash ?L) = mset (map e_hash L)" using mset_swap' [OF i j] by simp
    with d show ?thesis by (metis mset_eq_imp_distinct_iff)
  qed
  ultimately show ?thesis unfolding chain_at_def by blast
qed

lemma switchTxNode_ok:
  assumes st: "st V A s W I" and R: "rocks_ok (pe_rocks E) V" and at: "chain_at W a L"
    and i: "i < length L" and j: "j < length L" and ij: "i \<noteq> j"
  shows "returns (switchTxNode E a (int i) (int j) s) (\<lambda>s'. \<exists>W'. st V A s' W' I \<and> ctl s' = ctl s \<and>
     (\<forall>b p. points s b p \<longrightarrow> points s' b p) \<and> only_chain a W W' \<and> chain_at W' a (swap i j L))"
proof -
  have vals: "KVDB_multiGet (pe_rocks E) (map key_str [KAddrTx a (int i), KAddrTx a (int j)]) (p_kv s) =
      [node_of (L ! i), node_of (L ! j)]"
    using at i j st by (simp only: KVDB_multiGet_view [OF R]) (auto simp: chain_at_def st_def view_def fun_eq_iff)
  have key22: "''22_'' @ a @ ''_'' @ ToString h = key_str (KAddrTxIdx a h)" for h by (simp add: key_str.simps)
  show ?thesis
    unfolding switchTxNode_def Let_def vals
    apply (simp only: node_of_def list.map nth_Cons_0 nth_Cons_Suc One_nat_def root_simps bindE_simps
        fb_AddressTx.select_convs c_str_ToString key22)
    apply (rule returns_bind, rule kvset_rule [OF st R], simp)
    apply (rule returns_bind, rule kvset_rule [OF _ R], assumption, simp)
    apply (rule returns_bind, rule kvset_rule [OF _ R], assumption, simp)
    apply (rule kvset_rule [OF _ R], assumption, simp)
    subgoal for s1 s2 s3 s4
      using chain_at_swap [OF at i j ij, unfolded node_of_def]
      by (intro exI conjI) (assumption, simp, blast, simp, assumption)
    done
qed

definition node_at :: "entry \<Rightarrow> int \<Rightarrow> AddressTxNode" where
  "node_at e n = \<lparr>nd_txBlockTime = e_time e, nd_txHeight = e_height e, nd_balanceDiff = e_diff e, nd_idx = n\<rparr>"

lemma swap_same [simp]: "i < length xs \<Longrightarrow> swap i i xs = xs"
  by (simp add: swap_def)

lemma confirm_position_ok:
  assumes st: "st V A s W I" and R: "rocks_ok (pe_rocks E) V" and p: "points s a p"
    and at: "chain_at W a (C @ U)" and q: "q < length U"
    and lastc: "fa_last_confirmed_tx_index (I a) = int (length C) - 1"
  shows "\<exists>s' W'. confirm_position E a (e_hash (U ! q)) p s = Some (Inr (node_at (U ! q) (int (length C)), s')) \<and>
     st V A s' W' I \<and> ctl s' = ctl s \<and> points s' a p \<and> only_chain a W W' \<and> chain_at W' a (C @ swap 0 q U)"
proof -
  have stop: "confirm_position E a (e_hash (U' ! 0)) p s' = Some (Inr (node_at (U' ! 0) (int (length C)), s'))"
    if "st V A s' W' I" "points s' a p" "chain_at W' a (C @ U')" "U' \<noteq> []" for s' W' U'
  proof -
    have "length C < length (C @ U')" using that by simp
    from getAddressTxNode_at [OF that(1) R that(3) this] that
    have "getAddressTxNode E a (e_hash (U' ! 0)) s' = Inr (node_at (U' ! 0) (int (length C)))"
      by (simp add: nth_append node_at_def)
    then show ?thesis
      using info_fields(3) [OF that(1,2)] lastc by (subst confirm_position.simps) (simp add: node_at_def)
  qed
  show ?thesis
  proof (cases "q = 0")
    case True
    with stop [OF st p at] q have "confirm_position E a (e_hash (U ! q)) p s =
        Some (Inr (node_at (U ! q) (int (length C)), s))" by auto
    with True st p at q show ?thesis by (intro exI [of _ s] exI [of _ W]) auto
  next
    case False
    have i: "length C < length (C @ U)" and j: "length C + q < length (C @ U)" using q by auto
    obtain s' W' where s': "switchTxNode E a (int (length C)) (int (length C + q)) s = Inr s'" "st V A s' W' I"
      "ctl s' = ctl s" "points s' a p" "only_chain a W W'" "chain_at W' a (C @ swap 0 q U)"
      using switchTxNode_ok [OF st R at i j] False p swap_append2 [of C 0 q U]
      unfolding returns_def by auto
    from getAddressTxNode_at [OF st R at j]
    have n: "getAddressTxNode E a (e_hash (U ! q)) s = Inr (node_at (U ! q) (int (length C + q)))"
      by (simp add: nth_append node_at_def)
    have "swap 0 q U \<noteq> []" using q by auto
    with stop [OF s'(2,4,6)] swap_head [OF q] have "confirm_position E a (e_hash (U ! q)) p s' =
        Some (Inr (node_at (U ! q) (int (length C)), s'))" by simp
    then have "confirm_position E a (e_hash (U ! q)) p s = Some (Inr (node_at (U ! q) (int (length C)), s'))"
      using n s'(1) info_fields(3) [OF st p] lastc False
      by (subst confirm_position.simps) (simp add: node_at_def)
    with s' show ?thesis by blast
  qed
qed

text \<open>Changing the record at one position.\<close>

lemma chain_at_update:
  assumes "chain_at W a L" and "n < length L" and "e_hash e = e_hash (L ! n)"
  shows "chain_at (W(KAddrTx a (int n) \<mapsto> node_of e)) a (L[n := e])"
proof -
  have hs: "map e_hash (L[n := e]) = map e_hash L"
    using assms(2,3) by (metis list_update_id map_update)
  then have "e_hash (L[n := e] ! i) = e_hash (L ! i)" if "i < length L" for i
    using that by (metis length_list_update nth_map)
  moreover have "(W(KAddrTx a (int n) \<mapsto> node_of e)) (KAddrTx a k) =
      (if 0 \<le> k \<and> k < int (length (L[n := e])) then Some (node_of (L[n := e] ! nat k)) else None)" for k
    using assms(1,2) by (cases "k = int n") (auto simp: chain_at_def nth_list_update)
  ultimately show ?thesis using assms(1) hs unfolding chain_at_def by simp
qed

lemma confirmAddressTx_ok:
  assumes st: "st V A s W I" and R: "rocks_ok (pe_rocks E) V" and a: "a \<in> A" and B: "book_ok W I B"
    and q: "q < length (snd (B a))" and h: "e_hash (snd (B a) ! q) = tl_txHash l" and height: "0 \<le> tl_blkHeight l"
  shows "returns (confirmAddressTx E l (a, d) s) (book_step V A s W I {a}
     (B(a := page_confirm q (tl_blkHeight l) (tl_maxBlkTimestamp l) (B a))))"
proof -
  obtain C U where pg: "B a = (C, U)" by fastforce
  from B have ok: "chain_ok W (I a) a (C, U)" by (metis book_ok_def pg)
  from ok obtain u m where i: "I a = page_info (C, U) u m" and at: "chain_at W a (C @ U)"
    by (auto simp: chain_ok_def)
  from i have lastc: "fa_last_confirmed_tx_index (I a) = int (length C) - 1" by (simp add: page_info_def)
  let ?x = "U ! q"
  let ?e = "?x\<lparr>e_height := tl_blkHeight l, e_time := tl_maxBlkTimestamp l\<rparr>"
  let ?U = "swap 0 q U" and ?n = "length C"
  from q pg have q': "q < length U" by simp
  then have ne: "U \<noteq> []" by auto
  have U: "?U = ?x # tl ?U"
    using q' by (cases U) (auto simp: swap_def split: nat.splits)
  have tot: "total f U = f (e_diff ?x) + total f (tl ?U)" for f
  proof -
    have "total f U = total f ?U" using q' by (intro total_swap [symmetric]) auto
    also have "\<dots> = f (e_diff ?x) + total f (tl ?U)" by (subst U) simp
    finally show ?thesis .
  qed
  have len: "int (length U) = 1 + int (length (tl ?U))" using q' by (cases U) simp_all
  let ?g = "\<lambda>i. i\<lparr>fa_unconfirmed_received := fa_unconfirmed_received i - balanceReceived (e_diff ?x),
     fa_unconfirmed_sent := fa_unconfirmed_sent i - balanceSent (e_diff ?x),
     fa_unconfirmed_tx_count := fa_unconfirmed_tx_count i - 1, fa_last_confirmed_tx_index := int ?n\<rparr>"
  have gi: "?g (I a) = page_info (C @ [?e], tl ?U) u m"
    by (simp add: i page_info_def tot len)
  have heights: "\<forall>e \<in> set (tl ?U). e_height e = - 1"
  proof -
    have "set (tl ?U) \<subseteq> set U" using q' set_swap [of 0 U q] by (metis U gr_implies_not0 gr_zeroI set_subset_Cons)
    then show ?thesis using ok by (auto simp: chain_ok_def)
  qed
  have ok': "chain_ok (W'(KAddrTx a (int ?n) \<mapsto> node_of ?e)) (?g (I a)) a (page_confirm q (tl_blkHeight l) (tl_maxBlkTimestamp l) (B a))"
    if W': "chain_at W' a (C @ ?U)" for W'
  proof -
    have n: "?n < length (C @ ?U)" using q' by (cases U) auto
    have "(C @ ?U) ! ?n = ?x" by (subst U) simp
    then have "chain_at (W'(KAddrTx a (int ?n) \<mapsto> node_of ?e)) a ((C @ ?U)[?n := ?e])"
      by (intro chain_at_update [OF W' n]) simp
    moreover have "(C @ ?U)[?n := ?e] = (C @ [?e]) @ tl ?U" by (subst U) simp
    ultimately show ?thesis
      using ok height heights gi by (auto simp: chain_ok_def page_confirm_def pg)
  qed
  show ?thesis
    unfolding confirmAddressTx_def fst_conv
  proof (rule returns_bind, rule getAddressInfo_rule [OF st R a], clarify)
    fix p s1 assume s1: "st V A s1 W I" "ctl s1 = ctl s" "points s1 a p"
    obtain s2 W2 where s2: "confirm_position E a (tl_txHash l) p s1 = Some (Inr (node_at ?x (int ?n), s2))"
      "st V A s2 W2 I" "ctl s2 = ctl s1" "points s2 a p" "only_chain a W W2" "chain_at W2 a (C @ ?U)"
      using confirm_position_ok [OF s1(1) R s1(3) at q' lastc] h pg by auto
    let ?f = "\<lambda>i. i\<lparr>unconfirmedReceived := unconfirmedReceived i - balanceReceived (e_diff ?x),
          unconfirmedSent := unconfirmedSent i - balanceSent (e_diff ?x),
          unconfirmedTxCount := unconfirmedTxCount i - 1, lastConfirmedTxIdx := int ?n\<rparr>"
    let ?s3 = "setInfo p ?f s2" and ?I = "I(a := ?g (I a))"
    have s3: "st V A ?s3 W2 ?I" "ctl ?s3 = ctl s2"
      using setInfo_st [OF s2(2,4), of ?f ?g] by (simp_all add: fbAddress_def)
    have nd: "W2 (KAddrTx a (int ?n)) = Some (node_of ?x)"
      using s2(6) ne unfolding chain_at_def by (subst (asm) (2) U) simp
    have "returns (confirmAddressTxNode E a ((node_at ?x (int ?n))\<lparr>nd_txBlockTime := tl_maxBlkTimestamp l,
        nd_txHeight := tl_blkHeight l\<rparr>) p s2) (book_step V A s W I {a} (B(a := page_confirm q (tl_blkHeight l) (tl_maxBlkTimestamp l) (B a))))"
      unfolding confirmAddressTxNode_def Let_def node_at_def AddressTxNode.simps
    proof (rule returns_bind, rule kvget_rule [OF s3(1) R nd], unfold node_of_def root_simps bindE_simps,
        rule kvset_rule [OF s3(1) R], simp)
      fix s4 assume s4: "st V A s4 (W2(KAddrTx a (int ?n) \<mapsto> VAddressTx (\<lparr>at_balance_diff = e_diff ?x,
         at_tx_hash = ToString (e_hash ?x), at_tx_height = e_height ?x, at_tx_block_time = e_time ?x\<rparr>
         \<lparr>at_tx_block_time := tl_maxBlkTimestamp l, at_tx_height := tl_blkHeight l\<rparr>))) ?I" "ctl s4 = ctl ?s3"
      have "st V A s4 (W2(KAddrTx a (int ?n) \<mapsto> node_of ?e)) ?I" using s4(1) by (simp add: node_of_def)
      moreover have "ctl s4 = ctl s" using s1(2) s2(3) s3(2) s4(2) by simp
      ultimately show "book_step V A s W I {a} (B(a := page_confirm q (tl_blkHeight l) (tl_maxBlkTimestamp l) (B a))) s4"
      proof (rule book_stepI)
        have only: "only_chain a W (W2(KAddrTx a (int ?n) \<mapsto> node_of ?e))" using s2(5) by simp
        then show "book_ok (W2(KAddrTx a (int ?n) \<mapsto> node_of ?e)) ?I
            (B(a := page_confirm q (tl_blkHeight l) (tl_maxBlkTimestamp l) (B a)))"
          by (rule book_ok_upd [OF B ok' [OF s2(6)]])
        from only show "chain_frame {a} W I (W2(KAddrTx a (int ?n) \<mapsto> node_of ?e)) ?I"
          by (rule only_chain_frame) simp_all
      qed
    qed
    then show "returns (case confirm_position E a (tl_txHash l) p s1 of None \<Rightarrow> Inl NoReturn
      | Some r \<Rightarrow> bindE r (\<lambda>(currNode, s). confirmAddressTxNode E a
          (currNode\<lparr>nd_txBlockTime := tl_maxBlkTimestamp l, nd_txHeight := tl_blkHeight l\<rparr>) p s))
      (book_step V A s W I {a} (B(a := page_confirm q (tl_blkHeight l) (tl_maxBlkTimestamp l) (B a))))"
      by (simp add: s2(1))
  qed
qed

section \<open>Giving up a confirmation\<close>

lemma unconfirmAddressTx_ok:
  assumes st: "st V A s W I" and R: "rocks_ok (pe_rocks E) V" and a: "a \<in> A" and B: "book_ok W I B"
    and ne: "fst (B a) \<noteq> []" and h: "e_hash (last (fst (B a))) = tl_txHash l"
  shows "returns (unconfirmAddressTx E l (a, d) s) (book_step V A s W I {a} (B(a := page_unconfirm (B a))))"
proof -
  obtain C x U where pg: "B a = (C @ [x], U)"
    using ne by (metis prod.collapse append_butlast_last_id)
  from B have ok: "chain_ok W (I a) a (C @ [x], U)" by (metis book_ok_def pg)
  from ok obtain u m where i: "I a = page_info (C @ [x], U) u m" and at: "chain_at W a (C @ x # U)"
    by (auto simp: chain_ok_def)
  let ?n = "length C" and ?e = "x\<lparr>e_height := - 1, e_time := 0\<rparr>"
  let ?g = "\<lambda>i. i\<lparr>fa_unconfirmed_received := fa_unconfirmed_received i + balanceReceived (e_diff x),
     fa_unconfirmed_sent := fa_unconfirmed_sent i + balanceSent (e_diff x),
     fa_unconfirmed_tx_count := fa_unconfirmed_tx_count i + 1, fa_last_confirmed_tx_index := fa_last_confirmed_tx_index i - 1\<rparr>"
  let ?f = "\<lambda>i. i\<lparr>unconfirmedReceived := unconfirmedReceived i + balanceReceived (e_diff x),
     unconfirmedSent := unconfirmedSent i + balanceSent (e_diff x),
     unconfirmedTxCount := unconfirmedTxCount i + 1, lastConfirmedTxIdx := lastConfirmedTxIdx i - 1\<rparr>"
  let ?W = "W(KAddrTx a (int ?n) \<mapsto> node_of ?e)" and ?I = "I(a := ?g (I a))" and ?B = "B(a := page_unconfirm (B a))"
  have gi: "?g (I a) = page_info (C, ?e # U) u m" by (simp add: i page_info_def)
  have n: "?n < length (C @ x # U)" by simp
  have "chain_at ?W a ((C @ x # U)[?n := ?e])" by (rule chain_at_update [OF at n]) simp
  then have ok': "chain_ok ?W (?g (I a)) a (page_unconfirm (B a))"
    using ok gi by (auto simp: chain_ok_def page_unconfirm_def pg)
  have nd: "W (KAddrTx a (int ?n)) = Some (node_of x)" using at by (simp add: chain_at_def)
  from getAddressTxNode_at [OF _ R at n] h pg
  have get: "getAddressTxNode E a (tl_txHash l) s' = Inr (node_at x (int ?n))" if "st V A s' W I" for s'
    using that by (simp add: node_at_def)
  show ?thesis
    unfolding unconfirmAddressTx_def fst_conv
  proof (rule returns_bind, rule getAddressInfo_rule [OF st R a], clarify)
    fix p s1 assume s1: "st V A s1 W I" "ctl s1 = ctl s" "points s1 a p"
    let ?s3 = "setInfo p ?f s1"
    have s3: "st V A ?s3 W ?I" "ctl ?s3 = ctl s1" "points ?s3 a p"
      using setInfo_st [OF s1(1,3), of ?f ?g] by (simp_all add: fbAddress_def)
    have lastc: "lastConfirmedTxIdx (p_heap ?s3 ! p) = int ?n - 1"
      using info_fields(3) [OF s3(1,3)] by (simp add: i page_info_def)
    have "returns (unconfirmAddressTxNode E a (node_at x (int ?n)) p s1) (book_step V A s W I {a} ?B)"
      unfolding unconfirmAddressTxNode_def Let_def node_at_def AddressTxNode.simps
    proof (rule returns_bind, rule returns_assert, simp add: lastc, rule returns_bind, rule returns_assert, simp add: lastc,
        rule returns_bind, rule kvget_rule [OF s3(1) R nd], unfold node_of_def root_simps bindE_simps,
        rule kvset_rule [OF s3(1) R], simp)
      fix s4 assume s4: "st V A s4 (W(KAddrTx a (int ?n) \<mapsto> VAddressTx (\<lparr>at_balance_diff = e_diff x,
         at_tx_hash = ToString (e_hash x), at_tx_height = e_height x, at_tx_block_time = e_time x\<rparr>
         \<lparr>at_tx_block_time := 0, at_tx_height := - 1\<rparr>))) ?I" "ctl s4 = ctl ?s3"
      have "st V A s4 ?W ?I" using s4(1) by (simp add: node_of_def)
      moreover have "ctl s4 = ctl s" using s1(2) s3(2) s4(2) by simp
      moreover have "book_ok ?W ?I ?B" by (rule book_ok_upd [OF B ok']) simp
      moreover have "chain_frame {a} W I ?W ?I" by (rule only_chain_frame) simp_all
      ultimately show "book_step V A s W I {a} ?B s4" by (intro book_stepI)
    qed
    then show "returns (bindE (getAddressTxNode E a (tl_txHash l) s1)
        (\<lambda>currNode. unconfirmAddressTxNode E a currNode p s1)) (book_step V A s W I {a} ?B)"
      by (simp add: get [OF s1(1)])
  qed
qed

section \<open>Cutting off\<close>

text \<open>
  What \<open>%s\<close> makes of a \<open>uint256\<close> object is not the hash of another transaction: whatever
  key \<open>_removeAddressTxNode\<close> deletes for \<open>22_{address}_{tx_hash}\<close>, it is not that of another
  record.
\<close>

definition object_text_ok :: "'db penv \<Rightarrow> bool" where
  "object_text_ok E = (\<forall>a h k. key_str k = ''22_'' @ a @ ''_'' @ pe_objectText E h \<longrightarrow> k = KAddrTxIdx a h)"

lemma chain_at_butlast:
  assumes "chain_at W a (L @ [e])"
  shows "chain_at (W(KAddrTx a (int (length L)) := None)) a L"
proof -
  have eq: "i < length L \<Longrightarrow> (L @ [e]) ! i = L ! i" for i by (simp add: nth_append)
  have "W (KAddrTxIdx a (e_hash (L ! i))) = Some (VStr (fmt_d (int i)))" if "i < length L" for i
  proof -
    from that have "i < length (L @ [e])" by simp
    with assms have "W (KAddrTxIdx a (e_hash ((L @ [e]) ! i))) = Some (VStr (fmt_d (int i)))"
      unfolding chain_at_def by blast
    with eq that show ?thesis by simp
  qed
  with assms eq show ?thesis unfolding chain_at_def
    by (intro conjI allI impI) (auto simp: nat_less_iff)
qed

lemma chain_at_forget: "chain_at W a L \<Longrightarrow> h \<notin> e_hash ` set L \<Longrightarrow> chain_at (W(KAddrTxIdx a h := v)) a L"
  unfolding chain_at_def by (intro conjI allI impI) (auto simp: image_iff)

lemma reject_position_ok:
  assumes st: "st V A s W I" and R: "rocks_ok (pe_rocks E) V" and p: "points s a p"
    and at: "chain_at W a (C @ U)" and q: "q < length U" and cnt: "fa_tx_count (I a) = int (length (C @ U))"
  shows "\<exists>s' W'. reject_position E a (e_hash (U ! q)) p s =
       Some (Inr (node_at (U ! q) (int (length (C @ U)) - 1), s')) \<and> st V A s' W' I \<and> ctl s' = ctl s \<and>
     points s' a p \<and> only_chain a W W' \<and> chain_at W' a (C @ swap (length U - 1) q U)"
proof -
  let ?l = "length U - 1"
  have l: "?l < length U" using q by simp
  have stop: "reject_position E a (e_hash (U' ! ?l)) p s' =
      Some (Inr (node_at (U' ! ?l) (int (length (C @ U)) - 1), s'))"
    if "st V A s' W' I" "points s' a p" "chain_at W' a (C @ U')" "length U' = length U" for s' W' U'
  proof -
    have n: "length C + ?l < length (C @ U')" using that l by simp
    have "int (length C + ?l) = int (length (C @ U)) - 1" using q by (cases U) simp_all
    with getAddressTxNode_at [OF that(1) R that(3) n] that
    have "getAddressTxNode E a (e_hash (U' ! ?l)) s' = Inr (node_at (U' ! ?l) (int (length (C @ U)) - 1))"
      by (simp add: nth_append node_at_def)
    then show ?thesis
      using info_fields(1) [OF that(1,2)] cnt by (subst reject_position.simps) (simp add: node_at_def)
  qed
  show ?thesis
  proof (cases "q = ?l")
    case True
    with stop [OF st p at] have "reject_position E a (e_hash (U ! q)) p s =
        Some (Inr (node_at (U ! q) (int (length (C @ U)) - 1), s))" by auto
    with True st p at l show ?thesis by (intro exI [of _ s] exI [of _ W]) auto
  next
    case False
    with q have two: "2 \<le> length U" by auto
    have i: "length C + ?l < length (C @ U)" and j: "length C + q < length (C @ U)" using q by auto
    have il: "int (length C + ?l) = int (length (C @ U)) - 1" using q by (cases U) simp_all
    obtain s' W' where s': "switchTxNode E a (int (length (C @ U)) - 1) (int (length C + q)) s = Inr s'" "st V A s' W' I"
      "ctl s' = ctl s" "points s' a p" "only_chain a W W'" "chain_at W' a (C @ swap ?l q U)"
      using switchTxNode_ok [OF st R at i j] False p swap_append2 [of C ?l q U]
      unfolding returns_def il by auto
    from getAddressTxNode_at [OF st R at j]
    have n: "getAddressTxNode E a (e_hash (U ! q)) s = Inr (node_at (U ! q) (int (length C + q)))"
      by (simp add: nth_append node_at_def)
    have hd: "swap ?l q U ! ?l = U ! q" using q l False by (simp add: nth_swap)
    have "reject_position E a (e_hash (U ! q)) p s' = Some (Inr (node_at (U ! q) (int (length (C @ U)) - 1), s'))"
      using stop [OF s'(2,4,6) length_swap] by (simp only: hd)
    moreover have "txCount (p_heap s ! p) = int (length (C @ U))" using info_fields(1) [OF st p] cnt by simp
    ultimately have "reject_position E a (e_hash (U ! q)) p s =
        Some (Inr (node_at (U ! q) (int (length (C @ U)) - 1), s'))"
      using n s'(1) False two il
      by (subst reject_position.simps) (simp add: node_at_def)
    with s' show ?thesis by blast
  qed
qed

lemma rejectAddressTx_ok:
  assumes st: "st V A s W I" and R: "rocks_ok (pe_rocks E) V" and a: "a \<in> A" and B: "book_ok W I B"
    and q: "q < length (snd (B a))" and h: "e_hash (snd (B a) ! q) = tl_txHash l" and ob: "object_text_ok E"
  shows "returns (rejectAddressTx E l (a, d) s) (book_step V A s W I {a} (B(a := page_reject q (B a))))"
proof -
  obtain C U where pg: "B a = (C, U)" by fastforce
  from B have ok: "chain_ok W (I a) a (C, U)" by (metis book_ok_def pg)
  from ok obtain u m where i: "I a = page_info (C, U) u m" and at: "chain_at W a (C @ U)"
    by (auto simp: chain_ok_def)
  from q pg have q': "q < length U" by simp
  let ?x = "U ! q" and ?U = "swap (length U - 1) q U" and ?B = "B(a := page_reject q (B a))"
  have U: "?U = butlast ?U @ [?x]"
    by (rule swap_last [OF q'])
  have tot: "total f U = total f (butlast ?U) + f (e_diff ?x)" for f
  proof -
    have "total f U = total f ?U" using q' by (intro total_swap [symmetric]) auto
    also have "\<dots> = total f (butlast ?U) + f (e_diff ?x)" by (subst U) simp
    finally show ?thesis .
  qed
  have len: "int (length U) = 1 + int (length (butlast ?U))" using q' by (cases U) simp_all
  let ?n = "length (C @ butlast ?U)"
  have n: "int ?n = int (length (C @ U)) - 1" unfolding length_append of_nat_add len by simp
  have as: "int (length (C @ U)) = int ?n + 1" using n by linarith
  have cnt: "fa_tx_count (I a) = int (length (C @ U))" by (simp add: i page_info_def)
  let ?g = "\<lambda>i. i\<lparr>fa_tx_count := fa_tx_count i - 1, fa_received := fa_received i - balanceReceived (e_diff ?x),
     fa_sent := fa_sent i - balanceSent (e_diff ?x),
     fa_unconfirmed_received := fa_unconfirmed_received i - balanceReceived (e_diff ?x),
     fa_unconfirmed_sent := fa_unconfirmed_sent i - balanceSent (e_diff ?x),
     fa_unconfirmed_tx_count := fa_unconfirmed_tx_count i - 1\<rparr>"
  let ?f = "\<lambda>i. i\<lparr>txCount := txCount i - 1, received := received i - balanceReceived (e_diff ?x),
     sent := sent i - balanceSent (e_diff ?x),
     unconfirmedReceived := unconfirmedReceived i - balanceReceived (e_diff ?x),
     unconfirmedSent := unconfirmedSent i - balanceSent (e_diff ?x),
     unconfirmedTxCount := unconfirmedTxCount i - 1\<rparr>"
  let ?I = "I(a := ?g (I a))"
  have gi: "?g (I a) = page_info (C, butlast ?U) u m" by (simp add: i page_info_def tot len)
  have "set (butlast ?U) \<subseteq> set U"
    using q' set_swap [of "length U - 1" U q] by (auto dest: in_set_butlastD)
  then have heights: "\<forall>e \<in> set (butlast ?U). e_height e = - 1" using ok by (auto simp: chain_ok_def)
  have ok': "chain_ok W4 (?g (I a)) a (page_reject q (B a))"
    if W2: "chain_at W2 a (C @ ?U)" and W3: "W3 = W2(KAddrTx a (int ?n) := None)"
      and W4: "W4 = W3 \<or> W4 = W3(KAddrTxIdx a (tl_txHash l) := None)" for W2 W3 W4
  proof -
    from W2 have at2: "chain_at W2 a ((C @ butlast ?U) @ [?x])" by (subst (asm) U) simp
    then have "chain_at W3 a (C @ butlast ?U)" unfolding W3 by (rule chain_at_butlast)
    moreover have "tl_txHash l \<notin> e_hash ` set (C @ butlast ?U)"
      using at2 h pg by (auto simp: chain_at_def)
    ultimately have "chain_at W4 a (C @ butlast ?U)" using W4 chain_at_forget by blast
    then show ?thesis using ok heights gi by (auto simp: chain_ok_def page_reject_def pg)
  qed
  show ?thesis
    unfolding rejectAddressTx_def fst_conv
  proof (rule returns_bind, rule getAddressInfo_rule [OF st R a], clarify)
    fix p s1 assume s1: "st V A s1 W I" "ctl s1 = ctl s" "points s1 a p"
    obtain s2 W2 where s2: "reject_position E a (tl_txHash l) p s1 = Some (Inr (node_at ?x (int (length (C @ U)) - 1), s2))"
      "st V A s2 W2 I" "ctl s2 = ctl s1" "points s2 a p" "only_chain a W W2" "chain_at W2 a (C @ ?U)"
      using reject_position_ok [OF s1(1) R s1(3) at q' cnt] h pg by auto
    have c: "txCount (p_heap s2 ! p) = int (length (C @ U))" using info_fields(1) [OF s2(2,4)] cnt by simp
    have key: "key_str k = ''22_'' @ a @ ''_'' @ pe_objectText E (tl_txHash l) \<Longrightarrow> k = KAddrTxIdx a (tl_txHash l)" for k
      using ob by (simp add: object_text_ok_def)
    have "returns (removeAddressTxNode E a (txCount (p_heap s2 ! p) - 1) (tl_txHash l) (e_diff ?x) p s2)
        (book_step V A s W I {a} ?B)"
      unfolding removeAddressTxNode_def c n [symmetric]
    proof (rule returns_bind, rule returns_assert [OF as], rule returns_bind, rule kvdel_rule [OF s2(2) R], simp,
        rule returns_bind, rule kvdel_raw_rule [where k = "KAddrTxIdx a (tl_txHash l)", OF _ R], assumption, simp,
        erule key, unfold returns_Inr)
      fix s3 s4 W4
      assume s3: "ctl s3 = ctl s2" "\<forall>b q. points s2 b q \<longrightarrow> points s3 b q"
        and s4: "st V A s4 W4 I" "W4 = W2(KAddrTx a (int ?n) := None) \<or>
          W4 = W2(KAddrTx a (int ?n) := None, KAddrTxIdx a (tl_txHash l) := None)"
          "ctl s4 = ctl s3" "\<forall>b q. points s3 b q \<longrightarrow> points s4 b q"
      have "points s4 a p" using s2(4) s3(2) s4(4) by blast
      with setInfo_st [OF s4(1), of a p ?f ?g]
      have s5: "st V A (setInfo p ?f s4) W4 ?I" "ctl (setInfo p ?f s4) = ctl s4" by (simp_all add: fbAddress_def)
      have only: "only_chain a W W4" using s2(5) s4(2) by auto
      have "ctl (setInfo p ?f s4) = ctl s" using s1(2) s2(3) s3(1) s4(3) s5(2) by simp
      moreover have "book_ok W4 ?I ?B" by (rule book_ok_upd [OF B ok' [OF s2(6) refl s4(2)] only])
      moreover have "chain_frame {a} W I W4 ?I" by (rule only_chain_frame [OF only]) simp_all
      ultimately show "book_step V A s W I {a} ?B (setInfo p ?f s4)" using s5(1) by (intro book_stepI)
    qed
    then show "returns (case reject_position E a (tl_txHash l) p s1 of None \<Rightarrow> Inl NoReturn
      | Some r \<Rightarrow> bindE r (\<lambda>(currNode, s). removeAddressTxNode E a (txCount (p_heap s ! p) - 1) (tl_txHash l)
          (nd_balanceDiff currNode) p s)) (book_step V A s W I {a} ?B)"
      by (simp add: s2(1) node_at_def)
  qed
qed

section \<open>Loops over the addresses of a transaction\<close>

definition upd_pages :: "(string, int) smap \<Rightarrow> (string \<Rightarrow> int \<Rightarrow> page \<Rightarrow> page) \<Rightarrow> book \<Rightarrow> book" where
  "upd_pages bal opn B = (\<lambda>a. case map_of bal a of None \<Rightarrow> B a | Some d \<Rightarrow> opn a d (B a))"

lemma book_step_refl: "st V A s W I \<Longrightarrow> book_ok W I B \<Longrightarrow> book_step V A s W I D B s"
  by (auto intro: book_stepI)

lemma chain_frame_mono: "chain_frame D W I W' I' \<Longrightarrow> D \<subseteq> D' \<Longrightarrow> chain_frame D' W I W' I'"
  by (auto simp: chain_frame_def)

lemma book_step_trans:
  assumes "ctl t = ctl s" and "chain_frame D W I W1 I1" and "book_step V A t W1 I1 D' B s'" and "D' \<subseteq> D"
  shows "book_step V A s W I D B s'"
proof -
  from assms(3) obtain W' I' where "st V A s' W' I'" "ctl s' = ctl t" "chain_frame D W1 I1 W' I'" "book_ok W' I' B"
    using chain_frame_mono assms(4) by (auto simp: book_step_def)
  with assms(1) chain_frame_trans [OF assms(2)] show ?thesis by (intro book_stepI) auto
qed

lemma book_loop:
  assumes st: "st V A s W I" and B: "book_ok W I B" and wf: "sm_wf bal"
    and step: "\<And>a d t W1 I1 B1. (a, d) \<in> set bal \<Longrightarrow> st V A t W1 I1 \<Longrightarrow> book_ok W1 I1 B1 \<Longrightarrow> B1 a = B a \<Longrightarrow>
      returns (f (a, d) t) (book_step V A t W1 I1 {a} (B1(a := opn a d (B1 a))))"
  shows "returns (foldE f bal s) (book_step V A s W I (fst ` set bal) (upd_pages bal opn B))"
proof (rule returns_foldE [where I = "\<lambda>pre. book_step V A s W I (fst ` set bal) (upd_pages pre opn B)"])
  show "book_step V A s W I (fst ` set bal) (upd_pages [] opn B) s"
    using book_step_refl [OF st B] by (simp add: upd_pages_def)
next
  fix pre x rest t
  assume bal: "bal = pre @ x # rest" and t: "book_step V A s W I (fst ` set bal) (upd_pages pre opn B) t"
  obtain a d where x: "x = (a, d)" by fastforce
  from t obtain W1 I1 where t1: "st V A t W1 I1" "ctl t = ctl s" "chain_frame (fst ` set bal) W I W1 I1"
    "book_ok W1 I1 (upd_pages pre opn B)" by (auto simp: book_step_def)
  have none: "map_of pre a = None"
    using wf bal x by (auto simp: sm_wf_append map_of_eq_None_iff)
  then have B1: "upd_pages pre opn B a = B a" by (simp add: upd_pages_def)
  have "upd_pages (pre @ [x]) opn B = (upd_pages pre opn B)(a := opn a d (upd_pages pre opn B a))"
    using none x by (auto simp: upd_pages_def map_add_def fun_eq_iff split: option.splits)
  moreover have "returns (f (a, d) t) (book_step V A t W1 I1 {a} ((upd_pages pre opn B)(a := opn a d (upd_pages pre opn B a))))"
    using step [OF _ t1(1,4) B1] bal x by simp
  ultimately show "returns (f x t) (book_step V A s W I (fst ` set bal) (upd_pages (pre @ [x]) opn B))"
    unfolding x by (elim returns_mono, simp only:) (rule book_step_trans [OF t1(2,3)], assumption, use bal x in simp)
qed

lemma insertAddressTxs_ok:
  assumes "st V A s W I" and "rocks_ok (pe_rocks E) V" and "book_ok W I B" and "sm_wf bal" and "fst ` set bal \<subseteq> A"
    and "\<And>a. a \<in> fst ` set bal \<Longrightarrow> tl_txHash l \<notin> e_hash ` set (fst (B a) @ snd (B a))"
  shows "returns (accpetTx_insertAddressTxs E l bal s) (book_step V A s W I (fst ` set bal) (upd_pages bal
     (\<lambda>a d. page_accept \<lparr>e_hash = tl_txHash l, e_diff = d, e_height = - 1, e_time = tl_maxBlkTimestamp l\<rparr>) B))"
  unfolding accpetTx_insertAddressTxs_def
proof (rule book_loop [OF assms(1,3,4)])
  fix a d t W1 I1 B1
  assume *: "(a, d) \<in> set bal" "st V A t W1 I1" "book_ok W1 I1 B1" "B1 a = B a"
  then have "a \<in> A" "tl_txHash l \<notin> e_hash ` set (fst (B1 a) @ snd (B1 a))" using assms(5,6) by force+
  from insertAddressTx_ok [OF *(2) assms(2) this(1) *(3) this(2)]
  show "returns (insertAddressTx E l (a, d) t) (book_step V A t W1 I1 {a}
    (B1(a := page_accept \<lparr>e_hash = tl_txHash l, e_diff = d, e_height = - 1, e_time = tl_maxBlkTimestamp l\<rparr> (B1 a))))" .
qed

lemma confirmAddressTxs_ok:
  assumes "st V A s W I" and "rocks_ok (pe_rocks E) V" and "book_ok W I B" and "sm_wf bal" and "fst ` set bal \<subseteq> A"
    and "0 \<le> tl_blkHeight l"
    and "\<And>a. a \<in> fst ` set bal \<Longrightarrow> q a < length (snd (B a)) \<and> e_hash (snd (B a) ! q a) = tl_txHash l"
  shows "returns (foldE (confirmAddressTx E l) bal s) (book_step V A s W I (fst ` set bal)
     (upd_pages bal (\<lambda>a d. page_confirm (q a) (tl_blkHeight l) (tl_maxBlkTimestamp l)) B))"
proof (rule book_loop [OF assms(1,3,4)])
  fix a d t W1 I1 B1
  assume *: "(a, d) \<in> set bal" "st V A t W1 I1" "book_ok W1 I1 B1" "B1 a = B a"
  then have "a \<in> A" "q a < length (snd (B1 a))" "e_hash (snd (B1 a) ! q a) = tl_txHash l"
    using assms(5,7) by force+
  from confirmAddressTx_ok [OF *(2) assms(2) this(1) *(3) this(2,3) assms(6)]
  show "returns (confirmAddressTx E l (a, d) t) (book_step V A t W1 I1 {a}
    (B1(a := page_confirm (q a) (tl_blkHeight l) (tl_maxBlkTimestamp l) (B1 a))))" .
qed

lemma unconfirmAddressTxs_ok:
  assumes "st V A s W I" and "rocks_ok (pe_rocks E) V" and "book_ok W I B" and "sm_wf bal" and "fst ` set bal \<subseteq> A"
    and "\<And>a. a \<in> fst ` set bal \<Longrightarrow> fst (B a) \<noteq> [] \<and> e_hash (last (fst (B a))) = tl_txHash l"
  shows "returns (foldE (unconfirmAddressTx E l) bal s) (book_step V A s W I (fst ` set bal)
     (upd_pages bal (\<lambda>a d. page_unconfirm) B))"
proof (rule book_loop [OF assms(1,3,4)])
  fix a d t W1 I1 B1
  assume *: "(a, d) \<in> set bal" "st V A t W1 I1" "book_ok W1 I1 B1" "B1 a = B a"
  then have "a \<in> A" "fst (B1 a) \<noteq> []" "e_hash (last (fst (B1 a))) = tl_txHash l"
    using assms(5,6) by force+
  from unconfirmAddressTx_ok [OF *(2) assms(2) this(1) *(3) this(2,3)]
  show "returns (unconfirmAddressTx E l (a, d) t) (book_step V A t W1 I1 {a} (B1(a := page_unconfirm (B1 a))))" .
qed

lemma rejectAddressTxs_ok:
  assumes "st V A s W I" and "rocks_ok (pe_rocks E) V" and "book_ok W I B" and "sm_wf bal" and "fst ` set bal \<subseteq> A"
    and "object_text_ok E"
    and "\<And>a. a \<in> fst ` set bal \<Longrightarrow> q a < length (snd (B a)) \<and> e_hash (snd (B a) ! q a) = tl_txHash l"
  shows "returns (rejectAddressTxs E l bal s) (book_step V A s W I (fst ` set bal) (upd_pages bal (\<lambda>a d. page_reject (q a)) B))"
  unfolding rejectAddressTxs_def
proof (rule book_loop [OF assms(1,3,4)])
  fix a d t W1 I1 B1
  assume *: "(a, d) \<in> set bal" "st V A t W1 I1" "book_ok W1 I1 B1" "B1 a = B a"
  then have "a \<in> A" "q a < length (snd (B1 a))" "e_hash (snd (B1 a) ! q a) = tl_txHash l"
    using assms(5,7) by force+
  from rejectAddressTx_ok [OF *(2) assms(2) this(1) *(3) this(2,3) assms(6)]
  show "returns (rejectAddressTx E l (a, d) t) (book_step V A t W1 I1 {a} (B1(a := page_reject (q a) (B1 a))))" .
qed

end
