(* ===== verification/Unspent.thy ===== *)
theory Unspent
  imports AddrChain
begin

text \<open>
  The unspent outputs of every address (src/jiexi/src/Parser.cc). A record
  \<open>23_{address}_{index}\<close> describes an unspent output, numbered by a counter of the address
  that only grows; \<open>24_{address}_{tx_hash}_{position}\<close> finds its number. \<open>acceptTx\<close> writes the
  two records of every output and address and deletes those of the outputs it spends;
  \<open>rejectTx\<close> writes them again. \<open>02_{tx_hash}_{position}\<close> names the spender of an output.

  \<open>unspent_ok\<close> ties the records to an abstract table of unspent outputs, in both
  directions: every unspent output is found by its hash and position, and every listed
  record is that of an unspent output.
\<close>

section \<open>Operations\<close>

definition insertAddressUnspent ::
  "'db penv \<Rightarrow> int \<Rightarrow> string \<Rightarrow> uint256 \<Rightarrow> int \<Rightarrow> int \<Rightarrow> 'db pstate \<Rightarrow> 'db pstate res" where
  "insertAddressUnspent E value address hash position position2 s =
     bindE (getAddressInfo E address s) (\<lambda>(addr, s).
     let s = setInfo addr (\<lambda>i. i\<lparr>unspentTxIndex := unspentTxIndex i + 1, unspentTxCount := unspentTxCount i + 1\<rparr>) s;
         addressUnspentIndex = unspentTxIndex (p_heap s ! addr) in
     bindE (kvset E (key_str (KUnspentIdx address hash position)) (VUnspentIdx addressUnspentIndex) s) (\<lambda>s.
     kvset E (key_str (KUnspent address addressUnspentIndex))
       (VUnspent \<lparr>au_value = value, au_tx_hash = ToString hash, au_position = position, au_position2 = position2\<rparr>) s))"

definition deleteUnspent :: "'db penv \<Rightarrow> string \<Rightarrow> uint256 \<Rightarrow> int \<Rightarrow> 'db pstate \<Rightarrow> 'db pstate res" where
  \<comment> \<open>the lookup of \<open>key24\<close> and the two deletions, in \<open>acceptTx\<close> and in \<open>rejectTx\<close>\<close>
  "deleteUnspent E address hash position s =
     bindE (kvget E (key_str (KUnspentIdx address hash position)) s) (\<lambda>value.
     bindE (root_UnspentIdx value) (\<lambda>index.
     bindE (kvdel E (key_str (KUnspent address index)) s) (\<lambda>s.
     kvdel E (key_str (KUnspentIdx address hash position)) s)))"

definition removeUnspent :: "'db penv \<Rightarrow> COutPoint \<Rightarrow> string \<Rightarrow> 'db pstate \<Rightarrow> 'db pstate res" where
  "removeUnspent E prev address s =
     bindE (getAddressInfo E address s) (\<lambda>(addr, s).
     deleteUnspent E address (op_hash prev) (sint (op_n prev))
       (setInfo addr (\<lambda>i. i\<lparr>unspentTxCount := unspentTxCount i - 1\<rparr>) s))"

definition acceptTx_removeUnspentOutputs ::
  "'db penv \<Rightarrow> CTransaction \<Rightarrow> fb_TxOutput list \<Rightarrow> 'db pstate \<Rightarrow> 'db pstate res" where
  "acceptTx_removeUnspentOutputs E tx prevTxOutputs s =
     bindE (assertE ''prevTxOutputs.size() == tx.vin.size()'' (length prevTxOutputs = length (vin tx))) (\<lambda>_.
     foldE (\<lambda>(i, out) s. foldE (removeUnspent E (prevout i)) (to_addresses out) s) (zip (vin tx) prevTxOutputs) s)"

definition acceptTx_insertSpendTxs :: "'db penv \<Rightarrow> uint256 \<Rightarrow> CTransaction \<Rightarrow> 'db pstate \<Rightarrow> 'db pstate res" where
  "acceptTx_insertSpendTxs E hash tx s =
     foldE (\<lambda>(n, i) s. kvset E (key_str (KSpend (op_hash (prevout i)) (sint (op_n (prevout i)))))
         (VSpentBy \<lparr>ts_position = int n, ts_tx_hash = ToString hash\<rparr>) s) (enumerate 0 (vin tx)) s"

section \<open>The table of unspent outputs\<close>

type_synonym utxo = "string \<Rightarrow> (uint256 \<times> int) \<Rightarrow> (int \<times> int) option"  \<comment> \<open>value, position of the address\<close>

definition unspent_ok ::
  "(kvkey \<Rightarrow> kvval option) \<Rightarrow> (string \<Rightarrow> fb_Address) \<Rightarrow> utxo \<Rightarrow> (string \<Rightarrow> int) \<Rightarrow> bool" where
  "unspent_ok W I Y K =
     ((\<forall>a h n. Y a (h, n) = None \<longrightarrow> W (KUnspentIdx a h n) = None) \<and>
      (\<forall>a h n v p. Y a (h, n) = Some (v, p) \<longrightarrow> (\<exists>i \<le> fa_unspent_tx_max_index (I a).
         W (KUnspentIdx a h n) = Some (VUnspentIdx i) \<and>
         W (KUnspent a i) = Some (VUnspent \<lparr>au_value = v, au_tx_hash = ToString h, au_position = n, au_position2 = p\<rparr>))) \<and>
      (\<forall>a i. W (KUnspent a i) \<noteq> None \<longrightarrow> (\<exists>h n. Y a (h, n) \<noteq> None \<and> W (KUnspentIdx a h n) = Some (VUnspentIdx i))) \<and>
      (\<forall>a. fa_unspent_tx_count (I a) = K a))"

fun unspent_key :: "kvkey \<Rightarrow> bool" where
  "unspent_key (KUnspent a i) = True"
| "unspent_key (KUnspentIdx a h n) = True"
| "unspent_key _ = False"

definition unspent_frame :: "string set \<Rightarrow> (kvkey \<Rightarrow> kvval option) \<Rightarrow> (string \<Rightarrow> fb_Address) \<Rightarrow> (kvkey \<Rightarrow> kvval option) \<Rightarrow>
    (string \<Rightarrow> fb_Address) \<Rightarrow> bool" where
  "unspent_frame D W I W' I' = ((\<forall>k. \<not> unspent_key k \<longrightarrow> W' k = W k) \<and>
     (\<forall>a. a \<notin> D \<longrightarrow> I' a = I a) \<and>
     (\<forall>a. \<exists>u m. I' a = (I a)\<lparr>fa_unspent_tx_count := u, fa_unspent_tx_max_index := m\<rparr>))"

definition unspent_step :: "('db \<Rightarrow> string \<Rightarrow> kvval option) \<Rightarrow> string set \<Rightarrow> 'db pstate \<Rightarrow> (kvkey \<Rightarrow> kvval option) \<Rightarrow>
    (string \<Rightarrow> fb_Address) \<Rightarrow> string set \<Rightarrow> utxo \<Rightarrow> (string \<Rightarrow> int) \<Rightarrow> 'db pstate \<Rightarrow> bool" where
  "unspent_step V A s W I D Y K s' =
     (\<exists>W' I'. st V A s' W' I' \<and> ctl s' = ctl s \<and> unspent_frame D W I W' I' \<and> unspent_ok W' I' Y K)"

lemma unspent_stepI:
  "st V A s' W' I' \<Longrightarrow> ctl s' = ctl s \<Longrightarrow> unspent_frame D W I W' I' \<Longrightarrow> unspent_ok W' I' Y K \<Longrightarrow>
     unspent_step V A s W I D Y K s'"
  by (auto simp: unspent_step_def)

lemma same_but_unspent: "\<exists>u m. (x :: fb_Address) = x\<lparr>fa_unspent_tx_count := u, fa_unspent_tx_max_index := m\<rparr>"
  by (intro exI [of _ "fa_unspent_tx_count x"] exI [of _ "fa_unspent_tx_max_index x"]) simp

lemma unspent_frame_refl [simp]: "unspent_frame D W I W I"
  using same_but_unspent by (simp add: unspent_frame_def)

lemma unspent_frame_mono: "unspent_frame D W I W' I' \<Longrightarrow> D \<subseteq> D' \<Longrightarrow> unspent_frame D' W I W' I'"
  by (auto simp: unspent_frame_def)

lemma unspent_frame_trans:
  assumes "unspent_frame D W I W1 I1" and "unspent_frame D W1 I1 W' I'"
  shows "unspent_frame D W I W' I'"
proof -
  have "\<exists>u m. I' a = (I a)\<lparr>fa_unspent_tx_count := u, fa_unspent_tx_max_index := m\<rparr>" for a
  proof -
    obtain u m u1 m1 where "I1 a = (I a)\<lparr>fa_unspent_tx_count := u, fa_unspent_tx_max_index := m\<rparr>"
      "I' a = (I1 a)\<lparr>fa_unspent_tx_count := u1, fa_unspent_tx_max_index := m1\<rparr>"
      using assms unfolding unspent_frame_def by blast
    then have "I' a = (I a)\<lparr>fa_unspent_tx_count := u1, fa_unspent_tx_max_index := m1\<rparr>" by simp
    then show ?thesis by blast
  qed
  with assms show ?thesis by (simp add: unspent_frame_def)
qed

lemma unspent_step_trans:
  assumes "ctl t = ctl s" and "unspent_frame D W I W1 I1" and "unspent_step V A t W1 I1 D' Y K s'" and "D' \<subseteq> D"
  shows "unspent_step V A s W I D Y K s'"
proof -
  from assms(3) obtain W' I' where "st V A s' W' I'" "ctl s' = ctl t" "unspent_frame D W1 I1 W' I'" "unspent_ok W' I' Y K"
    using unspent_frame_mono assms(4) by (auto simp: unspent_step_def)
  with assms(1) unspent_frame_trans [OF assms(2)] show ?thesis by (intro unspent_stepI) auto
qed

lemma unspent_frame_upd:
  assumes "\<And>k. \<not> unspent_key k \<Longrightarrow> W' k = W k"
    and "i = (I a)\<lparr>fa_unspent_tx_count := u, fa_unspent_tx_max_index := m\<rparr>"
  shows "unspent_frame {a} W I W' (I(a := i))"
proof -
  have "\<exists>u m. (I(a := i)) b = (I b)\<lparr>fa_unspent_tx_count := u, fa_unspent_tx_max_index := m\<rparr>" for b
    using assms(2) same_but_unspent [of "I b"] by (cases "b = a") auto
  with assms(1) show ?thesis by (simp add: unspent_frame_def)
qed

text \<open>The two kinds of steps on the table.\<close>

lemma unspent_ok_insert:
  assumes ok: "unspent_ok W I Y K" and none: "Y a (h, n) = None"
  defines "i \<equiv> fa_unspent_tx_max_index (I a) + 1"
  shows "unspent_ok (W(KUnspentIdx a h n \<mapsto> VUnspentIdx i, KUnspent a i \<mapsto>
       VUnspent \<lparr>au_value = v, au_tx_hash = ToString h, au_position = n, au_position2 = p\<rparr>))
     (I(a := (I a)\<lparr>fa_unspent_tx_count := fa_unspent_tx_count (I a) + 1, fa_unspent_tx_max_index := i\<rparr>))
     (Y(a := (Y a)((h, n) \<mapsto> (v, p)))) (K(a := K a + 1))"
    (is "unspent_ok ?W ?I ?Y ?K")
  unfolding unspent_ok_def
proof (intro conjI allI impI)
  fix b g k assume "?Y b (g, k) = None"
  with ok show "?W (KUnspentIdx b g k) = None" by (auto simp: unspent_ok_def split: if_splits)
next
  fix b g k w q assume y: "?Y b (g, k) = Some (w, q)"
  show "\<exists>j \<le> fa_unspent_tx_max_index (?I b). ?W (KUnspentIdx b g k) = Some (VUnspentIdx j) \<and>
     ?W (KUnspent b j) = Some (VUnspent \<lparr>au_value = w, au_tx_hash = ToString g, au_position = k, au_position2 = q\<rparr>)"
  proof (cases "b = a \<and> g = h \<and> k = n")
    case True
    with y show ?thesis by (intro exI [of _ i]) auto
  next
    case False
    with y have "Y b (g, k) = Some (w, q)" by (auto split: if_splits)
    with ok obtain j where j: "j \<le> fa_unspent_tx_max_index (I b)" "W (KUnspentIdx b g k) = Some (VUnspentIdx j)"
      "W (KUnspent b j) = Some (VUnspent \<lparr>au_value = w, au_tx_hash = ToString g, au_position = k, au_position2 = q\<rparr>)"
      unfolding unspent_ok_def by blast
    then have "\<not> (b = a \<and> j = i)" by (auto simp: i_def)
    with j False show ?thesis by (intro exI [of _ j]) (auto simp: i_def)
  qed
next
  fix b j assume w: "?W (KUnspent b j) \<noteq> None"
  show "\<exists>g k. ?Y b (g, k) \<noteq> None \<and> ?W (KUnspentIdx b g k) = Some (VUnspentIdx j)"
  proof (cases "b = a \<and> j = i")
    case False
    with w have "W (KUnspent b j) \<noteq> None" by auto
    with ok obtain g k where "Y b (g, k) \<noteq> None" "W (KUnspentIdx b g k) = Some (VUnspentIdx j)"
      unfolding unspent_ok_def by blast
    with none show ?thesis by (intro exI [of _ g] exI [of _ k]) auto
  qed auto
next
  fix b show "fa_unspent_tx_count (?I b) = ?K b" using ok by (simp add: unspent_ok_def)
qed

lemma unspent_ok_delete:
  assumes ok: "unspent_ok W I Y K" and i: "W (KUnspentIdx a h n) = Some (VUnspentIdx i)"
  shows "unspent_ok (W(KUnspent a i := None, KUnspentIdx a h n := None)) I (Y(a := (Y a)((h, n) := None))) K"
    (is "unspent_ok ?W I ?Y K")
proof -
  from ok i have "Y a (h, n) \<noteq> None" unfolding unspent_ok_def by fastforce
  then obtain v p where y: "Y a (h, n) = Some (v, p)" by auto
  with ok i have rec: "W (KUnspent a i) = Some (VUnspent \<lparr>au_value = v, au_tx_hash = ToString h, au_position = n, au_position2 = p\<rparr>)"
    unfolding unspent_ok_def by fastforce
  show ?thesis
    unfolding unspent_ok_def
  proof (intro conjI allI impI)
    fix b g k assume "?Y b (g, k) = None"
    with ok show "?W (KUnspentIdx b g k) = None" by (auto simp: unspent_ok_def split: if_splits)
  next
    fix b g k w q assume "?Y b (g, k) = Some (w, q)"
    then have y': "Y b (g, k) = Some (w, q)" "\<not> (b = a \<and> g = h \<and> k = n)" by (auto split: if_splits)
    with ok obtain j where j: "j \<le> fa_unspent_tx_max_index (I b)" "W (KUnspentIdx b g k) = Some (VUnspentIdx j)"
      "W (KUnspent b j) = Some (VUnspent \<lparr>au_value = w, au_tx_hash = ToString g, au_position = k, au_position2 = q\<rparr>)"
      unfolding unspent_ok_def by blast
    with rec y'(2) have "\<not> (b = a \<and> j = i)" by auto
    with j y'(2) show "\<exists>j \<le> fa_unspent_tx_max_index (I b). ?W (KUnspentIdx b g k) = Some (VUnspentIdx j) \<and>
       ?W (KUnspent b j) = Some (VUnspent \<lparr>au_value = w, au_tx_hash = ToString g, au_position = k, au_position2 = q\<rparr>)"
      by (intro exI [of _ j]) auto
  next
    fix b j assume w: "?W (KUnspent b j) \<noteq> None"
    then have "W (KUnspent b j) \<noteq> None" "\<not> (b = a \<and> j = i)" by (auto split: if_splits)
    moreover from this(1) ok obtain g k where "Y b (g, k) \<noteq> None" "W (KUnspentIdx b g k) = Some (VUnspentIdx j)"
      unfolding unspent_ok_def by blast
    ultimately show "\<exists>g k. ?Y b (g, k) \<noteq> None \<and> ?W (KUnspentIdx b g k) = Some (VUnspentIdx j)"
      using i by (intro exI [of _ g] exI [of _ k]) auto
  next
    fix b show "fa_unspent_tx_count (I b) = K b" using ok by (simp add: unspent_ok_def)
  qed
qed

lemma unspent_ok_count:
  "unspent_ok W I Y K \<Longrightarrow> unspent_ok W (I(a := (I a)\<lparr>fa_unspent_tx_count := k\<rparr>)) Y (K(a := k))"
  by (simp add: unspent_ok_def)

section \<open>What the operations do to the table\<close>

lemma insertAddressUnspent_ok:
  assumes st: "st V A s W I" and R: "rocks_ok (pe_rocks E) V" and a: "a \<in> A" and Y: "unspent_ok W I Y K"
    and none: "Y a (h, n) = None"
  shows "returns (insertAddressUnspent E v a h n p s)
     (unspent_step V A s W I {a} (Y(a := (Y a)((h, n) \<mapsto> (v, p)))) (K(a := K a + 1)))"
  unfolding insertAddressUnspent_def Let_def
proof (rule returns_bind, rule getAddressInfo_rule [OF st R a], clarify)
  fix q s1 assume s1: "st V A s1 W I" "ctl s1 = ctl s" "points s1 a q"
  let ?f = "\<lambda>i. i\<lparr>unspentTxIndex := unspentTxIndex i + 1, unspentTxCount := unspentTxCount i + 1\<rparr>"
  let ?g = "\<lambda>i. i\<lparr>fa_unspent_tx_count := fa_unspent_tx_count i + 1, fa_unspent_tx_max_index := fa_unspent_tx_max_index i + 1\<rparr>"
  let ?s = "setInfo q ?f s1" and ?i = "fa_unspent_tx_max_index (I a) + 1" and ?I = "I(a := ?g (I a))"
  have s2: "st V A ?s W ?I" "ctl ?s = ctl s1" "points ?s a q"
    using setInfo_st [OF s1(1,3), of ?f ?g] by (simp_all add: fbAddress_def)
  have i: "unspentTxIndex (p_heap ?s ! q) = ?i" using info_fields(2) [OF s2(1,3)] by simp
  let ?W = "W(KUnspentIdx a h n \<mapsto> VUnspentIdx ?i, KUnspent a ?i \<mapsto>
      VUnspent \<lparr>au_value = v, au_tx_hash = ToString h, au_position = n, au_position2 = p\<rparr>)"
  have "?W k = W k" if "\<not> unspent_key k" for k using that by (auto simp: fun_upd_def)
  then have fr: "unspent_frame {a} W I ?W ?I" by (rule unspent_frame_upd) (assumption, rule refl)
  note ok' = unspent_ok_insert [OF Y none, of v p]
  show "returns (bindE (kvset E (key_str (KUnspentIdx a h n)) (VUnspentIdx (unspentTxIndex (p_heap ?s ! q))) ?s)
      (\<lambda>s. kvset E (key_str (KUnspent a (unspentTxIndex (p_heap ?s ! q))))
        (VUnspent \<lparr>au_value = v, au_tx_hash = ToString h, au_position = n, au_position2 = p\<rparr>) s))
     (unspent_step V A s W I {a} (Y(a := (Y a)((h, n) \<mapsto> (v, p)))) (K(a := K a + 1)))"
    unfolding i
    by (rule returns_bind, rule kvset_rule [OF s2(1) R], simp, rule kvset_rule [OF _ R], assumption, simp,
        intro unspent_stepI [OF _ _ fr ok']) (simp_all add: s1(2) s2(2))
qed

lemma deleteUnspent_ok:
  assumes st: "st V A s W I" and R: "rocks_ok (pe_rocks E) V" and Y: "unspent_ok W I Y K" and some: "Y a (h, n) \<noteq> None"
  shows "returns (deleteUnspent E a h n s) (unspent_step V A s W I {a} (Y(a := (Y a)((h, n) := None))) K)"
proof -
  from Y some obtain i where i: "W (KUnspentIdx a h n) = Some (VUnspentIdx i)"
    unfolding unspent_ok_def by fastforce
  let ?W = "W(KUnspent a i := None, KUnspentIdx a h n := None)"
  have "?W k = W k" if "\<not> unspent_key k" for k using that by (auto simp: fun_upd_def)
  then have fr: "unspent_frame {a} W I ?W I" unfolding unspent_frame_def using same_but_unspent by blast
  show ?thesis
    unfolding deleteUnspent_def
    by (rule returns_bind, rule kvget_rule [OF st R i], unfold root_simps bindE_simps, rule returns_bind,
        rule kvdel_rule [OF st R], simp, rule kvdel_rule [OF _ R], assumption, simp,
        intro unspent_stepI [OF _ _ fr unspent_ok_delete [OF Y i]]) simp_all
qed

lemma removeUnspent_ok:
  assumes st: "st V A s W I" and R: "rocks_ok (pe_rocks E) V" and a: "a \<in> A" and Y: "unspent_ok W I Y K"
    and some: "Y a (op_hash q, sint (op_n q)) \<noteq> None"
  shows "returns (removeUnspent E q a s)
     (unspent_step V A s W I {a} (Y(a := (Y a)((op_hash q, sint (op_n q)) := None))) (K(a := K a - 1)))"
  unfolding removeUnspent_def Let_def
proof (rule returns_bind, rule getAddressInfo_rule [OF st R a], clarify)
  fix p s1 assume s1: "st V A s1 W I" "ctl s1 = ctl s" "points s1 a p"
  let ?f = "\<lambda>i. i\<lparr>unspentTxCount := unspentTxCount i - 1\<rparr>"
  let ?g = "\<lambda>i. i\<lparr>fa_unspent_tx_count := fa_unspent_tx_count i - 1\<rparr>"
  let ?s = "setInfo p ?f s1" and ?I = "I(a := ?g (I a))"
  have s2: "st V A ?s W ?I" "ctl ?s = ctl s1"
    using setInfo_st [OF s1(1,3), of ?f ?g] by (simp_all add: fbAddress_def)
  have "fa_unspent_tx_count (I a) = K a" using Y by (simp add: unspent_ok_def)
  with unspent_ok_count [OF Y, of a "K a - 1"] have "unspent_ok W ?I Y (K(a := K a - 1))" by simp
  from deleteUnspent_ok [OF s2(1) R this some]
  show "returns (deleteUnspent E a (op_hash q) (sint (op_n q)) ?s)
     (unspent_step V A s W I {a} (Y(a := (Y a)((op_hash q, sint (op_n q)) := None))) (K(a := K a - 1)))"
  proof (elim returns_mono, elim unspent_step_trans [rotated 2])
    show "ctl ?s = ctl s" using s1(2) s2(2) by simp
    show "unspent_frame {a} W I W ?I"
      by (rule unspent_frame_upd [where u = "fa_unspent_tx_count (I a) - 1" and m = "fa_unspent_tx_max_index (I a)"]) simp_all
  qed simp
qed

end
