(* ===== verification/NotifyItem.thy ===== *)
theory NotifyItem
  imports Log1 Util
begin

text \<open>
  The lines of the notification log (class \<open>NotifyItem\<close> of src/jiexi/src/NotifyLog.cc), which
  \<open>tparser\<close> writes and \<open>notifyd\<close> reads: an item is loaded, printed, and parsed back. The two
  functions of the C library that convert times are parameters.
\<close>

record NotifyItem =
  ni_timestamp :: "32 word"
  ni_type :: int
  ni_height :: int
  ni_amount :: int
  ni_hash :: uint256
  ni_address :: string

definition NOTIFY_EVENT_BLOCK_ACCEPT :: int where "NOTIFY_EVENT_BLOCK_ACCEPT = 10"
definition NOTIFY_EVENT_BLOCK_REJECT :: int where "NOTIFY_EVENT_BLOCK_REJECT = 11"
definition NOTIFY_EVENT_TX_ACCEPT :: int where "NOTIFY_EVENT_TX_ACCEPT = 20"
definition NOTIFY_EVENT_TX_CONFIRM :: int where "NOTIFY_EVENT_TX_CONFIRM = 21"
definition NOTIFY_EVENT_TX_UNCONFIRM :: int where "NOTIFY_EVENT_TX_UNCONFIRM = 22"
definition NOTIFY_EVENT_TX_REJECT :: int where "NOTIFY_EVENT_TX_REJECT = 23"

lemmas notify_events = NOTIFY_EVENT_BLOCK_ACCEPT_def NOTIFY_EVENT_BLOCK_REJECT_def NOTIFY_EVENT_TX_ACCEPT_def
  NOTIFY_EVENT_TX_CONFIRM_def NOTIFY_EVENT_TX_UNCONFIRM_def NOTIFY_EVENT_TX_REJECT_def

definition NotifyItem_reset :: "NotifyItem \<Rightarrow> NotifyItem" where
  \<comment> \<open>the time stamp stays\<close>
  "NotifyItem_reset i = i\<lparr>ni_type := - 1, ni_height := - 1, ni_amount := 0, ni_hash := 0, ni_address := []\<rparr>"

definition address_field :: "string \<Rightarrow> string" where
  \<comment> \<open>\<open>snprintf(address_, 36, "%s", address.c_str())\<close>\<close>
  "address_field a = take 35 (takeWhile (\<lambda>c. c \<noteq> CHR 0x00) a)"

definition NotifyItem_loadtx :: "32 word \<Rightarrow> int \<Rightarrow> string \<Rightarrow> uint256 \<Rightarrow> int \<Rightarrow> int \<Rightarrow> NotifyItem" where
  "NotifyItem_loadtx now type address hash height amount =
     \<lparr>ni_timestamp = now, ni_type = type, ni_height = height, ni_amount = amount, ni_hash = hash,
      ni_address = address_field address\<rparr>"

definition NotifyItem_loadblock :: "32 word \<Rightarrow> int \<Rightarrow> uint256 \<Rightarrow> int \<Rightarrow> NotifyItem" where
  "NotifyItem_loadblock now type hash height =
     \<lparr>ni_timestamp = now, ni_type = type, ni_height = height, ni_amount = 0, ni_hash = hash, ni_address = []\<rparr>"

definition NotifyItem_toStr :: "(32 word \<Rightarrow> tm) \<Rightarrow> NotifyItem \<Rightarrow> string" where
  "NotifyItem_toStr gmtime i =
     (if 20 \<le> ni_type i \<and> ni_type i \<le> 23 then
        date_FT (gmtime (ni_timestamp i)) @ '','' @ fmt_d (ni_type i) @ '','' @ ni_address i @ '','' @
        fmt_d (ni_height i) @ '','' @ ToString (ni_hash i) @ '','' @ fmt_d (ni_amount i)
      else if 10 \<le> ni_type i \<and> ni_type i \<le> 11 then
        date_FT (gmtime (ni_timestamp i)) @ '','' @ fmt_d (ni_type i) @ '','' @ fmt_d (ni_height i) @ '','' @
        ToString (ni_hash i)
      else [])"

definition NotifyItem_parse :: "(string \<Rightarrow> int) \<Rightarrow> string \<Rightarrow> NotifyItem \<Rightarrow> (bool \<times> NotifyItem) res" where
  \<comment> \<open>\<open>arr[0]\<close> and \<open>arr[1]\<close> are read without a check\<close>
  "NotifyItem_parse str2time line i =
     (let i = NotifyItem_reset i; arr = split_limit line CHR '','' 6 in
      if length arr < 2 then Inl (UB ''arr[1]'') else
      let i = i\<lparr>ni_timestamp := word_of_int (str2time (arr ! 0)), ni_type := atoi (arr ! 1)\<rparr> in
      if 20 \<le> ni_type i \<and> ni_type i \<le> 23 then
        bindE (assertE ''arr.size() == 6'' (length arr = 6)) (\<lambda>_.
        Inr (True, i\<lparr>ni_address := address_field (arr ! 2), ni_height := atoi (arr ! 3), ni_hash := SetHex (arr ! 4),
               ni_amount := atoi (arr ! 5)\<rparr>))
      else if 10 \<le> ni_type i \<and> ni_type i \<le> 11 then
        bindE (assertE ''arr.size() == 4'' (length arr = 4)) (\<lambda>_.
        Inr (True, i\<lparr>ni_height := atoi (arr ! 2), ni_hash := SetHex (arr ! 3)\<rparr>))
      else Inr (False, i))"

definition address_text :: "string \<Rightarrow> bool" where
  \<comment> \<open>what a Base58 address satisfies\<close>
  "address_text a = (length a \<le> 35 \<and> CHR 0x00 \<notin> set a \<and> CHR '','' \<notin> set a)"

lemma address_field_id: "address_text a \<Longrightarrow> address_field a = a"
proof -
  assume a: "address_text a"
  then have "takeWhile (\<lambda>c. c \<noteq> CHR 0x00) a = a"
    unfolding takeWhile_eq_all_conv address_text_def by metis
  with a show ?thesis unfolding address_field_def address_text_def by (metis take_all)
qed

text \<open>The items the program writes, and their lines read back.\<close>

definition event_item :: "NotifyItem \<Rightarrow> bool" where
  "event_item i =
     (if ni_type i \<in> {NOTIFY_EVENT_TX_ACCEPT, NOTIFY_EVENT_TX_CONFIRM, NOTIFY_EVENT_TX_UNCONFIRM, NOTIFY_EVENT_TX_REJECT}
      then address_text (ni_address i) \<and> CHR 0x0A \<notin> set (ni_address i)
      else ni_type i \<in> {NOTIFY_EVENT_BLOCK_ACCEPT, NOTIFY_EVENT_BLOCK_REJECT} \<and> ni_amount i = 0 \<and> ni_address i = [])"

lemma event_item_type: "event_item i \<Longrightarrow> 20 \<le> ni_type i \<and> ni_type i \<le> 23 \<or> 10 \<le> ni_type i \<and> ni_type i \<le> 11"
  by (auto simp: event_item_def notify_events split: if_splits)

lemma NotifyItem_back:
  assumes times: "\<forall>t. str2time (date_FT (gmtime t)) = uint t" and i: "event_item i"
  shows "NotifyItem_parse str2time (NotifyItem_toStr gmtime i) j = Inr (True, i)"
proof (cases "20 \<le> ni_type i \<and> ni_type i \<le> 23")
  case True
  then have a: "address_text (ni_address i)" using i by (auto simp: event_item_def notify_events split: if_splits)
  then have comma: "CHR '','' \<notin> set (ni_address i)" by (simp add: address_text_def)
  let ?t = "date_FT (gmtime (ni_timestamp i)) @ '','' @ fmt_d (ni_type i) @ '','' @ ni_address i @ '','' @ fmt_d (ni_height i) @ '','' @
    ToString (ni_hash i) @ '','' @ fmt_d (ni_amount i)"
  have "split_limit ?t CHR '','' 6 = [date_FT (gmtime (ni_timestamp i)), fmt_d (ni_type i), ni_address i, fmt_d (ni_height i),
      ToString (ni_hash i), fmt_d (ni_amount i)]"
    using comma by (simp add: split_limit_def split_loop_sep split_loop_last)
  with True show ?thesis
    by (simp add: NotifyItem_toStr_def NotifyItem_parse_def NotifyItem_reset_def address_field_id [OF a] times del: append_Cons)
next
  case False
  then have ty: "10 \<le> ni_type i \<and> ni_type i \<le> 11" using event_item_type [OF i] by blast
  then have e: "ni_amount i = 0" "ni_address i = []" using i by (auto simp: event_item_def notify_events split: if_splits)
  let ?b = "date_FT (gmtime (ni_timestamp i)) @ '','' @ fmt_d (ni_type i) @ '','' @ fmt_d (ni_height i) @ '','' @ ToString (ni_hash i)"
  have "split_limit ?b CHR '','' 6 = [date_FT (gmtime (ni_timestamp i)), fmt_d (ni_type i), fmt_d (ni_height i), ToString (ni_hash i)]"
    by (simp add: split_limit_def split_loop_sep split_loop_last)
  with ty e show ?thesis
    by (simp add: NotifyItem_toStr_def NotifyItem_parse_def NotifyItem_reset_def times del: append_Cons)
qed

lemma no_newline_toStr: "event_item i \<Longrightarrow> CHR 0x0A \<notin> set (NotifyItem_toStr gmtime i)"
  by (auto simp: NotifyItem_toStr_def event_item_def notify_events split: if_splits)

lemma loaded_items:
  "ty \<in> {NOTIFY_EVENT_TX_ACCEPT, NOTIFY_EVENT_TX_CONFIRM, NOTIFY_EVENT_TX_UNCONFIRM, NOTIFY_EVENT_TX_REJECT} \<Longrightarrow>
     address_text address \<Longrightarrow> CHR 0x0A \<notin> set address \<Longrightarrow> event_item (NotifyItem_loadtx now ty address hash height amount)"
  "ty' \<in> {NOTIFY_EVENT_BLOCK_ACCEPT, NOTIFY_EVENT_BLOCK_REJECT} \<Longrightarrow> event_item (NotifyItem_loadblock now ty' hash height)"
  by (auto simp: event_item_def NotifyItem_loadtx_def NotifyItem_loadblock_def address_field_id notify_events)

definition sample_gmtime :: "32 word \<Rightarrow> tm" where
  "sample_gmtime t = \<lparr>tm_year = unat t, tm_mon = 1, tm_mday = 1, tm_hour = 0, tm_min = 0, tm_sec = 0\<rparr>"

definition sample_str2time :: "string \<Rightarrow> int" where
  "sample_str2time s = int (digits_val 0 s)"

lemma sample_times: "sample_str2time (date_FT (sample_gmtime t)) = uint t"
  by (simp add: sample_str2time_def sample_gmtime_def date_FT_def digits_val_nat_str_app is_digit_def)

end
