(* ===== verification/ParserTx.thy ===== *)
theory ParserTx
  imports Unspent NotifyItem Log2DB
begin

text \<open>
  The four transaction handlers of \<open>tparser\<close> (src/jiexi/src/Parser.cc): \<open>acceptTx\<close>,
  \<open>confirmTx\<close>, \<open>unconfirmTx\<close> and \<open>rejectTx\<close>, with the change of balance of every address they
  compute, the counters of unconfirmed transactions and the notification lines.
\<close>

section \<open>Addresses of a script\<close>

definition GetTxnOutputType :: "txnouttype \<Rightarrow> string" where
  "GetTxnOutputType t = (case t of
     TX_NONSTANDARD \<Rightarrow> ''nonstandard'' | TX_PUBKEY \<Rightarrow> ''pubkey'' | TX_PUBKEYHASH \<Rightarrow> ''pubkeyhash''
   | TX_SCRIPTHASH \<Rightarrow> ''scripthash'' | TX_MULTISIG \<Rightarrow> ''multisig'' | TX_NULL_DATA \<Rightarrow> ''nulldata'')"

definition ExtractDestinations :: "'db penv \<Rightarrow> string \<Rightarrow> bool \<times> txnouttype \<times> string list" where
  \<comment> \<open>the addresses as Base58 text; the first and last solution of a multisig script are its
    two numbers\<close>
  "ExtractDestinations E script =
     (case pe_Solver E script of (solved, type, vSolutions) \<Rightarrow>
        if \<not> solved then (False, type, [])
        else if type = TX_NULL_DATA then (False, type, [])
        else if type = TX_MULTISIG then (True, type, map (pe_keyAddress E) (butlast (tl vSolutions)))
        else (case pe_ExtractDestination E script of
                None \<Rightarrow> (False, type, [])
              | Some address \<Rightarrow> (True, type, [address])))"

definition dests :: "'db penv \<Rightarrow> CTxOut \<Rightarrow> string list" where
  "dests E out = snd (snd (ExtractDestinations E (scriptPubKey out)))"

section \<open>Balances\<close>

definition getTxAddressBalance :: "'db penv \<Rightarrow> CTransaction \<Rightarrow> 'db pstate \<Rightarrow> (string, int) smap res" where
  "getTxAddressBalance E tx s =
     bindE (if \<not> IsCoinBase tx
            then bindE (KVDB_getPrevTxOutputs (pe_rocks E) tx (p_kv s)) (\<lambda>prevTxOutputs.
              Inr (fold (\<lambda>out bal. fold (\<lambda>address. sm_add address (to_value out * - 1)) (to_addresses out) bal)
                prevTxOutputs []))
            else Inr []) (\<lambda>addressBalance.
     Inr (fold (\<lambda>out bal. case ExtractDestinations E (scriptPubKey out) of (ok, type, addresses) \<Rightarrow>
         if \<not> ok then bal else fold (\<lambda>addr. sm_add addr (nValue out)) addresses bal) (vout tx) addressBalance))"

section \<open>Counters and notifications\<close>

definition store_pool_counters :: "'db penv \<Rightarrow> 'db pstate \<Rightarrow> 'db pstate res" where
  "store_pool_counters E s =
     bindE (kvset E (key_str KUnconfCount) (VStr (fmt_d (p_unconfirmedTxsCount s))) s) (\<lambda>s.
     kvset E (key_str KUnconfSize) (VStr (fmt_d (p_unconfirmedTxsSize s))) s)"

definition addUnconfirmedTxPool :: "'db penv \<Rightarrow> TxLog2 \<Rightarrow> 'db pstate \<Rightarrow> 'db pstate res" where
  "addUnconfirmedTxPool E txLog2 s =
     store_pool_counters E (s\<lparr>p_unconfirmedTxsCount := p_unconfirmedTxsCount s + 1,
       p_unconfirmedTxsSize := p_unconfirmedTxsSize s + int (length (tl_txHex txLog2) div 2)\<rparr>)"

definition removeUnconfirmedTxPool :: "'db penv \<Rightarrow> TxLog2 \<Rightarrow> 'db pstate \<Rightarrow> 'db pstate res" where
  "removeUnconfirmedTxPool E txLog2 s =
     store_pool_counters E (s\<lparr>p_unconfirmedTxsCount := p_unconfirmedTxsCount s - 1,
       p_unconfirmedTxsSize := p_unconfirmedTxsSize s - int (length (tl_txHex txLog2) div 2)\<rparr>)"

definition isWriteNotificationLogs :: "'db penv \<Rightarrow> 'db pstate \<Rightarrow> bool" where
  \<comment> \<open>the constructor sets \<open>notifyProducer_\<close>, it is never null here\<close>
  "isWriteNotificationLogs E s =
     (\<not> (p_currBlockHeight s \<noteq> - 1 \<and> pe_notifyBeginHeight E \<noteq> - 1 \<and> p_currBlockHeight s < pe_notifyBeginHeight E))"

definition notify_type :: "int \<Rightarrow> int" where
  "notify_type type =
     (if type = LOG2TYPE_TX_ACCEPT then NOTIFY_EVENT_TX_ACCEPT
      else if type = LOG2TYPE_TX_CONFIRM then NOTIFY_EVENT_TX_CONFIRM
      else if type = LOG2TYPE_TX_UNCONFIRM then NOTIFY_EVENT_TX_UNCONFIRM
      else if type = LOG2TYPE_TX_REJECT then NOTIFY_EVENT_TX_REJECT
      else 0)"

definition writeNotificationLogs :: "'db penv \<Rightarrow> (string, int) smap \<Rightarrow> TxLog2 \<Rightarrow> 'db pstate \<Rightarrow> 'db pstate" where
  "writeNotificationLogs E addressBalance txLog2 s =
     (if \<not> isWriteNotificationLogs E s then s
      else s\<lparr>p_notified := p_notified s @ [concat (map (\<lambda>it.
         NotifyItem_toStr (pe_gmtime E) (NotifyItem_loadtx (pe_time E) (notify_type (tl_type txLog2)) (fst it)
           (tl_txHash txLog2) (tl_blkHeight txLog2) (snd it)) @ [CHR 0x0A]) addressBalance)]\<rparr>)"

section \<open>acceptTx\<close>

definition accept_input ::
  "'db penv \<Rightarrow> bool \<Rightarrow> CTxIn \<times> fb_TxOutput \<Rightarrow> int \<times> (string, int) smap \<times> fb_TxInput list \<Rightarrow>
     int \<times> (string, int) smap \<times> fb_TxInput list" where
  \<comment> \<open>the loop over the inputs; the second component is not read for a coinbase\<close>
  "accept_input E coinbase = (\<lambda>(i, prev) (valueIn, bal, ins).
     (if coinbase then
        (valueIn, bal, ins @ [\<lparr>ti_sequence = nSequence i, ti_script_asm = [], ti_script_hex = HexStr (scriptSig i),
           ti_prev_tx_hash = ToString 0, ti_prev_position = - 1, ti_prev_value = 0, ti_prev_addresses = []\<rparr>])
      else
        (valueIn + to_value prev,
         fold (\<lambda>address. sm_add address (to_value prev * - 1)) (to_addresses prev) bal,
         ins @ [\<lparr>ti_sequence = nSequence i, ti_script_asm = pe_asm E (scriptSig i), ti_script_hex = HexStr (scriptSig i),
           ti_prev_tx_hash = ToString (op_hash (prevout i)), ti_prev_position = sint (op_n (prevout i)),
           ti_prev_value = to_value prev, ti_prev_addresses = to_addresses prev\<rparr>])))"

definition no_output :: fb_TxOutput where
  "no_output = \<lparr>to_value = 0, to_addresses = [], to_script_asm = [], to_script_hex = [], to_script_type = []\<rparr>"

definition accept_inputs ::
  "'db penv \<Rightarrow> CTransaction \<Rightarrow> fb_TxOutput list \<Rightarrow> int \<times> (string, int) smap \<times> fb_TxInput list" where
  "accept_inputs E tx prevs = fold (accept_input E (IsCoinBase tx))
     (zip (vin tx) (if IsCoinBase tx then replicate (length (vin tx)) no_output else prevs)) (0, [], [])"

definition fb_output :: "'db penv \<Rightarrow> CTxOut \<Rightarrow> fb_TxOutput" where
  "fb_output E out =
     (case ExtractDestinations E (scriptPubKey out) of (ok, type, addresses) \<Rightarrow>
       \<lparr>to_value = nValue out, to_addresses = addresses,
        to_script_asm = (if length (pe_asm E (scriptPubKey out)) > 2 * 1024 * 1024 then [] else pe_asm E (scriptPubKey out)),
        to_script_hex = HexStr (scriptPubKey out), to_script_type = GetTxnOutputType type\<rparr>)"

definition accept_output ::
  "'db penv \<Rightarrow> uint256 \<Rightarrow> nat \<times> CTxOut \<Rightarrow> (string, int) smap \<times> fb_TxOutput list \<times> 'db pstate \<Rightarrow>
     ((string, int) smap \<times> fb_TxOutput list \<times> 'db pstate) res" where
  "accept_output E hash = (\<lambda>(n, out) (bal, outs, s).
     bindE (foldE (\<lambda>(j, addr) (bal, s).
         bindE (insertAddressUnspent E (nValue out) addr hash (int n) (int j) s) (\<lambda>s.
         Inr (sm_add addr (nValue out) bal, s)))
       (enumerate 0 (dests E out)) (bal, s)) (\<lambda>(bal, s).
     Inr (bal, outs @ [fb_output E out], s)))"

definition skip_duplicate_coinbase :: "TxLog2 \<Rightarrow> bool" where
  "skip_duplicate_coinbase txLog2 =
     ((tl_blkHeight txLog2 = 91842 \<and>
       tl_txHash txLog2 = SetHex ''d5d27987d2a3dfc724e359870c6644b40e497bdc0589a033220fe15429d88599'') \<or>
      (tl_blkHeight txLog2 = 91880 \<and>
       tl_txHash txLog2 = SetHex ''e3bf3d07d4b0375638d5f1db5255fe07ba2c4cb067cd81b84ee974b6585fb468''))"

definition acceptTx :: "'db penv \<Rightarrow> TxLog2 \<Rightarrow> 'db pstate \<Rightarrow> 'db pstate res" where
  "acceptTx E txLog2 s =
     bindE (assertE ''txLog2->blkHeight_ == -1'' (tl_blkHeight txLog2 = - 1)) (\<lambda>_.
     if skip_duplicate_coinbase txLog2 then Inr s else
     let tx = tl_tx txLog2; hash = tl_txHash txLog2 in
     bindE (if \<not> IsCoinBase tx then KVDB_getPrevTxOutputs (pe_rocks E) tx (p_kv s) else Inr []) (\<lambda>prevTxOutputs.
     let (valueIn, bal, ins) = accept_inputs E tx prevTxOutputs in
     bindE (foldE (accept_output E hash) (enumerate 0 (vout tx)) (bal, [], s)) (\<lambda>(addressBalance, outs, s).
     bindE (GetValueOut tx) (\<lambda>valueOut.
     let fee = (if IsCoinBase tx then valueOut else valueIn - valueOut);
         size = int (length (tl_txHex txLog2) div 2) in
     bindE (kvset E (key_str (KTx hash)) (VTx \<lparr>ft_block_height = - 1, ft_block_time = 0, ft_is_coinbase = IsCoinBase tx,
         ft_version = nVersion tx, ft_lock_time = nLockTime tx, ft_size = size, ft_fee = fee,
         ft_inputs = ins, ft_inputs_count = int (length (vin tx)), ft_inputs_value = valueIn,
         ft_outputs = outs, ft_outputs_count = int (length (vout tx)), ft_outputs_value = valueOut,
         ft_created_at = pe_time E, ft_is_double_spend = False\<rparr>) s) (\<lambda>s.
     bindE (if \<not> IsCoinBase tx
            then bindE (acceptTx_removeUnspentOutputs E tx prevTxOutputs s) (acceptTx_insertSpendTxs E hash tx)
            else Inr s) (\<lambda>s.
     bindE (accpetTx_insertAddressTxs E txLog2 addressBalance s) (\<lambda>s.
     bindE (kvset E (key_str (KUnconfirmed hash))
       (VUnconfirmed \<lparr>ut_tx_hash = ToString hash, ut_fee = fee, ut_size = size\<rparr>) s) (\<lambda>s.
     bindE (flushAddressInfo E addressBalance s) (\<lambda>s.
     bindE (addUnconfirmedTxPool E txLog2 s) (\<lambda>s.
     Inr (writeNotificationLogs E addressBalance txLog2 s)))))))))))"

section \<open>confirmTx\<close>

definition confirmTx :: "'db penv \<Rightarrow> TxLog2 \<Rightarrow> 'db pstate \<Rightarrow> 'db pstate res" where
  "confirmTx E txLog2 s =
     (let tx = tl_tx txLog2; hash = tl_txHash txLog2 in
      bindE (getTxAddressBalance E tx s) (\<lambda>addressBalance.
      bindE (foldE (confirmAddressTx E txLog2) addressBalance s) (\<lambda>s.
      bindE (kvget E (key_str (KTx hash)) s) (\<lambda>value.
      bindE (root_Tx value) (\<lambda>txObject.
      bindE (if IsCoinBase tx
             then bindE (GetValueOut tx) (\<lambda>v. Inr (txObject\<lparr>ft_fee := v - GetBlockValue (pe_interval E) (tl_blkHeight txLog2) 0\<rparr>))
             else Inr txObject) (\<lambda>txObject.
      bindE (kvset E (key_str (KTx hash)) (VTx (txObject\<lparr>ft_block_height := tl_blkHeight txLog2,
         ft_block_time := tl_maxBlkTimestamp txLog2\<rparr>)) s) (\<lambda>s.
      bindE (kvdel E (key_str (KUnconfirmed hash)) s) (\<lambda>s.
      bindE (flushAddressInfo E addressBalance s) (\<lambda>s.
      bindE (removeUnconfirmedTxPool E txLog2 s) (\<lambda>s.
      Inr (writeNotificationLogs E addressBalance txLog2 s)))))))))))"

section \<open>unconfirmTx\<close>

definition unconfirmTx :: "'db penv \<Rightarrow> TxLog2 \<Rightarrow> 'db pstate \<Rightarrow> 'db pstate res" where
  "unconfirmTx E txLog2 s =
     (let tx = tl_tx txLog2; hash = tl_txHash txLog2 in
      bindE (getTxAddressBalance E tx s) (\<lambda>addressBalance.
      bindE (foldE (unconfirmAddressTx E txLog2) addressBalance s) (\<lambda>s.
      bindE (kvget E (key_str (KTx hash)) s) (\<lambda>value.
      bindE (root_Tx value) (\<lambda>txObject.
      bindE (kvset E (key_str (KTx hash)) (VTx (txObject\<lparr>ft_block_time := 0, ft_block_height := - 1\<rparr>)) s) (\<lambda>s.
      bindE (kvset E (key_str (KUnconfirmed hash))
        (VUnconfirmed \<lparr>ut_tx_hash = ToString hash, ut_fee = ft_fee txObject, ut_size = ft_size txObject\<rparr>) s) (\<lambda>s.
      bindE (flushAddressInfo E addressBalance s) (\<lambda>s.
      bindE (addUnconfirmedTxPool E txLog2 s) (\<lambda>s.
      Inr (writeNotificationLogs E addressBalance txLog2 s))))))))))"

section \<open>rejectTx\<close>

definition reject_input ::
  "'db penv \<Rightarrow> CTxIn \<times> fb_TxOutput \<Rightarrow> (string, int) smap \<times> 'db pstate \<Rightarrow> ((string, int) smap \<times> 'db pstate) res" where
  "reject_input E = (\<lambda>(i, prev) (bal, s).
     bindE (kvdel E (key_str (KSpend (op_hash (prevout i)) (sint (op_n (prevout i))))) s) (\<lambda>s.
     foldE (\<lambda>(j, address) (bal, s).
         bindE (insertAddressUnspent E (to_value prev) address (op_hash (prevout i)) (sint (op_n (prevout i))) (int j) s) (\<lambda>s.
         Inr (sm_add address (to_value prev * - 1) bal, s)))
       (enumerate 0 (to_addresses prev)) (bal, s)))"

definition reject_output ::
  "'db penv \<Rightarrow> uint256 \<Rightarrow> nat \<times> CTxOut \<Rightarrow> (string, int) smap \<times> 'db pstate \<Rightarrow> ((string, int) smap \<times> 'db pstate) res" where
  "reject_output E hash = (\<lambda>(n, out) (bal, s).
     foldE (\<lambda>address (bal, s).
         bindE (deleteUnspent E address hash (int n) s) (\<lambda>s. Inr (sm_add address (nValue out) bal, s)))
       (dests E out) (bal, s))"

definition rejectTx :: "'db penv \<Rightarrow> TxLog2 \<Rightarrow> 'db pstate \<Rightarrow> 'db pstate res" where
  "rejectTx E txLog2 s =
     (let tx = tl_tx txLog2; hash = tl_txHash txLog2 in
      bindE (if \<not> IsCoinBase tx then KVDB_getPrevTxOutputs (pe_rocks E) tx (p_kv s) else Inr []) (\<lambda>prevTxOutputs.
      bindE (if \<not> IsCoinBase tx then foldE (reject_input E) (zip (vin tx) prevTxOutputs) ([], s) else Inr ([], s)) (\<lambda>(bal, s).
      bindE (foldE (reject_output E hash) (enumerate 0 (vout tx)) (bal, s)) (\<lambda>(addressBalance, s).
      bindE (kvget E (key_str (KTx hash)) s) (\<lambda>value.
      bindE (root_Tx value) (\<lambda>txObject.
      bindE (kvset E (key_str (KTx hash)) (VTx (txObject\<lparr>ft_is_double_spend := True\<rparr>)) s) (\<lambda>s.
      bindE (kvdel E (key_str (KUnconfirmed hash)) s) (\<lambda>s.
      bindE (rejectAddressTxs E txLog2 addressBalance s) (\<lambda>s.
      bindE (flushAddressInfo E addressBalance s) (\<lambda>s.
      bindE (removeUnconfirmedTxPool E txLog2 s) (\<lambda>s.
      Inr (writeNotificationLogs E addressBalance txLog2 s))))))))))))"

end
