(* ===== verification/TxSteps.thy ===== *)
theory TxSteps
  imports ParserTx
begin

text \<open>
  What the steps of the handlers do to the parser's database as a whole. \<open>pinv\<close> describes a
  state by the book of the addresses, the table of unspent outputs, the other records
  (those that are not of an address), the counters, and the addresses whose record
  \<open>20_{address}\<close> is not up to date yet. Each step of a handler changes one of these parts.
\<close>

definition plain_key :: "kvkey \<Rightarrow> bool" where
  "plain_key k = (\<not> addr_key k \<and> \<not> unspent_key k \<and> (\<forall>a. \<not> chain_key_of a k))"

lemma plain_key_simps [simp]:
  "plain_key (KTx h)" "plain_key (KSpend h n)" "plain_key (KUnconfirmed h)" "plain_key (KHeight n)"
  "plain_key (KBlock h)" "plain_key (KBlockTxs h n)" "plain_key (KOrphan n)" "plain_key (KTimestamp t n)"
  "plain_key (KExtra h)" "plain_key KOffset" "plain_key KUnconfCount" "plain_key KUnconfSize"
  "\<not> plain_key (KAddr a)" "\<not> plain_key (KAddrTx a i)" "\<not> plain_key (KAddrTxIdx a h)"
  "\<not> plain_key (KUnspent a i)" "\<not> plain_key (KUnspentIdx a h n)"
  by (auto simp: plain_key_def)

definition pinv :: "('db \<Rightarrow> string \<Rightarrow> kvval option) \<Rightarrow> string set \<Rightarrow> 'db pstate \<Rightarrow> string set \<Rightarrow> book \<Rightarrow> utxo \<Rightarrow>
    (kvkey \<Rightarrow> kvval option) \<Rightarrow> bool" where
  "pinv V A s D B Y P =
     (\<exists>W I K. st V A s W I \<and> book_ok W I B \<and> unspent_ok W I Y K \<and> (\<forall>k. plain_key k \<longrightarrow> W k = P k) \<and>
        (\<forall>a. a \<notin> D \<longrightarrow> stored_info W a = I a))"

lemma pinvI:
  "st V A s W I \<Longrightarrow> book_ok W I B \<Longrightarrow> unspent_ok W I Y K \<Longrightarrow> (\<And>k. plain_key k \<Longrightarrow> W k = P k) \<Longrightarrow>
     (\<And>a. a \<notin> D \<Longrightarrow> stored_info W a = I a) \<Longrightarrow> pinv V A s D B Y P"
  unfolding pinv_def by blast

lemma stored_info_cong: "(\<And>a. W' (KAddr a) = W (KAddr a)) \<Longrightarrow> stored_info W' a = stored_info W a"
  by (simp add: stored_info_def)

lemma chain_at_frame: "(\<And>k. chain_key_of a k \<Longrightarrow> W' k = W k) \<Longrightarrow> chain_at W' a L = chain_at W a L"
  by (rule chain_at_cong) simp_all

lemma book_ok_frame:
  assumes "book_ok W I B" and "\<And>a k. chain_key_of a k \<Longrightarrow> W' k = W k"
    and "\<And>a. \<exists>u m. I' a = (I a)\<lparr>fa_unspent_tx_count := u, fa_unspent_tx_max_index := m\<rparr>"
  shows "book_ok W' I' B"
  unfolding book_ok_def
proof
  fix a
  from assms(1) have ok: "chain_ok W (I a) a (B a)" by (simp add: book_ok_def)
  then obtain u m where i: "I a = page_info (B a) u m" by (auto simp: chain_ok_def)
  obtain u' m' where "I' a = (I a)\<lparr>fa_unspent_tx_count := u', fa_unspent_tx_max_index := m'\<rparr>" using assms(3) by blast
  then have "I' a = page_info (B a) u' m'" by (simp add: i page_info_def split: prod.splits)
  moreover have "chain_at W' a L = chain_at W a L" for L using assms(2) by (intro chain_at_frame) auto
  ultimately show "chain_ok W' (I' a) a (B a)" using ok by (auto simp: chain_ok_def)
qed

lemma unspent_ok_frame:
  assumes "unspent_ok W I Y K" and "\<And>k. unspent_key k \<Longrightarrow> W' k = W k"
    and "\<And>a. fa_unspent_tx_count (I' a) = fa_unspent_tx_count (I a) \<and>
      fa_unspent_tx_max_index (I' a) = fa_unspent_tx_max_index (I a)"
  shows "unspent_ok W' I' Y K"
  using assms(1) unfolding unspent_ok_def by (simp add: assms(2,3))

lemma pinv_book_step:
  assumes "book_step V A s W I D' B' s'" and "unspent_ok W I Y K" and "\<And>k. plain_key k \<Longrightarrow> W k = P k"
    and "\<And>a. a \<notin> D \<Longrightarrow> stored_info W a = I a"
  shows "pinv V A s' (D \<union> D') B' Y P \<and> ctl s' = ctl s"
proof -
  from assms(1) obtain W' I' where 1: "st V A s' W' I'" "ctl s' = ctl s" "chain_frame D' W I W' I'" "book_ok W' I' B'"
    by (auto simp: book_step_def)
  have W: "W' k = W k" if "\<forall>a. \<not> chain_key_of a k" for k using 1(3) that by (simp add: chain_frame_def)
  have "unspent_ok W' I' Y K"
  proof (rule unspent_ok_frame [OF assms(2)])
    fix k assume "unspent_key k" then show "W' k = W k" by (intro W) (cases k; simp)
  next
    fix a show "fa_unspent_tx_count (I' a) = fa_unspent_tx_count (I a) \<and>
      fa_unspent_tx_max_index (I' a) = fa_unspent_tx_max_index (I a)" using 1(3) by (simp add: chain_frame_def)
  qed
  moreover have "W' k = P k" if "plain_key k" for k using that W assms(3) by (simp add: plain_key_def)
  moreover have "stored_info W' a = I' a" if "a \<notin> D \<union> D'" for a
    using that assms(4) 1(3) stored_info_cong [of W' W] W by (simp add: chain_frame_def)
  ultimately show ?thesis using 1 by (auto intro: pinvI)
qed

lemma pinv_unspent_step:
  assumes "unspent_step V A s W I D' Y' K' s'" and "book_ok W I B" and "\<And>k. plain_key k \<Longrightarrow> W k = P k"
    and "\<And>a. a \<notin> D \<Longrightarrow> stored_info W a = I a"
  shows "pinv V A s' (D \<union> D') B Y' P \<and> ctl s' = ctl s"
proof -
  from assms(1) obtain W' I' where 1: "st V A s' W' I'" "ctl s' = ctl s" "unspent_frame D' W I W' I'" "unspent_ok W' I' Y' K'"
    by (auto simp: unspent_step_def)
  have W: "W' k = W k" if "\<not> unspent_key k" for k using 1(3) that by (simp add: unspent_frame_def)
  have "book_ok W' I' B"
  proof (rule book_ok_frame [OF assms(2)])
    fix a k assume "chain_key_of a k" then show "W' k = W k" by (intro W) (cases k; simp)
  next
    fix a show "\<exists>u m. I' a = (I a)\<lparr>fa_unspent_tx_count := u, fa_unspent_tx_max_index := m\<rparr>"
      using 1(3) by (simp add: unspent_frame_def)
  qed
  moreover have "W' k = P k" if "plain_key k" for k using that W assms(3) by (simp add: plain_key_def)
  moreover have "stored_info W' a = I' a" if "a \<notin> D \<union> D'" for a
    using that assms(4) 1(3) stored_info_cong [of W' W] W by (simp add: unspent_frame_def)
  ultimately show ?thesis using 1 by (auto intro: pinvI)
qed

lemma pinv_put:
  assumes "book_ok W I B" and "unspent_ok W I Y K" and "\<And>k. plain_key k \<Longrightarrow> W k = P k"
    and "\<And>a. a \<notin> D \<Longrightarrow> stored_info W a = I a" and "plain_key k" and "st V A s' (W(k := v)) I"
  shows "pinv V A s' D B Y (P(k := v))"
proof -
  have nk: "\<not> chain_key_of a k" "\<not> unspent_key k" "k \<noteq> KAddr a" for a
    using assms(5) by (auto simp: plain_key_def)
  have "book_ok (W(k := v)) I B"
    using nk(1) by (intro book_ok_frame [OF assms(1)] same_but_unspent) auto
  moreover have "unspent_ok (W(k := v)) I Y K" using nk(2) by (intro unspent_ok_frame [OF assms(2)]) auto
  moreover have "stored_info (W(k := v)) a = stored_info W a" for a using nk(3) by (intro stored_info_cong) auto
  ultimately show ?thesis using assms(3,4) by (intro pinvI [OF assms(6)]) auto
qed

lemma kvset_pinv:
  assumes "pinv V A s D B Y P" and "rocks_ok (pe_rocks E) V" and "plain_key k"
    and "\<And>s'. pinv V A s' D B Y (P(k \<mapsto> v)) \<Longrightarrow> ctl s' = ctl s \<Longrightarrow> Q s'"
  shows "returns (kvset E (key_str k) v s) Q"
proof -
  from assms(1) obtain W I K where 1: "st V A s W I" "book_ok W I B" "unspent_ok W I Y K"
    "\<And>k. plain_key k \<Longrightarrow> W k = P k" "\<And>a. a \<notin> D \<Longrightarrow> stored_info W a = I a" by (auto simp: pinv_def)
  have "\<not> addr_key k" using assms(3) by (simp add: plain_key_def)
  then show ?thesis
    by (rule kvset_rule [OF 1(1) assms(2)]) (intro assms(4) pinv_put [OF 1(2-5) assms(3)])
qed

lemma kvdel_pinv:
  assumes "pinv V A s D B Y P" and "rocks_ok (pe_rocks E) V" and "plain_key k"
    and "\<And>s'. pinv V A s' D B Y (P(k := None)) \<Longrightarrow> ctl s' = ctl s \<Longrightarrow> Q s'"
  shows "returns (kvdel E (key_str k) s) Q"
proof -
  from assms(1) obtain W I K where 1: "st V A s W I" "book_ok W I B" "unspent_ok W I Y K"
    "\<And>k. plain_key k \<Longrightarrow> W k = P k" "\<And>a. a \<notin> D \<Longrightarrow> stored_info W a = I a" by (auto simp: pinv_def)
  have "\<not> addr_key k" using assms(3) by (simp add: plain_key_def)
  then show ?thesis
    by (rule kvdel_rule [OF 1(1) assms(2)]) (intro assms(4) pinv_put [OF 1(2-5) assms(3)])
qed

lemma kvget_pinv:
  assumes "pinv V A s D B Y P" and "rocks_ok (pe_rocks E) V" and "plain_key k"
  shows "kvget E (key_str k) s = (case P k of None \<Rightarrow> Inl (Throw (''not found key: '' @ key_str k)) | Some v \<Rightarrow> Inr v)"
  using assms by (auto simp: pinv_def kvget_st)

lemma kvget_pinv_rule:
  assumes "pinv V A s D B Y P" and "rocks_ok (pe_rocks E) V" and "plain_key k" and "P k = Some v" and "Q v"
  shows "returns (kvget E (key_str k) s) Q"
  using kvget_pinv [OF assms(1-3)] assms(4,5) by simp

lemma pinv_cong: "pinv V A s D B Y P \<Longrightarrow> (\<And>k. plain_key k \<Longrightarrow> P k = P' k) \<Longrightarrow> pinv V A s D B Y P'"
  by (auto simp: pinv_def)

lemma st_same:
  assumes "p_kv s' = p_kv s" and "p_cache s' = p_cache s" and "p_heap s' = p_heap s"
  shows "st V A s' W I = st V A s W I"
proof -
  have v: "view V s' = view V s" using assms(1) by (simp add: view_def)
  moreover have "info V s' = info V s" using assms(2,3) v by (intro ext) (simp add: info_def cong: option.case_cong)
  moreover have "cache_ok V A s' = cache_ok V A s" using assms v by (simp add: cache_ok_def)
  ultimately show ?thesis by (simp add: st_def)
qed

lemma pinv_other_fields [simp]:
  "pinv V A (s\<lparr>p_notified := n\<rparr>) D B Y P = pinv V A s D B Y P"
  "pinv V A (s\<lparr>p_unconfirmedTxsCount := c, p_unconfirmedTxsSize := z\<rparr>) D B Y P = pinv V A s D B Y P"
  "pinv V A (s\<lparr>p_currBlockHeight := x\<rparr>) D B Y P = pinv V A s D B Y P"
  unfolding pinv_def
  by (simp_all add: st_same [of "s\<lparr>p_notified := n\<rparr>" s] st_same [of "s\<lparr>p_currBlockHeight := x\<rparr>" s]
      st_same [of "s\<lparr>p_unconfirmedTxsCount := c, p_unconfirmedTxsSize := z\<rparr>" s])

section \<open>Writing the addresses\<close>

lemma flush_one_pinv:
  assumes "pinv V A s D B Y P" and R: "rocks_ok (pe_rocks E) V" and a: "a \<in> A"
  shows "returns (flush_one E (a, d) s) (\<lambda>s'. pinv V A s' (D - {a}) B Y P \<and> ctl s' = ctl s)"
proof -
  from assms(1) obtain W I K where 1: "st V A s W I" "book_ok W I B" "unspent_ok W I Y K"
    "\<And>k. plain_key k \<Longrightarrow> W k = P k" "\<And>a. a \<notin> D \<Longrightarrow> stored_info W a = I a" by (auto simp: pinv_def)
  show ?thesis
    unfolding flush_one_def fst_conv
  proof (rule returns_bind, rule getAddressInfo_rule [OF 1(1) R a], clarify)
    fix p s1 assume s1: "st V A s1 W I" "ctl s1 = ctl s" "points s1 a p"
    obtain db where db: "KVDB_set (pe_rocks E) (key_str (KAddr a)) (VAddress (fbAddress (p_heap s1 ! p))) (p_kv s1) = Inr db"
      "kv_view V db = (kv_view V (p_kv s1))(KAddr a \<mapsto> VAddress (fbAddress (p_heap s1 ! p)))"
      using KVDB_set_view [OF R] by metis
    let ?W = "W(KAddr a \<mapsto> VAddress (I a))" and ?s = "s1\<lparr>p_kv := db\<rparr>"
    have W: "kv_view V db = ?W" using db(2) s1(1) info_points [OF s1(1,3)] by (simp add: st_def view_def)
    have c: "cache_ok V A s1" "view V s1 = W" "info V s1 = I" using s1(1) by (auto simp: st_def)
    have "view V ?s = ?W" using W by (simp add: view_def)
    moreover have "raw_ok V db" using KVDB_set_raw [OF R db(1)] c(1) by (simp add: cache_ok_def)
    then have "cache_ok V A ?s" using c(1,2) W by (auto simp: cache_ok_def view_def)
    moreover have "info V ?s b = I b" for b
    proof (cases "map_of (p_cache s1) b")
      case None
      with s1(3) have "b \<noteq> a" by (auto simp: points_def)
      moreover have "I b = stored_info W b" using None c(2) by (simp add: info_def flip: c(3))
      ultimately show ?thesis using None W by (simp add: info_def view_def stored_info_def)
    next
      case (Some q)
      then show ?thesis by (simp add: info_def flip: c(3))
    qed
    ultimately have st: "st V A ?s ?W I" by (auto simp: st_def)
    have "pinv V A ?s (D - {a}) B Y P"
    proof (rule pinvI [OF st])
      show "book_ok ?W I B" by (intro book_ok_frame [OF 1(2)] same_but_unspent) auto
      show "unspent_ok ?W I Y K" by (intro unspent_ok_frame [OF 1(3)]) auto
      show "plain_key k \<Longrightarrow> ?W k = P k" for k using 1(4) by (auto simp: fun_upd_def)
      show "b \<notin> D - {a} \<Longrightarrow> stored_info ?W b = I b" for b
        using 1(5) [of b] by (cases "b = a") (auto simp: stored_info_def)
    qed
    then show "returns (kvset E (key_str (KAddr a)) (VAddress (fbAddress (p_heap s1 ! p))) s1)
        (\<lambda>s'. pinv V A s' (D - {a}) B Y P \<and> ctl s' = ctl s)"
      using db(1) s1(2) by (simp add: kvset_def ctl_def)
  qed
qed

lemma flushAddressInfo_pinv:
  assumes "pinv V A s D B Y P" and R: "rocks_ok (pe_rocks E) V" and A: "fst ` set bal \<subseteq> A"
    and "\<And>s'. pinv V A s' (D - fst ` set bal) B Y P \<Longrightarrow> ctl s' = ctl s \<Longrightarrow> Q s'"
  shows "returns (flushAddressInfo E bal s) Q"
  unfolding flushAddressInfo_def
proof (rule returns_foldE [where I = "\<lambda>pre s'. pinv V A s' (D - fst ` set pre) B Y P \<and> ctl s' = ctl s"])
  show "pinv V A s (D - fst ` set []) B Y P \<and> ctl s = ctl s" using assms(1) by simp
next
  fix pre x rest t
  assume bal: "bal = pre @ x # rest" and t: "pinv V A t (D - fst ` set pre) B Y P \<and> ctl t = ctl s"
  obtain a d where x: "x = (a, d)" by fastforce
  have "a \<in> A" using A bal x by auto
  note one = flush_one_pinv [OF conjunct1 [OF t] R this, of d]
  have "D - fst ` set pre - {a} = D - fst ` set (pre @ [x])" using x by auto
  with one t show "returns (flush_one E x t) (\<lambda>s'. pinv V A s' (D - fst ` set (pre @ [x])) B Y P \<and> ctl s' = ctl s)"
    unfolding x by (elim returns_mono) simp
next
  fix t assume "pinv V A t (D - fst ` set bal) B Y P \<and> ctl t = ctl s"
  then show "Q t" using assms(4) by blast
qed

lemma store_pool_counters_pinv:
  assumes "pinv V A s D B Y P" and R: "rocks_ok (pe_rocks E) V"
    and "\<And>s'. pinv V A s' D B Y (P(KUnconfCount \<mapsto> VStr (fmt_d (p_unconfirmedTxsCount s)),
           KUnconfSize \<mapsto> VStr (fmt_d (p_unconfirmedTxsSize s)))) \<Longrightarrow> ctl s' = ctl s \<Longrightarrow> Q s'"
  shows "returns (store_pool_counters E s) Q"
  unfolding store_pool_counters_def
proof (rule returns_bind, rule kvset_pinv [OF assms(1) R])
  fix s1 assume s1: "pinv V A s1 D B Y (P(KUnconfCount \<mapsto> VStr (fmt_d (p_unconfirmedTxsCount s))))" "ctl s1 = ctl s"
  then have "p_unconfirmedTxsSize s1 = p_unconfirmedTxsSize s" by (simp add: ctl_def)
  then show "returns (kvset E (key_str KUnconfSize) (VStr (fmt_d (p_unconfirmedTxsSize s1))) s1) Q"
    using s1(2) assms(3) by (intro kvset_pinv [OF s1(1) R]) simp_all
qed simp

section \<open>Unspent outputs\<close>

text \<open>The records of one output, for its addresses in order, put into and taken out of the table.\<close>

definition slots :: "int \<Rightarrow> string list \<Rightarrow> string \<Rightarrow> (int \<times> int) option" where
  "slots v as = map_of (map (\<lambda>(j, a). (a, (v, int j))) (enumerate 0 as))"

definition put_out :: "uint256 \<times> int \<Rightarrow> int \<Rightarrow> string list \<Rightarrow> utxo \<Rightarrow> utxo" where
  "put_out k v as Y = (\<lambda>a l. if l = k then (case slots v as a of Some x \<Rightarrow> Some x | None \<Rightarrow> Y a l) else Y a l)"

definition del_out :: "uint256 \<times> int \<Rightarrow> string list \<Rightarrow> utxo \<Rightarrow> utxo" where
  "del_out k as Y = (\<lambda>a l. if l = k \<and> a \<in> set as then None else Y a l)"

lemma slots_Nil [simp]: "slots v [] = Map.empty"
  by (simp add: slots_def)

lemma slots_snoc: "a \<notin> set as \<Longrightarrow> slots v (as @ [a]) = (slots v as)(a \<mapsto> (v, int (length as)))"
proof -
  assume "a \<notin> set as"
  then have "map_of (map (\<lambda>(j, a). (a, (v, int j))) (enumerate 0 as)) a = None"
    by (auto simp: map_of_eq_None_iff in_set_enumerate_eq)
  then show ?thesis by (auto simp: slots_def enumerate_append_eq map_add_def fun_eq_iff split: option.splits)
qed

lemma slots_dom: "slots v as a = None \<longleftrightarrow> a \<notin> set as"
proof -
  have "map fst (map (\<lambda>(j, a). (a, (v, int j))) (enumerate 0 as)) = as"
    by (simp add: comp_def case_prod_unfold)
  then have "fst ` set (map (\<lambda>(j, a). (a, (v, int j))) (enumerate 0 as)) = set as" by (metis set_map)
  then show ?thesis by (simp add: slots_def map_of_eq_None_iff)
qed

lemma put_out_Nil [simp]: "put_out k v [] Y = Y"
  by (simp add: put_out_def fun_eq_iff)

lemma put_out_snoc:
  "a \<notin> set as \<Longrightarrow> put_out k v (as @ [a]) Y =
     (put_out k v as Y)(a := (put_out k v as Y a)(k \<mapsto> (v, int (length as))))"
  by (auto simp: put_out_def slots_snoc fun_eq_iff)

lemma del_out_Nil [simp]: "del_out k [] Y = Y"
  by (simp add: del_out_def)

lemma del_out_snoc: "del_out k (as @ [a]) Y = (del_out k as Y)(a := (del_out k as Y a)(k := None))"
  by (auto simp: del_out_def fun_eq_iff)

lemma insertAddressUnspent_pinv:
  assumes "pinv V A s D B Y P" and "rocks_ok (pe_rocks E) V" and "a \<in> A" and "Y a (h, n) = None"
  shows "returns (insertAddressUnspent E v a h n p s)
     (\<lambda>s'. pinv V A s' (insert a D) B (Y(a := (Y a)((h, n) \<mapsto> (v, p)))) P \<and> ctl s' = ctl s)"
proof -
  from assms(1) obtain W I K where 1: "st V A s W I" "book_ok W I B" "unspent_ok W I Y K"
    "\<And>k. plain_key k \<Longrightarrow> W k = P k" "\<And>a. a \<notin> D \<Longrightarrow> stored_info W a = I a" by (auto simp: pinv_def)
  have step: "pinv V A t (D \<union> {a}) B Y' P \<and> ctl t = ctl s" if "unspent_step V A s W I {a} Y' K' t" for t Y' K'
    by (rule pinv_unspent_step [OF that 1(2)]) (simp_all add: 1(4,5))
  show ?thesis
    by (rule returns_mono [OF insertAddressUnspent_ok [OF 1(1) assms(2,3) 1(3) assms(4)]]) (use step in fastforce)
qed

lemma deleteUnspent_pinv:
  assumes "pinv V A s D B Y P" and "rocks_ok (pe_rocks E) V" and "Y a (h, n) \<noteq> None"
  shows "returns (deleteUnspent E a h n s)
     (\<lambda>s'. pinv V A s' (insert a D) B (Y(a := (Y a)((h, n) := None))) P \<and> ctl s' = ctl s)"
proof -
  from assms(1) obtain W I K where 1: "st V A s W I" "book_ok W I B" "unspent_ok W I Y K"
    "\<And>k. plain_key k \<Longrightarrow> W k = P k" "\<And>a. a \<notin> D \<Longrightarrow> stored_info W a = I a" by (auto simp: pinv_def)
  have step: "pinv V A t (D \<union> {a}) B Y' P \<and> ctl t = ctl s" if "unspent_step V A s W I {a} Y' K' t" for t Y' K'
    by (rule pinv_unspent_step [OF that 1(2)]) (simp_all add: 1(4,5))
  show ?thesis
    by (rule returns_mono [OF deleteUnspent_ok [OF 1(1) assms(2) 1(3) assms(3)]]) (use step in fastforce)
qed

lemma removeUnspent_pinv:
  assumes "pinv V A s D B Y P" and "rocks_ok (pe_rocks E) V" and "a \<in> A" and "Y a (op_hash q, sint (op_n q)) \<noteq> None"
  shows "returns (removeUnspent E q a s)
     (\<lambda>s'. pinv V A s' (insert a D) B (Y(a := (Y a)((op_hash q, sint (op_n q)) := None))) P \<and> ctl s' = ctl s)"
proof -
  from assms(1) obtain W I K where 1: "st V A s W I" "book_ok W I B" "unspent_ok W I Y K"
    "\<And>k. plain_key k \<Longrightarrow> W k = P k" "\<And>a. a \<notin> D \<Longrightarrow> stored_info W a = I a" by (auto simp: pinv_def)
  have step: "pinv V A t (D \<union> {a}) B Y' P \<and> ctl t = ctl s" if "unspent_step V A s W I {a} Y' K' t" for t Y' K'
    by (rule pinv_unspent_step [OF that 1(2)]) (simp_all add: 1(4,5))
  show ?thesis
    by (rule returns_mono [OF removeUnspent_ok [OF 1(1) assms(2,3) 1(3) assms(4)]]) (use step in fastforce)
qed

lemma enumerate_prefix:
  assumes "enumerate 0 as = pre @ x # rest"
  shows "x = (length pre, as ! length pre) \<and> length pre < length as \<and> map snd pre = take (length pre) as \<and>
     map snd (pre @ [x]) = take (Suc (length pre)) as \<and> map fst pre = [0..<length pre]"
proof -
  have len: "length pre < length as" using arg_cong [OF assms, of length] by simp
  have "x = enumerate 0 as ! length pre" using assms by simp
  then have x: "x = (length pre, as ! length pre)" using len by (simp add: nth_enumerate_eq)
  have "pre = take (length pre) (enumerate 0 as)" using assms by simp
  then have "map snd pre = map snd (take (length pre) (enumerate 0 as))" by simp
  also have "\<dots> = take (length pre) as" by (simp add: take_map flip: take_map)
  finally have p: "map snd pre = take (length pre) as" .
  have "map fst pre = map fst (take (length pre) (enumerate 0 as))" using \<open>pre = _\<close> by simp
  also have "\<dots> = [0..<length pre]" using len by (simp flip: take_map)
  finally show ?thesis using x len p by (simp add: take_Suc_conv_app_nth)
qed

lemma insert_slots:
  assumes pinv: "pinv V A s D B Y P" and R: "rocks_ok (pe_rocks E) V" and A: "set as \<subseteq> A" and d: "distinct as"
    and none: "\<And>a. a \<in> set as \<Longrightarrow> Y a (h, n) = None"
  shows "returns (foldE (\<lambda>(j, addr) (bal, s).
       bindE (insertAddressUnspent E v addr h n (int j) s) (\<lambda>s. Inr (sm_add addr w bal, s))) (enumerate 0 as) (bal, s))
     (\<lambda>(bal', s'). bal' = fold (\<lambda>a. sm_add a w) as bal \<and> pinv V A s' (D \<union> set as) B (put_out (h, n) v as Y) P \<and>
        ctl s' = ctl s)"
proof (rule returns_foldE [where I = "\<lambda>pre (bal', s'). bal' = fold (\<lambda>a. sm_add a w) (map snd pre) bal \<and>
    pinv V A s' (D \<union> set (map snd pre)) B (put_out (h, n) v (map snd pre) Y) P \<and> ctl s' = ctl s"])
  show "case (bal, s) of (bal', s') \<Rightarrow> bal' = fold (\<lambda>a. sm_add a w) (map snd []) bal \<and>
    pinv V A s' (D \<union> set (map snd [])) B (put_out (h, n) v (map snd []) Y) P \<and> ctl s' = ctl s"
    using pinv by simp
next
  fix pre x rest t
  assume e: "enumerate 0 as = pre @ x # rest"
    and t: "case t of (bal', s') \<Rightarrow> bal' = fold (\<lambda>a. sm_add a w) (map snd pre) bal \<and>
      pinv V A s' (D \<union> set (map snd pre)) B (put_out (h, n) v (map snd pre) Y) P \<and> ctl s' = ctl s"
  from enumerate_prefix [OF e] obtain a where x: "x = (length pre, a)" and a: "a = as ! length pre"
    and len: "length pre < length as" and p: "map snd pre = take (length pre) as" by auto
  obtain bal' s' where ts: "t = (bal', s')" by fastforce
  have mem: "a \<in> set as" "a \<notin> set (map snd pre)"
    using a len d unfolding p by (auto simp: in_set_conv_nth nth_eq_iff_index_eq)
  then have "put_out (h, n) v (map snd pre) Y a (h, n) = None"
    using none [OF mem(1)] slots_dom [of v "map snd pre" a] by (simp add: put_out_def)
  moreover have pi: "pinv V A s' (D \<union> set (map snd pre)) B (put_out (h, n) v (map snd pre) Y) P" using t ts by simp
  ultimately have "returns (insertAddressUnspent E v a h n (int (length pre)) s')
     (\<lambda>s''. pinv V A s'' (insert a (D \<union> set (map snd pre))) B ((put_out (h, n) v (map snd pre) Y)(a :=
        (put_out (h, n) v (map snd pre) Y a)((h, n) \<mapsto> (v, int (length pre))))) P \<and> ctl s'' = ctl s')"
    using mem(1) A by (intro insertAddressUnspent_pinv [OF _ R]) auto
  moreover have "put_out (h, n) v (map snd (pre @ [x])) Y = (put_out (h, n) v (map snd pre) Y)(a :=
        (put_out (h, n) v (map snd pre) Y a)((h, n) \<mapsto> (v, int (length pre))))"
    using put_out_snoc [OF mem(2)] x by simp
  moreover have "insert a (D \<union> set (map snd pre)) = D \<union> set (map snd (pre @ [x]))" using x by auto
  ultimately have "returns (insertAddressUnspent E v a h n (int (length pre)) s')
     (\<lambda>s''. pinv V A s'' (D \<union> set (map snd (pre @ [x]))) B (put_out (h, n) v (map snd (pre @ [x])) Y) P \<and> ctl s'' = ctl s')"
    by (simp only:)
  then show "returns ((\<lambda>(j, addr) (bal, s). bindE (insertAddressUnspent E v addr h n (int j) s)
      (\<lambda>s. Inr (sm_add addr w bal, s))) x t)
    (\<lambda>(bal', s'). bal' = fold (\<lambda>a. sm_add a w) (map snd (pre @ [x])) bal \<and>
      pinv V A s' (D \<union> set (map snd (pre @ [x]))) B (put_out (h, n) v (map snd (pre @ [x])) Y) P \<and> ctl s' = ctl s)"
    unfolding x ts prod.case using t ts x by (intro returns_bind) (elim returns_mono, simp)
next
  fix t :: "(string, int) smap \<times> 'a pstate"
  assume "case t of (bal', s') \<Rightarrow> bal' = fold (\<lambda>a. sm_add a w) (map snd (enumerate 0 as)) bal \<and>
    pinv V A s' (D \<union> set (map snd (enumerate 0 as))) B (put_out (h, n) v (map snd (enumerate 0 as)) Y) P \<and> ctl s' = ctl s"
  then show "case t of (bal', s') \<Rightarrow> bal' = fold (\<lambda>a. sm_add a w) as bal \<and>
    pinv V A s' (D \<union> set as) B (put_out (h, n) v as Y) P \<and> ctl s' = ctl s" by simp
qed

lemma remove_slots:
  assumes pinv: "pinv V A s D B Y P" and R: "rocks_ok (pe_rocks E) V" and A: "set as \<subseteq> A" and d: "distinct as"
    and some: "\<And>a. a \<in> set as \<Longrightarrow> Y a (op_hash q, sint (op_n q)) \<noteq> None"
  shows "returns (foldE (removeUnspent E q) as s)
     (\<lambda>s'. pinv V A s' (D \<union> set as) B (del_out (op_hash q, sint (op_n q)) as Y) P \<and> ctl s' = ctl s)"
proof (rule returns_foldE [where I = "\<lambda>pre s'. pinv V A s' (D \<union> set pre) B
    (del_out (op_hash q, sint (op_n q)) pre Y) P \<and> ctl s' = ctl s"])
  show "pinv V A s (D \<union> set []) B (del_out (op_hash q, sint (op_n q)) [] Y) P \<and> ctl s = ctl s" using pinv by simp
next
  fix pre a rest t
  assume as: "as = pre @ a # rest" and t: "pinv V A t (D \<union> set pre) B (del_out (op_hash q, sint (op_n q)) pre Y) P \<and> ctl t = ctl s"
  have "a \<in> A" "del_out (op_hash q, sint (op_n q)) pre Y a (op_hash q, sint (op_n q)) \<noteq> None"
    using as A d some [of a] by (auto simp: del_out_def)
  from removeUnspent_pinv [OF conjunct1 [OF t] R this] t
  show "returns (removeUnspent E q a t) (\<lambda>s'. pinv V A s' (D \<union> set (pre @ [a])) B
      (del_out (op_hash q, sint (op_n q)) (pre @ [a]) Y) P \<and> ctl s' = ctl s)"
    unfolding del_out_snoc by (elim returns_mono) simp
qed

lemma delete_slots:
  assumes pinv: "pinv V A s D B Y P" and R: "rocks_ok (pe_rocks E) V" and d: "distinct as"
    and some: "\<And>a. a \<in> set as \<Longrightarrow> Y a (h, n) \<noteq> None"
  shows "returns (foldE (\<lambda>address (bal, s).
       bindE (deleteUnspent E address h n s) (\<lambda>s. Inr (sm_add address w bal, s))) as (bal, s))
     (\<lambda>(bal', s'). bal' = fold (\<lambda>a. sm_add a w) as bal \<and> pinv V A s' (D \<union> set as) B (del_out (h, n) as Y) P \<and>
        ctl s' = ctl s)"
proof (rule returns_foldE [where I = "\<lambda>pre (bal', s'). bal' = fold (\<lambda>a. sm_add a w) pre bal \<and>
    pinv V A s' (D \<union> set pre) B (del_out (h, n) pre Y) P \<and> ctl s' = ctl s"])
  show "case (bal, s) of (bal', s') \<Rightarrow> bal' = fold (\<lambda>a. sm_add a w) [] bal \<and>
    pinv V A s' (D \<union> set []) B (del_out (h, n) [] Y) P \<and> ctl s' = ctl s" using pinv by simp
next
  fix pre a rest t
  assume as: "as = pre @ a # rest" and t: "case t of (bal', s') \<Rightarrow> bal' = fold (\<lambda>a. sm_add a w) pre bal \<and>
    pinv V A s' (D \<union> set pre) B (del_out (h, n) pre Y) P \<and> ctl s' = ctl s"
  obtain bal' s' where ts: "t = (bal', s')" by fastforce
  have "del_out (h, n) pre Y a (h, n) \<noteq> None" using as d some [of a] by (auto simp: del_out_def)
  moreover have "pinv V A s' (D \<union> set pre) B (del_out (h, n) pre Y) P" using t ts by simp
  ultimately have "returns (deleteUnspent E a h n s') (\<lambda>s''. pinv V A s'' (insert a (D \<union> set pre)) B
      (del_out (h, n) (pre @ [a]) Y) P \<and> ctl s'' = ctl s')"
    unfolding del_out_snoc by (intro deleteUnspent_pinv [OF _ R])
  then show "returns ((\<lambda>address (bal, s). bindE (deleteUnspent E address h n s)
      (\<lambda>s. Inr (sm_add address w bal, s))) a t)
    (\<lambda>(bal', s'). bal' = fold (\<lambda>a. sm_add a w) (pre @ [a]) bal \<and>
      pinv V A s' (D \<union> set (pre @ [a])) B (del_out (h, n) (pre @ [a]) Y) P \<and> ctl s' = ctl s)"
    unfolding ts prod.case using t ts by (intro returns_bind) (elim returns_mono, simp)
qed

section \<open>The loops over inputs and outputs\<close>

definition in_balance :: "fb_TxOutput list \<Rightarrow> (string, int) smap \<Rightarrow> (string, int) smap" where
  "in_balance prevs bal = fold (\<lambda>out bal. fold (\<lambda>a. sm_add a (to_value out * - 1)) (to_addresses out) bal) prevs bal"

definition out_balance :: "'db penv \<Rightarrow> CTxOut list \<Rightarrow> (string, int) smap \<Rightarrow> (string, int) smap" where
  "out_balance E vo bal = fold (\<lambda>out bal. fold (\<lambda>a. sm_add a (nValue out)) (dests E out) bal) vo bal"

definition outs_put :: "'db penv \<Rightarrow> uint256 \<Rightarrow> CTxOut list \<Rightarrow> utxo \<Rightarrow> utxo" where
  "outs_put E h vo Y = fold (\<lambda>(n, out). put_out (h, int n) (nValue out) (dests E out)) (enumerate 0 vo) Y"

definition outs_del :: "'db penv \<Rightarrow> uint256 \<Rightarrow> CTxOut list \<Rightarrow> utxo \<Rightarrow> utxo" where
  "outs_del E h vo Y = fold (\<lambda>(n, out). del_out (h, int n) (dests E out)) (enumerate 0 vo) Y"

definition ins_del :: "(CTxIn \<times> fb_TxOutput) list \<Rightarrow> utxo \<Rightarrow> utxo" where
  "ins_del ios Y = fold (\<lambda>(i, out). del_out (outkey i) (to_addresses out)) ios Y"

definition ins_put :: "(CTxIn \<times> fb_TxOutput) list \<Rightarrow> utxo \<Rightarrow> utxo" where
  "ins_put ios Y = fold (\<lambda>(i, out). put_out (outkey i) (to_value out) (to_addresses out)) ios Y"

definition spend_key :: "CTxIn \<Rightarrow> kvkey" where
  "spend_key i = KSpend (op_hash (prevout i)) (sint (op_n (prevout i)))"

definition spends_put :: "uint256 \<Rightarrow> CTxIn list \<Rightarrow> (kvkey \<Rightarrow> kvval option) \<Rightarrow> kvkey \<Rightarrow> kvval option" where
  "spends_put h is P = fold (\<lambda>(n, i) P. P(spend_key i \<mapsto> VSpentBy \<lparr>ts_position = int n, ts_tx_hash = ToString h\<rparr>))
     (enumerate 0 is) P"

definition spends_del :: "CTxIn list \<Rightarrow> (kvkey \<Rightarrow> kvval option) \<Rightarrow> kvkey \<Rightarrow> kvval option" where
  "spends_del is P = fold (\<lambda>i P. P(spend_key i := None)) is P"

lemma outkey_eq: "outkey i = (op_hash (prevout i), sint (op_n (prevout i)))"
  by (simp add: outkey_def)

lemma plain_spend_key [simp]: "plain_key (spend_key i)"
  by (simp add: spend_key_def)

lemma keys_fold_sm_add: "fst ` set (fold (\<lambda>a. sm_add a w) as bal) = fst ` set bal \<union> set as"
  by (induction "as" arbitrary: bal) (auto simp: sm_add_def)

lemma sm_wf_fold_sm_add: "sm_wf bal \<Longrightarrow> sm_wf (fold (\<lambda>a. sm_add a w) as bal)"
  by (induction "as" arbitrary: bal) auto

lemma keys_in_balance: "fst ` set (in_balance ps bal) = fst ` set bal \<union> (\<Union>p \<in> set ps. set (to_addresses p))"
  unfolding in_balance_def by (induction ps arbitrary: bal) (auto simp: keys_fold_sm_add)

lemma keys_out_balance: "fst ` set (out_balance E vo bal) = fst ` set bal \<union> (\<Union>p \<in> set vo. set (dests E p))"
  unfolding out_balance_def by (induction vo arbitrary: bal) (auto simp: keys_fold_sm_add)

lemma sm_wf_in_balance: "sm_wf bal \<Longrightarrow> sm_wf (in_balance ps bal)"
  unfolding in_balance_def by (induction ps arbitrary: bal) (auto simp: sm_wf_fold_sm_add)

lemma sm_wf_out_balance: "sm_wf bal \<Longrightarrow> sm_wf (out_balance E vo bal)"
  unfolding out_balance_def by (induction vo arbitrary: bal) (auto simp: sm_wf_fold_sm_add)

lemma fold_enumerate_snoc:
  "fold f (enumerate 0 (xs @ [x])) s = f (length xs, x) (fold f (enumerate 0 xs) s)"
  by (simp add: enumerate_append_eq)

lemma outs_put_snoc:
  "outs_put E h (vo @ [out]) Y = put_out (h, int (length vo)) (nValue out) (dests E out) (outs_put E h vo Y)"
  by (simp add: outs_put_def fold_enumerate_snoc)

lemma outs_del_snoc:
  "outs_del E h (vo @ [out]) Y = del_out (h, int (length vo)) (dests E out) (outs_del E h vo Y)"
  by (simp add: outs_del_def fold_enumerate_snoc)

lemma outs_put_at:
  "outs_put E h vo Y a (g, n) =
     (if g = h \<and> 0 \<le> n \<and> nat n < length vo
      then (case slots (nValue (vo ! nat n)) (dests E (vo ! nat n)) a of Some x \<Rightarrow> Some x | None \<Rightarrow> Y a (g, n))
      else Y a (g, n))"
proof (induction vo rule: rev_induct)
  case Nil
  then show ?case by (simp add: outs_put_def)
next
  case (snoc out vo)
  have "nat n < length vo \<and> 0 \<le> n \<Longrightarrow> n \<noteq> int (length vo)" by auto
  with snoc show ?case
    by (cases "n = int (length vo)")
      (auto simp: outs_put_snoc put_out_def nth_append nat_less_iff not_less split: option.splits)
qed

lemma outs_del_at:
  "outs_del E h vo Y a (g, n) =
     (if g = h \<and> 0 \<le> n \<and> nat n < length vo \<and> a \<in> set (dests E (vo ! nat n)) then None else Y a (g, n))"
proof (induction vo rule: rev_induct)
  case Nil
  then show ?case by (simp add: outs_del_def)
next
  case (snoc out vo)
  then show ?case
    by (cases "n = int (length vo)") (auto simp: outs_del_snoc del_out_def nth_append nat_less_iff)
qed

lemma ins_del_simps [simp]:
  "ins_del [] Y = Y" "ins_del ((i, out) # ios) Y = ins_del ios (del_out (outkey i) (to_addresses out) Y)"
  by (simp_all add: ins_del_def)

lemma ins_put_simps [simp]:
  "ins_put [] Y = Y" "ins_put ((i, out) # ios) Y = ins_put ios (put_out (outkey i) (to_value out) (to_addresses out) Y)"
  by (simp_all add: ins_put_def)

lemma ins_del_at:
  "ins_del ios Y a k = (if \<exists>(i, out) \<in> set ios. outkey i = k \<and> a \<in> set (to_addresses out) then None else Y a k)"
  by (induction ios arbitrary: Y) (auto simp: del_out_def split: if_splits)

lemma ins_put_at:
  assumes "distinct (map (\<lambda>io. outkey (fst io)) ios)"
  shows "ins_put ios Y a k = (case map_of (map (\<lambda>(i, out). (outkey i, out)) ios) k of
     None \<Rightarrow> Y a k
   | Some out \<Rightarrow> (case slots (to_value out) (to_addresses out) a of Some x \<Rightarrow> Some x | None \<Rightarrow> Y a k))"
  using assms
proof (induction ios arbitrary: Y)
  case (Cons io ios)
  obtain i out where io: "io = (i, out)" by fastforce
  from Cons.prems io have new: "outkey i \<notin> (\<lambda>io. outkey (fst io)) ` set ios"
    and d: "distinct (map (\<lambda>io. outkey (fst io)) ios)" by auto
  have "fst ` set (map (\<lambda>(i, out). (outkey i, out)) ios) = (\<lambda>io. outkey (fst io)) ` set ios" by (force simp: image_iff)
  with new have no: "map_of (map (\<lambda>(i, out). (outkey i, out)) ios) (outkey i) = None"
    unfolding map_of_eq_None_iff by metis
  show ?case
    unfolding io ins_put_simps Cons.IH [OF d]
    by (cases "k = outkey i") (simp_all add: put_out_def no split: option.splits)
qed simp

lemma spends_put_other: "k \<notin> spend_key ` set is \<Longrightarrow> spends_put h is P k = P k"
  unfolding spends_put_def by (induction "is" rule: rev_induct) (auto simp: fold_enumerate_snoc)

lemma spends_put_at:
  assumes "distinct (map spend_key is)" and "n < length is"
  shows "spends_put h is P (spend_key (is ! n)) = Some (VSpentBy \<lparr>ts_position = int n, ts_tx_hash = ToString h\<rparr>)"
  using assms
proof (induction "is" rule: rev_induct)
  case (snoc i "is")
  show ?case
  proof (cases "n = length is")
    case True
    then show ?thesis by (simp add: spends_put_def fold_enumerate_snoc)
  next
    case False
    with snoc.prems have n: "n < length is" by simp
    have "is ! n \<in> set is" using n by simp
    then have "spend_key (is ! n) \<noteq> spend_key i" using snoc.prems by (metis distinct.simps(2)
      distinct_append imageI list.set_map list.simps(9) map_append not_distinct_conv_prefix)
    moreover have "(is @ [i]) ! n = is ! n" using n by (simp add: nth_append)
    moreover have "spends_put h is P (spend_key (is ! n)) = Some (VSpentBy \<lparr>ts_position = int n, ts_tx_hash = ToString h\<rparr>)"
      using snoc n by simp
    ultimately show ?thesis by (simp add: spends_put_def fold_enumerate_snoc)
  qed
qed simp

lemma spends_del_at: "spends_del is P k = (if k \<in> spend_key ` set is then None else P k)"
  unfolding spends_del_def by (induction "is" arbitrary: P) auto

end
