(* ===== verification/TxHandlers.thy ===== *)
theory TxHandlers
  imports TxSteps
begin

text \<open>
  The four transaction handlers (src/jiexi/src/Parser.cc) against the description \<open>pinv\<close> of
  the database: the loops over inputs, outputs and addresses first, then \<open>acceptTx\<close>,
  \<open>confirmTx\<close>, \<open>unconfirmTx\<close> and \<open>rejectTx\<close>. For each handler the conditions under which it
  raises nothing are stated, with what it does to the book of the addresses, the table of
  unspent outputs, the other records and the counters.
\<close>

section \<open>Loops\<close>

lemma returns_enumerate:
  assumes "I [] s"
    and "\<And>pre x rest t. xs = pre @ x # rest \<Longrightarrow> I pre t \<Longrightarrow> returns (f (length pre, x) t) (I (pre @ [x]))"
    and "\<And>t. I xs t \<Longrightarrow> Q t"
  shows "returns (foldE f (enumerate 0 xs) s) Q"
proof (rule returns_foldE [where I = "\<lambda>pre. I (map snd pre)"])
  fix pre x rest t assume e: "enumerate 0 xs = pre @ x # rest" and I: "I (map snd pre) t"
  note p = enumerate_prefix [OF e]
  have "xs = take (length pre) xs @ (xs ! length pre) # drop (Suc (length pre)) xs"
    using p by (simp add: id_take_nth_drop)
  moreover have "length (take (length pre) xs) = length pre" using p by simp
  ultimately have "returns (f (length pre, xs ! length pre) t) (I (take (length pre) xs @ [xs ! length pre]))"
    using assms(2) [of "take (length pre) xs" "xs ! length pre"] I p by metis
  then show "returns (f x t) (I (map snd (pre @ [x])))" using p by simp
qed (use assms in simp_all)

lemma returns_zip:
  assumes "length xs = length ys" and "I [] s"
    and "\<And>pre x y rest t. zip xs ys = pre @ (x, y) # rest \<Longrightarrow> I pre t \<Longrightarrow> returns (f (x, y) t) (I (pre @ [(x, y)]))"
    and "\<And>t. I (zip xs ys) t \<Longrightarrow> Q t"
  shows "returns (foldE f (zip xs ys) s) Q"
  by (rule returns_foldE [where I = I]) (use assms in auto)

lemma pinv_mono: "pinv V A s D B Y P \<Longrightarrow> D \<subseteq> D' \<Longrightarrow> pinv V A s D' B Y P"
  unfolding pinv_def by blast

text \<open>A state whose addresses to be written are among \<open>D\<close>, with its counters.\<close>

definition at_ctl :: "('db \<Rightarrow> string \<Rightarrow> kvval option) \<Rightarrow> string set \<Rightarrow> string set \<Rightarrow> int \<times> int \<times> int \<times> string list \<Rightarrow> book \<Rightarrow> utxo \<Rightarrow>
    (kvkey \<Rightarrow> kvval option) \<Rightarrow> 'db pstate \<Rightarrow> bool" where
  "at_ctl V A D c B Y P s = (pinv V A s D B Y P \<and> ctl s = c)"

lemma at_ctlD: "at_ctl V A D c B Y P s \<Longrightarrow> pinv V A s D B Y P" "at_ctl V A D c B Y P s \<Longrightarrow> ctl s = c"
  by (simp_all add: at_ctl_def)

lemma at_ctl_grow: "pinv V A s (D \<union> X) B Y P \<and> ctl s = c \<Longrightarrow> X \<subseteq> D \<Longrightarrow> at_ctl V A D c B Y P s"
  by (simp add: at_ctl_def sup_absorb1)

lemma accept_outputs_at:
  assumes s: "at_ctl V A D c B Y P s" and R: "rocks_ok (pe_rocks E) V" and A: "D \<subseteq> A"
    and outs: "\<And>out. out \<in> set vo \<Longrightarrow> set (dests E out) \<subseteq> D \<and> distinct (dests E out)"
    and none: "\<And>a n. Y a (h, n) = None"
  shows "returns (foldE (accept_output E h) (enumerate 0 vo) (bal, [], s)) (\<lambda>(bal', outs, s').
     bal' = out_balance E vo bal \<and> outs = map (fb_output E) vo \<and> at_ctl V A D c B (outs_put E h vo Y) P s')"
proof (rule returns_enumerate [where I = "\<lambda>pre (bal', outs, s'). bal' = out_balance E pre bal \<and>
    outs = map (fb_output E) pre \<and> at_ctl V A D c B (outs_put E h pre Y) P s'"])
  show "case (bal, [], s) of (bal', outs, s') \<Rightarrow> bal' = out_balance E [] bal \<and> outs = map (fb_output E) [] \<and>
      at_ctl V A D c B (outs_put E h [] Y) P s'"
    using s by (simp add: out_balance_def outs_put_def)
next
  fix pre out rest t
  assume vo: "vo = pre @ out # rest" and t: "case t of (bal', outs, s') \<Rightarrow> bal' = out_balance E pre bal \<and>
      outs = map (fb_output E) pre \<and> at_ctl V A D c B (outs_put E h pre Y) P s'"
  obtain s' where t': "t = (out_balance E pre bal, map (fb_output E) pre, s')" "at_ctl V A D c B (outs_put E h pre Y) P s'"
    using t by auto
  have out: "set (dests E out) \<subseteq> D" "distinct (dests E out)" using outs [of out] vo by auto
  have "outs_put E h pre Y a (h, int (length pre)) = None" for a using none by (simp add: outs_put_at)
  from insert_slots [OF at_ctlD(1) [OF t'(2)] R _ out(2) this, of "nValue out" "nValue out" "out_balance E pre bal"]
  have "returns (foldE (\<lambda>(j, addr) (bal, s). bindE (insertAddressUnspent E (nValue out) addr h (int (length pre)) (int j) s)
       (\<lambda>s. Inr (sm_add addr (nValue out) bal, s))) (enumerate 0 (dests E out)) (out_balance E pre bal, s'))
     (\<lambda>(bal', s''). bal' = fold (\<lambda>a. sm_add a (nValue out)) (dests E out) (out_balance E pre bal) \<and>
        pinv V A s'' (D \<union> set (dests E out)) B (put_out (h, int (length pre)) (nValue out) (dests E out) (outs_put E h pre Y)) P \<and>
        ctl s'' = ctl s')" using out A by blast
  then show "returns (accept_output E h (length pre, out) t) (\<lambda>(bal', outs, s'). bal' = out_balance E (pre @ [out]) bal \<and>
      outs = map (fb_output E) (pre @ [out]) \<and> at_ctl V A D c B (outs_put E h (pre @ [out]) Y) P s')"
    unfolding accept_output_def t'(1) prod.case
    using out(1) at_ctlD(2) [OF t'(2)]
    by (intro returns_bind) (elim returns_mono, auto simp: out_balance_def outs_put_snoc intro!: at_ctl_grow)
qed auto

lemma ins_del_snoc: "ins_del (ios @ [(i, out)]) Y = del_out (outkey i) (to_addresses out) (ins_del ios Y)"
  by (simp add: ins_del_def)

lemma ins_put_snoc: "ins_put (ios @ [(i, out)]) Y = put_out (outkey i) (to_value out) (to_addresses out) (ins_put ios Y)"
  by (simp add: ins_put_def)

lemma zip_outkeys:
  assumes "length prevs = length is" and "distinct (map outkey is)" and "zip is prevs = pre @ (i, out) # rest"
  shows "\<forall>io \<in> set pre. outkey (fst io) \<noteq> outkey i" "distinct (map (\<lambda>io. outkey (fst io)) pre)"
proof -
  have "map outkey is = map (\<lambda>io. outkey (fst io)) (zip is prevs)"
    using assms(1) by (simp add: comp_def flip: map_map [of outkey fst, unfolded comp_def])
  with assms(2,3) have "outkey i \<notin> (\<lambda>io. outkey (fst io)) ` set pre" and "distinct (map (\<lambda>io. outkey (fst io)) pre)" by auto
  then show "\<forall>io \<in> set pre. outkey (fst io) \<noteq> outkey i" "distinct (map (\<lambda>io. outkey (fst io)) pre)" by (metis imageI)+
qed

lemma removeUnspentOutputs_at:
  assumes s: "at_ctl V A D c B Y P s" and R: "rocks_ok (pe_rocks E) V" and A: "D \<subseteq> A"
    and len: "length prevs = length (vin tx)" and d: "distinct (map outkey (vin tx))"
    and ins: "\<And>i out. (i, out) \<in> set (zip (vin tx) prevs) \<Longrightarrow> set (to_addresses out) \<subseteq> D \<and> distinct (to_addresses out) \<and>
      (\<forall>a \<in> set (to_addresses out). Y a (outkey i) \<noteq> None)"
  shows "returns (acceptTx_removeUnspentOutputs E tx prevs s) (at_ctl V A D c B (ins_del (zip (vin tx) prevs) Y) P)"
  unfolding acceptTx_removeUnspentOutputs_def
proof (rule returns_bind, rule returns_assert [OF len],
    rule returns_zip [where I = "\<lambda>pre. at_ctl V A D c B (ins_del pre Y) P"])
  fix pre i out rest t
  assume z: "zip (vin tx) prevs = pre @ (i, out) # rest" and t: "at_ctl V A D c B (ins_del pre Y) P t"
  note new = zip_outkeys(1) [OF len d z]
  have out: "set (to_addresses out) \<subseteq> D" "distinct (to_addresses out)" "\<forall>a \<in> set (to_addresses out). Y a (outkey i) \<noteq> None"
    using ins [of i out] z by auto
  have "ins_del pre Y a (op_hash (prevout i), sint (op_n (prevout i))) \<noteq> None" if "a \<in> set (to_addresses out)" for a
    using out(3) that new by (auto simp: ins_del_at outkey_eq)
  from remove_slots [OF at_ctlD(1) [OF t] R _ out(2) this]
  have "returns (foldE (removeUnspent E (prevout i)) (to_addresses out) t) (\<lambda>s'. pinv V A s' (D \<union> set (to_addresses out)) B
     (del_out (outkey i) (to_addresses out) (ins_del pre Y)) P \<and> ctl s' = ctl t)"
    using out(1) A by (simp add: outkey_eq)
  then show "returns ((\<lambda>(i, out) s. foldE (removeUnspent E (prevout i)) (to_addresses out) s) (i, out) t)
     (at_ctl V A D c B (ins_del (pre @ [(i, out)]) Y) P)"
    using out(1) at_ctlD(2) [OF t] unfolding prod.case ins_del_snoc by (elim returns_mono) (auto intro!: at_ctl_grow)
qed (use len s in \<open>simp_all add: ins_del_def\<close>)

lemma insertSpendTxs_at:
  assumes s: "at_ctl V A D c B Y P s" and R: "rocks_ok (pe_rocks E) V"
  shows "returns (acceptTx_insertSpendTxs E h tx s) (at_ctl V A D c B Y (spends_put h (vin tx) P))"
  unfolding acceptTx_insertSpendTxs_def
proof (rule returns_enumerate [where I = "\<lambda>pre. at_ctl V A D c B Y (spends_put h pre P)"])
  show "at_ctl V A D c B Y (spends_put h [] P) s" using s by (simp add: spends_put_def)
next
  fix pre i rest t assume t: "at_ctl V A D c B Y (spends_put h pre P) t"
  have "spends_put h (pre @ [i]) P =
      (spends_put h pre P)(spend_key i \<mapsto> VSpentBy \<lparr>ts_position = int (length pre), ts_tx_hash = ToString h\<rparr>)"
    by (simp add: spends_put_def fold_enumerate_snoc)
  moreover have "returns (kvset E (key_str (spend_key i)) (VSpentBy \<lparr>ts_position = int (length pre), ts_tx_hash = ToString h\<rparr>) t)
      (at_ctl V A D c B Y ((spends_put h pre P)(spend_key i \<mapsto> VSpentBy \<lparr>ts_position = int (length pre), ts_tx_hash = ToString h\<rparr>)))"
    by (rule kvset_pinv [OF at_ctlD(1) [OF t] R]) (simp_all add: at_ctl_def at_ctlD(2) [OF t])
  ultimately show "returns ((\<lambda>(n, i) s. kvset E (key_str (KSpend (op_hash (prevout i)) (sint (op_n (prevout i)))))
         (VSpentBy \<lparr>ts_position = int n, ts_tx_hash = ToString h\<rparr>) s) (length pre, i) t)
     (at_ctl V A D c B Y (spends_put h (pre @ [i]) P))"
    unfolding prod.case spend_key_def by metis
qed

lemma reject_inputs_at:
  assumes s: "at_ctl V A D c B Y P s" and R: "rocks_ok (pe_rocks E) V" and A: "D \<subseteq> A"
    and len: "length prevs = length is" and d: "distinct (map outkey is)"
    and ins: "\<And>i out. (i, out) \<in> set (zip is prevs) \<Longrightarrow> set (to_addresses out) \<subseteq> D \<and> distinct (to_addresses out) \<and>
      (\<forall>a \<in> set (to_addresses out). Y a (outkey i) = None)"
  shows "returns (foldE (reject_input E) (zip is prevs) ([], s)) (\<lambda>(bal, s'). bal = in_balance prevs [] \<and>
     at_ctl V A D c B (ins_put (zip is prevs) Y) (spends_del is P) s')"
proof (rule returns_zip [where I = "\<lambda>pre (bal, s'). bal = in_balance (map snd pre) [] \<and>
     at_ctl V A D c B (ins_put pre Y) (spends_del (map fst pre) P) s'"])
  show "case ([], s) of (bal, s') \<Rightarrow> bal = in_balance (map snd []) [] \<and> at_ctl V A D c B (ins_put [] Y) (spends_del (map fst []) P) s'"
    using s by (simp add: in_balance_def spends_del_def)
next
  fix pre i out rest t
  assume z: "zip is prevs = pre @ (i, out) # rest" and t: "case t of (bal, s') \<Rightarrow> bal = in_balance (map snd pre) [] \<and>
     at_ctl V A D c B (ins_put pre Y) (spends_del (map fst pre) P) s'"
  obtain s' where t': "t = (in_balance (map snd pre) [], s')" "at_ctl V A D c B (ins_put pre Y) (spends_del (map fst pre) P) s'"
    using t by auto
  note new = zip_outkeys(1) [OF len d z] and dp = zip_outkeys(2) [OF len d z]
  have out: "set (to_addresses out) \<subseteq> D" "distinct (to_addresses out)" "\<forall>a \<in> set (to_addresses out). Y a (outkey i) = None"
    using ins [of i out] z by auto
  have "outkey i \<notin> fst ` set (map (\<lambda>(i, out). (outkey i, out)) pre)" using new by force
  then have "map_of (map (\<lambda>(i, out). (outkey i, out)) pre) (outkey i) = None" unfolding map_of_eq_None_iff .
  then have none: "ins_put pre Y a (op_hash (prevout i), sint (op_n (prevout i))) = None" if "a \<in> set (to_addresses out)" for a
    using out(3) that ins_put_at [OF dp, of Y a "outkey i"] by (simp add: outkey_eq)
  show "returns (reject_input E (i, out) t) (\<lambda>(bal, s'). bal = in_balance (map snd (pre @ [(i, out)])) [] \<and>
     at_ctl V A D c B (ins_put (pre @ [(i, out)]) Y) (spends_del (map fst (pre @ [(i, out)])) P) s')"
    unfolding reject_input_def t'(1) prod.case
  proof (rule returns_bind, fold spend_key_def, rule kvdel_pinv [OF at_ctlD(1) [OF t'(2)] R plain_spend_key])
    fix s1 assume s1: "pinv V A s1 D B (ins_put pre Y) ((spends_del (map fst pre) P)(spend_key i := None))" "ctl s1 = ctl s'"
    have "set (to_addresses out) \<subseteq> A" using out(1) A by blast
    note one = insert_slots [OF s1(1) R this out(2) none, of "to_value out" "to_value out * - 1" "in_balance (map snd pre) []"]
    show "returns (foldE (\<lambda>(j, address) (bal, s).
         bindE (insertAddressUnspent E (to_value out) address (op_hash (prevout i)) (sint (op_n (prevout i))) (int j) s) (\<lambda>s.
         Inr (sm_add address (to_value out * - 1) bal, s))) (enumerate 0 (to_addresses out)) (in_balance (map snd pre) [], s1))
       (\<lambda>(bal, s'). bal = in_balance (map snd (pre @ [(i, out)])) [] \<and>
         at_ctl V A D c B (ins_put (pre @ [(i, out)]) Y) (spends_del (map fst (pre @ [(i, out)])) P) s')"
      using out(1) s1(2) at_ctlD(2) [OF t'(2)]
      by (intro returns_mono [OF one]) (auto simp: in_balance_def ins_put_snoc spends_del_def outkey_eq intro!: at_ctl_grow)
  qed
qed (use len in auto)

lemma reject_outputs_at:
  assumes s: "at_ctl V A D c B Y P s" and R: "rocks_ok (pe_rocks E) V"
    and outs: "\<And>n. n < length vo \<Longrightarrow> set (dests E (vo ! n)) \<subseteq> D \<and> distinct (dests E (vo ! n)) \<and>
      (\<forall>a \<in> set (dests E (vo ! n)). Y a (h, int n) \<noteq> None)"
  shows "returns (foldE (reject_output E h) (enumerate 0 vo) (bal, s)) (\<lambda>(bal', s'). bal' = out_balance E vo bal \<and>
     at_ctl V A D c B (outs_del E h vo Y) P s')"
proof (rule returns_enumerate [where I = "\<lambda>pre (bal', s'). bal' = out_balance E pre bal \<and>
    at_ctl V A D c B (outs_del E h pre Y) P s'"])
  show "case (bal, s) of (bal', s') \<Rightarrow> bal' = out_balance E [] bal \<and> at_ctl V A D c B (outs_del E h [] Y) P s'"
    using s by (simp add: out_balance_def outs_del_def)
next
  fix pre out rest t
  assume vo: "vo = pre @ out # rest" and t: "case t of (bal', s') \<Rightarrow> bal' = out_balance E pre bal \<and>
      at_ctl V A D c B (outs_del E h pre Y) P s'"
  obtain s' where t': "t = (out_balance E pre bal, s')" "at_ctl V A D c B (outs_del E h pre Y) P s'"
    using t by auto
  have out: "set (dests E out) \<subseteq> D" "distinct (dests E out)" "\<forall>a \<in> set (dests E out). Y a (h, int (length pre)) \<noteq> None"
    using outs [of "length pre"] vo by auto
  then have some: "\<And>a. a \<in> set (dests E out) \<Longrightarrow> outs_del E h pre Y a (h, int (length pre)) \<noteq> None"
    by (simp add: outs_del_at)
  note one = delete_slots [OF at_ctlD(1) [OF t'(2)] R out(2) some, of "nValue out" "out_balance E pre bal"]
  show "returns (reject_output E h (length pre, out) t) (\<lambda>(bal', s'). bal' = out_balance E (pre @ [out]) bal \<and>
      at_ctl V A D c B (outs_del E h (pre @ [out]) Y) P s')"
    unfolding reject_output_def t'(1) prod.case
    using out(1) at_ctlD(2) [OF t'(2)]
    by (intro returns_mono [OF one]) (auto simp: out_balance_def outs_del_snoc intro!: at_ctl_grow)
qed auto

end
