(* ===== verification/Ledger.thy ===== *)
theory Ledger
  imports TxHandlers
begin

text \<open>
  The ledger: what the database of \<open>tparser\<close> says, apart from how it is laid out. It has the
  book of the addresses (their transactions, confirmed and unconfirmed), the table of unspent
  outputs, the other records and the counters of unconfirmed transactions. \<open>holds\<close> relates a
  state of the program to a ledger. The four handlers of src/jiexi/src/Parser.cc are shown
  to do on the program's state what \<open>ledger_accept\<close>, \<open>ledger_confirm\<close>, \<open>ledger_unconfirm\<close> and
  \<open>ledger_reject\<close> do on the ledger.
\<close>

record ledger =
  lg_book :: book
  lg_utxo :: utxo
  lg_recs :: "kvkey \<Rightarrow> kvval option"
  lg_count :: int
  lg_size :: int

definition holds :: "('db \<Rightarrow> string \<Rightarrow> kvval option) \<Rightarrow> string set \<Rightarrow> 'db pstate \<Rightarrow> ledger \<Rightarrow> bool" where
  "holds V A s L = (pinv V A s {} (lg_book L) (lg_utxo L) (lg_recs L) \<and>
     p_unconfirmedTxsCount s = lg_count L \<and> p_unconfirmedTxsSize s = lg_size L)"

section \<open>Transactions seen by the ledger\<close>

definition spent_ins :: "CTransaction \<Rightarrow> CTxIn list" where
  "spent_ins tx = (if IsCoinBase tx then [] else vin tx)"

definition prevs_of :: "(kvkey \<Rightarrow> kvval option) \<Rightarrow> CTransaction \<Rightarrow> fb_TxOutput list" where
  "prevs_of P tx = map (\<lambda>i. the (prev_output P (prevout i))) (spent_ins tx)"

definition tx_balance :: "'db penv \<Rightarrow> (kvkey \<Rightarrow> kvval option) \<Rightarrow> CTransaction \<Rightarrow> (string, int) smap" where
  "tx_balance E P tx = out_balance E (vout tx) (in_balance (prevs_of P tx) [])"

definition touched :: "'db penv \<Rightarrow> (kvkey \<Rightarrow> kvval option) \<Rightarrow> CTransaction \<Rightarrow> string set" where
  "touched E P tx = fst ` set (tx_balance E P tx)"

definition spends_known :: "(kvkey \<Rightarrow> kvval option) \<Rightarrow> CTransaction \<Rightarrow> bool" where
  "spends_known P tx = (\<forall>i \<in> set (spent_ins tx). prev_output P (prevout i) \<noteq> None)"

definition out_total :: "CTransaction \<Rightarrow> int" where
  "out_total tx = sum_list (map nValue (vout tx))"

definition accepted_tx :: "'db penv \<Rightarrow> TxLog2 \<Rightarrow> fb_TxOutput list \<Rightarrow> fb_Tx" where
  "accepted_tx E l prevs = (let tx = tl_tx l; (valueIn, bal, ins) = accept_inputs E tx prevs in
     \<lparr>ft_block_height = - 1, ft_block_time = 0, ft_is_coinbase = IsCoinBase tx, ft_version = nVersion tx,
      ft_lock_time = nLockTime tx, ft_size = int (length (tl_txHex l) div 2),
      ft_fee = (if IsCoinBase tx then out_total tx else valueIn - out_total tx),
      ft_inputs = ins, ft_inputs_count = int (length (vin tx)), ft_inputs_value = valueIn,
      ft_outputs = map (fb_output E) (vout tx), ft_outputs_count = int (length (vout tx)),
      ft_outputs_value = out_total tx, ft_created_at = pe_time E, ft_is_double_spend = False\<rparr>)"

definition hex_size :: "TxLog2 \<Rightarrow> int" where
  "hex_size l = int (length (tl_txHex l) div 2)"

definition hash_position :: "uint256 \<Rightarrow> entry list \<Rightarrow> nat" where
  "hash_position h U = length (takeWhile (\<lambda>e. e_hash e \<noteq> h) U)"

lemma hash_position_at:
  assumes "h \<in> e_hash ` set U"
  shows "hash_position h U < length U" "e_hash (U ! hash_position h U) = h"
proof -
  have "takeWhile (\<lambda>e. e_hash e \<noteq> h) U \<noteq> U" using assms by (auto simp: takeWhile_eq_all_conv)
  then show lt: "hash_position h U < length U" unfolding hash_position_def
    by (metis length_takeWhile_le le_neq_implies_less takeWhile_eq_take take_all_iff)
  from nth_length_takeWhile [OF lt [unfolded hash_position_def]] show "e_hash (U ! hash_position h U) = h"
    by (simp add: hash_position_def)
qed

section \<open>The operations\<close>

definition recount :: "int \<Rightarrow> int \<Rightarrow> ledger \<Rightarrow> ledger" where
  \<comment> \<open>the counters, in memory and in the records \<open>90_tparser_unconfirmed_txs_count\<close> and \<open>_size\<close>\<close>
  "recount c z L = L\<lparr>lg_count := c, lg_size := z,
     lg_recs := (lg_recs L)(KUnconfCount \<mapsto> VStr (fmt_d c), KUnconfSize \<mapsto> VStr (fmt_d z))\<rparr>"

definition unconfirmed_rec :: "uint256 \<Rightarrow> fb_Tx \<Rightarrow> kvval" where
  "unconfirmed_rec h t = VUnconfirmed \<lparr>ut_tx_hash = ToString h, ut_fee = ft_fee t, ut_size = ft_size t\<rparr>"

definition ledger_accept :: "'db penv \<Rightarrow> TxLog2 \<Rightarrow> ledger \<Rightarrow> ledger" where
  "ledger_accept E l L = (let tx = tl_tx l; h = tl_txHash l; prevs = prevs_of (lg_recs L) tx; t = accepted_tx E l prevs in
     recount (lg_count L + 1) (lg_size L + hex_size l) (L\<lparr>
       lg_book := upd_pages (tx_balance E (lg_recs L) tx)
         (\<lambda>a d. page_accept \<lparr>e_hash = h, e_diff = d, e_height = - 1, e_time = tl_maxBlkTimestamp l\<rparr>) (lg_book L),
       lg_utxo := ins_del (zip (spent_ins tx) prevs) (outs_put E h (vout tx) (lg_utxo L)),
       lg_recs := (spends_put h (spent_ins tx) ((lg_recs L)(KTx h \<mapsto> VTx t)))(KUnconfirmed h \<mapsto> unconfirmed_rec h t)\<rparr>))"

definition confirmed_tx :: "'db penv \<Rightarrow> TxLog2 \<Rightarrow> fb_Tx \<Rightarrow> fb_Tx" where
  "confirmed_tx E l t =
     (let t = (if IsCoinBase (tl_tx l) then t\<lparr>ft_fee := out_total (tl_tx l) - GetBlockValue (pe_interval E) (tl_blkHeight l) 0\<rparr>
               else t)
      in t\<lparr>ft_block_height := tl_blkHeight l, ft_block_time := tl_maxBlkTimestamp l\<rparr>)"

definition ledger_tx :: "ledger \<Rightarrow> uint256 \<Rightarrow> fb_Tx" where
  "ledger_tx L h = (case lg_recs L (KTx h) of Some (VTx t) \<Rightarrow> t | _ \<Rightarrow> undefined)"

definition ledger_confirm :: "'db penv \<Rightarrow> TxLog2 \<Rightarrow> ledger \<Rightarrow> ledger" where
  "ledger_confirm E l L = (let h = tl_txHash l in
     recount (lg_count L - 1) (lg_size L - hex_size l) (L\<lparr>
       lg_book := upd_pages (tx_balance E (lg_recs L) (tl_tx l)) (\<lambda>a d pg.
         page_confirm (hash_position h (snd pg)) (tl_blkHeight l) (tl_maxBlkTimestamp l) pg) (lg_book L),
       lg_recs := (lg_recs L)(KTx h \<mapsto> VTx (confirmed_tx E l (ledger_tx L h)), KUnconfirmed h := None)\<rparr>))"

definition ledger_unconfirm :: "'db penv \<Rightarrow> TxLog2 \<Rightarrow> ledger \<Rightarrow> ledger" where
  "ledger_unconfirm E l L = (let h = tl_txHash l; t = ledger_tx L h in
     recount (lg_count L + 1) (lg_size L + hex_size l) (L\<lparr>
       lg_book := upd_pages (tx_balance E (lg_recs L) (tl_tx l)) (\<lambda>a d. page_unconfirm) (lg_book L),
       lg_recs := (lg_recs L)(KTx h \<mapsto> VTx (t\<lparr>ft_block_time := 0, ft_block_height := - 1\<rparr>),
         KUnconfirmed h \<mapsto> unconfirmed_rec h t)\<rparr>))"

definition ledger_reject :: "'db penv \<Rightarrow> TxLog2 \<Rightarrow> ledger \<Rightarrow> ledger" where
  "ledger_reject E l L = (let tx = tl_tx l; h = tl_txHash l; prevs = prevs_of (lg_recs L) tx in
     recount (lg_count L - 1) (lg_size L - hex_size l) (L\<lparr>
       lg_book := upd_pages (tx_balance E (lg_recs L) tx) (\<lambda>a d pg. page_reject (hash_position h (snd pg)) pg) (lg_book L),
       lg_utxo := outs_del E h (vout tx) (ins_put (zip (spent_ins tx) prevs) (lg_utxo L)),
       lg_recs := (spends_del (spent_ins tx) (lg_recs L))
         (KTx h \<mapsto> VTx ((ledger_tx L h)\<lparr>ft_is_double_spend := True\<rparr>), KUnconfirmed h := None)\<rparr>))"

text \<open>The lines written to the notification log for a transaction.\<close>

definition note_lines :: "'db penv \<Rightarrow> (string, int) smap \<Rightarrow> TxLog2 \<Rightarrow> int \<Rightarrow> string list" where
  "note_lines E bal l height =
     (if height \<noteq> - 1 \<and> pe_notifyBeginHeight E \<noteq> - 1 \<and> height < pe_notifyBeginHeight E then []
      else [concat (map (\<lambda>it. NotifyItem_toStr (pe_gmtime E) (NotifyItem_loadtx (pe_time E) (notify_type (tl_type l))
         (fst it) (tl_txHash l) (tl_blkHeight l) (snd it)) @ [CHR 0x0A]) bal)])"

section \<open>When the handlers succeed\<close>

text \<open>
  The transaction spends known outputs, its addresses are in the cache's reach, its value is
  in range, and no output names an address twice.
\<close>

definition tx_ready :: "'db penv \<Rightarrow> string set \<Rightarrow> CTransaction \<Rightarrow> (kvkey \<Rightarrow> kvval option) \<Rightarrow> bool" where
  "tx_ready E A tx P = (spends_known P tx \<and> touched E P tx \<subseteq> A \<and> GetValueOut tx = Inr (out_total tx) \<and>
     distinct (map outkey (spent_ins tx)) \<and> (\<forall>out \<in> set (vout tx). distinct (dests E out)) \<and>
     (\<forall>out \<in> set (prevs_of P tx). distinct (to_addresses out)))"

definition accept_ready :: "'db penv \<Rightarrow> string set \<Rightarrow> TxLog2 \<Rightarrow> ledger \<Rightarrow> bool" where
  "accept_ready E A l L = (tl_blkHeight l = - 1 \<and> tx_ready E A (tl_tx l) (lg_recs L) \<and>
     (\<forall>a n. lg_utxo L a (tl_txHash l, n) = None) \<and>
     (\<forall>(i, out) \<in> set (zip (spent_ins (tl_tx l)) (prevs_of (lg_recs L) (tl_tx l))).
        \<forall>a \<in> set (to_addresses out). lg_utxo L a (outkey i) \<noteq> None) \<and>
     (\<forall>a \<in> touched E (lg_recs L) (tl_tx l). tl_txHash l \<notin> e_hash ` set (fst (lg_book L a) @ snd (lg_book L a))))"

definition confirm_ready :: "'db penv \<Rightarrow> string set \<Rightarrow> TxLog2 \<Rightarrow> ledger \<Rightarrow> bool" where
  "confirm_ready E A l L = (0 \<le> tl_blkHeight l \<and> tx_ready E A (tl_tx l) (lg_recs L) \<and>
     (\<exists>t. lg_recs L (KTx (tl_txHash l)) = Some (VTx t)) \<and>
     (\<forall>a \<in> touched E (lg_recs L) (tl_tx l). tl_txHash l \<in> e_hash ` set (snd (lg_book L a))))"

definition unconfirm_ready :: "'db penv \<Rightarrow> string set \<Rightarrow> TxLog2 \<Rightarrow> ledger \<Rightarrow> bool" where
  "unconfirm_ready E A l L = (tx_ready E A (tl_tx l) (lg_recs L) \<and>
     (\<exists>t. lg_recs L (KTx (tl_txHash l)) = Some (VTx t)) \<and>
     (\<forall>a \<in> touched E (lg_recs L) (tl_tx l). fst (lg_book L a) \<noteq> [] \<and> e_hash (last (fst (lg_book L a))) = tl_txHash l))"

definition reject_ready :: "'db penv \<Rightarrow> string set \<Rightarrow> TxLog2 \<Rightarrow> ledger \<Rightarrow> bool" where
  "reject_ready E A l L = (tx_ready E A (tl_tx l) (lg_recs L) \<and> object_text_ok E \<and>
     (\<exists>t. lg_recs L (KTx (tl_txHash l)) = Some (VTx t)) \<and>
     (\<forall>(i, out) \<in> set (zip (spent_ins (tl_tx l)) (prevs_of (lg_recs L) (tl_tx l))).
        \<forall>a \<in> set (to_addresses out). lg_utxo L a (outkey i) = None) \<and>
     (\<forall>n < length (vout (tl_tx l)). \<forall>a \<in> set (dests E (vout (tl_tx l) ! n)). lg_utxo L a (tl_txHash l, int n) \<noteq> None) \<and>
     (\<forall>a \<in> touched E (lg_recs L) (tl_tx l). tl_txHash l \<in> e_hash ` set (snd (lg_book L a))))"

section \<open>The steps of a handler\<close>

lemma prev_output_cong: "(\<And>h. W (KTx h) = P (KTx h)) \<Longrightarrow> prev_output W p = prev_output P p"
  by (simp add: prev_output_def)

lemma length_prevs_of [simp]: "length (prevs_of P tx) = length (spent_ins tx)"
  by (simp add: prevs_of_def)

lemma get_prevs:
  assumes "pinv V A s D B Y P" and "rocks_ok (pe_rocks E) V" and "spends_known P tx"
  shows "(if \<not> IsCoinBase tx then KVDB_getPrevTxOutputs (pe_rocks E) tx (p_kv s) else Inr []) = Inr (prevs_of P tx)"
proof -
  from assms(1) have tx: "kv_view V (p_kv s) (KTx h) = P (KTx h)" for h by (auto simp: pinv_def st_def view_def)
  have "prev_output (kv_view V (p_kv s)) p = prev_output P p" for p by (rule prev_output_cong) (rule tx)
  then show ?thesis
    using getPrevTxOutputs_ok [OF assms(2), of tx "p_kv s"] assms(3)
    by (simp add: prevs_of_def spends_known_def spent_ins_def)
qed

lemma ExtractDestinations_bad: "ExtractDestinations E script = (False, type, as) \<Longrightarrow> as = []"
  by (auto simp: ExtractDestinations_def split: prod.splits if_splits option.splits)

lemma tx_balance_at:
  assumes "pinv V A s D B Y P" and "rocks_ok (pe_rocks E) V" and "spends_known P tx"
  shows "getTxAddressBalance E tx s = Inr (tx_balance E P tx)"
proof -
  have "(case ExtractDestinations E (scriptPubKey out) of (ok, type, addresses) \<Rightarrow>
      if \<not> ok then bal else fold (\<lambda>addr. sm_add addr (nValue out)) addresses bal) =
     fold (\<lambda>a. sm_add a (nValue out)) (dests E out) bal" for out :: CTxOut and bal
    using ExtractDestinations_bad [of E "scriptPubKey out"]
    by (cases "ExtractDestinations E (scriptPubKey out)") (auto simp: dests_def)
  note loop = this
  show ?thesis
    unfolding getTxAddressBalance_def tx_balance_def in_balance_def out_balance_def loop
    using get_prevs [OF assms] by (cases "IsCoinBase tx") (simp_all add: prevs_of_def spent_ins_def)
qed

lemma touched_outs: "out \<in> set (vout tx) \<Longrightarrow> set (dests E out) \<subseteq> touched E P tx"
  by (auto simp: touched_def tx_balance_def keys_out_balance)

lemma touched_prevs: "out \<in> set (prevs_of P tx) \<Longrightarrow> set (to_addresses out) \<subseteq> touched E P tx"
  by (auto simp: touched_def tx_balance_def keys_out_balance keys_in_balance)

lemma sm_wf_tx_balance: "sm_wf (tx_balance E P tx)"
  by (simp add: tx_balance_def sm_wf_out_balance sm_wf_in_balance)

lemma accept_inputs_coinbase: "fst (snd (fold (accept_input E True) ios (v, bal, ins))) = bal"
proof (induction ios arbitrary: v ins)
  case (Cons io ios)
  then show ?case by (cases io) (simp add: accept_input_def)
qed simp

lemma accept_inputs_spent:
  "length is = length ps \<Longrightarrow> fst (snd (fold (accept_input E False) (zip is ps) (v, bal, ins))) = in_balance ps bal"
  by (induction "is" ps arbitrary: v bal ins rule: list_induct2) (simp_all add: accept_input_def in_balance_def)

lemma accept_inputs_balance:
  "length prevs = length (spent_ins tx) \<Longrightarrow> fst (snd (accept_inputs E tx prevs)) = in_balance prevs []"
  by (cases "IsCoinBase tx")
    (simp_all add: accept_inputs_def spent_ins_def accept_inputs_coinbase accept_inputs_spent in_balance_def)

lemma book_at:
  assumes "at_ctl V A D c B Y P s" and "D' \<subseteq> D"
    and "\<And>W I. st V A s W I \<Longrightarrow> book_ok W I B \<Longrightarrow> returns m (book_step V A s W I D' B')"
  shows "returns m (at_ctl V A D c B' Y P)"
proof -
  from assms(1) obtain W I K where 1: "st V A s W I" "book_ok W I B" "unspent_ok W I Y K"
    "\<And>k. plain_key k \<Longrightarrow> W k = P k" "\<And>a. a \<notin> D \<Longrightarrow> stored_info W a = I a" by (auto simp: pinv_def at_ctl_def)
  show ?thesis
  proof (rule returns_mono [OF assms(3) [OF 1(1,2)]])
    fix s' assume "book_step V A s W I D' B' s'"
    from this 1(3-5) have "pinv V A s' (D \<union> D') B' Y P \<and> ctl s' = ctl s" by (rule pinv_book_step)
    with assms(1,2) show "at_ctl V A D c B' Y P s'" by (auto simp: at_ctl_def sup_absorb1)
  qed
qed

lemma put_at:
  assumes "at_ctl V A D c B Y P s" and "rocks_ok (pe_rocks E) V" and "plain_key k"
    and "\<And>s'. at_ctl V A D c B Y (P(k \<mapsto> v)) s' \<Longrightarrow> Q s'"
  shows "returns (kvset E (key_str k) v s) Q"
  by (rule kvset_pinv [OF at_ctlD(1) [OF assms(1)] assms(2,3)]) (simp add: assms(4) at_ctl_def at_ctlD(2) [OF assms(1)])

lemma del_at:
  assumes "at_ctl V A D c B Y P s" and "rocks_ok (pe_rocks E) V" and "plain_key k"
    and "\<And>s'. at_ctl V A D c B Y (P(k := None)) s' \<Longrightarrow> Q s'"
  shows "returns (kvdel E (key_str k) s) Q"
  by (rule kvdel_pinv [OF at_ctlD(1) [OF assms(1)] assms(2,3)]) (simp add: assms(4) at_ctl_def at_ctlD(2) [OF assms(1)])

text \<open>The end of a handler: addresses, counters, notification.\<close>

definition does :: "('db \<Rightarrow> string \<Rightarrow> kvval option) \<Rightarrow> string set \<Rightarrow> 'db pstate \<Rightarrow> ledger \<Rightarrow> string list \<Rightarrow> 'db pstate \<Rightarrow> bool" where
  "does V A s L lines s' = (holds V A s' L \<and> p_currBlockHeight s' = p_currBlockHeight s \<and>
     p_notified s' = p_notified s @ lines)"

lemma writeNotificationLogs_lines:
  "writeNotificationLogs E bal l s = s\<lparr>p_notified := p_notified s @ note_lines E bal l (p_currBlockHeight s)\<rparr>"
  by (simp add: writeNotificationLogs_def note_lines_def isWriteNotificationLogs_def)

lemma counters_at:
  assumes "pinv V A s D B Y P" and R: "rocks_ok (pe_rocks E) V"
  shows "returns (store_pool_counters E (s\<lparr>p_unconfirmedTxsCount := c, p_unconfirmedTxsSize := z\<rparr>)) (\<lambda>s'.
     pinv V A s' D B Y (P(KUnconfCount \<mapsto> VStr (fmt_d c), KUnconfSize \<mapsto> VStr (fmt_d z))) \<and>
     ctl s' = (c, z, p_currBlockHeight s, p_notified s))"
  by (rule store_pool_counters_pinv [OF _ R, where s = "s\<lparr>p_unconfirmedTxsCount := c, p_unconfirmedTxsSize := z\<rparr>"])
    (simp_all add: assms ctl_def)

lemma finish_at:
  assumes s: "at_ctl V A (fst ` set bal) (c, z, x, n) (lg_book L) (lg_utxo L) (lg_recs L) s" and R: "rocks_ok (pe_rocks E) V"
    and A: "fst ` set bal \<subseteq> A" and f: "f = (\<lambda>s. s\<lparr>p_unconfirmedTxsCount := p_unconfirmedTxsCount s + c',
      p_unconfirmedTxsSize := p_unconfirmedTxsSize s + z'\<rparr>)"
  shows "returns (bindE (flushAddressInfo E bal s) (\<lambda>s. bindE (store_pool_counters E (f s))
      (\<lambda>s. Inr (writeNotificationLogs E bal l s))))
    (\<lambda>s'. holds V A s' (recount (c + c') (z + z') L) \<and> p_currBlockHeight s' = x \<and>
      p_notified s' = n @ note_lines E bal l x)"
proof (rule returns_bind, rule flushAddressInfo_pinv [OF at_ctlD(1) [OF s] R A])
  fix s1 assume s1: "pinv V A s1 (fst ` set bal - fst ` set bal) (lg_book L) (lg_utxo L) (lg_recs L)" "ctl s1 = ctl s"
  then have c: "f s1 = s1\<lparr>p_unconfirmedTxsCount := c + c', p_unconfirmedTxsSize := z + z'\<rparr>"
    "p_currBlockHeight s1 = x" "p_notified s1 = n"
    using at_ctlD(2) [OF s] by (simp_all add: ctl_def f)
  have "pinv V A s1 {} (lg_book L) (lg_utxo L) (lg_recs L)" using s1(1) by simp
  from counters_at [OF this R, where c = "c + c'" and z = "z + z'"] c
  show "returns (bindE (store_pool_counters E (f s1)) (\<lambda>s. Inr (writeNotificationLogs E bal l s)))
    (\<lambda>s'. holds V A s' (recount (c + c') (z + z') L) \<and> p_currBlockHeight s' = x \<and>
      p_notified s' = n @ note_lines E bal l x)"
    unfolding c
    by (intro returns_bind) (elim returns_mono, simp add: writeNotificationLogs_lines holds_def recount_def ctl_def)
qed

lemma holds_at:
  "holds V A s L \<Longrightarrow> at_ctl V A D (lg_count L, lg_size L, p_currBlockHeight s, p_notified s)
     (lg_book L) (lg_utxo L) (lg_recs L) s"
  by (auto simp: holds_def at_ctl_def ctl_def intro: pinv_mono)

lemmas pool_defs = addUnconfirmedTxPool_def removeUnconfirmedTxPool_def

lemma pool_step:
  "addUnconfirmedTxPool E l s = store_pool_counters E ((\<lambda>s. s\<lparr>p_unconfirmedTxsCount := p_unconfirmedTxsCount s + 1,
     p_unconfirmedTxsSize := p_unconfirmedTxsSize s + hex_size l\<rparr>) s)"
  "removeUnconfirmedTxPool E l s = store_pool_counters E ((\<lambda>s. s\<lparr>p_unconfirmedTxsCount := p_unconfirmedTxsCount s + - 1,
     p_unconfirmedTxsSize := p_unconfirmedTxsSize s + - hex_size l\<rparr>) s)"
  by (simp_all add: pool_defs hex_size_def)

lemma finish_add:
  assumes "at_ctl V A (fst ` set bal) (c, z, p_currBlockHeight s0, p_notified s0) (lg_book L) (lg_utxo L) (lg_recs L) s"
    and "rocks_ok (pe_rocks E) V" and "fst ` set bal \<subseteq> A"
  shows "returns (bindE (flushAddressInfo E bal s) (\<lambda>s. bindE (addUnconfirmedTxPool E l s)
      (\<lambda>s. Inr (writeNotificationLogs E bal l s))))
    (does V A s0 (recount (c + 1) (z + hex_size l) L) (note_lines E bal l (p_currBlockHeight s0)))"
  unfolding pool_step does_def [abs_def] by (rule finish_at [OF assms refl])

lemma finish_remove:
  assumes "at_ctl V A (fst ` set bal) (c, z, p_currBlockHeight s0, p_notified s0) (lg_book L) (lg_utxo L) (lg_recs L) s"
    and "rocks_ok (pe_rocks E) V" and "fst ` set bal \<subseteq> A"
  shows "returns (bindE (flushAddressInfo E bal s) (\<lambda>s. bindE (removeUnconfirmedTxPool E l s)
      (\<lambda>s. Inr (writeNotificationLogs E bal l s))))
    (does V A s0 (recount (c - 1) (z - hex_size l) L) (note_lines E bal l (p_currBlockHeight s0)))"
  using finish_at [OF assms refl, where c' = "- 1" and z' = "- hex_size l" and l = l] unfolding pool_step does_def [abs_def] by simp

section \<open>confirmTx\<close>

lemma confirmTx_does:
  assumes s: "holds V A s L" and R: "rocks_ok (pe_rocks E) V" and ready: "confirm_ready E A l L"
  shows "returns (confirmTx E l s) (does V A s (ledger_confirm E l L)
     (note_lines E (tx_balance E (lg_recs L) (tl_tx l)) l (p_currBlockHeight s)))"
proof -
  let ?tx = "tl_tx l" and ?h = "tl_txHash l" and ?P = "lg_recs L"
  let ?bal = "tx_balance E ?P ?tx"
  let ?q = "\<lambda>a. hash_position ?h (snd (lg_book L a))"
  let ?B = "upd_pages ?bal (\<lambda>a d pg. page_confirm (hash_position ?h (snd pg)) (tl_blkHeight l) (tl_maxBlkTimestamp l) pg) (lg_book L)"
  obtain t where t: "?P (KTx ?h) = Some (VTx t)" using ready by (auto simp: confirm_ready_def)
  have tx: "spends_known ?P ?tx" "fst ` set ?bal \<subseteq> A" "GetValueOut ?tx = Inr (out_total ?tx)"
    using ready by (auto simp: confirm_ready_def tx_ready_def touched_def)
  have B: "?B = upd_pages ?bal (\<lambda>a d. page_confirm (?q a) (tl_blkHeight l) (tl_maxBlkTimestamp l)) (lg_book L)"
    by (auto simp: upd_pages_def fun_eq_iff split: option.splits)
  have q: "?q a < length (snd (lg_book L a)) \<and> e_hash (snd (lg_book L a) ! ?q a) = ?h" if "a \<in> fst ` set ?bal" for a
  proof -
    from ready that have "?h \<in> e_hash ` set (snd (lg_book L a))" unfolding confirm_ready_def touched_def by blast
    from hash_position_at [OF this] show ?thesis by (rule conjI)
  qed
  show ?thesis
    unfolding confirmTx_def Let_def tx_balance_at [OF at_ctlD(1) [OF holds_at [OF s, of "{}"]] R tx(1)] bindE_simps
  proof (rule returns_bind, rule returns_mono [OF book_at [OF holds_at [OF s, of "fst ` set ?bal"] order_refl]])
    fix W I assume "st V A s W I" "book_ok W I (lg_book L)"
    then show "returns (foldE (confirmAddressTx E l) ?bal s) (book_step V A s W I (fst ` set ?bal) ?B)"
      unfolding B using ready q by (intro confirmAddressTxs_ok R sm_wf_tx_balance tx(2)) (auto simp: confirm_ready_def)
  next
    fix s1 assume s1: "at_ctl V A (fst ` set ?bal) (lg_count L, lg_size L, p_currBlockHeight s, p_notified s) ?B (lg_utxo L) ?P s1"
    let ?L = "L\<lparr>lg_book := ?B, lg_recs := ?P(KTx ?h \<mapsto> VTx (confirmed_tx E l t), KUnconfirmed ?h := None)\<rparr>"
    have obj: "(if IsCoinBase ?tx then bindE (GetValueOut ?tx) (\<lambda>v. Inr (t\<lparr>ft_fee :=
         v - GetBlockValue (pe_interval E) (tl_blkHeight l) 0\<rparr>)) else Inr t) = Inr (if IsCoinBase ?tx then
         t\<lparr>ft_fee := out_total ?tx - GetBlockValue (pe_interval E) (tl_blkHeight l) 0\<rparr> else t)" using tx(3) by simp
    have ct: "(if IsCoinBase ?tx then t\<lparr>ft_fee := out_total ?tx - GetBlockValue (pe_interval E) (tl_blkHeight l) 0\<rparr> else t)
       \<lparr>ft_block_height := tl_blkHeight l, ft_block_time := tl_maxBlkTimestamp l\<rparr> = confirmed_tx E l t"
      by (simp add: confirmed_tx_def)
    have L: "ledger_confirm E l L = recount (lg_count L - 1) (lg_size L - hex_size l) ?L"
      using t by (simp add: ledger_confirm_def Let_def ledger_tx_def)
    show "returns (bindE (kvget E (key_str (KTx ?h)) s1) (\<lambda>value. bindE (root_Tx value) (\<lambda>txObject.
      bindE (if IsCoinBase ?tx
             then bindE (GetValueOut ?tx) (\<lambda>v. Inr (txObject\<lparr>ft_fee := v - GetBlockValue (pe_interval E) (tl_blkHeight l) 0\<rparr>))
             else Inr txObject) (\<lambda>txObject.
      bindE (kvset E (key_str (KTx ?h)) (VTx (txObject\<lparr>ft_block_height := tl_blkHeight l,
         ft_block_time := tl_maxBlkTimestamp l\<rparr>)) s1) (\<lambda>s.
      bindE (kvdel E (key_str (KUnconfirmed ?h)) s) (\<lambda>s.
      bindE (flushAddressInfo E ?bal s) (\<lambda>s.
      bindE (removeUnconfirmedTxPool E l s) (\<lambda>s.
      Inr (writeNotificationLogs E ?bal l s)))))))))
      (does V A s (ledger_confirm E l L) (note_lines E ?bal l (p_currBlockHeight s)))"
      unfolding L
    proof (rule returns_bind, rule kvget_pinv_rule [OF at_ctlD(1) [OF s1] R _ t], simp, unfold root_simps bindE_simps obj ct,
        rule returns_bind, rule put_at [OF s1 R], simp, rule returns_bind, rule del_at [OF _ R], assumption, simp)
      fix s2 s3 assume "at_ctl V A (fst ` set ?bal) (lg_count L, lg_size L, p_currBlockHeight s, p_notified s) ?B (lg_utxo L)
        (?P(KTx ?h \<mapsto> VTx (confirmed_tx E l t), KUnconfirmed ?h := None)) s3"
      then have "at_ctl V A (fst ` set ?bal) (lg_count L, lg_size L, p_currBlockHeight s, p_notified s) (lg_book ?L) (lg_utxo ?L)
        (lg_recs ?L) s3" by simp
      from finish_remove [OF this R tx(2), of l]
      show "returns (bindE (flushAddressInfo E ?bal s3) (\<lambda>s. bindE (removeUnconfirmedTxPool E l s) (\<lambda>s.
          Inr (writeNotificationLogs E ?bal l s))))
        (does V A s (recount (lg_count L - 1) (lg_size L - hex_size l) ?L) (note_lines E ?bal l (p_currBlockHeight s)))" .
    qed
  qed
qed

section \<open>unconfirmTx\<close>

lemma unconfirmTx_does:
  assumes s: "holds V A s L" and R: "rocks_ok (pe_rocks E) V" and ready: "unconfirm_ready E A l L"
  shows "returns (unconfirmTx E l s) (does V A s (ledger_unconfirm E l L)
     (note_lines E (tx_balance E (lg_recs L) (tl_tx l)) l (p_currBlockHeight s)))"
proof -
  let ?tx = "tl_tx l" and ?h = "tl_txHash l" and ?P = "lg_recs L"
  let ?bal = "tx_balance E ?P ?tx"
  let ?B = "upd_pages ?bal (\<lambda>a d. page_unconfirm) (lg_book L)"
  obtain t where t: "?P (KTx ?h) = Some (VTx t)" using ready by (auto simp: unconfirm_ready_def)
  have tx: "spends_known ?P ?tx" "fst ` set ?bal \<subseteq> A"
    using ready by (auto simp: unconfirm_ready_def tx_ready_def touched_def)
  show ?thesis
    unfolding unconfirmTx_def Let_def tx_balance_at [OF at_ctlD(1) [OF holds_at [OF s, of "{}"]] R tx(1)] bindE_simps
  proof (rule returns_bind, rule returns_mono [OF book_at [OF holds_at [OF s, of "fst ` set ?bal"] order_refl]])
    fix W I assume "st V A s W I" "book_ok W I (lg_book L)"
    then show "returns (foldE (unconfirmAddressTx E l) ?bal s) (book_step V A s W I (fst ` set ?bal) ?B)"
      using ready by (intro unconfirmAddressTxs_ok R sm_wf_tx_balance tx(2)) (auto simp: unconfirm_ready_def touched_def)
  next
    fix s1 assume s1: "at_ctl V A (fst ` set ?bal) (lg_count L, lg_size L, p_currBlockHeight s, p_notified s) ?B (lg_utxo L) ?P s1"
    let ?t = "t\<lparr>ft_block_time := 0, ft_block_height := - 1\<rparr>"
    let ?L = "L\<lparr>lg_book := ?B, lg_recs := ?P(KTx ?h \<mapsto> VTx ?t, KUnconfirmed ?h \<mapsto> unconfirmed_rec ?h t)\<rparr>"
    have L: "ledger_unconfirm E l L = recount (lg_count L + 1) (lg_size L + hex_size l) ?L"
      using t by (simp add: ledger_unconfirm_def Let_def ledger_tx_def)
    show "returns (bindE (kvget E (key_str (KTx ?h)) s1) (\<lambda>value. bindE (root_Tx value) (\<lambda>txObject.
      bindE (kvset E (key_str (KTx ?h)) (VTx (txObject\<lparr>ft_block_time := 0, ft_block_height := - 1\<rparr>)) s1) (\<lambda>s.
      bindE (kvset E (key_str (KUnconfirmed ?h))
        (VUnconfirmed \<lparr>ut_tx_hash = ToString ?h, ut_fee = ft_fee txObject, ut_size = ft_size txObject\<rparr>) s) (\<lambda>s.
      bindE (flushAddressInfo E ?bal s) (\<lambda>s.
      bindE (addUnconfirmedTxPool E l s) (\<lambda>s.
      Inr (writeNotificationLogs E ?bal l s))))))))
      (does V A s (ledger_unconfirm E l L) (note_lines E ?bal l (p_currBlockHeight s)))"
      unfolding L
    proof (rule returns_bind, rule kvget_pinv_rule [OF at_ctlD(1) [OF s1] R _ t], simp, unfold root_simps bindE_simps,
        fold unconfirmed_rec_def,
        rule returns_bind, rule put_at [OF s1 R], simp, rule returns_bind, rule put_at [OF _ R], assumption, simp)
      fix s2 s3 assume "at_ctl V A (fst ` set ?bal) (lg_count L, lg_size L, p_currBlockHeight s, p_notified s) ?B (lg_utxo L)
        (?P(KTx ?h \<mapsto> VTx ?t, KUnconfirmed ?h \<mapsto> unconfirmed_rec ?h t)) s3"
      then have "at_ctl V A (fst ` set ?bal) (lg_count L, lg_size L, p_currBlockHeight s, p_notified s) (lg_book ?L) (lg_utxo ?L)
        (lg_recs ?L) s3" by simp
      from finish_add [OF this R tx(2), of l]
      show "returns (bindE (flushAddressInfo E ?bal s3) (\<lambda>s. bindE (addUnconfirmedTxPool E l s) (\<lambda>s.
          Inr (writeNotificationLogs E ?bal l s))))
        (does V A s (recount (lg_count L + 1) (lg_size L + hex_size l) ?L) (note_lines E ?bal l (p_currBlockHeight s)))" .
    qed
  qed
qed

section \<open>acceptTx\<close>

lemma skip_height: "skip_duplicate_coinbase l \<Longrightarrow> tl_blkHeight l \<noteq> - 1"
  by (auto simp: skip_duplicate_coinbase_def)

lemma outs_put_keeps: "Y a k \<noteq> None \<Longrightarrow> outs_put E h vo Y a k \<noteq> None"
  by (cases k) (auto simp: outs_put_at split: option.splits)

lemma spent_zip:
  assumes "(i, out) \<in> set (zip is ps)"
  shows "i \<in> set is" "out \<in> set ps"
  using assms by (auto dest: set_zip_leftD set_zip_rightD)

lemma acceptTx_does:
  assumes s: "holds V A s L" and R: "rocks_ok (pe_rocks E) V" and ready: "accept_ready E A l L"
  shows "returns (acceptTx E l s) (does V A s (ledger_accept E l L)
     (note_lines E (tx_balance E (lg_recs L) (tl_tx l)) l (p_currBlockHeight s)))"
proof -
  let ?tx = "tl_tx l" and ?h = "tl_txHash l" and ?P = "lg_recs L" and ?Y = "lg_utxo L"
  let ?bal = "tx_balance E ?P ?tx" and ?prevs = "prevs_of ?P ?tx" and ?ins = "spent_ins ?tx"
  let ?D = "fst ` set ?bal" and ?c = "(lg_count L, lg_size L, p_currBlockHeight s, p_notified s)"
  let ?t = "accepted_tx E l ?prevs" and ?e = "\<lambda>d. \<lparr>e_hash = ?h, e_diff = d, e_height = - 1, e_time = tl_maxBlkTimestamp l\<rparr>"
  let ?B = "upd_pages ?bal (\<lambda>a d. page_accept (?e d)) (lg_book L)"
  let ?Y1 = "outs_put E ?h (vout ?tx) ?Y"
  let ?Y2 = "ins_del (zip ?ins ?prevs) ?Y1"
  let ?P1 = "?P(KTx ?h \<mapsto> VTx ?t)"
  let ?P2 = "spends_put ?h ?ins ?P1"
  have h: "tl_blkHeight l = - 1" "\<not> skip_duplicate_coinbase l"
    using ready skip_height by (auto simp: accept_ready_def)
  have tx: "spends_known ?P ?tx" "?D \<subseteq> A" "GetValueOut ?tx = Inr (out_total ?tx)" "distinct (map outkey ?ins)"
    "\<And>out. out \<in> set (vout ?tx) \<Longrightarrow> set (dests E out) \<subseteq> ?D \<and> distinct (dests E out)"
    "\<And>out. out \<in> set ?prevs \<Longrightarrow> set (to_addresses out) \<subseteq> ?D \<and> distinct (to_addresses out)"
    using ready touched_outs [of _ ?tx E ?P] touched_prevs [of _ ?P ?tx E]
    by (auto simp: accept_ready_def tx_ready_def touched_def)
  have none: "?Y a (?h, n) = None" for a n using ready by (simp add: accept_ready_def)
  have known: "set (to_addresses out) \<subseteq> ?D \<and> distinct (to_addresses out) \<and> (\<forall>a \<in> set (to_addresses out). ?Y1 a (outkey i) \<noteq> None)"
    if "(i, out) \<in> set (zip ?ins ?prevs)" for i out
  proof (intro conjI ballI)
    fix a assume "a \<in> set (to_addresses out)"
    with ready that have "?Y a (outkey i) \<noteq> None" by (auto simp: accept_ready_def)
    then show "?Y1 a (outkey i) \<noteq> None" by (rule outs_put_keeps)
  qed (use tx(6) spent_zip(2) [OF that] in blast)+
  obtain v ins where ai: "accept_inputs E ?tx ?prevs = (v, in_balance ?prevs [], ins)"
    using accept_inputs_balance [of ?prevs ?tx E] by (metis length_prevs_of prod.collapse)
  have spent: "returns (if \<not> IsCoinBase ?tx
         then bindE (acceptTx_removeUnspentOutputs E ?tx ?prevs t) (acceptTx_insertSpendTxs E ?h ?tx)
         else Inr t) (at_ctl V A ?D ?c (lg_book L) ?Y2 ?P2)"
    if t: "at_ctl V A ?D ?c (lg_book L) ?Y1 ?P1 t" for t
  proof (cases "IsCoinBase ?tx")
    case True
    then show ?thesis using t by (simp add: spent_ins_def ins_del_def spends_put_def)
  next
    case False
    then have i: "?ins = vin ?tx" by (simp add: spent_ins_def)
    have "returns (acceptTx_removeUnspentOutputs E ?tx ?prevs t) (at_ctl V A ?D ?c (lg_book L) ?Y2 ?P1)"
      using known tx(4) unfolding i by (intro removeUnspentOutputs_at [OF t R tx(2)]) (simp_all add: i)
    then show ?thesis
      using False unfolding i by simp (intro returns_bind, elim returns_mono, erule insertSpendTxs_at [OF _ R])
  qed
  have L: "ledger_accept E l L = recount (lg_count L + 1) (lg_size L + hex_size l) (L\<lparr>lg_book := ?B, lg_utxo := ?Y2,
      lg_recs := ?P2(KUnconfirmed ?h \<mapsto> unconfirmed_rec ?h ?t)\<rparr>)"
    by (simp add: ledger_accept_def Let_def)
  have t: "\<lparr>ft_block_height = - 1, ft_block_time = 0, ft_is_coinbase = IsCoinBase ?tx,
         ft_version = nVersion ?tx, ft_lock_time = nLockTime ?tx, ft_size = int (length (tl_txHex l) div 2),
         ft_fee = (if IsCoinBase ?tx then out_total ?tx else v - out_total ?tx),
         ft_inputs = ins, ft_inputs_count = int (length (vin ?tx)), ft_inputs_value = v,
         ft_outputs = map (fb_output E) (vout ?tx), ft_outputs_count = int (length (vout ?tx)), ft_outputs_value = out_total ?tx,
         ft_created_at = pe_time E, ft_is_double_spend = False\<rparr> = ?t"
    "\<lparr>ut_tx_hash = ToString ?h, ut_fee = (if IsCoinBase ?tx then out_total ?tx else v - out_total ?tx),
         ut_size = int (length (tl_txHex l) div 2)\<rparr> = \<lparr>ut_tx_hash = ToString ?h, ut_fee = ft_fee ?t, ut_size = ft_size ?t\<rparr>"
    by (simp_all add: accepted_tx_def ai Let_def)
  show ?thesis
    unfolding acceptTx_def Let_def get_prevs [OF at_ctlD(1) [OF holds_at [OF s, of "{}"]] R tx(1)] bindE_simps ai prod.case
      if_not_P [OF h(2)]
  proof (rule returns_bind, rule returns_assert [OF h(1)], rule returns_bind,
      rule returns_mono [OF accept_outputs_at [OF holds_at [OF s] R tx(2,5) none]], assumption, clarify,
      fold tx_balance_def, unfold tx(3) bindE_simps t, fold unconfirmed_rec_def,
      rule returns_bind, rule put_at [OF _ R], assumption, simp,
      rule returns_bind, rule returns_mono [OF spent], assumption)
    fix s1 s2 s3
    assume s3: "at_ctl V A ?D ?c (lg_book L) ?Y2 ?P2 s3"
    show "returns (bindE (accpetTx_insertAddressTxs E l ?bal s3) (\<lambda>s.
     bindE (kvset E (key_str (KUnconfirmed ?h)) (unconfirmed_rec ?h ?t) s) (\<lambda>s.
     bindE (flushAddressInfo E ?bal s) (\<lambda>s.
     bindE (addUnconfirmedTxPool E l s) (\<lambda>s.
     Inr (writeNotificationLogs E ?bal l s))))))
     (does V A s (ledger_accept E l L) (note_lines E ?bal l (p_currBlockHeight s)))"
    proof (rule returns_bind, rule returns_mono [OF book_at [OF s3 order_refl]])
      fix W I assume "st V A s3 W I" "book_ok W I (lg_book L)"
      then show "returns (accpetTx_insertAddressTxs E l ?bal s3) (book_step V A s3 W I ?D ?B)"
        using ready by (intro insertAddressTxs_ok R sm_wf_tx_balance tx(2)) (auto simp: accept_ready_def touched_def)
    next
      fix s4 assume s4: "at_ctl V A ?D ?c ?B ?Y2 ?P2 s4"
      show "returns (bindE (kvset E (key_str (KUnconfirmed ?h)) (unconfirmed_rec ?h ?t) s4) (\<lambda>s.
         bindE (flushAddressInfo E ?bal s) (\<lambda>s. bindE (addUnconfirmedTxPool E l s) (\<lambda>s.
         Inr (writeNotificationLogs E ?bal l s)))))
        (does V A s (ledger_accept E l L) (note_lines E ?bal l (p_currBlockHeight s)))"
        unfolding L by (rule returns_bind, rule put_at [OF s4 R], simp, rule finish_add [OF _ R tx(2)], simp)
    qed
  qed
qed

section \<open>rejectTx\<close>

lemma ins_put_keeps: "Y a k \<noteq> None \<Longrightarrow> ins_put ios Y a k \<noteq> None"
proof (induction ios arbitrary: Y)
  case (Cons io ios)
  obtain i out where io: "io = (i, out)" by fastforce
  have "put_out (outkey i) (to_value out) (to_addresses out) Y a k \<noteq> None"
    using Cons.prems by (auto simp: put_out_def split: option.splits)
  then have "ins_put ios (put_out (outkey i) (to_value out) (to_addresses out) Y) a k \<noteq> None" by (rule Cons.IH)
  then show ?case by (simp only: io ins_put_simps) blast
qed simp

lemma rejectTx_does:
  assumes s: "holds V A s L" and R: "rocks_ok (pe_rocks E) V" and ready: "reject_ready E A l L"
  shows "returns (rejectTx E l s) (does V A s (ledger_reject E l L)
     (note_lines E (tx_balance E (lg_recs L) (tl_tx l)) l (p_currBlockHeight s)))"
proof -
  let ?tx = "tl_tx l" and ?h = "tl_txHash l" and ?P = "lg_recs L" and ?Y = "lg_utxo L"
  let ?bal = "tx_balance E ?P ?tx" and ?prevs = "prevs_of ?P ?tx" and ?ins = "spent_ins ?tx"
  let ?D = "fst ` set ?bal" and ?c = "(lg_count L, lg_size L, p_currBlockHeight s, p_notified s)"
  let ?q = "\<lambda>a. hash_position ?h (snd (lg_book L a))"
  let ?B = "upd_pages ?bal (\<lambda>a d pg. page_reject (hash_position ?h (snd pg)) pg) (lg_book L)"
  let ?Y1 = "ins_put (zip ?ins ?prevs) ?Y"
  let ?Y2 = "outs_del E ?h (vout ?tx) ?Y1"
  let ?P1 = "spends_del ?ins ?P"
  obtain t where t: "?P (KTx ?h) = Some (VTx t)" using ready by (auto simp: reject_ready_def)
  then have t1: "?P1 (KTx ?h) = Some (VTx t)" by (auto simp: spends_del_at spend_key_def)
  let ?P2 = "?P1(KTx ?h \<mapsto> VTx (t\<lparr>ft_is_double_spend := True\<rparr>), KUnconfirmed ?h := None)"
  have tx: "spends_known ?P ?tx" "?D \<subseteq> A" "distinct (map outkey ?ins)"
    "\<And>out. out \<in> set (vout ?tx) \<Longrightarrow> set (dests E out) \<subseteq> ?D \<and> distinct (dests E out)"
    "\<And>out. out \<in> set ?prevs \<Longrightarrow> set (to_addresses out) \<subseteq> ?D \<and> distinct (to_addresses out)"
    using ready touched_outs [of _ ?tx E ?P] touched_prevs [of _ ?P ?tx E]
    by (auto simp: reject_ready_def tx_ready_def touched_def)
  have B: "?B = upd_pages ?bal (\<lambda>a d. page_reject (?q a)) (lg_book L)"
    by (auto simp: upd_pages_def fun_eq_iff split: option.splits)
  have q: "?q a < length (snd (lg_book L a)) \<and> e_hash (snd (lg_book L a) ! ?q a) = ?h" if "a \<in> fst ` set ?bal" for a
  proof -
    from ready that have "?h \<in> e_hash ` set (snd (lg_book L a))" unfolding reject_ready_def touched_def by blast
    from hash_position_at [OF this] show ?thesis by (rule conjI)
  qed
  have gone: "set (to_addresses out) \<subseteq> ?D \<and> distinct (to_addresses out) \<and> (\<forall>a \<in> set (to_addresses out). ?Y a (outkey i) = None)"
    if "(i, out) \<in> set (zip ?ins ?prevs)" for i out
    using tx(5) [OF spent_zip(2) [OF that]] that ready by (auto simp: reject_ready_def)
  have outs: "set (dests E (vout ?tx ! n)) \<subseteq> ?D \<and> distinct (dests E (vout ?tx ! n)) \<and>
      (\<forall>a \<in> set (dests E (vout ?tx ! n)). ?Y1 a (?h, int n) \<noteq> None)" if "n < length (vout ?tx)" for n
    using tx(4) [OF nth_mem [OF that]] that ready ins_put_keeps unfolding reject_ready_def by blast
  have spent: "returns (if \<not> IsCoinBase ?tx then foldE (reject_input E) (zip (vin ?tx) ?prevs) ([], s) else Inr ([], s))
      (\<lambda>(bal, s'). bal = in_balance ?prevs [] \<and> at_ctl V A ?D ?c (lg_book L) ?Y1 ?P1 s')"
  proof (cases "IsCoinBase ?tx")
    case True
    then show ?thesis using holds_at [OF s] by (simp add: spent_ins_def spends_del_def in_balance_def prevs_of_def)
  next
    case False
    then have i: "?ins = vin ?tx" by (simp add: spent_ins_def)
    have "returns (foldE (reject_input E) (zip (vin ?tx) ?prevs) ([], s))
      (\<lambda>(bal, s'). bal = in_balance ?prevs [] \<and> at_ctl V A ?D ?c (lg_book L) ?Y1 ?P1 s')"
      using gone tx(3) unfolding i by (intro reject_inputs_at [OF holds_at [OF s] R tx(2)]) (simp_all add: i)
    then show ?thesis using False by simp
  qed
  let ?L = "L\<lparr>lg_book := ?B, lg_utxo := ?Y2, lg_recs := ?P2\<rparr>"
  have L: "ledger_reject E l L = recount (lg_count L - 1) (lg_size L - hex_size l) ?L"
    using t by (simp add: ledger_reject_def Let_def ledger_tx_def)
  show ?thesis
    unfolding rejectTx_def Let_def get_prevs [OF at_ctlD(1) [OF holds_at [OF s, of "{}"]] R tx(1)] bindE_simps
  proof (rule returns_bind, rule returns_mono [OF spent], clarify, rule returns_bind,
      rule returns_mono [OF reject_outputs_at [OF _ R outs]], assumption, assumption, clarify, fold tx_balance_def,
      rule returns_bind, rule kvget_pinv_rule [OF at_ctlD(1) R], assumption, simp, rule t1, unfold root_simps bindE_simps,
      rule returns_bind, rule put_at [OF _ R], assumption, simp,
      rule returns_bind, rule del_at [OF _ R], assumption, simp)
    fix s1 s2 s3 s4
    assume s4: "at_ctl V A ?D ?c (lg_book L) ?Y2 ?P2 s4"
    show "returns (bindE (rejectAddressTxs E l ?bal s4) (\<lambda>s. bindE (flushAddressInfo E ?bal s) (\<lambda>s.
      bindE (removeUnconfirmedTxPool E l s) (\<lambda>s. Inr (writeNotificationLogs E ?bal l s)))))
     (does V A s (ledger_reject E l L) (note_lines E ?bal l (p_currBlockHeight s)))"
    proof (rule returns_bind, rule returns_mono [OF book_at [OF s4 order_refl]])
      fix W I assume "st V A s4 W I" "book_ok W I (lg_book L)"
      then show "returns (rejectAddressTxs E l ?bal s4) (book_step V A s4 W I ?D ?B)"
        unfolding B using ready q by (intro rejectAddressTxs_ok R sm_wf_tx_balance tx(2)) (auto simp: reject_ready_def)
    next
      fix s5 assume s5: "at_ctl V A ?D ?c ?B ?Y2 ?P2 s5"
      show "returns (bindE (flushAddressInfo E ?bal s5) (\<lambda>s. bindE (removeUnconfirmedTxPool E l s) (\<lambda>s.
          Inr (writeNotificationLogs E ?bal l s))))
        (does V A s (ledger_reject E l L) (note_lines E ?bal l (p_currBlockHeight s)))"
        unfolding L by (rule finish_remove [OF _ R tx(2)]) (simp add: s5)
    qed
  qed
qed

end
