(* ===== verification/LedgerHistory.thy ===== *)
theory LedgerHistory
  imports Ledger TxHistory
begin

text \<open>
  Replaying a history of transactions. \<open>log2producer\<close> promises histories that move every
  transaction through accept, confirm, unconfirm and reject (theory TxHistory). \<open>tx_step\<close> is
  that state machine with what a valid chain adds: a transaction spends outputs of accepted
  transactions that nothing else spends, confirmations are undone last first, and a
  transaction is rejected when nothing spends its outputs.

  \<open>ledger_inv\<close> says that the ledger is that of the history: every address lists its
  transactions in the order of their confirmation, the table of unspent outputs has the
  outputs nobody spends, the records of spenders and of unconfirmed transactions and the
  counters agree. Every step keeps it, so \<open>tparser\<close> replays such a history without raising
  anything.
\<close>

type_synonym hist = "(uint256 \<Rightarrow> txstate) \<times> uint256 list"  \<comment> \<open>states, confirmed ones oldest first\<close>

definition tprev :: "'db penv \<Rightarrow> (uint256 \<Rightarrow> CTransaction) \<Rightarrow> CTxIn \<Rightarrow> fb_TxOutput" where
  "tprev E T i = fb_output E (vout (T (op_hash (prevout i))) ! unat (op_n (prevout i)))"

definition tbal :: "'db penv \<Rightarrow> (uint256 \<Rightarrow> CTransaction) \<Rightarrow> uint256 \<Rightarrow> (string, int) smap" where
  "tbal E T h = out_balance E (vout (T h)) (in_balance (map (tprev E T) (spent_ins (T h))) [])"

definition touch :: "'db penv \<Rightarrow> (uint256 \<Rightarrow> CTransaction) \<Rightarrow> uint256 \<Rightarrow> string set" where
  "touch E T h = fst ` set (tbal E T h)"

text \<open>What a transaction has to satisfy by itself, and the outputs spent.\<close>

definition fine :: "'db penv \<Rightarrow> string set \<Rightarrow> (uint256 \<Rightarrow> CTransaction) \<Rightarrow> uint256 \<Rightarrow> bool" where
  "fine E A T h = (GetValueOut (T h) = Inr (out_total (T h)) \<and> distinct (map outkey (spent_ins (T h))) \<and>
     (\<forall>out \<in> set (vout (T h)). distinct (dests E out)) \<and> touch E T h \<subseteq> A \<and>
     (\<forall>i \<in> set (spent_ins (T h)). unat (op_n (prevout i)) < length (vout (T (op_hash (prevout i)))) \<and>
        sint (op_n (prevout i)) = int (unat (op_n (prevout i)))))"

definition spent :: "(uint256 \<Rightarrow> txstate) \<Rightarrow> (uint256 \<Rightarrow> CTransaction) \<Rightarrow> uint256 \<times> int \<Rightarrow> bool" where
  "spent \<sigma> T k = (\<exists>g. \<sigma> g \<noteq> Absent \<and> k \<in> outkey ` set (spent_ins (T g)))"

definition row_of :: "(uint256 \<Rightarrow> CTransaction) \<Rightarrow> (uint256 \<Rightarrow> string) \<Rightarrow> int \<Rightarrow> uint256 \<Rightarrow> TxLog2 \<Rightarrow> bool" where
  "row_of T X ty h l = (tl_type l = ty \<and> tl_txHash l = h \<and> tl_tx l = T h \<and> tl_txHex l = X h)"

inductive tx_step :: "'db penv \<Rightarrow> string set \<Rightarrow> (uint256 \<Rightarrow> CTransaction) \<Rightarrow> (uint256 \<Rightarrow> string) \<Rightarrow>
    hist \<Rightarrow> TxLog2 \<Rightarrow> hist \<Rightarrow> bool"
  for E A T X where
  accept: "\<sigma> h = Absent \<Longrightarrow> fine E A T h \<Longrightarrow>
     (\<And>i. i \<in> set (spent_ins (T h)) \<Longrightarrow> \<sigma> (op_hash (prevout i)) \<noteq> Absent \<and> \<not> spent \<sigma> T (outkey i)) \<Longrightarrow>
     row_of T X LOG2TYPE_TX_ACCEPT h l \<Longrightarrow> tl_blkHeight l = - 1 \<Longrightarrow>
     tx_step E A T X (\<sigma>, stk) l (\<sigma>(h := Unconfirmed), stk)"
| confirm: "\<sigma> h = Unconfirmed \<Longrightarrow> row_of T X LOG2TYPE_TX_CONFIRM h l \<Longrightarrow> 0 \<le> tl_blkHeight l \<Longrightarrow>
     tx_step E A T X (\<sigma>, stk) l (\<sigma>(h := Confirmed), stk @ [h])"
| unconfirm: "\<sigma> h = Confirmed \<Longrightarrow> row_of T X LOG2TYPE_TX_UNCONFIRM h l \<Longrightarrow>
     tx_step E A T X (\<sigma>, stk @ [h]) l (\<sigma>(h := Unconfirmed), stk)"
| reject: "\<sigma> h = Unconfirmed \<Longrightarrow> row_of T X LOG2TYPE_TX_REJECT h l \<Longrightarrow>
     (\<And>g i. \<sigma> g \<noteq> Absent \<Longrightarrow> i \<in> set (spent_ins (T g)) \<Longrightarrow> op_hash (prevout i) \<noteq> h) \<Longrightarrow>
     tx_step E A T X (\<sigma>, stk) l (\<sigma>(h := Absent), stk)"

inductive tx_run :: "'db penv \<Rightarrow> string set \<Rightarrow> (uint256 \<Rightarrow> CTransaction) \<Rightarrow> (uint256 \<Rightarrow> string) \<Rightarrow>
    hist \<Rightarrow> TxLog2 list \<Rightarrow> hist \<Rightarrow> bool"
  for E A T X where
  none: "tx_run E A T X x [] x"
| row: "tx_step E A T X x l y \<Longrightarrow> tx_run E A T X y ls z \<Longrightarrow> tx_run E A T X x (l # ls) z"

inductive_cases tx_stepE: "tx_step E A T X x l y"

text \<open>Such a history is one that \<open>log2producer\<close> may write.\<close>

lemma tx_step_trans:
  "tx_step E A T X x l y \<Longrightarrow> \<exists>z. tx_trans (fst x (tl_txHash l)) (tl_type l) z \<and> fst y = (fst x)(tl_txHash l := z)"
  by (induction rule: tx_step.induct) (auto simp: row_of_def intro: tx_trans.intros)

lemma tx_run_legal: "tx_run E A T X x ls y \<Longrightarrow> legal (fst x) (map (\<lambda>l. (tl_type l, tl_txHash l)) ls) (fst y)"
proof (induction rule: tx_run.induct)
  case (row x l y ls z)
  from tx_step_trans [OF row.hyps(1)] obtain z' where
    z': "tx_trans (fst x (tl_txHash l)) (tl_type l) z'" "fst y = (fst x)(tl_txHash l := z')" by blast
  from row.IH z'(2) have "legal ((fst x)(tl_txHash l := z')) (map (\<lambda>l. (tl_type l, tl_txHash l)) ls) (fst z)" by (simp only:)
  from legal.row [OF z'(1) this] show ?case by simp
qed (simp add: legal.none)

section \<open>The invariant\<close>

definition hist_ok :: "'db penv \<Rightarrow> string set \<Rightarrow> (uint256 \<Rightarrow> CTransaction) \<Rightarrow> hist \<Rightarrow> bool" where
  "hist_ok E A T x = (case x of (\<sigma>, stk) \<Rightarrow>
     finite {h. \<sigma> h \<noteq> Absent} \<and> distinct stk \<and> (\<forall>h. h \<in> set stk \<longleftrightarrow> \<sigma> h = Confirmed) \<and>
     (\<forall>h. \<sigma> h \<noteq> Absent \<longrightarrow> fine E A T h \<and> (\<forall>i \<in> set (spent_ins (T h)). \<sigma> (op_hash (prevout i)) \<noteq> Absent)) \<and>
     (\<forall>g h i j. \<sigma> g \<noteq> Absent \<longrightarrow> \<sigma> h \<noteq> Absent \<longrightarrow> i \<in> set (spent_ins (T g)) \<longrightarrow> j \<in> set (spent_ins (T h)) \<longrightarrow>
        outkey i = outkey j \<longrightarrow> g = h))"

definition page_of :: "'db penv \<Rightarrow> (uint256 \<Rightarrow> CTransaction) \<Rightarrow> hist \<Rightarrow> string \<Rightarrow> page \<Rightarrow> bool" where
  "page_of E T x a pg = (case x of (\<sigma>, stk) \<Rightarrow>
     map e_hash (fst pg) = filter (\<lambda>h. a \<in> touch E T h) stk \<and> distinct (map e_hash (snd pg)) \<and>
     e_hash ` set (snd pg) = {h. \<sigma> h = Unconfirmed \<and> a \<in> touch E T h} \<and>
     (\<forall>e \<in> set (fst pg) \<union> set (snd pg). map_of (tbal E T (e_hash e)) a = Some (e_diff e)))"

definition book_of :: "'db penv \<Rightarrow> (uint256 \<Rightarrow> CTransaction) \<Rightarrow> hist \<Rightarrow> book \<Rightarrow> bool" where
  "book_of E T x B = (\<forall>a. page_of E T x a (B a))"

definition utxo_of :: "'db penv \<Rightarrow> (uint256 \<Rightarrow> CTransaction) \<Rightarrow> (uint256 \<Rightarrow> txstate) \<Rightarrow> utxo" where
  "utxo_of E T \<sigma> a k = (case k of (h, n) \<Rightarrow>
     if \<sigma> h \<noteq> Absent \<and> 0 \<le> n \<and> nat n < length (vout (T h)) \<and> \<not> spent \<sigma> T (h, n)
     then slots (nValue (vout (T h) ! nat n)) (dests E (vout (T h) ! nat n)) a else None)"

definition objects_of :: "'db penv \<Rightarrow> (uint256 \<Rightarrow> CTransaction) \<Rightarrow> (uint256 \<Rightarrow> txstate) \<Rightarrow> (kvkey \<Rightarrow> kvval option) \<Rightarrow> bool" where
  "objects_of E T \<sigma> P = (\<forall>h.
     (\<sigma> h \<noteq> Absent \<longrightarrow> (\<exists>t. P (KTx h) = Some (VTx t) \<and> ft_outputs t = map (fb_output E) (vout (T h)) \<and>
        (ft_block_height t = - 1 \<longleftrightarrow> \<sigma> h = Unconfirmed) \<and>
        (\<sigma> h = Unconfirmed \<longrightarrow> P (KUnconfirmed h) = Some (unconfirmed_rec h t)))) \<and>
     (\<sigma> h \<noteq> Unconfirmed \<longrightarrow> P (KUnconfirmed h) = None))"

definition spenders_of :: "(uint256 \<Rightarrow> CTransaction) \<Rightarrow> (uint256 \<Rightarrow> txstate) \<Rightarrow> (kvkey \<Rightarrow> kvval option) \<Rightarrow> bool" where
  "spenders_of T \<sigma> P =
     ((\<forall>g k. \<sigma> g \<noteq> Absent \<longrightarrow> k < length (spent_ins (T g)) \<longrightarrow>
        P (spend_key (spent_ins (T g) ! k)) = Some (VSpentBy \<lparr>ts_position = int k, ts_tx_hash = ToString g\<rparr>)) \<and>
      (\<forall>h n. \<not> spent \<sigma> T (h, n) \<longrightarrow> P (KSpend h n) = None))"

definition counts_of :: "(uint256 \<Rightarrow> string) \<Rightarrow> (uint256 \<Rightarrow> txstate) \<Rightarrow> ledger \<Rightarrow> bool" where
  "counts_of X \<sigma> L = (lg_count L = int (card {h. \<sigma> h = Unconfirmed}) \<and>
     lg_size L = (\<Sum>h | \<sigma> h = Unconfirmed. int (length (X h) div 2)))"

definition ledger_inv :: "'db penv \<Rightarrow> string set \<Rightarrow> (uint256 \<Rightarrow> CTransaction) \<Rightarrow> (uint256 \<Rightarrow> string) \<Rightarrow> hist \<Rightarrow> ledger \<Rightarrow> bool" where
  "ledger_inv E A T X x L = (hist_ok E A T x \<and> book_of E T x (lg_book L) \<and> lg_utxo L = utxo_of E T (fst x) \<and>
     objects_of E T (fst x) (lg_recs L) \<and> spenders_of T (fst x) (lg_recs L) \<and> counts_of X (fst x) L)"

section \<open>Consequences\<close>

lemma known_output:
  assumes "objects_of E T \<sigma> P" and "\<sigma> (op_hash (prevout i)) \<noteq> Absent"
    and "unat (op_n (prevout i)) < length (vout (T (op_hash (prevout i))))"
  shows "prev_output P (prevout i) = Some (tprev E T i)"
  using assms by (fastforce simp: objects_of_def prev_output_def tprev_def)

lemma known_outputs:
  assumes "objects_of E T \<sigma> P" and "fine E A T h" and "\<And>i. i \<in> set (spent_ins (T h)) \<Longrightarrow> \<sigma> (op_hash (prevout i)) \<noteq> Absent"
  shows "spends_known P (T h)" "prevs_of P (T h) = map (tprev E T) (spent_ins (T h))" "tx_balance E P (T h) = tbal E T h"
    "touched E P (T h) = touch E T h"
proof -
  have k: "prev_output P (prevout i) = Some (tprev E T i)" if "i \<in> set (spent_ins (T h))" for i
    using known_output [OF assms(1) assms(3) [OF that]] assms(2) that by (simp add: fine_def)
  then show "spends_known P (T h)" and p: "prevs_of P (T h) = map (tprev E T) (spent_ins (T h))"
    by (auto simp: spends_known_def prevs_of_def)
  then show "tx_balance E P (T h) = tbal E T h" by (simp add: tx_balance_def tbal_def)
  then show "touched E P (T h) = touch E T h" by (simp add: touched_def touch_def)
qed

lemma to_addresses_fb_output [simp]: "to_addresses (fb_output E out) = dests E out" "to_value (fb_output E out) = nValue out"
  by (simp_all add: fb_output_def dests_def split: prod.splits)

lemma tx_ready_fine:
  assumes "objects_of E T \<sigma> P" and "fine E A T h"
    and "\<And>i. i \<in> set (spent_ins (T h)) \<Longrightarrow> \<sigma> (op_hash (prevout i)) \<noteq> Absent \<and> fine E A T (op_hash (prevout i))"
  shows "tx_ready E A (T h) P"
proof -
  have "\<And>i. i \<in> set (spent_ins (T h)) \<Longrightarrow> \<sigma> (op_hash (prevout i)) \<noteq> Absent" using assms(3) by blast
  note k = known_outputs [OF assms(1,2) this]
  have "distinct (dests E (vout (T (op_hash (prevout i))) ! unat (op_n (prevout i))))" if "i \<in> set (spent_ins (T h))" for i
    using assms(2) assms(3) [OF that] that by (simp add: fine_def)
  then show ?thesis using assms(2) k by (auto simp: tx_ready_def fine_def tprev_def)
qed

section \<open>The book\<close>

lemma tl_swap_mset: "q < length U \<Longrightarrow> mset U = add_mset (U ! q) (mset (tl (swap 0 q U)))"
proof -
  assume q: "q < length U"
  then have "U \<noteq> []" by auto
  then have "swap 0 q U = (U ! q) # tl (swap 0 q U)"
    using swap_head [OF q] by (metis hd_conv_nth list.collapse swap_Nil)
  moreover have "mset (swap 0 q U) = mset U" using q \<open>U \<noteq> []\<close> by (intro mset_swap') auto
  ultimately show ?thesis by (metis mset.simps(2))
qed

lemma butlast_swap_mset: "q < length U \<Longrightarrow> mset U = add_mset (U ! q) (mset (butlast (swap (length U - 1) q U)))"
proof -
  assume q: "q < length U"
  have "mset (swap (length U - 1) q U) = mset U" using q by (intro mset_swap') auto
  moreover have "mset (swap (length U - 1) q U) = mset (butlast (swap (length U - 1) q U) @ [U ! q])"
    using swap_last [OF q] by (metis (no_types))
  ultimately show ?thesis by simp
qed

lemma removed_entry:
  assumes "mset U = add_mset e (mset U')" and "distinct (map e_hash U)"
  shows "distinct (map e_hash U')" "e_hash ` set U' = e_hash ` set U - {e_hash e}" "set U' \<subseteq> set U" "e \<in> set U"
proof -
  have m: "mset (map e_hash U) = mset (map e_hash (e # U'))" using assms(1) by simp
  then have d: "distinct (map e_hash (e # U'))" using assms(2) by (metis distinct_count_atmost_1 set_mset_mset)
  then show "distinct (map e_hash U')" by simp
  have s: "set U = insert e (set U')" using assms(1) by (metis set_mset_add_mset_insert set_mset_mset)
  then show "set U' \<subseteq> set U" "e \<in> set U" by auto
  show "e_hash ` set U' = e_hash ` set U - {e_hash e}" using s d by auto
qed

lemma page_ofD:
  assumes "page_of E T (\<sigma>, stk) a (C, U)"
  shows "map e_hash C = filter (\<lambda>h. a \<in> touch E T h) stk" "distinct (map e_hash U)"
    "e_hash ` set U = {h. \<sigma> h = Unconfirmed \<and> a \<in> touch E T h}"
    "e \<in> set C \<Longrightarrow> map_of (tbal E T (e_hash e)) a = Some (e_diff e)"
    "e \<in> set U \<Longrightarrow> map_of (tbal E T (e_hash e)) a = Some (e_diff e)"
  using assms by (auto simp: page_of_def)

lemma page_ofI:
  assumes "map e_hash C = filter (\<lambda>h. a \<in> touch E T h) stk" and "distinct (map e_hash U)"
    and "e_hash ` set U = {h. \<sigma> h = Unconfirmed \<and> a \<in> touch E T h}"
    and "\<And>e. e \<in> set C \<Longrightarrow> map_of (tbal E T (e_hash e)) a = Some (e_diff e)"
    and "\<And>e. e \<in> set U \<Longrightarrow> map_of (tbal E T (e_hash e)) a = Some (e_diff e)"
  shows "page_of E T (\<sigma>, stk) a (C, U)"
  unfolding page_of_def prod.case fst_conv snd_conv using assms(4,5) by (intro conjI assms(1-3)) blast

lemma touch_map_of: "a \<in> touch E T h \<longleftrightarrow> (\<exists>d. map_of (tbal E T h) a = Some d)"
  by (metis map_of_eq_None_iff not_Some_eq touch_def)

text \<open>One address at a time: the others are left alone.\<close>

lemma book_of_upd:
  assumes B: "book_of E T (\<sigma>, stk) B"
    and stk: "\<And>a. a \<notin> touch E T h \<Longrightarrow> filter (\<lambda>h. a \<in> touch E T h) stk' = filter (\<lambda>h. a \<in> touch E T h) stk"
    and s: "\<And>g. g \<noteq> h \<Longrightarrow> \<sigma>' g = \<sigma> g"
    and upd: "\<And>a d C U. a \<in> touch E T h \<Longrightarrow> map_of (tbal E T h) a = Some d \<Longrightarrow> page_of E T (\<sigma>, stk) a (C, U) \<Longrightarrow>
      page_of E T (\<sigma>', stk') a (opn a d (C, U))"
  shows "book_of E T (\<sigma>', stk') (upd_pages (tbal E T h) opn B)"
  unfolding book_of_def
proof
  fix a
  obtain C U where pg: "B a = (C, U)" by fastforce
  from B have a: "page_of E T (\<sigma>, stk) a (C, U)" by (metis book_of_def pg)
  show "page_of E T (\<sigma>', stk') a (upd_pages (tbal E T h) opn B a)"
  proof (cases "map_of (tbal E T h) a")
    case None
    then have t: "a \<notin> touch E T h" by (simp add: touch_map_of)
    then have "{h. \<sigma>' h = Unconfirmed \<and> a \<in> touch E T h} = {h. \<sigma> h = Unconfirmed \<and> a \<in> touch E T h}"
      using s by metis
    then have "page_of E T (\<sigma>', stk') a (C, U)"
      using page_ofD [OF a] stk [OF t] by (intro page_ofI) simp_all
    then show ?thesis using None by (simp add: upd_pages_def pg)
  next
    case (Some d)
    then have "a \<in> touch E T h" by (auto simp: touch_map_of)
    from upd [OF this Some a] show ?thesis using Some by (simp add: upd_pages_def pg)
  qed
qed

lemma book_accept:
  assumes "book_of E T (\<sigma>, stk) B" and h: "\<sigma> h = Absent"
  shows "book_of E T (\<sigma>(h := Unconfirmed), stk) (upd_pages (tbal E T h)
     (\<lambda>a d. page_accept \<lparr>e_hash = h, e_diff = d, e_height = - 1, e_time = t\<rparr>) B)"
proof (rule book_of_upd [OF assms(1)])
  fix a d C U assume t: "a \<in> touch E T h" "map_of (tbal E T h) a = Some d" and pg: "page_of E T (\<sigma>, stk) a (C, U)"
  note D = page_ofD [OF pg]
  have "h \<notin> e_hash ` set U" unfolding D(3) using h by simp
  moreover have "insert h (e_hash ` set U) = {g. (\<sigma>(h := Unconfirmed)) g = Unconfirmed \<and> a \<in> touch E T g}"
    unfolding D(3) using t by auto
  ultimately show "page_of E T (\<sigma>(h := Unconfirmed), stk) a
      (page_accept \<lparr>e_hash = h, e_diff = d, e_height = - 1, e_time = t\<rparr> (C, U))"
    unfolding page_accept_def fst_conv snd_conv using D t(2) by (intro page_ofI) auto
qed simp_all

lemma book_confirm:
  assumes "book_of E T (\<sigma>, stk) B" and h: "\<sigma> h = Unconfirmed"
  shows "book_of E T (\<sigma>(h := Confirmed), stk @ [h]) (upd_pages (tbal E T h)
     (\<lambda>a d pg. page_confirm (hash_position h (snd pg)) height t pg) B)"
proof (rule book_of_upd [OF assms(1)])
  fix a d C U assume t: "a \<in> touch E T h" and pg: "page_of E T (\<sigma>, stk) a (C, U)"
  note D = page_ofD [OF pg]
  let ?q = "hash_position h U"
  have "h \<in> e_hash ` set U" unfolding D(3) using t h by simp
  note q = hash_position_at [OF this]
  obtain U' where U': "U' = tl (swap 0 ?q U)" "mset U = add_mset (U ! ?q) (mset U')"
    using tl_swap_mset [OF q(1)] by blast
  note rm = removed_entry [OF U'(2) D(2)]
  have "e_hash ` set U' = {g. (\<sigma>(h := Confirmed)) g = Unconfirmed \<and> a \<in> touch E T g}"
    unfolding rm(2) D(3) q(2) by auto
  moreover have "map_of (tbal E T h) a = Some (e_diff (U ! ?q))" using D(5) [OF rm(4)] q(2) by simp
  moreover have "map_of (tbal E T (e_hash e)) a = Some (e_diff e)" if "e \<in> set U'" for e
    using D(5) rm(3) that by blast
  ultimately show "page_of E T (\<sigma>(h := Confirmed), stk @ [h]) a (page_confirm (hash_position h (snd (C, U))) height t (C, U))"
    unfolding page_confirm_def fst_conv snd_conv U'(1) [symmetric] using D(1,4) t rm(1) q(2) by (intro page_ofI) auto
qed simp_all

lemma book_unconfirm:
  assumes "book_of E T (\<sigma>, stk @ [h]) B" and h: "\<sigma> h = Confirmed"
  shows "book_of E T (\<sigma>(h := Unconfirmed), stk) (upd_pages (tbal E T h) (\<lambda>a d. page_unconfirm) B)"
proof (rule book_of_upd [OF assms(1)])
  fix a d C U assume t: "a \<in> touch E T h" and pg: "page_of E T (\<sigma>, stk @ [h]) a (C, U)"
  note D = page_ofD [OF pg]
  have "map e_hash C = filter (\<lambda>h. a \<in> touch E T h) stk @ [h]" using D(1) t by simp
  then obtain C' x where C: "C = C' @ [x]" "map e_hash C' = filter (\<lambda>h. a \<in> touch E T h) stk" "e_hash x = h"
    by (auto simp: map_eq_append_conv)
  have "h \<notin> e_hash ` set U" unfolding D(3) using h by simp
  moreover have "insert h (e_hash ` set U) = {g. (\<sigma>(h := Unconfirmed)) g = Unconfirmed \<and> a \<in> touch E T g}"
    unfolding D(3) using t by auto
  moreover have "map_of (tbal E T h) a = Some (e_diff x)" using D(4) [of x] C by simp
  ultimately show "page_of E T (\<sigma>(h := Unconfirmed), stk) a (page_unconfirm (C, U))"
    unfolding page_unconfirm_def fst_conv snd_conv C(1) butlast_snoc last_snoc
    using D(2,4,5) C by (intro page_ofI) auto
qed simp_all

lemma book_reject:
  assumes "book_of E T (\<sigma>, stk) B" and h: "\<sigma> h = Unconfirmed"
  shows "book_of E T (\<sigma>(h := Absent), stk) (upd_pages (tbal E T h)
     (\<lambda>a d pg. page_reject (hash_position h (snd pg)) pg) B)"
proof (rule book_of_upd [OF assms(1)])
  fix a d C U assume t: "a \<in> touch E T h" and pg: "page_of E T (\<sigma>, stk) a (C, U)"
  note D = page_ofD [OF pg]
  let ?q = "hash_position h U"
  have "h \<in> e_hash ` set U" unfolding D(3) using t h by simp
  note q = hash_position_at [OF this]
  obtain U' where U': "U' = butlast (swap (length U - 1) ?q U)" "mset U = add_mset (U ! ?q) (mset U')"
    using butlast_swap_mset [OF q(1)] by blast
  note rm = removed_entry [OF U'(2) D(2)]
  have "e_hash ` set U' = {g. (\<sigma>(h := Absent)) g = Unconfirmed \<and> a \<in> touch E T g}"
    unfolding rm(2) D(3) q(2) by auto
  moreover have "map_of (tbal E T (e_hash e)) a = Some (e_diff e)" if "e \<in> set U'" for e
    using D(5) rm(3) that by blast
  ultimately show "page_of E T (\<sigma>(h := Absent), stk) a (page_reject (hash_position h (snd (C, U))) (C, U))"
    unfolding page_reject_def fst_conv snd_conv U'(1) [symmetric] using D(1,4) rm(1) by (intro page_ofI) auto
qed simp_all

section \<open>The history\<close>

lemma hist_okD:
  assumes "hist_ok E A T (\<sigma>, stk)"
  shows "finite {h. \<sigma> h \<noteq> Absent}" "distinct stk" "h \<in> set stk \<longleftrightarrow> \<sigma> h = Confirmed"
    "\<sigma> h \<noteq> Absent \<Longrightarrow> fine E A T h"
    "\<sigma> h \<noteq> Absent \<Longrightarrow> i \<in> set (spent_ins (T h)) \<Longrightarrow> \<sigma> (op_hash (prevout i)) \<noteq> Absent"
    "\<sigma> g \<noteq> Absent \<Longrightarrow> \<sigma> h \<noteq> Absent \<Longrightarrow> i \<in> set (spent_ins (T g)) \<Longrightarrow> j \<in> set (spent_ins (T h)) \<Longrightarrow>
       outkey i = outkey j \<Longrightarrow> g = h"
  using assms unfolding hist_ok_def by blast+

lemma hist_ok_same:
  assumes "hist_ok E A T (\<sigma>, stk)" and "\<And>g. \<sigma>' g = Absent \<longleftrightarrow> \<sigma> g = Absent"
    and "distinct stk'" and "\<And>g. g \<in> set stk' \<longleftrightarrow> \<sigma>' g = Confirmed"
  shows "hist_ok E A T (\<sigma>', stk')"
  using assms unfolding hist_ok_def prod.case by presburger

lemma hist_accept:
  assumes ok: "hist_ok E A T (\<sigma>, stk)" and h: "\<sigma> h = Absent" and fine: "fine E A T h"
    and par: "\<And>i. i \<in> set (spent_ins (T h)) \<Longrightarrow> \<sigma> (op_hash (prevout i)) \<noteq> Absent \<and> \<not> spent \<sigma> T (outkey i)"
  shows "hist_ok E A T (\<sigma>(h := Unconfirmed), stk)"
  unfolding hist_ok_def prod.case
proof (intro conjI allI impI ballI)
  have "{g. (\<sigma>(h := Unconfirmed)) g \<noteq> Absent} = insert h {g. \<sigma> g \<noteq> Absent}" by auto
  then show "finite {g. (\<sigma>(h := Unconfirmed)) g \<noteq> Absent}" using hist_okD(1) [OF ok] by (simp only: finite_insert)
  show "distinct stk" using hist_okD(2) [OF ok] .
  fix g show "g \<in> set stk \<longleftrightarrow> (\<sigma>(h := Unconfirmed)) g = Confirmed" using hist_okD(3) [OF ok] h by auto
next
  fix g assume "(\<sigma>(h := Unconfirmed)) g \<noteq> Absent"
  then show "fine E A T g" using hist_okD(4) [OF ok] fine by (cases "g = h") auto
next
  fix g i assume "(\<sigma>(h := Unconfirmed)) g \<noteq> Absent" "i \<in> set (spent_ins (T g))"
  then show "(\<sigma>(h := Unconfirmed)) (op_hash (prevout i)) \<noteq> Absent" using hist_okD(5) [OF ok] par by (cases "g = h") auto
next
  fix g g' i j
  assume *: "(\<sigma>(h := Unconfirmed)) g \<noteq> Absent" "(\<sigma>(h := Unconfirmed)) g' \<noteq> Absent" "i \<in> set (spent_ins (T g))"
    "j \<in> set (spent_ins (T g'))" "outkey i = outkey j"
  have no: False if "\<sigma> x \<noteq> Absent" "y \<in> set (spent_ins (T x))" "z \<in> set (spent_ins (T h))" "outkey y = outkey z" for x y z
  proof -
    have "outkey z \<in> outkey ` set (spent_ins (T x))" using that(2,4) by (metis imageI)
    with par [OF that(3)] that(1) show False unfolding spent_def by blast
  qed
  show "g = g'"
  proof (cases "g = h")
    case True
    then show ?thesis using * no [of g' j i] by (cases "g' = h") auto
  next
    case False
    then show ?thesis using * no [of g i j] hist_okD(6) [OF ok, of g g' i j] by (cases "g' = h") auto
  qed
qed

lemma hist_reject:
  assumes ok: "hist_ok E A T (\<sigma>, stk)" and h: "\<sigma> h = Unconfirmed"
    and free: "\<And>g i. \<sigma> g \<noteq> Absent \<Longrightarrow> i \<in> set (spent_ins (T g)) \<Longrightarrow> op_hash (prevout i) \<noteq> h"
  shows "hist_ok E A T (\<sigma>(h := Absent), stk)"
  unfolding hist_ok_def prod.case
proof (intro conjI allI impI ballI)
  have "{g. (\<sigma>(h := Absent)) g \<noteq> Absent} \<subseteq> {g. \<sigma> g \<noteq> Absent}" by auto
  then show "finite {g. (\<sigma>(h := Absent)) g \<noteq> Absent}" using hist_okD(1) [OF ok] finite_subset by blast
  show "distinct stk" using hist_okD(2) [OF ok] .
  fix g show "g \<in> set stk \<longleftrightarrow> (\<sigma>(h := Absent)) g = Confirmed" using hist_okD(3) [OF ok] h by auto
next
  fix g assume "(\<sigma>(h := Absent)) g \<noteq> Absent"
  then show "fine E A T g" using hist_okD(4) [OF ok] by (auto split: if_splits)
next
  fix g i assume "(\<sigma>(h := Absent)) g \<noteq> Absent" "i \<in> set (spent_ins (T g))"
  then show "(\<sigma>(h := Absent)) (op_hash (prevout i)) \<noteq> Absent" using hist_okD(5) [OF ok] free by (auto split: if_splits)
next
  fix g g' i j
  assume "(\<sigma>(h := Absent)) g \<noteq> Absent" "(\<sigma>(h := Absent)) g' \<noteq> Absent" "i \<in> set (spent_ins (T g))"
    "j \<in> set (spent_ins (T g'))" "outkey i = outkey j"
  then show "g = g'" using hist_okD(6) [OF ok, of g g' i j] by (auto split: if_splits)
qed

section \<open>Unspent outputs\<close>

lemma spent_same: "(\<And>g. \<sigma>' g = Absent \<longleftrightarrow> \<sigma> g = Absent) \<Longrightarrow> spent \<sigma>' T k = spent \<sigma> T k"
  by (simp add: spent_def)

lemma utxo_same: "(\<And>g. \<sigma>' g = Absent \<longleftrightarrow> \<sigma> g = Absent) \<Longrightarrow> utxo_of E T \<sigma>' = utxo_of E T \<sigma>"
  by (intro ext) (simp add: utxo_of_def spent_same [of \<sigma>' \<sigma>] split: prod.split)

lemma spent_accept: "\<sigma> h = Absent \<Longrightarrow> spent (\<sigma>(h := Unconfirmed)) T k \<longleftrightarrow> spent \<sigma> T k \<or> k \<in> outkey ` set (spent_ins (T h))"
  unfolding spent_def by auto

lemma in_zip_map: "(i, out) \<in> set (zip is (map f is)) \<longleftrightarrow> i \<in> set is \<and> out = f i"
  by (auto simp: zip_map2 zip_same_conv_map)

lemma in_zip_mapD: "io \<in> set (zip is (map f is)) \<Longrightarrow> \<exists>i \<in> set is. io = (i, f i)"
  by (cases io) (simp add: in_zip_map)

lemma zip_map_same: "zip is (map f is) = map (\<lambda>i. (i, f i)) is"
  by (simp add: zip_map2 zip_same_conv_map)

text \<open>The addresses an input of a known transaction touches are those of the output it names.\<close>

lemma tprev_slots:
  assumes "fine E A T h" and "i \<in> set (spent_ins (T h))"
  shows "outkey i = (g, n) \<Longrightarrow> 0 \<le> n \<and> nat n < length (vout (T g)) \<and> tprev E T i = fb_output E (vout (T g) ! nat n)"
  using assms by (auto simp: fine_def outkey_def tprev_def)

lemma utxo_accept:
  assumes ok: "hist_ok E A T (\<sigma>, stk)" and h: "\<sigma> h = Absent" and fine: "fine E A T h"
    and par: "\<And>i. i \<in> set (spent_ins (T h)) \<Longrightarrow> \<sigma> (op_hash (prevout i)) \<noteq> Absent \<and> \<not> spent \<sigma> T (outkey i)"
  shows "ins_del (zip (spent_ins (T h)) (map (tprev E T) (spent_ins (T h)))) (outs_put E h (vout (T h)) (utxo_of E T \<sigma>)) =
     utxo_of E T (\<sigma>(h := Unconfirmed))"
proof (intro ext)
  fix a and k :: "uint256 \<times> int"
  obtain g n where k: "k = (g, n)" by fastforce
  let ?is = "spent_ins (T h)"
  have own: "op_hash (prevout i) \<noteq> h" if "i \<in> set ?is" for i using par [OF that] h by auto
  have unspent: "\<not> spent \<sigma> T (h, m)" for m
    using hist_okD(5) [OF ok] h by (force simp: spent_def outkey_def)
  show "ins_del (zip ?is (map (tprev E T) ?is)) (outs_put E h (vout (T h)) (utxo_of E T \<sigma>)) a k =
     utxo_of E T (\<sigma>(h := Unconfirmed)) a k"
  proof (cases "k \<in> outkey ` set ?is")
    case True
    then obtain i where i: "i \<in> set ?is" "outkey i = (g, n)" using k by force
    note o = tprev_slots [OF fine i]
    have "g \<noteq> h" using own [OF i(1)] i(2) by (auto simp: outkey_def)
    have z: "(i, tprev E T i) \<in> set (zip ?is (map (tprev E T) ?is))" using i(1) by (simp add: in_zip_map)
    have "utxo_of E T (\<sigma>(h := Unconfirmed)) a k = None" using True by (simp add: utxo_of_def k spent_accept [of \<sigma> h, OF h])
    moreover have "utxo_of E T \<sigma> a (g, n) = None" if "a \<notin> set (to_addresses (tprev E T i))"
      using that o slots_dom by (auto simp: utxo_of_def)
    ultimately show ?thesis
      using z i(2) \<open>g \<noteq> h\<close> unfolding k ins_del_at outs_put_at by (auto split: if_splits)
  next
    case False
    then have "\<not> (\<exists>(i, out) \<in> set (zip ?is (map (tprev E T) ?is)). outkey i = (g, n) \<and> a \<in> set (to_addresses out))"
      by (auto simp: in_zip_map k image_iff) metis
    then have "ins_del (zip ?is (map (tprev E T) ?is)) (outs_put E h (vout (T h)) (utxo_of E T \<sigma>)) a k =
        outs_put E h (vout (T h)) (utxo_of E T \<sigma>) a (g, n)" unfolding k ins_del_at by (simp only: if_False)
    also have "\<dots> = utxo_of E T (\<sigma>(h := Unconfirmed)) a k"
      using False unspent h
      by (cases "g = h") (auto simp: outs_put_at utxo_of_def k spent_accept [of \<sigma> h, OF h] split: option.splits)
    finally show ?thesis .
  qed
qed

lemma spent_reject:
  assumes ok: "hist_ok E A T (\<sigma>, stk)" and h: "\<sigma> h \<noteq> Absent"
  shows "spent (\<sigma>(h := Absent)) T k \<longleftrightarrow> spent \<sigma> T k \<and> k \<notin> outkey ` set (spent_ins (T h))"
proof
  assume "spent (\<sigma>(h := Absent)) T k"
  then obtain g i where g: "g \<noteq> h" "\<sigma> g \<noteq> Absent" "i \<in> set (spent_ins (T g))" "k = outkey i"
    by (auto simp: spent_def split: if_splits)
  then show "spent \<sigma> T k \<and> k \<notin> outkey ` set (spent_ins (T h))"
    using hist_okD(6) [OF ok g(2) h g(3)] by (auto simp: spent_def)
next
  assume "spent \<sigma> T k \<and> k \<notin> outkey ` set (spent_ins (T h))"
  then show "spent (\<sigma>(h := Absent)) T k" unfolding spent_def by (metis fun_upd_other)
qed

lemma map_of_zip_prevs:
  assumes "distinct (map outkey is)" and "i \<in> set is"
  shows "map_of (map (\<lambda>(i, out). (outkey i, out)) (zip is (map f is))) (outkey i) = Some (f i)"
proof -
  have "map_of (map (\<lambda>i. (outkey i, f i)) is) (outkey i) = Some (f i)"
    using assms by (intro map_of_is_SomeI) (auto simp: comp_def)
  then show ?thesis by (simp add: zip_map_same comp_def)
qed

lemma map_of_zip_prevs_None:
  "k \<notin> outkey ` set is \<Longrightarrow> map_of (map (\<lambda>(i, out). (outkey i, out)) (zip is (map f is))) k = None"
  by (auto simp: map_of_eq_None_iff zip_map_same)

lemma utxo_reject:
  assumes ok: "hist_ok E A T (\<sigma>, stk)" and h: "\<sigma> h = Unconfirmed"
    and free: "\<And>g i. \<sigma> g \<noteq> Absent \<Longrightarrow> i \<in> set (spent_ins (T g)) \<Longrightarrow> op_hash (prevout i) \<noteq> h"
  shows "outs_del E h (vout (T h)) (ins_put (zip (spent_ins (T h)) (map (tprev E T) (spent_ins (T h)))) (utxo_of E T \<sigma>)) =
     utxo_of E T (\<sigma>(h := Absent))"
proof (intro ext)
  fix a and k :: "uint256 \<times> int"
  obtain g n where k: "k = (g, n)" by fastforce
  let ?is = "spent_ins (T h)"
  let ?Y = "ins_put (zip ?is (map (tprev E T) ?is)) (utxo_of E T \<sigma>)"
  have live: "\<sigma> h \<noteq> Absent" using h by simp
  note fine = hist_okD(4) [OF ok live]
  have d: "distinct (map (\<lambda>io. outkey (fst io)) (zip ?is (map (tprev E T) ?is)))" "distinct (map outkey ?is)"
    using fine by (simp_all add: fine_def zip_map_same comp_def)
  have own: "(h, m) \<notin> outkey ` set ?is" for m using free [OF live] by (auto simp: outkey_def)
  show "outs_del E h (vout (T h)) ?Y a k = utxo_of E T (\<sigma>(h := Absent)) a k"
  proof (cases "g = h")
    case True
    have "?Y a (h, n) = utxo_of E T \<sigma> a (h, n)"
      unfolding ins_put_at [OF d(1)] map_of_zip_prevs_None [OF own] by simp
    then show ?thesis using slots_dom by (auto simp: outs_del_at k True utxo_of_def)
  next
    case other: False
    then have "outs_del E h (vout (T h)) ?Y a k = ?Y a k" by (simp add: outs_del_at k)
    also have "\<dots> = utxo_of E T (\<sigma>(h := Absent)) a k"
    proof (cases "k \<in> outkey ` set ?is")
      case True
      then obtain i where i: "i \<in> set ?is" "k = outkey i" by blast
      note o = tprev_slots [OF fine i(1)]
      have "spent \<sigma> T k" using live True by (auto simp: spent_def)
      moreover have "\<sigma> g \<noteq> Absent" using hist_okD(5) [OF ok live i(1)] i(2) k by (simp add: outkey_def)
      ultimately show ?thesis
        using o i(2) k other True unfolding i(2) ins_put_at [OF d(1)] map_of_zip_prevs [OF d(2) i(1)]
        by (simp add: utxo_of_def spent_reject [OF ok live] split: option.splits)
    next
      case False
      have "?Y a k = utxo_of E T \<sigma> a k"
        unfolding ins_put_at [OF d(1)] map_of_zip_prevs_None [OF False] by simp
      then show ?thesis using other False by (simp add: utxo_of_def k spent_reject [OF ok live])
    qed
    finally show ?thesis .
  qed
qed

section \<open>The other records\<close>

lemma spend_key_outkey: "spend_key i = spend_key j \<longleftrightarrow> outkey i = outkey j"
  by (simp add: spend_key_def outkey_def)

lemma spend_key_other [simp]:
  "KTx h \<noteq> spend_key i" "spend_key i \<noteq> KTx h" "KUnconfirmed h \<noteq> spend_key i" "spend_key i \<noteq> KUnconfirmed h"
  "spend_key i \<noteq> KUnconfCount" "spend_key i \<noteq> KUnconfSize"
  by (simp_all add: spend_key_def)

lemma spends_keep [simp]:
  "spends_put h is P (KTx g) = P (KTx g)" "spends_put h is P (KUnconfirmed g) = P (KUnconfirmed g)"
  "spends_del is P (KTx g) = P (KTx g)" "spends_del is P (KUnconfirmed g) = P (KUnconfirmed g)"
  by (auto simp: spends_del_at intro!: spends_put_other)

lemma objects_upd:
  assumes P: "objects_of E T \<sigma> P"
    and other: "\<And>g. g \<noteq> h \<Longrightarrow> \<sigma>' g = \<sigma> g \<and> P' (KTx g) = P (KTx g) \<and> P' (KUnconfirmed g) = P (KUnconfirmed g)"
    and own: "\<sigma>' h \<noteq> Absent \<Longrightarrow> P' (KTx h) = Some (VTx t) \<and> ft_outputs t = map (fb_output E) (vout (T h)) \<and>
      (ft_block_height t = - 1 \<longleftrightarrow> \<sigma>' h = Unconfirmed)"
    and unc: "P' (KUnconfirmed h) = (if \<sigma>' h = Unconfirmed then Some (unconfirmed_rec h t) else None)"
  shows "objects_of E T \<sigma>' P'"
  unfolding objects_of_def
proof
  fix g
  show "(\<sigma>' g \<noteq> Absent \<longrightarrow> (\<exists>t. P' (KTx g) = Some (VTx t) \<and> ft_outputs t = map (fb_output E) (vout (T g)) \<and>
        (ft_block_height t = - 1 \<longleftrightarrow> \<sigma>' g = Unconfirmed) \<and>
        (\<sigma>' g = Unconfirmed \<longrightarrow> P' (KUnconfirmed g) = Some (unconfirmed_rec g t)))) \<and>
     (\<sigma>' g \<noteq> Unconfirmed \<longrightarrow> P' (KUnconfirmed g) = None)"
  proof (cases "g = h")
    case True
    show ?thesis unfolding True using own unc by (intro conjI impI exI [of _ t]) simp_all
  next
    case False
    then show ?thesis using P other [OF False] by (simp add: objects_of_def)
  qed
qed

lemma spenders_accept:
  assumes ok: "hist_ok E A T (\<sigma>, stk)" and P: "spenders_of T \<sigma> P" and h: "\<sigma> h = Absent" and fine: "fine E A T h"
    and par: "\<And>i. i \<in> set (spent_ins (T h)) \<Longrightarrow> \<sigma> (op_hash (prevout i)) \<noteq> Absent \<and> \<not> spent \<sigma> T (outkey i)"
  shows "spenders_of T (\<sigma>(h := Unconfirmed)) (spends_put h (spent_ins (T h)) P)"
  unfolding spenders_of_def
proof (intro conjI allI impI)
  fix g k assume g: "(\<sigma>(h := Unconfirmed)) g \<noteq> Absent" "k < length (spent_ins (T g))"
  show "spends_put h (spent_ins (T h)) P (spend_key (spent_ins (T g) ! k)) =
      Some (VSpentBy \<lparr>ts_position = int k, ts_tx_hash = ToString g\<rparr>)"
  proof (cases "g = h")
    case True
    have "inj_on spend_key (set (spent_ins (T h)))" "distinct (spent_ins (T h))"
      using fine by (auto simp: fine_def distinct_map inj_on_def spend_key_outkey)
    then have "distinct (map spend_key (spent_ins (T h)))" by (simp add: distinct_map)
    from spends_put_at [OF this] show ?thesis using g(2) True by simp
  next
    case False
    then have live: "\<sigma> g \<noteq> Absent" using g(1) by simp
    have "spend_key (spent_ins (T g) ! k) \<noteq> spend_key i" if "i \<in> set (spent_ins (T h))" for i
    proof
      assume "spend_key (spent_ins (T g) ! k) = spend_key i"
      then have "outkey i \<in> outkey ` set (spent_ins (T g))" using nth_mem [OF g(2)] by (metis spend_key_outkey imageI)
      with par [OF that] live show False unfolding spent_def by blast
    qed
    then have "spend_key (spent_ins (T g) ! k) \<notin> spend_key ` set (spent_ins (T h))" by blast
    from spends_put_other [OF this] show ?thesis using P live g(2) by (simp add: spenders_of_def)
  qed
next
  fix g n assume "\<not> spent (\<sigma>(h := Unconfirmed)) T (g, n)"
  then have n: "\<not> spent \<sigma> T (g, n)" "(g, n) \<notin> outkey ` set (spent_ins (T h))"
    by (simp_all add: spent_accept [of \<sigma> h, OF h])
  then have "KSpend g n \<notin> spend_key ` set (spent_ins (T h))" by (auto simp: spend_key_def outkey_def)
  from spends_put_other [OF this] show "spends_put h (spent_ins (T h)) P (KSpend g n) = None"
    using P n(1) by (simp add: spenders_of_def)
qed

lemma spenders_reject:
  assumes ok: "hist_ok E A T (\<sigma>, stk)" and P: "spenders_of T \<sigma> P" and h: "\<sigma> h \<noteq> Absent"
  shows "spenders_of T (\<sigma>(h := Absent)) (spends_del (spent_ins (T h)) P)"
  unfolding spenders_of_def
proof (intro conjI allI impI)
  fix g k assume g: "(\<sigma>(h := Absent)) g \<noteq> Absent" "k < length (spent_ins (T g))"
  then have live: "g \<noteq> h" "\<sigma> g \<noteq> Absent" by (auto split: if_splits)
  have "spend_key (spent_ins (T g) ! k) \<noteq> spend_key i" if "i \<in> set (spent_ins (T h))" for i
    using hist_okD(6) [OF ok live(2) h nth_mem [OF g(2)] that] live(1) by (auto simp: spend_key_outkey)
  then have "spend_key (spent_ins (T g) ! k) \<notin> spend_key ` set (spent_ins (T h))" by blast
  then show "spends_del (spent_ins (T h)) P (spend_key (spent_ins (T g) ! k)) =
      Some (VSpentBy \<lparr>ts_position = int k, ts_tx_hash = ToString g\<rparr>)"
    using P live(2) g(2) by (simp add: spenders_of_def spends_del_at)
next
  fix g n assume "\<not> spent (\<sigma>(h := Absent)) T (g, n)"
  then have "\<not> spent \<sigma> T (g, n) \<or> (g, n) \<in> outkey ` set (spent_ins (T h))"
    by (simp add: spent_reject [OF ok h])
  moreover have "KSpend g n \<in> spend_key ` set (spent_ins (T h))" if "(g, n) \<in> outkey ` set (spent_ins (T h))"
    using that by (auto simp: spend_key_def outkey_def)
  ultimately show "spends_del (spent_ins (T h)) P (KSpend g n) = None"
    using P by (auto simp: spenders_of_def spends_del_at)
qed

lemma spenders_same:
  assumes "spenders_of T \<sigma> P" and "\<And>g. \<sigma>' g = Absent \<longleftrightarrow> \<sigma> g = Absent" and "\<And>i. P' (spend_key i) = P (spend_key i)"
    and "\<And>h n. P' (KSpend h n) = P (KSpend h n)"
  shows "spenders_of T \<sigma>' P'"
  using assms unfolding spenders_of_def spent_same [of \<sigma>' \<sigma>, OF assms(2)] by simp

lemma finite_unconfirmed: "hist_ok E A T (\<sigma>, stk) \<Longrightarrow> finite {h. \<sigma> h = Unconfirmed}"
  by (drule hist_okD(1), erule rev_finite_subset) auto

lemma counts_add:
  assumes "finite {h. \<sigma> h = Unconfirmed}" and "\<sigma> h \<noteq> Unconfirmed" and "counts_of X \<sigma> L" and "tl_txHex l = X h"
  shows "counts_of X (\<sigma>(h := Unconfirmed)) (recount (lg_count L + 1) (lg_size L + hex_size l) L')"
proof -
  have "{g. (\<sigma>(h := Unconfirmed)) g = Unconfirmed} = insert h {g. \<sigma> g = Unconfirmed}" by auto
  with assms show ?thesis by (simp add: counts_of_def recount_def hex_size_def)
qed

lemma counts_remove:
  assumes "finite {h. \<sigma> h = Unconfirmed}" and h: "\<sigma> h = Unconfirmed" and "counts_of X \<sigma> L" and "tl_txHex l = X h"
    and "x \<noteq> Unconfirmed"
  shows "counts_of X (\<sigma>(h := x)) (recount (lg_count L - 1) (lg_size L - hex_size l) L')"
proof -
  have "{g. (\<sigma>(h := x)) g = Unconfirmed} = {g. \<sigma> g = Unconfirmed} - {h}" using assms(5) by auto
  moreover have "0 < card {g. \<sigma> g = Unconfirmed}" using assms(1) h by (auto simp: card_gt_0_iff)
  ultimately show ?thesis
    using assms by (simp add: counts_of_def recount_def hex_size_def card_Diff_singleton sum_diff1)
qed

section \<open>The steps\<close>

lemma ledger_invD:
  assumes "ledger_inv E A T X (\<sigma>, stk) L"
  shows "hist_ok E A T (\<sigma>, stk)" "book_of E T (\<sigma>, stk) (lg_book L)" "lg_utxo L = utxo_of E T \<sigma>"
    "objects_of E T \<sigma> (lg_recs L)" "spenders_of T \<sigma> (lg_recs L)" "counts_of X \<sigma> L"
  using assms by (simp_all add: ledger_inv_def)

lemma recount_simps [simp]:
  "lg_book (recount c z L) = lg_book L" "lg_utxo (recount c z L) = lg_utxo L"
  "plain_key k \<Longrightarrow> k \<noteq> KUnconfCount \<Longrightarrow> k \<noteq> KUnconfSize \<Longrightarrow> lg_recs (recount c z L) k = lg_recs L k"
  by (simp_all add: recount_def)

lemma live_known:
  assumes ok: "hist_ok E A T (\<sigma>, stk)" and P: "objects_of E T \<sigma> P" and h: "\<sigma> h \<noteq> Absent"
  shows "tx_ready E A (T h) P" "spends_known P (T h)" "prevs_of P (T h) = map (tprev E T) (spent_ins (T h))"
    "tx_balance E P (T h) = tbal E T h" "touched E P (T h) = touch E T h"
proof -
  note par = hist_okD(5) [OF ok h] and fine = hist_okD(4) [OF ok h]
  show "tx_ready E A (T h) P" using par hist_okD(4) [OF ok] by (intro tx_ready_fine [OF P fine]) blast
  show "spends_known P (T h)" "prevs_of P (T h) = map (tprev E T) (spent_ins (T h))"
    "tx_balance E P (T h) = tbal E T h" "touched E P (T h) = touch E T h"
    using known_outputs [OF P fine par] by blast+
qed

lemma object_of: "objects_of E T \<sigma> P \<Longrightarrow> \<sigma> h \<noteq> Absent \<Longrightarrow> \<exists>t. P (KTx h) = Some (VTx t) \<and>
    ft_outputs t = map (fb_output E) (vout (T h)) \<and> (\<sigma> h = Unconfirmed \<longrightarrow> P (KUnconfirmed h) = Some (unconfirmed_rec h t))"
  by (metis objects_of_def)

lemma ledger_tx_simps [simp]:
  "ft_outputs (accepted_tx E l prevs) = map (fb_output E) (vout (tl_tx l))"
  "ft_block_height (accepted_tx E l prevs) = - 1"
  "ft_outputs (confirmed_tx E l t) = ft_outputs t" "ft_block_height (confirmed_tx E l t) = tl_blkHeight l"
  "unconfirmed_rec h (t\<lparr>ft_block_time := x, ft_block_height := y\<rparr>) = unconfirmed_rec h t"
  by (simp_all add: accepted_tx_def confirmed_tx_def unconfirmed_rec_def Let_def split: prod.splits)

lemma accept_step:
  assumes inv: "ledger_inv E A T X (\<sigma>, stk) L" and h: "\<sigma> h = Absent" and fine: "fine E A T h"
    and par: "\<And>i. i \<in> set (spent_ins (T h)) \<Longrightarrow> \<sigma> (op_hash (prevout i)) \<noteq> Absent \<and> \<not> spent \<sigma> T (outkey i)"
    and row: "row_of T X LOG2TYPE_TX_ACCEPT h l" and height: "tl_blkHeight l = - 1"
  shows "accept_ready E A l L" "ledger_inv E A T X (\<sigma>(h := Unconfirmed), stk) (ledger_accept E l L)"
proof -
  note D = ledger_invD [OF inv]
  have l: "tl_tx l = T h" "tl_txHash l = h" "tl_txHex l = X h" using row by (simp_all add: row_of_def)
  let ?is = "spent_ins (T h)" and ?P = "lg_recs L"
  have known: "\<And>i. i \<in> set ?is \<Longrightarrow> \<sigma> (op_hash (prevout i)) \<noteq> Absent" using par by blast
  have k: "prevs_of ?P (T h) = map (tprev E T) ?is" "tx_balance E ?P (T h) = tbal E T h" "touched E ?P (T h) = touch E T h"
    using known_outputs [OF D(4) fine known] by blast+
  have unspent: "\<not> spent \<sigma> T (h, n)" for n using hist_okD(5) [OF D(1)] h by (force simp: spent_def outkey_def)
  show "accept_ready E A l L"
    unfolding accept_ready_def l k
  proof (intro conjI allI ballI)
    show "tx_ready E A (T h) ?P" using par hist_okD(4) [OF D(1)] by (intro tx_ready_fine [OF D(4) fine]) blast
    show "lg_utxo L a (h, n) = None" for a n using h by (simp add: D(3) utxo_of_def)
    show "h \<notin> e_hash ` set (fst (lg_book L a) @ snd (lg_book L a))" if "a \<in> touch E T h" for a
    proof -
      obtain C U where pg: "lg_book L a = (C, U)" by fastforce
      with D(2) have "page_of E T (\<sigma>, stk) a (C, U)" by (metis book_of_def)
      note p = page_ofD [OF this]
      have "h \<notin> e_hash ` set U" unfolding p(3) using h by simp
      moreover have "h \<notin> set (map e_hash C)" unfolding p(1) using hist_okD(3) [OF D(1), of h] h by simp
      ultimately show ?thesis by (simp add: pg image_Un)
    qed
    show "case io of (i, out) \<Rightarrow> \<forall>a \<in> set (to_addresses out). lg_utxo L a (outkey i) \<noteq> None"
      if "io \<in> set (zip ?is (map (tprev E T) ?is))" for io
    proof -
      from in_zip_mapD [OF that] obtain i where i: "io = (i, tprev E T i)" "i \<in> set ?is" by blast
      obtain g n where o: "outkey i = (g, n)" by fastforce
      then have "\<sigma> g \<noteq> Absent" using par [OF i(2)] by (auto simp: outkey_def)
      then show ?thesis
        using tprev_slots [OF fine i(2) o] par [OF i(2)] by (simp add: i(1) o D(3) utxo_of_def slots_dom del: not_None_eq)
    qed
  qed (rule height)
  have rec: "ledger_accept E l L = recount (lg_count L + 1) (lg_size L + hex_size l) (L\<lparr>
       lg_book := upd_pages (tbal E T h) (\<lambda>a d. page_accept \<lparr>e_hash = h, e_diff = d, e_height = - 1,
         e_time = tl_maxBlkTimestamp l\<rparr>) (lg_book L),
       lg_utxo := utxo_of E T (\<sigma>(h := Unconfirmed)),
       lg_recs := (spends_put h ?is (?P(KTx h \<mapsto> VTx (accepted_tx E l (prevs_of ?P (T h))))))
         (KUnconfirmed h \<mapsto> unconfirmed_rec h (accepted_tx E l (prevs_of ?P (T h))))\<rparr>)"
    using utxo_accept [OF D(1) h fine par] by (simp add: ledger_accept_def Let_def l k D(3))
  show "ledger_inv E A T X (\<sigma>(h := Unconfirmed), stk) (ledger_accept E l L)"
    unfolding ledger_inv_def fst_conv
  proof (intro conjI)
    show "hist_ok E A T (\<sigma>(h := Unconfirmed), stk)" by (rule hist_accept [OF D(1) h fine par])
    show "book_of E T (\<sigma>(h := Unconfirmed), stk) (lg_book (ledger_accept E l L))"
      unfolding rec using book_accept [OF D(2) h] by simp
    show "lg_utxo (ledger_accept E l L) = utxo_of E T (\<sigma>(h := Unconfirmed))" by (simp add: rec)
    show "objects_of E T (\<sigma>(h := Unconfirmed)) (lg_recs (ledger_accept E l L))"
      by (rule objects_upd [OF D(4), of h _ _ "accepted_tx E l (prevs_of ?P (T h))"]) (simp_all add: rec l)
    show "spenders_of T (\<sigma>(h := Unconfirmed)) (lg_recs (ledger_accept E l L))"
    proof (rule spenders_same [OF spenders_accept [OF D(1) _ h fine par]])
      show "spenders_of T \<sigma> (?P(KTx h \<mapsto> VTx (accepted_tx E l (prevs_of ?P (T h)))))"
        by (rule spenders_same [OF D(5)]) simp_all
    qed (simp_all add: rec)
    show "counts_of X (\<sigma>(h := Unconfirmed)) (ledger_accept E l L)"
      unfolding rec using h by (intro counts_add [OF finite_unconfirmed [OF D(1)] _ D(6) l(3)]) simp
  qed
qed

lemma confirm_step:
  assumes inv: "ledger_inv E A T X (\<sigma>, stk) L" and h: "\<sigma> h = Unconfirmed"
    and row: "row_of T X LOG2TYPE_TX_CONFIRM h l" and height: "0 \<le> tl_blkHeight l"
  shows "confirm_ready E A l L" "ledger_inv E A T X (\<sigma>(h := Confirmed), stk @ [h]) (ledger_confirm E l L)"
proof -
  note D = ledger_invD [OF inv]
  have l: "tl_tx l = T h" "tl_txHash l = h" "tl_txHex l = X h" using row by (simp_all add: row_of_def)
  have live: "\<sigma> h \<noteq> Absent" using h by simp
  note k = live_known [OF D(1,4) live]
  obtain t where t: "lg_recs L (KTx h) = Some (VTx t)" "ft_outputs t = map (fb_output E) (vout (T h))"
    using object_of [OF D(4) live] by blast
  have same: "(\<sigma>(h := Confirmed)) g = Absent \<longleftrightarrow> \<sigma> g = Absent" for g using h by simp
  show "confirm_ready E A l L"
    unfolding confirm_ready_def l k
  proof (intro conjI ballI)
    fix a assume a: "a \<in> touch E T h"
    obtain C U where pg: "lg_book L a = (C, U)" by fastforce
    with D(2) have "page_of E T (\<sigma>, stk) a (C, U)" by (metis book_of_def)
    from page_ofD(3) [OF this] show "h \<in> e_hash ` set (snd (lg_book L a))" using a h by (simp add: pg)
  qed (use k(1) t height in auto)
  have rec: "ledger_confirm E l L = recount (lg_count L - 1) (lg_size L - hex_size l) (L\<lparr>
       lg_book := upd_pages (tbal E T h) (\<lambda>a d pg. page_confirm (hash_position h (snd pg)) (tl_blkHeight l)
         (tl_maxBlkTimestamp l) pg) (lg_book L),
       lg_recs := (lg_recs L)(KTx h \<mapsto> VTx (confirmed_tx E l t), KUnconfirmed h := None)\<rparr>)"
    using t by (simp add: ledger_confirm_def Let_def ledger_tx_def l k)
  show "ledger_inv E A T X (\<sigma>(h := Confirmed), stk @ [h]) (ledger_confirm E l L)"
    unfolding ledger_inv_def fst_conv
  proof (intro conjI)
    show "hist_ok E A T (\<sigma>(h := Confirmed), stk @ [h])"
      using hist_okD(2,3) [OF D(1)] h by (intro hist_ok_same [OF D(1) same]) auto
    show "book_of E T (\<sigma>(h := Confirmed), stk @ [h]) (lg_book (ledger_confirm E l L))"
      unfolding rec using book_confirm [OF D(2) h] by simp
    show "lg_utxo (ledger_confirm E l L) = utxo_of E T (\<sigma>(h := Confirmed))"
      unfolding utxo_same [of "\<sigma>(h := Confirmed)" \<sigma>, OF same] by (simp add: rec D(3))
    show "objects_of E T (\<sigma>(h := Confirmed)) (lg_recs (ledger_confirm E l L))"
      by (rule objects_upd [OF D(4), of h _ _ "confirmed_tx E l t"]) (use height in \<open>simp_all add: rec t\<close>)
    show "spenders_of T (\<sigma>(h := Confirmed)) (lg_recs (ledger_confirm E l L))"
      by (rule spenders_same [OF D(5) same]) (simp_all add: rec)
    show "counts_of X (\<sigma>(h := Confirmed)) (ledger_confirm E l L)"
      unfolding rec by (intro counts_remove [OF finite_unconfirmed [OF D(1)] h D(6) l(3)]) simp
  qed
qed

lemma unconfirm_step:
  assumes inv: "ledger_inv E A T X (\<sigma>, stk @ [h]) L" and h: "\<sigma> h = Confirmed"
    and row: "row_of T X LOG2TYPE_TX_UNCONFIRM h l"
  shows "unconfirm_ready E A l L" "ledger_inv E A T X (\<sigma>(h := Unconfirmed), stk) (ledger_unconfirm E l L)"
proof -
  note D = ledger_invD [OF inv]
  have l: "tl_tx l = T h" "tl_txHash l = h" "tl_txHex l = X h" using row by (simp_all add: row_of_def)
  have live: "\<sigma> h \<noteq> Absent" using h by simp
  note k = live_known [OF D(1,4) live]
  obtain t where t: "lg_recs L (KTx h) = Some (VTx t)" "ft_outputs t = map (fb_output E) (vout (T h))"
    using object_of [OF D(4) live] by blast
  have same: "(\<sigma>(h := Unconfirmed)) g = Absent \<longleftrightarrow> \<sigma> g = Absent" for g using h by simp
  show "unconfirm_ready E A l L"
    unfolding unconfirm_ready_def l k
  proof (intro conjI ballI)
    fix a assume a: "a \<in> touch E T h"
    obtain C U where pg: "lg_book L a = (C, U)" by fastforce
    with D(2) have "page_of E T (\<sigma>, stk @ [h]) a (C, U)" by (metis book_of_def)
    from page_ofD(1) [OF this] have "map e_hash C = filter (\<lambda>h. a \<in> touch E T h) stk @ [h]" using a by simp
    then show "fst (lg_book L a) \<noteq> []" "e_hash (last (fst (lg_book L a))) = h"
      by (auto simp: pg map_eq_append_conv)
  qed (use k(1) t in auto)
  have rec: "ledger_unconfirm E l L = recount (lg_count L + 1) (lg_size L + hex_size l) (L\<lparr>
       lg_book := upd_pages (tbal E T h) (\<lambda>a d. page_unconfirm) (lg_book L),
       lg_recs := (lg_recs L)(KTx h \<mapsto> VTx (t\<lparr>ft_block_time := 0, ft_block_height := - 1\<rparr>),
         KUnconfirmed h \<mapsto> unconfirmed_rec h t)\<rparr>)"
    using t by (simp add: ledger_unconfirm_def Let_def ledger_tx_def l k)
  show "ledger_inv E A T X (\<sigma>(h := Unconfirmed), stk) (ledger_unconfirm E l L)"
    unfolding ledger_inv_def fst_conv
  proof (intro conjI)
    have "g \<in> set stk \<longleftrightarrow> (\<sigma>(h := Unconfirmed)) g = Confirmed" for g
      using hist_okD(2) [OF D(1)] hist_okD(3) [OF D(1), of g] by auto
    then show "hist_ok E A T (\<sigma>(h := Unconfirmed), stk)"
      using hist_okD(2) [OF D(1)] by (intro hist_ok_same [OF D(1) same]) simp_all
    show "book_of E T (\<sigma>(h := Unconfirmed), stk) (lg_book (ledger_unconfirm E l L))"
      unfolding rec using book_unconfirm [OF D(2) h] by simp
    show "lg_utxo (ledger_unconfirm E l L) = utxo_of E T (\<sigma>(h := Unconfirmed))"
      unfolding utxo_same [of "\<sigma>(h := Unconfirmed)" \<sigma>, OF same] by (simp add: rec D(3))
    show "objects_of E T (\<sigma>(h := Unconfirmed)) (lg_recs (ledger_unconfirm E l L))"
      by (rule objects_upd [OF D(4), of h _ _ "t\<lparr>ft_block_time := 0, ft_block_height := - 1\<rparr>"]) (simp_all add: rec t)
    show "spenders_of T (\<sigma>(h := Unconfirmed)) (lg_recs (ledger_unconfirm E l L))"
      by (rule spenders_same [OF D(5) same]) (simp_all add: rec)
    show "counts_of X (\<sigma>(h := Unconfirmed)) (ledger_unconfirm E l L)"
      unfolding rec using h by (intro counts_add [OF finite_unconfirmed [OF D(1)] _ D(6) l(3)]) simp
  qed
qed

lemma reject_step:
  assumes inv: "ledger_inv E A T X (\<sigma>, stk) L" and h: "\<sigma> h = Unconfirmed" and ob: "object_text_ok E"
    and row: "row_of T X LOG2TYPE_TX_REJECT h l"
    and free: "\<And>g i. \<sigma> g \<noteq> Absent \<Longrightarrow> i \<in> set (spent_ins (T g)) \<Longrightarrow> op_hash (prevout i) \<noteq> h"
  shows "reject_ready E A l L" "ledger_inv E A T X (\<sigma>(h := Absent), stk) (ledger_reject E l L)"
proof -
  note D = ledger_invD [OF inv]
  have l: "tl_tx l = T h" "tl_txHash l = h" "tl_txHex l = X h" using row by (simp_all add: row_of_def)
  have live: "\<sigma> h \<noteq> Absent" using h by simp
  note k = live_known [OF D(1,4) live]
  let ?is = "spent_ins (T h)"
  obtain t where t: "lg_recs L (KTx h) = Some (VTx t)" using object_of [OF D(4) live] by blast
  show "reject_ready E A l L"
    unfolding reject_ready_def l k
  proof (intro conjI ballI allI impI)
    fix a assume a: "a \<in> touch E T h"
    obtain C U where pg: "lg_book L a = (C, U)" by fastforce
    with D(2) have "page_of E T (\<sigma>, stk) a (C, U)" by (metis book_of_def)
    from page_ofD(3) [OF this] show "h \<in> e_hash ` set (snd (lg_book L a))" using a h by (simp add: pg)
  next
    fix n a assume "n < length (vout (T h))" "a \<in> set (dests E (vout (T h) ! n))"
    moreover have "\<not> spent \<sigma> T (h, int n)" using free by (force simp: spent_def outkey_def)
    ultimately show "lg_utxo L a (h, int n) \<noteq> None"
      using live by (simp add: D(3) utxo_of_def slots_dom del: not_None_eq)
  next
    fix io assume "io \<in> set (zip ?is (map (tprev E T) ?is))"
    then obtain i where i: "io = (i, tprev E T i)" "i \<in> set ?is" using in_zip_mapD by blast
    then have "spent \<sigma> T (outkey i)" using live by (auto simp: spent_def)
    then show "case io of (i, out) \<Rightarrow> \<forall>a \<in> set (to_addresses out). lg_utxo L a (outkey i) = None"
      by (auto simp: i(1) D(3) utxo_of_def split: prod.splits)
  qed (use k(1) t ob in auto)
  have rec: "ledger_reject E l L = recount (lg_count L - 1) (lg_size L - hex_size l) (L\<lparr>
       lg_book := upd_pages (tbal E T h) (\<lambda>a d pg. page_reject (hash_position h (snd pg)) pg) (lg_book L),
       lg_utxo := utxo_of E T (\<sigma>(h := Absent)),
       lg_recs := (spends_del ?is (lg_recs L))(KTx h \<mapsto> VTx (t\<lparr>ft_is_double_spend := True\<rparr>), KUnconfirmed h := None)\<rparr>)"
    using t utxo_reject [OF D(1) h free] by (simp add: ledger_reject_def Let_def ledger_tx_def l k D(3))
  show "ledger_inv E A T X (\<sigma>(h := Absent), stk) (ledger_reject E l L)"
    unfolding ledger_inv_def fst_conv
  proof (intro conjI)
    show "hist_ok E A T (\<sigma>(h := Absent), stk)" by (rule hist_reject [OF D(1) h free])
    show "book_of E T (\<sigma>(h := Absent), stk) (lg_book (ledger_reject E l L))"
      unfolding rec using book_reject [OF D(2) h] by simp
    show "lg_utxo (ledger_reject E l L) = utxo_of E T (\<sigma>(h := Absent))" by (simp add: rec)
    show "objects_of E T (\<sigma>(h := Absent)) (lg_recs (ledger_reject E l L))"
      by (rule objects_upd [OF D(4), of h]) (simp_all add: rec)
    show "spenders_of T (\<sigma>(h := Absent)) (lg_recs (ledger_reject E l L))"
      by (rule spenders_same [OF spenders_reject [OF D(1,5) live]]) (simp_all add: rec)
    show "counts_of X (\<sigma>(h := Absent)) (ledger_reject E l L)"
      unfolding rec by (intro counts_remove [OF finite_unconfirmed [OF D(1)] h D(6) l(3)]) simp
  qed
qed

end
