(* ===== verification/ParserBlock.thy ===== *)
theory ParserBlock
  imports Ledger
begin

text \<open>
  Blocks in \<open>tparser\<close> (src/jiexi/src/Parser.cc): \<open>acceptBlock\<close> writes the object of a block, its
  height, the hashes of its transactions in strings of 500, its time stamp, the next hash
  in the block before it, and takes it out of the list of orphans of its height;
  \<open>rejectBlock\<close> undoes this and lists the block as an orphan.

  \<open>chain_recs\<close> says that the records of heights and blocks are those of a chain of hashes, each
  linked to the next. Accepting a block on top of it and rejecting the last one keep it.
\<close>

section \<open>Operations\<close>

definition TargetToPdiff :: "uint256 \<Rightarrow> 64 word res" where
  \<comment> \<open>\<open>strtoull\<close> of a quotient that is too large gives the largest number\<close>
  "TargetToPdiff target =
     (if target = 0 then Inl (Throw ''CBigNum::operator/ : BN_div failed'')
      else Inr (word_of_int (min (2 ^ 64 - 1) ((2 ^ 224 - 1) div uint target))))"

definition getBlockRawHexByBlockId :: "int \<Rightarrow> rawblock list \<Rightarrow> string res" where
  "getBlockRawHexByBlockId blockId rows =
     (case filter (\<lambda>r. rb_id r = blockId) rows of
        [] \<Rightarrow> Inl (Throw ''can't find block by blkID from DB'')
      | r # _ \<Rightarrow> bindE (assertE ''rawHex->length() % 2 == 0'' (even (length (rb_hex r)))) (\<lambda>_. Inr (rb_hex r)))"

definition mutate_hash :: "string \<Rightarrow> string \<Rightarrow> string res" where
  \<comment> \<open>\<open>Mutate(i, new[i])\<close> for every position of \<open>new\<close>\<close>
  "mutate_hash new old =
     (if length new \<le> length old then Inr (new @ drop (length new) old) else Inl (AssertFail ''i < size()''))"

definition update_next_hash :: "'db penv \<Rightarrow> uint256 \<Rightarrow> string \<Rightarrow> 'db pstate \<Rightarrow> 'db pstate res" where
  "update_next_hash E prevBlockHash next s =
     bindE (kvget E (key_str (KBlock prevBlockHash)) s) (\<lambda>value.
     bindE (root_Block value) (\<lambda>prevBlock.
     bindE (mutate_hash next (fk_next_block_hash prevBlock)) (\<lambda>next.
     kvset E (key_str (KBlock prevBlockHash)) (VBlock (prevBlock\<lparr>fk_next_block_hash := next\<rparr>)) s)))"

definition first_tx :: "CBlock \<Rightarrow> CTransaction res" where
  "first_tx blk = (case vtx blk of [] \<Rightarrow> Inl (UB ''blk.vtx[0]'') | tx # _ \<Rightarrow> Inr tx)"

definition insertBlock :: "'db penv \<Rightarrow> CBlock \<Rightarrow> int \<Rightarrow> int \<Rightarrow> 32 word \<Rightarrow> 'db pstate \<Rightarrow> 'db pstate res" where
  "insertBlock E blk height blockSize maxBlkTimestamp s =
     (let header = GetBlockHeader blk; blockHash = pe_bh E header in
      bindE (TargetToPdiff blockHash) (\<lambda>pdiff.
      let rewardBlock = GetBlockValue (pe_interval E) height 0 in
      bindE (first_tx blk) (\<lambda>tx.
      bindE (GetValueOut tx) (\<lambda>valueOut.
      let rewardFees = valueOut - rewardBlock in
      bindE (assertE ''rewardFees >= 0'' (rewardFees \<ge> 0)) (\<lambda>_.
      bindE (kvset E (key_str (KBlock blockHash)) (VBlock
        \<lparr>fk_height = height, fk_version = b_nVersion header, fk_mrkl_root = ToString (hashMerkleRoot header),
         fk_timestamp = nTime header, fk_bits = nBits header, fk_nonce = nNonce header,
         fk_prev_block_hash = ToString (hashPrevBlock header), fk_next_block_hash = ToString 0,
         fk_size = blockSize, fk_pool_difficulty = pdiff, fk_difficulty = pe_difficulty E (nBits header),
         fk_tx_count = word_of_nat (length (vtx blk)), fk_reward_block = rewardBlock, fk_reward_fees = rewardFees,
         fk_created_at = pe_time E, fk_is_orphan = False, fk_curr_max_timestamp = maxBlkTimestamp\<rparr>) s) (\<lambda>s.
      bindE (kvset E (key_str (KHeight height)) (VStr (ToString blockHash)) s) (\<lambda>s.
      if height > 0 then update_next_hash E (hashPrevBlock header) (ToString blockHash) s else Inr s)))))))"

definition kBatchSize :: nat where
  "kBatchSize = 500"

definition insert_block_tx ::
  "'db penv \<Rightarrow> uint256 \<Rightarrow> CTransaction \<Rightarrow> nat \<times> string \<times> 'db pstate \<Rightarrow> (nat \<times> string \<times> 'db pstate) res" where
  "insert_block_tx E blockHash tx = (\<lambda>(i, value, s).
     let value = value @ ToString (pe_gh E tx) in
     if (i + 1) mod kBatchSize = 0
     then bindE (kvset E (key_str (KBlockTxs blockHash (int (i div kBatchSize)))) (VStr value) s) (\<lambda>s. Inr (i + 1, [], s))
     else Inr (i + 1, value, s))"

definition insertBlockTxs :: "'db penv \<Rightarrow> CBlock \<Rightarrow> 'db pstate \<Rightarrow> 'db pstate res" where
  "insertBlockTxs E blk s =
     (let blockHash = pe_bh E (GetBlockHeader blk) in
      bindE (foldE (insert_block_tx E blockHash) (vtx blk) (0, [], s)) (\<lambda>(i, value, s).
      if value \<noteq> [] then kvset E (key_str (KBlockTxs blockHash (int (i div kBatchSize)))) (VStr value) s
      else Inr s))"

definition orphan_set :: "string \<Rightarrow> string sset" where
  \<comment> \<open>the \<open>set<string>\<close> of the 64 characters that start at each multiple of 64\<close>
  "orphan_set value = ss_of_list (map (\<lambda>i. take 64 (drop (i * 64) value)) [0..<length value div 64])"

definition removeOrphanBlockHash :: "string \<Rightarrow> string \<Rightarrow> string" where
  "removeOrphanBlockHash hash value = concat (map (take 64) (ss_del hash (orphan_set value)))"

definition insertOrphanBlockHash :: "string \<Rightarrow> string \<Rightarrow> string" where
  "insertOrphanBlockHash hash value =
     (if value = [] then take 64 hash else concat (map (take 64) (ss_ins hash (orphan_set value))))"

definition notify_block :: "'db penv \<Rightarrow> int \<Rightarrow> uint256 \<Rightarrow> int \<Rightarrow> 'db pstate \<Rightarrow> 'db pstate" where
  "notify_block E type hash height s =
     s\<lparr>p_currBlockHeight := height, p_notified := p_notified s @
        [NotifyItem_toStr (pe_gmtime E) (NotifyItem_loadblock (pe_time E) type hash height) @ [CHR 0x0A]]\<rparr>"

definition decode_block :: "rawblock list \<Rightarrow> TxLog2 \<Rightarrow> (string \<times> CBlock) res" where
  "decode_block rows txLog2 =
     bindE (getBlockRawHexByBlockId (tl_blkId txLog2) rows) (\<lambda>blkRawHex.
     case DecodeHexBlk blkRawHex of
       None \<Rightarrow> Inl (Throw ''decode block hex failure'')
     | Some blk \<Rightarrow> Inr (blkRawHex, blk))"

definition removeOrphan :: "'db penv \<Rightarrow> int \<Rightarrow> uint256 \<Rightarrow> 'db pstate \<Rightarrow> 'db pstate res" where
  "removeOrphan E height hash s =
     (case kvgetMayNotExist E (key_str (KOrphan height)) s of (exist, value) \<Rightarrow>
        if exist
        then bindE (value_string value) (\<lambda>value.
          let value = removeOrphanBlockHash (ToString hash) value in
          if value \<noteq> [] then kvset E (key_str (KOrphan height)) (VStr value) s
          else kvdel E (key_str (KOrphan height)) s)
        else Inr s)"

definition acceptBlock :: "'db penv \<Rightarrow> rawblock list \<Rightarrow> TxLog2 \<Rightarrow> 'db pstate \<Rightarrow> (string \<times> 'db pstate) res" where
  "acceptBlock E rows txLog2 s =
     bindE (decode_block rows txLog2) (\<lambda>(blkRawHex, blk).
     let hash = pe_bh E (GetBlockHeader blk) in
     bindE (insertBlock E blk (tl_blkHeight txLog2) (int (length blkRawHex div 2)) (tl_maxBlkTimestamp txLog2) s) (\<lambda>s.
     bindE (insertBlockTxs E blk s) (\<lambda>s.
     bindE (removeOrphan E (tl_blkHeight txLog2) hash s) (\<lambda>s.
     bindE (kvset E (key_str (KTimestamp (tl_maxBlkTimestamp txLog2) (tl_blkHeight txLog2))) (VStr (ToString hash)) s) (\<lambda>s.
     Inr (ToString hash, notify_block E NOTIFY_EVENT_BLOCK_ACCEPT hash (tl_blkHeight txLog2) s))))))"

definition rejectBlock :: "'db penv \<Rightarrow> rawblock list \<Rightarrow> TxLog2 \<Rightarrow> 'db pstate \<Rightarrow> 'db pstate res" where
  "rejectBlock E rows txLog2 s =
     bindE (decode_block rows txLog2) (\<lambda>(blkRawHex, blk).
     let header = GetBlockHeader blk; hash = pe_bh E header; height = tl_blkHeight txLog2 in
     bindE (value_string (snd (kvgetMayNotExist E (key_str (KOrphan height)) s))) (\<lambda>value.
     bindE (kvset E (key_str (KOrphan height)) (VStr (insertOrphanBlockHash (ToString hash) value)) s) (\<lambda>s.
     bindE (kvdel E (key_str (KHeight height)) s) (\<lambda>s.
     bindE (kvget E (key_str (KBlock hash)) s) (\<lambda>value.
     bindE (root_Block value) (\<lambda>fb_block.
     bindE (kvset E (key_str (KBlock hash)) (VBlock (fb_block\<lparr>fk_is_orphan := True\<rparr>)) s) (\<lambda>s.
     bindE (kvdel E (key_str (KTimestamp (tl_maxBlkTimestamp txLog2) height)) s) (\<lambda>s.
     bindE (if height > 0
            then bindE (kvget E (key_str (KBlock (hashPrevBlock header))) s) (\<lambda>value.
              bindE (root_Block value) (\<lambda>prevBlock.
              bindE (assertE ''prevBlock->next_block_hash()->size() == 64'' (length (fk_next_block_hash prevBlock) = 64)) (\<lambda>_.
              bindE (mutate_hash (replicate 64 CHR ''0'') (fk_next_block_hash prevBlock)) (\<lambda>next.
              kvset E (key_str (KBlock (hashPrevBlock header))) (VBlock (prevBlock\<lparr>fk_next_block_hash := next\<rparr>)) s))))
            else Inr s) (\<lambda>s.
     Inr (notify_block E NOTIFY_EVENT_BLOCK_REJECT hash height s))))))))))"

section \<open>The chain of blocks\<close>

fun block_key :: "kvkey \<Rightarrow> bool" where
  "block_key (KHeight n) = True"
| "block_key (KBlock h) = True"
| "block_key (KBlockTxs h n) = True"
| "block_key (KOrphan n) = True"
| "block_key (KTimestamp t n) = True"
| "block_key _ = False"

definition block_frame :: "(kvkey \<Rightarrow> kvval option) \<Rightarrow> (kvkey \<Rightarrow> kvval option) \<Rightarrow> bool" where
  "block_frame P P' = (\<forall>k. \<not> block_key k \<longrightarrow> P' k = P k)"

definition chain_recs :: "(kvkey \<Rightarrow> kvval option) \<Rightarrow> uint256 list \<Rightarrow> bool" where
  "chain_recs P bs =
     (distinct bs \<and>
      (\<forall>n. P (KHeight n) = (if 0 \<le> n \<and> n < int (length bs) then Some (VStr (ToString (bs ! nat n))) else None)) \<and>
      (\<forall>i < length bs. \<exists>b. P (KBlock (bs ! i)) = Some (VBlock b) \<and> fk_height b = int i \<and> \<not> fk_is_orphan b \<and>
         fk_next_block_hash b = ToString (if Suc i < length bs then bs ! Suc i else 0) \<and>
         (0 < i \<longrightarrow> fk_prev_block_hash b = ToString (bs ! (i - 1)))))"

text \<open>The orphans of a height: a sorted set of hashes.\<close>

definition orphans_at :: "(kvkey \<Rightarrow> kvval option) \<Rightarrow> int \<Rightarrow> string sset \<Rightarrow> bool" where
  "orphans_at P n S = (ss_wf S \<and> (\<forall>x \<in> set S. length x = 64) \<and>
     P (KOrphan n) = (if S = [] then None else Some (VStr (concat S))))"

text \<open>The hashes of the transactions of a block.\<close>

definition txs_at :: "(kvkey \<Rightarrow> kvval option) \<Rightarrow> uint256 \<Rightarrow> uint256 list \<Rightarrow> bool" where
  "txs_at P hash hs = (\<forall>k. k * kBatchSize < length hs \<longrightarrow>
     P (KBlockTxs hash (int k)) = Some (VStr (concat (map ToString (take kBatchSize (drop (k * kBatchSize) hs))))))"

section \<open>Orphans\<close>

lemma concat_chunk:
  assumes "\<forall>x \<in> set xs. length x = 64" and "i < length xs"
  shows "take 64 (drop (i * 64) (concat xs)) = xs ! i"
  using assms
proof (induction xs arbitrary: i)
  case (Cons x xs)
  then show ?case by (cases i) simp_all
qed simp

lemma length_concat_chunks: "\<forall>x \<in> set xs. length x = 64 \<Longrightarrow> length (concat xs) = 64 * length xs"
  by (induction xs) simp_all

lemma orphan_set_concat: "\<forall>x \<in> set xs. length x = 64 \<Longrightarrow> orphan_set (concat xs) = ss_of_list xs"
proof -
  assume xs: "\<forall>x \<in> set xs. length x = 64"
  then have "length (concat xs) div 64 = length xs" by (simp add: length_concat_chunks)
  moreover have "map (\<lambda>i. take 64 (drop (i * 64) (concat xs))) [0..<length xs] = xs"
    using concat_chunk [OF xs] by (intro nth_equalityI) simp_all
  ultimately show ?thesis by (simp only: orphan_set_def)
qed

lemma orphan_set_text: "ss_wf S \<Longrightarrow> \<forall>x \<in> set S. length x = 64 \<Longrightarrow> orphan_set (concat S) = S"
  by (simp add: orphan_set_concat ss_of_list_id)

lemma take_chunks: "\<forall>x \<in> set S. length x = 64 \<Longrightarrow> map (take 64) S = S"
  by (simp add: map_idI)

lemma removeOrphan_text:
  assumes "ss_wf S" and "\<forall>x \<in> set S. length x = 64"
  shows "removeOrphanBlockHash h (concat S) = concat (ss_del h S)"
  using assms by (simp add: removeOrphanBlockHash_def orphan_set_text take_chunks)

lemma insertOrphan_text:
  assumes "ss_wf S" and "\<forall>x \<in> set S. length x = 64" and "length h = 64"
  shows "insertOrphanBlockHash h (concat S) = concat (ss_ins h S)"
proof (cases "S = []")
  case True
  then show ?thesis using assms by (simp add: insertOrphanBlockHash_def)
next
  case False
  then obtain x S' where S: "S = x # S'" by (cases S) auto
  then have "concat S \<noteq> []" using assms(2) by auto
  then show ?thesis using assms
    by (simp add: insertOrphanBlockHash_def orphan_set_text take_chunks del: concat_eq_Nil_conv)
qed

lemma concat_ss_Nil: "\<forall>x \<in> set S. length x = (64 :: nat) \<Longrightarrow> concat S = [] \<longleftrightarrow> S = []"
  by (cases S) auto

section \<open>Steps on the database\<close>

lemma getMay_pinv:
  assumes "pinv V A s D B Y P" and "rocks_ok (pe_rocks E) V" and "plain_key k"
  shows "kvgetMayNotExist E (key_str k) s = (case P k of None \<Rightarrow> (False, VStr []) | Some v \<Rightarrow> (True, v))"
proof -
  from assms(1,3) have "kv_view V (p_kv s) k = P k" by (auto simp: pinv_def st_def view_def)
  then show ?thesis using assms(2) by (simp add: kvgetMayNotExist_def KVDB_getMayNotExist_view)
qed

lemma get_at:
  assumes "at_ctl V A D c B Y P s" and "rocks_ok (pe_rocks E) V" and "plain_key k" and "P k = Some v" and "Q v"
  shows "returns (kvget E (key_str k) s) Q"
  using kvget_pinv_rule [OF at_ctlD(1) [OF assms(1)] assms(2,3,4)] assms(5) .

lemma update_next_hash_at:
  assumes s: "at_ctl V A D c B Y P s" and R: "rocks_ok (pe_rocks E) V" and b: "P (KBlock h) = Some (VBlock b)"
    and len: "length next = length (fk_next_block_hash b)"
  shows "returns (update_next_hash E h next s) (at_ctl V A D c B Y (P(KBlock h \<mapsto> VBlock (b\<lparr>fk_next_block_hash := next\<rparr>))))"
  unfolding update_next_hash_def
  by (rule returns_bind, rule get_at [OF s R], simp, rule b, unfold root_simps bindE_simps, rule returns_bind,
      simp add: mutate_hash_def len, rule put_at [OF s R], simp_all)

definition new_block :: "'db penv \<Rightarrow> CBlock \<Rightarrow> int \<Rightarrow> int \<Rightarrow> 32 word \<Rightarrow> int \<Rightarrow> 64 word \<Rightarrow> fb_Block" where
  "new_block E blk height blockSize maxBlkTimestamp valueOut pdiff =
     (let header = GetBlockHeader blk in
      \<lparr>fk_height = height, fk_version = b_nVersion header, fk_mrkl_root = ToString (hashMerkleRoot header),
       fk_timestamp = nTime header, fk_bits = nBits header, fk_nonce = nNonce header,
       fk_prev_block_hash = ToString (hashPrevBlock header), fk_next_block_hash = ToString 0,
       fk_size = blockSize, fk_pool_difficulty = pdiff, fk_difficulty = pe_difficulty E (nBits header),
       fk_tx_count = word_of_nat (length (vtx blk)), fk_reward_block = GetBlockValue (pe_interval E) height 0,
       fk_reward_fees = valueOut - GetBlockValue (pe_interval E) height 0,
       fk_created_at = pe_time E, fk_is_orphan = False, fk_curr_max_timestamp = maxBlkTimestamp\<rparr>)"

text \<open>What a block has to satisfy to be accepted on top of the chain.\<close>

definition block_fits :: "'db penv \<Rightarrow> CBlock \<Rightarrow> uint256 list \<Rightarrow> bool" where
  "block_fits E blk bs = (let hash = pe_bh E (GetBlockHeader blk) in
     hash \<noteq> 0 \<and> hash \<notin> set bs \<and> vtx blk \<noteq> [] \<and> (bs \<noteq> [] \<longrightarrow> hashPrevBlock (GetBlockHeader blk) = last bs) \<and>
     GetValueOut (hd (vtx blk)) = Inr (out_total (hd (vtx blk))) \<and>
     GetBlockValue (pe_interval E) (int (length bs)) 0 \<le> out_total (hd (vtx blk)))"

lemma insertBlock_at:
  assumes s: "at_ctl V A D c B Y P s" and R: "rocks_ok (pe_rocks E) V" and ch: "chain_recs P bs"
    and fits: "block_fits E blk bs"
  shows "returns (insertBlock E blk (int (length bs)) sz ts s) (\<lambda>s'. \<exists>P'. at_ctl V A D c B Y P' s' \<and>
     (\<forall>k. (\<forall>h. k \<noteq> KBlock h) \<and> (\<forall>n. k \<noteq> KHeight n) \<longrightarrow> P' k = P k) \<and>
     chain_recs P' (bs @ [pe_bh E (GetBlockHeader blk)]))"
proof -
  let ?hash = "pe_bh E (GetBlockHeader blk)" and ?h = "int (length bs)"
  note f = fits [unfolded block_fits_def Let_def]
  obtain tx rest where vtx: "vtx blk = tx # rest" using f by (cases "vtx blk") auto
  obtain pdiff where pdiff: "TargetToPdiff ?hash = Inr pdiff" using f by (simp add: TargetToPdiff_def)
  have val: "GetValueOut tx = Inr (out_total tx)" "GetBlockValue (pe_interval E) ?h 0 \<le> out_total tx" using f vtx by simp_all
  let ?b = "new_block E blk ?h sz ts (out_total tx) pdiff"
  let ?P1 = "P(KBlock ?hash \<mapsto> VBlock ?b, KHeight ?h \<mapsto> VStr (ToString ?hash))"
  have start: "insertBlock E blk ?h sz ts s =
     bindE (kvset E (key_str (KBlock ?hash)) (VBlock ?b) s) (\<lambda>s.
     bindE (kvset E (key_str (KHeight ?h)) (VStr (ToString ?hash)) s) (\<lambda>s.
     if ?h > 0 then update_next_hash E (hashPrevBlock (GetBlockHeader blk)) (ToString ?hash) s else Inr s))"
    using vtx pdiff val by (simp add: insertBlock_def Let_def first_tx_def new_block_def)
  have b: "fk_height ?b = ?h" "\<not> fk_is_orphan ?b" "fk_next_block_hash ?b = ToString 0"
    "fk_prev_block_hash ?b = ToString (hashPrevBlock (GetBlockHeader blk))"
    by (simp_all add: new_block_def Let_def)
  have new: "?hash \<notin> set bs" using f by blast
  have link: "\<exists>c. ?P1 (KBlock (bs ! i)) = Some (VBlock c) \<and> fk_height c = int i \<and> \<not> fk_is_orphan c \<and>
         fk_next_block_hash c = ToString (if Suc i < length bs then bs ! Suc i else 0) \<and>
         (0 < i \<longrightarrow> fk_prev_block_hash c = ToString (bs ! (i - 1)))" if "i < length bs" for i
  proof -
    have "bs ! i \<noteq> ?hash" using new that by (metis nth_mem)
    then show ?thesis using ch that by (simp add: chain_recs_def)
  qed
  have heights: "?P1 (KHeight n) = (if 0 \<le> n \<and> n < int (length (bs @ [?hash]))
      then Some (VStr (ToString ((bs @ [?hash]) ! nat n))) else None)" for n
    using ch by (auto simp: chain_recs_def nth_append)
  show ?thesis
  proof (cases "bs = []")
    case True
    have "chain_recs ?P1 (bs @ [?hash])" unfolding chain_recs_def using True b heights by auto
    then show ?thesis
      unfolding start using True
      by (intro returns_bind put_at [OF s R] put_at [OF _ R]) (auto intro!: exI [of _ ?P1])
  next
    case False
    let ?p = "last bs" and ?l = "length bs - 1"
    have l: "?l < length bs" "bs ! ?l = ?p" "Suc ?l = length bs" using False by (simp_all add: last_conv_nth)
    obtain pb where pb: "?P1 (KBlock ?p) = Some (VBlock pb)" "fk_height pb = int ?l" "\<not> fk_is_orphan pb"
      "fk_next_block_hash pb = ToString 0" "0 < ?l \<longrightarrow> fk_prev_block_hash pb = ToString (bs ! (?l - 1))"
      using link [OF l(1), unfolded l(2,3)] unfolding if_not_P [OF less_irrefl] by (elim exE conjE) (rule that)
    let ?pb = "pb\<lparr>fk_next_block_hash := ToString ?hash\<rparr>"
    let ?P2 = "?P1(KBlock ?p \<mapsto> VBlock ?pb)"
    have prev: "hashPrevBlock (GetBlockHeader blk) = ?p" using f False by blast
    have pn: "?p \<noteq> ?hash" using new last_in_set [OF False] by metis
    have d: "distinct bs" using ch by (simp add: chain_recs_def)
    have "chain_recs ?P2 (bs @ [?hash])"
      unfolding chain_recs_def
    proof (intro conjI allI impI)
      show "distinct (bs @ [?hash])" using new d by simp
      show "?P2 (KHeight n) = (if 0 \<le> n \<and> n < int (length (bs @ [?hash]))
        then Some (VStr (ToString ((bs @ [?hash]) ! nat n))) else None)" for n using heights by simp
    next
      fix i assume "i < length (bs @ [?hash])"
      then consider "i < ?l" | "i = ?l" | "i = length bs" using l(3) by force
      then show "\<exists>c. ?P2 (KBlock ((bs @ [?hash]) ! i)) = Some (VBlock c) \<and> fk_height c = int i \<and> \<not> fk_is_orphan c \<and>
         fk_next_block_hash c = ToString (if Suc i < length (bs @ [?hash]) then (bs @ [?hash]) ! Suc i else 0) \<and>
         (0 < i \<longrightarrow> fk_prev_block_hash c = ToString ((bs @ [?hash]) ! (i - 1)))"
      proof cases
        case 1
        then have i: "i < length bs" "Suc i < length bs" by simp_all
        have "bs ! i \<noteq> ?p" using 1 l(1,2) nth_eq_iff_index_eq [OF d i(1) l(1)] by simp
        then have "?P2 (KBlock (bs ! i)) = ?P1 (KBlock (bs ! i))" by simp
        moreover have "(bs @ [?hash]) ! i = bs ! i" "(bs @ [?hash]) ! Suc i = bs ! Suc i"
          "(bs @ [?hash]) ! (i - 1) = bs ! (i - 1)" "Suc i < length (bs @ [?hash])" using i by (simp_all add: nth_append less_imp_diff_less)
        ultimately show ?thesis using link [OF i(1)] i(2) by (simp only: if_True)
      next
        case 2
        have "?l - 1 < length bs" using l(1) by linarith
        then have "(bs @ [?hash]) ! (?l - 1) = bs ! (?l - 1)" by (simp only: nth_append if_True)
        moreover have "(bs @ [?hash]) ! ?l = ?p" "(bs @ [?hash]) ! Suc ?l = ?hash" "Suc ?l < length (bs @ [?hash])"
          using l by (simp_all add: nth_append)
        moreover have "?P2 (KBlock ?p) = Some (VBlock ?pb)" "fk_height ?pb = int ?l" "\<not> fk_is_orphan ?pb"
          "fk_next_block_hash ?pb = ToString ?hash" "0 < ?l \<longrightarrow> fk_prev_block_hash ?pb = ToString (bs ! (?l - 1))"
          using pb by simp_all
        ultimately show ?thesis unfolding 2 by (intro exI [of _ ?pb]) (simp only: if_True simp_thms)
      next
        case 3
        have "(bs @ [?hash]) ! length bs = ?hash" "(bs @ [?hash]) ! (length bs - 1) = ?p"
          "\<not> Suc (length bs) < length (bs @ [?hash])" using l by (simp_all add: nth_append)
        moreover have "?P2 (KBlock ?hash) = Some (VBlock ?b)" using pn by simp
        ultimately show ?thesis unfolding 3 using b prev by (intro exI [of _ ?b]) (simp only: if_False simp_thms)
      qed
    qed
    moreover have "?P2 k = P k" if "(\<forall>h. k \<noteq> KBlock h) \<and> (\<forall>n. k \<noteq> KHeight n)" for k using that by auto
    moreover have "returns (insertBlock E blk ?h sz ts s) (at_ctl V A D c B Y ?P2)"
      unfolding start prev
    proof (rule returns_bind, rule put_at [OF s R], simp, rule returns_bind, rule put_at [OF _ R], assumption, simp)
      fix s1 s2 assume s2: "at_ctl V A D c B Y ?P1 s2"
      have h: "0 < ?h" using False by simp
      show "returns (if 0 < ?h then update_next_hash E ?p (ToString ?hash) s2 else Inr s2) (at_ctl V A D c B Y ?P2)"
        unfolding if_P [OF h] by (intro update_next_hash_at [OF s2 R pb(1)]) (simp add: pb(4))
    qed
    ultimately show ?thesis by (elim returns_mono) blast
  qed
qed

section \<open>The hashes of the transactions\<close>

definition chunk_text :: "uint256 list \<Rightarrow> nat \<Rightarrow> string" where
  "chunk_text hs k = concat (map ToString (take kBatchSize (drop (k * kBatchSize) hs)))"

lemma chunk_text_full: "(k + 1) * kBatchSize \<le> length hs \<Longrightarrow> chunk_text (hs @ gs) k = chunk_text hs k"
  by (simp add: chunk_text_def kBatchSize_def)

lemma chunk_text_open:
  "chunk_text hs (length hs div kBatchSize) = concat (map ToString (drop ((length hs div kBatchSize) * kBatchSize) hs))"
proof -
  have "length hs - (length hs div kBatchSize) * kBatchSize = length hs mod kBatchSize" by (simp add: minus_div_mult_eq_mod)
  also have "\<dots> \<le> kBatchSize" by (simp add: kBatchSize_def)
  finally show ?thesis by (simp add: chunk_text_def)
qed

lemma chunk_text_snoc:
  "chunk_text (hs @ [h]) (length hs div kBatchSize) = chunk_text hs (length hs div kBatchSize) @ ToString h"
proof -
  have "length hs - (length hs div kBatchSize) * kBatchSize = length hs mod kBatchSize" by (simp add: minus_div_mult_eq_mod)
  moreover have "length hs mod kBatchSize < kBatchSize" by (simp add: kBatchSize_def)
  moreover have "(length hs div kBatchSize) * kBatchSize \<le> length hs" by simp
  ultimately show ?thesis by (simp add: chunk_text_def)
qed

lemma chunk_text_empty: "length hs mod kBatchSize = 0 \<Longrightarrow> chunk_text hs (length hs div kBatchSize) = []"
  using div_mult_mod_eq [of "length hs" kBatchSize] by (simp add: chunk_text_open)

text \<open>After \<open>length pre\<close> transactions: the full chunks are stored, the open one is in \<open>value\<close>.\<close>

definition txs_inv :: "(kvkey \<Rightarrow> kvval option) \<Rightarrow> uint256 \<Rightarrow> uint256 list \<Rightarrow> nat \<times> string \<times> 'db pstate \<Rightarrow>
    ('db \<Rightarrow> string \<Rightarrow> kvval option) \<Rightarrow> string set \<Rightarrow> string set \<Rightarrow> int \<times> int \<times> int \<times> string list \<Rightarrow> book \<Rightarrow> utxo \<Rightarrow> bool" where
  "txs_inv P hash pre t V A D c B Y = (case t of (i, value, s) \<Rightarrow>
     i = length pre \<and> value = chunk_text pre (i div kBatchSize) \<and>
     (\<exists>P'. at_ctl V A D c B Y P' s \<and> (\<forall>k. (\<forall>n. k \<noteq> KBlockTxs hash n) \<longrightarrow> P' k = P k) \<and>
        (\<forall>k < i div kBatchSize. P' (KBlockTxs hash (int k)) = Some (VStr (chunk_text pre k)))))"

lemma insert_block_tx_at:
  assumes t: "txs_inv P hash pre t V A D c B Y" and R: "rocks_ok (pe_rocks E) V"
  shows "returns (insert_block_tx E hash tx t) (\<lambda>t'. txs_inv P hash (pre @ [pe_gh E tx]) t' V A D c B Y)"
proof -
  let ?n = "length pre" and ?h = "pe_gh E tx"
  let ?k = "?n div kBatchSize"
  obtain s P' where t': "t = (?n, chunk_text pre ?k, s)" and s: "at_ctl V A D c B Y P' s"
    and fr: "\<forall>k. (\<forall>n. k \<noteq> KBlockTxs hash n) \<longrightarrow> P' k = P k"
    and full: "\<forall>k < ?k. P' (KBlockTxs hash (int k)) = Some (VStr (chunk_text pre k))"
    using t by (auto simp: txs_inv_def)
  have val: "chunk_text pre ?k @ ToString ?h = chunk_text (pre @ [?h]) ?k" by (simp add: chunk_text_snoc)
  have keep: "chunk_text (pre @ [?h]) k = chunk_text pre k" if "k < ?k" for k
  proof (rule chunk_text_full)
    from that have "k + 1 \<le> ?k" by simp
    then have "(k + 1) * kBatchSize \<le> ?k * kBatchSize" by (rule mult_le_mono1)
    also have "\<dots> \<le> ?n" by simp
    finally show "(k + 1) * kBatchSize \<le> ?n" .
  qed
  show ?thesis
  proof (cases "(?n + 1) mod kBatchSize = 0")
    case True
    let ?P = "P'(KBlockTxs hash (int ?k) \<mapsto> VStr (chunk_text (pre @ [?h]) ?k))"
    have k': "(?n + 1) div kBatchSize = ?k + 1" using True by (simp add: div_Suc)
    have e: "chunk_text (pre @ [?h]) ((?n + 1) div kBatchSize) = []"
      using chunk_text_empty [of "pre @ [?h]"] True by simp
    have all: "\<forall>k < ?k + 1. ?P (KBlockTxs hash (int k)) = Some (VStr (chunk_text (pre @ [?h]) k))"
      using full keep by (auto simp: less_Suc_eq)
    have inv: "txs_inv P hash (pre @ [?h]) (?n + 1, [], s') V A D c B Y" if "at_ctl V A D c B Y ?P s'" for s'
      unfolding txs_inv_def prod.case k' using that e all fr k'
      by (intro conjI exI [of _ ?P]) simp_all
    show ?thesis
      unfolding insert_block_tx_def t' prod.case Let_def val if_P [OF True]
      by (rule returns_bind, rule put_at [OF s R], simp) (simp only: returns_Inr, rule inv)
  next
    case False
    then have k': "(?n + 1) div kBatchSize = ?k" by (simp add: div_Suc)
    have "txs_inv P hash (pre @ [?h]) (?n + 1, chunk_text (pre @ [?h]) ?k, s) V A D c B Y"
      unfolding txs_inv_def prod.case using s fr full keep k' by (intro conjI exI [of _ P']) simp_all
    then show ?thesis
      unfolding insert_block_tx_def t' prod.case Let_def val if_not_P [OF False] returns_Inr .
  qed
qed

lemma insertBlockTxs_at:
  fixes blk :: CBlock
  assumes s: "at_ctl V A D c B Y P s" and R: "rocks_ok (pe_rocks E) V"
  defines "hash \<equiv> pe_bh E (GetBlockHeader blk)"
  shows "returns (insertBlockTxs E blk s) (\<lambda>s'. \<exists>P'. at_ctl V A D c B Y P' s' \<and>
     (\<forall>k. (\<forall>n. k \<noteq> KBlockTxs hash n) \<longrightarrow> P' k = P k) \<and> txs_at P' hash (map (pe_gh E) (vtx blk)))"
  unfolding insertBlockTxs_def Let_def hash_def [symmetric]
proof (rule returns_bind, rule returns_foldE [where I = "\<lambda>pre t. txs_inv P hash (map (pe_gh E) pre) t V A D c B Y"])
  show "txs_inv P hash (map (pe_gh E) []) (0, [], s) V A D c B Y"
    using s by (auto simp: txs_inv_def chunk_text_def)
next
  fix pre tx rest t assume "txs_inv P hash (map (pe_gh E) pre) t V A D c B Y"
  from insert_block_tx_at [OF this R, of tx]
  show "returns (insert_block_tx E hash tx t) (\<lambda>t'. txs_inv P hash (map (pe_gh E) (pre @ [tx])) t' V A D c B Y)" by simp
next
  fix t assume t: "txs_inv P hash (map (pe_gh E) (vtx blk)) t V A D c B Y"
  let ?hs = "map (pe_gh E) (vtx blk)"
  let ?n = "length ?hs" and ?k = "length ?hs div kBatchSize"
  obtain s' P' where t': "t = (?n, chunk_text ?hs ?k, s')" and s': "at_ctl V A D c B Y P' s'"
    and fr: "\<forall>k. (\<forall>n. k \<noteq> KBlockTxs hash n) \<longrightarrow> P' k = P k"
    and full: "\<forall>k < ?k. P' (KBlockTxs hash (int k)) = Some (VStr (chunk_text ?hs k))"
    using t by (auto simp: txs_inv_def)
  have below: "k \<le> ?k" if "k * kBatchSize < ?n" for k
    using that by (metis div_le_mono div_mult_self_is_m kBatchSize_def less_imp_le_nat zero_less_numeral)
  show "returns ((\<lambda>(i, value, s). if value \<noteq> [] then kvset E (key_str (KBlockTxs hash (int (i div kBatchSize)))) (VStr value) s
      else Inr s) t) (\<lambda>s'. \<exists>P'. at_ctl V A D c B Y P' s' \<and> (\<forall>k. (\<forall>n. k \<noteq> KBlockTxs hash n) \<longrightarrow> P' k = P k) \<and> txs_at P' hash ?hs)"
  proof (cases "chunk_text ?hs ?k = []")
    case True
    have "k < ?k" if "k * kBatchSize < ?n" for k
    proof (rule ccontr)
      assume "\<not> k < ?k"
      with below [OF that] have "k = ?k" by simp
      moreover have "drop (?k * kBatchSize) ?hs = []"
        using True unfolding chunk_text_open by (cases "drop (?k * kBatchSize) ?hs") auto
      ultimately show False using that by simp
    qed
    then have "txs_at P' hash ?hs" using full by (simp add: txs_at_def flip: chunk_text_def)
    then show ?thesis unfolding t' prod.case using True s' fr by auto
  next
    case False
    let ?P = "P'(KBlockTxs hash (int ?k) \<mapsto> VStr (chunk_text ?hs ?k))"
    have "?P (KBlockTxs hash (int k)) = Some (VStr (chunk_text ?hs k))" if "k * kBatchSize < ?n" for k
      using full below [OF that] by (cases "k = ?k") simp_all
    then have "txs_at ?P hash ?hs" by (simp add: txs_at_def flip: chunk_text_def)
    moreover have "\<forall>k. (\<forall>n. k \<noteq> KBlockTxs hash n) \<longrightarrow> ?P k = P k" using fr by simp
    ultimately show ?thesis
      unfolding t' prod.case if_P [OF False]
      by (intro put_at [OF s' R]) (simp, blast)
  qed
qed

section \<open>acceptBlock\<close>

lemma removeOrphan_at:
  assumes s: "at_ctl V A D c B Y P s" and R: "rocks_ok (pe_rocks E) V" and S: "orphans_at P n S"
  shows "returns (removeOrphan E n hash s) (\<lambda>s'. \<exists>P'. at_ctl V A D c B Y P' s' \<and> (\<forall>k. k \<noteq> KOrphan n \<longrightarrow> P' k = P k) \<and>
     orphans_at P' n (ss_del (ToString hash) S))"
proof -
  let ?S = "ss_del (ToString hash) S"
  have may: "kvgetMayNotExist E (key_str (KOrphan n)) s = (if S = [] then (False, VStr []) else (True, VStr (concat S)))"
    using getMay_pinv [OF at_ctlD(1) [OF s] R, of "KOrphan n"] S by (simp add: orphans_at_def)
  have wf: "ss_wf S" "\<forall>x \<in> set S. length x = 64" using S by (simp_all add: orphans_at_def)
  have wf': "ss_wf ?S" "\<forall>x \<in> set ?S. length x = 64" using wf by auto
  show ?thesis
  proof (cases "S = []")
    case True
    then show ?thesis using s S by (auto simp: removeOrphan_def may)
  next
    case False
    have eq: "removeOrphanBlockHash (ToString hash) (concat S) = concat ?S" by (rule removeOrphan_text [OF wf])
    show ?thesis
    proof (cases "?S = []")
      case True
      have "orphans_at (P(KOrphan n := None)) n ?S" using wf' True by (simp add: orphans_at_def)
      moreover have "returns (removeOrphan E n hash s) (at_ctl V A D c B Y (P(KOrphan n := None)))"
        using False True eq unfolding removeOrphan_def may by (simp add: Let_def value_string_def) (rule del_at [OF s R], simp_all)
      ultimately show ?thesis by (elim returns_mono) (intro exI [of _ "P(KOrphan n := None)"] conjI, simp_all)
    next
      case ne: False
      have c: "concat ?S \<noteq> []" using ne concat_ss_Nil [OF wf'(2)] by simp
      let ?P = "P(KOrphan n \<mapsto> VStr (concat ?S))"
      have "orphans_at ?P n ?S" using wf' ne by (simp add: orphans_at_def)
      moreover have "returns (removeOrphan E n hash s) (at_ctl V A D c B Y ?P)"
        using False c eq unfolding removeOrphan_def may
        by (simp add: Let_def value_string_def del: concat_eq_Nil_conv) (rule put_at [OF s R], simp_all)
      ultimately show ?thesis by (elim returns_mono) (intro exI [of _ ?P] conjI, simp_all)
    qed
  qed
qed

text \<open>The records of blocks and orphans, and what the two handlers leave alone.\<close>

definition blocks_inv :: "(kvkey \<Rightarrow> kvval option) \<Rightarrow> uint256 list \<Rightarrow> (int \<Rightarrow> string sset) \<Rightarrow> bool" where
  "blocks_inv P bs Orph = (chain_recs P bs \<and> (\<forall>n. orphans_at P n (Orph n)))"

lemma chain_recs_cong:
  "chain_recs P bs \<Longrightarrow> (\<And>h. P' (KBlock h) = P (KBlock h)) \<Longrightarrow> (\<And>n. P' (KHeight n) = P (KHeight n)) \<Longrightarrow> chain_recs P' bs"
  by (simp add: chain_recs_def)

lemma orphans_at_cong: "P' (KOrphan n) = P (KOrphan n) \<Longrightarrow> orphans_at P' n S = orphans_at P n S"
  by (simp add: orphans_at_def)

lemma txs_at_cong: "(\<And>n. P' (KBlockTxs h n) = P (KBlockTxs h n)) \<Longrightarrow> txs_at P' h hs = txs_at P h hs"
  by (simp add: txs_at_def)

definition block_does :: "('db \<Rightarrow> string \<Rightarrow> kvval option) \<Rightarrow> string set \<Rightarrow> 'db penv \<Rightarrow> 'db pstate \<Rightarrow> ledger \<Rightarrow> int \<Rightarrow> uint256 \<Rightarrow> int \<Rightarrow>
    ((kvkey \<Rightarrow> kvval option) \<Rightarrow> bool) \<Rightarrow> 'db pstate \<Rightarrow> bool" where
  "block_does V A E s L type hash height Q s' = (\<exists>P. holds V A s' (L\<lparr>lg_recs := P\<rparr>) \<and> block_frame (lg_recs L) P \<and> Q P \<and>
     p_currBlockHeight s' = height \<and> p_notified s' = p_notified s @
       [NotifyItem_toStr (pe_gmtime E) (NotifyItem_loadblock (pe_time E) type hash height) @ [CHR 0x0A]])"

lemma notify_block_does:
  assumes "at_ctl V A {} (lg_count L, lg_size L, x, p_notified s0) (lg_book L) (lg_utxo L) P s" and "block_frame (lg_recs L) P" and "Q P"
  shows "block_does V A E s0 L type hash height Q (notify_block E type hash height s)"
proof -
  have p: "pinv V A s {} (lg_book L) (lg_utxo L) P" "ctl s = (lg_count L, lg_size L, x, p_notified s0)"
    using assms(1) by (simp_all add: at_ctl_def)
  have "pinv V A (notify_block E type hash height s) {} (lg_book L) (lg_utxo L) P"
  proof -
    let ?n = "p_notified s @ [NotifyItem_toStr (pe_gmtime E) (NotifyItem_loadblock (pe_time E) type hash height) @ [CHR 0x0A]]"
    have "notify_block E type hash height s = (s\<lparr>p_currBlockHeight := height\<rparr>)\<lparr>p_notified := ?n\<rparr>"
      by (simp add: notify_block_def)
    then show ?thesis using p(1) by (simp only: pinv_other_fields)
  qed
  then show ?thesis
    using p(2) assms(2,3) by (auto simp: block_does_def holds_def notify_block_def ctl_def intro!: exI [of _ P])
qed

lemma acceptBlock_does:
  assumes s: "holds V A s L" and R: "rocks_ok (pe_rocks E) V" and inv: "blocks_inv (lg_recs L) bs Orph"
    and dec: "decode_block rows l = Inr (hex, blk)" and fits: "block_fits E blk bs" and height: "tl_blkHeight l = int (length bs)"
  defines "hash \<equiv> pe_bh E (GetBlockHeader blk)"
  shows "returns (acceptBlock E rows l s) (\<lambda>(bh, s'). bh = ToString hash \<and>
     block_does V A E s L NOTIFY_EVENT_BLOCK_ACCEPT hash (tl_blkHeight l) (\<lambda>P.
       blocks_inv P (bs @ [hash]) (Orph(tl_blkHeight l := ss_del (ToString hash) (Orph (tl_blkHeight l)))) \<and>
       txs_at P hash (map (pe_gh E) (vtx blk)) \<and>
       P (KTimestamp (tl_maxBlkTimestamp l) (tl_blkHeight l)) = Some (VStr (ToString hash))) s')"
proof -
  let ?P = "lg_recs L" and ?h = "tl_blkHeight l" and ?c = "(lg_count L, lg_size L, p_currBlockHeight s, p_notified s)"
  let ?at = "at_ctl V A {} ?c (lg_book L) (lg_utxo L)"
  have ch: "chain_recs ?P bs" and orph: "\<And>n. orphans_at ?P n (Orph n)" using inv by (simp_all add: blocks_inv_def)
  show ?thesis
    unfolding acceptBlock_def dec bindE_simps prod.case Let_def hash_def [symmetric] height
  proof (rule returns_bind, rule returns_mono [OF insertBlock_at [OF holds_at [OF s] R ch fits]], fold hash_def,
      elim exE conjE, rule returns_bind, rule returns_mono [OF insertBlockTxs_at [OF _ R]], assumption, fold hash_def,
      elim exE conjE)
    fix s1 P1 s2 P2
    assume P1: "\<forall>k. (\<forall>h. k \<noteq> KBlock h) \<and> (\<forall>n. k \<noteq> KHeight n) \<longrightarrow> P1 k = ?P k" "chain_recs P1 (bs @ [hash])"
      and P2: "?at P2 s2" "\<forall>k. (\<forall>n. k \<noteq> KBlockTxs hash n) \<longrightarrow> P2 k = P1 k" "txs_at P2 hash (map (pe_gh E) (vtx blk))"
    have o2: "orphans_at P2 n (Orph n)" for n using orph [of n] P1(1) P2(2) orphans_at_cong [of P2 n ?P] by simp
    show "returns (bindE (removeOrphan E (int (length bs)) hash s2) (\<lambda>s.
       bindE (kvset E (key_str (KTimestamp (tl_maxBlkTimestamp l) (int (length bs)))) (VStr (ToString hash)) s) (\<lambda>s.
       Inr (ToString hash, notify_block E NOTIFY_EVENT_BLOCK_ACCEPT hash (int (length bs)) s))))
      (\<lambda>(bh, s'). bh = ToString hash \<and> block_does V A E s L NOTIFY_EVENT_BLOCK_ACCEPT hash (int (length bs)) (\<lambda>P.
         blocks_inv P (bs @ [hash]) (Orph(int (length bs) := ss_del (ToString hash) (Orph (int (length bs))))) \<and>
         txs_at P hash (map (pe_gh E) (vtx blk)) \<and>
         P (KTimestamp (tl_maxBlkTimestamp l) (int (length bs))) = Some (VStr (ToString hash))) s')"
    proof (rule returns_bind, rule returns_mono [OF removeOrphan_at [OF P2(1) R o2]], elim exE conjE, rule returns_bind,
        rule put_at [OF _ R], assumption, simp, unfold returns_Inr prod.case, intro conjI refl)
      fix s3 P3 s4
      assume P3: "\<forall>k. k \<noteq> KOrphan (int (length bs)) \<longrightarrow> P3 k = P2 k"
          "orphans_at P3 (int (length bs)) (ss_del (ToString hash) (Orph (int (length bs))))"
        and s4: "?at (P3(KTimestamp (tl_maxBlkTimestamp l) (int (length bs)) \<mapsto> VStr (ToString hash))) s4"
      let ?P4 = "P3(KTimestamp (tl_maxBlkTimestamp l) (int (length bs)) \<mapsto> VStr (ToString hash))"
      show "block_does V A E s L NOTIFY_EVENT_BLOCK_ACCEPT hash (int (length bs)) (\<lambda>P.
         blocks_inv P (bs @ [hash]) (Orph(int (length bs) := ss_del (ToString hash) (Orph (int (length bs))))) \<and>
         txs_at P hash (map (pe_gh E) (vtx blk)) \<and>
         P (KTimestamp (tl_maxBlkTimestamp l) (int (length bs))) = Some (VStr (ToString hash)))
         (notify_block E NOTIFY_EVENT_BLOCK_ACCEPT hash (int (length bs)) s4)"
      proof (rule notify_block_does [OF s4])
        show "block_frame ?P ?P4"
          unfolding block_frame_def
        proof (intro allI impI)
          fix k assume "\<not> block_key k"
          then have "P3 k = P2 k" "P2 k = P1 k" "P1 k = ?P k" "k \<noteq> KTimestamp (tl_maxBlkTimestamp l) (int (length bs))"
            using P3(1) P2(2) P1(1) by (cases k; simp)+
          then show "?P4 k = ?P k" by simp
        qed
        have "chain_recs ?P4 (bs @ [hash])" using P3(1) P2(2) by (intro chain_recs_cong [OF P1(2)]) simp_all
        moreover have "orphans_at ?P4 n ((Orph(int (length bs) := ss_del (ToString hash) (Orph (int (length bs))))) n)" for n
          using P3 o2 [of n] by (cases "n = int (length bs)") (simp_all add: orphans_at_def)
        moreover have "txs_at ?P4 hash (map (pe_gh E) (vtx blk))"
          using P2(3) P3(1) by (subst txs_at_cong [of _ _ P2]) simp_all
        ultimately show "blocks_inv ?P4 (bs @ [hash]) (Orph(int (length bs) := ss_del (ToString hash) (Orph (int (length bs))))) \<and>
          txs_at ?P4 hash (map (pe_gh E) (vtx blk)) \<and>
          ?P4 (KTimestamp (tl_maxBlkTimestamp l) (int (length bs))) = Some (VStr (ToString hash))"
          by (simp add: blocks_inv_def)
      qed
    qed
  qed
qed

section \<open>rejectBlock\<close>

lemma ToString_zero: "ToString 0 = replicate 64 CHR ''0''"
  by code_simp

lemma chain_recs_block: "chain_recs P bs \<Longrightarrow> i < length bs \<Longrightarrow> \<exists>b. P (KBlock (bs ! i)) = Some (VBlock b) \<and>
    fk_next_block_hash b = ToString (if Suc i < length bs then bs ! Suc i else 0)"
  unfolding chain_recs_def by blast

lemma chain_recs_pop:
  assumes ch: "chain_recs P (bs @ [hash])"
    and b: "P' (KHeight (int (length bs))) = None" "\<And>n. n \<noteq> int (length bs) \<Longrightarrow> P' (KHeight n) = P (KHeight n)"
    and old: "\<And>h. h \<noteq> hash \<Longrightarrow> bs = [] \<or> h \<noteq> last bs \<Longrightarrow> P' (KBlock h) = P (KBlock h)"
    and prev: "\<And>pb. bs \<noteq> [] \<Longrightarrow> P (KBlock (last bs)) = Some (VBlock pb) \<Longrightarrow>
      P' (KBlock (last bs)) = Some (VBlock (pb\<lparr>fk_next_block_hash := ToString 0\<rparr>))"
  shows "chain_recs P' bs"
  unfolding chain_recs_def
proof (intro conjI allI impI)
  show "distinct bs" using ch by (simp add: chain_recs_def)
  show "P' (KHeight n) = (if 0 \<le> n \<and> n < int (length bs) then Some (VStr (ToString (bs ! nat n))) else None)" for n
    using ch b by (cases "n = int (length bs)") (auto simp: chain_recs_def nth_append nat_less_iff)
next
  fix i assume i: "i < length bs"
  have d: "distinct bs" "hash \<notin> set bs" using ch by (simp_all add: chain_recs_def)
  have ne: "bs \<noteq> []" using i by auto
  have "i < length (bs @ [hash])" using i by simp
  then obtain c where c: "P (KBlock ((bs @ [hash]) ! i)) = Some (VBlock c)" "fk_height c = int i" "\<not> fk_is_orphan c"
    "fk_next_block_hash c = ToString (if Suc i < length (bs @ [hash]) then (bs @ [hash]) ! Suc i else 0)"
    "0 < i \<longrightarrow> fk_prev_block_hash c = ToString ((bs @ [hash]) ! (i - 1))"
    using ch unfolding chain_recs_def by blast
  have nth: "(bs @ [hash]) ! i = bs ! i" "(bs @ [hash]) ! (i - 1) = bs ! (i - 1)" using i by (simp_all add: nth_append less_imp_diff_less)
  have nh: "bs ! i \<noteq> hash" using d(2) nth_mem [OF i] by metis
  show "\<exists>c. P' (KBlock (bs ! i)) = Some (VBlock c) \<and> fk_height c = int i \<and> \<not> fk_is_orphan c \<and>
     fk_next_block_hash c = ToString (if Suc i < length bs then bs ! Suc i else 0) \<and>
     (0 < i \<longrightarrow> fk_prev_block_hash c = ToString (bs ! (i - 1)))"
  proof (cases "Suc i = length bs")
    case True
    then have "bs ! i = last bs" using ne by (metis diff_Suc_1 last_conv_nth)
    with prev [OF ne] c nth have "P' (KBlock (bs ! i)) = Some (VBlock (c\<lparr>fk_next_block_hash := ToString 0\<rparr>))" by simp
    then show ?thesis using c nth True by (intro exI [of _ "c\<lparr>fk_next_block_hash := ToString 0\<rparr>"]) simp
  next
    case False
    then have "Suc i < length bs" using i by simp
    moreover have "bs ! i \<noteq> last bs" using False i d(1) ne by (simp add: last_conv_nth nth_eq_iff_index_eq)
    ultimately show ?thesis using c nth old [OF nh] by (intro exI [of _ c]) (simp add: nth_append)
  qed
qed

lemma rejectBlock_does:
  assumes s: "holds V A s L" and R: "rocks_ok (pe_rocks E) V" and inv: "blocks_inv (lg_recs L) (bs @ [hash]) Orph"
    and dec: "decode_block rows l = Inr (hex, blk)" and hash: "hash = pe_bh E (GetBlockHeader blk)"
    and link: "bs \<noteq> [] \<longrightarrow> hashPrevBlock (GetBlockHeader blk) = last bs" and height: "tl_blkHeight l = int (length bs)"
  shows "returns (rejectBlock E rows l s)
     (block_does V A E s L NOTIFY_EVENT_BLOCK_REJECT hash (tl_blkHeight l) (\<lambda>P.
       blocks_inv P bs (Orph(tl_blkHeight l := ss_ins (ToString hash) (Orph (tl_blkHeight l)))) \<and>
       (\<exists>b. P (KBlock hash) = Some (VBlock b) \<and> fk_is_orphan b) \<and>
       P (KTimestamp (tl_maxBlkTimestamp l) (tl_blkHeight l)) = None))"
proof -
  let ?P = "lg_recs L" and ?h = "int (length bs)" and ?c = "(lg_count L, lg_size L, p_currBlockHeight s, p_notified s)"
  let ?at = "at_ctl V A {} ?c (lg_book L) (lg_utxo L)"
  let ?S = "Orph ?h" and ?t = "tl_maxBlkTimestamp l"
  have ch: "chain_recs ?P (bs @ [hash])" and orph: "\<And>n. orphans_at ?P n (Orph n)" using inv by (simp_all add: blocks_inv_def)
  have wf: "ss_wf ?S" "\<forall>x \<in> set ?S. length x = 64" using orph [of ?h] by (simp_all add: orphans_at_def)
  have may: "value_string (snd (kvgetMayNotExist E (key_str (KOrphan ?h)) s)) = Inr (concat ?S)"
    using getMay_pinv [OF at_ctlD(1) [OF holds_at [OF s, of "{}"]] R, of "KOrphan ?h"] orph [of ?h]
    by (simp add: orphans_at_def value_string_def)
  have eq: "insertOrphanBlockHash (ToString hash) (concat ?S) = concat (ss_ins (ToString hash) ?S)"
    by (rule insertOrphan_text [OF wf]) simp
  obtain b where b: "?P (KBlock hash) = Some (VBlock b)" using ch unfolding chain_recs_def by (metis length_append_singleton lessI nth_append_length)
  let ?P1 = "?P(KOrphan ?h \<mapsto> VStr (concat (ss_ins (ToString hash) ?S)))"
  let ?P4 = "?P1(KHeight ?h := None, KBlock hash \<mapsto> VBlock (b\<lparr>fk_is_orphan := True\<rparr>), KTimestamp ?t ?h := None)"
  have d: "hash \<notin> set bs" using ch by (simp add: chain_recs_def)
  have orph': "orphans_at P' n ((Orph(?h := ss_ins (ToString hash) ?S)) n)" if "\<And>n. P' (KOrphan n) = ?P1 (KOrphan n)" for P' n
  proof (cases "n = ?h")
    case True
    have "ss_ins (ToString hash) ?S \<noteq> []" by (metis empty_iff insertI1 list.set(1) set_ss_ins)
    then show ?thesis using that True wf by (auto simp: orphans_at_def)
  next
    case False
    then show ?thesis using that [of n] orph [of n] by (simp add: orphans_at_def)
  qed
  let ?Q = "\<lambda>P. blocks_inv P bs (Orph(?h := ss_ins (ToString hash) ?S)) \<and>
       (\<exists>b. P (KBlock hash) = Some (VBlock b) \<and> fk_is_orphan b) \<and> P (KTimestamp ?t ?h) = None"
  have last: "block_does V A E s L NOTIFY_EVENT_BLOCK_REJECT hash ?h ?Q (notify_block E NOTIFY_EVENT_BLOCK_REJECT hash ?h s5)"
    if "?at P5 s5" "chain_recs P5 bs" "\<And>k. (\<forall>h. k \<noteq> KBlock h) \<Longrightarrow> P5 k = ?P4 k" "P5 (KBlock hash) = ?P4 (KBlock hash)" for P5 s5
  proof (rule notify_block_does [OF that(1)])
    show "block_frame ?P P5"
      unfolding block_frame_def
    proof (intro allI impI)
      fix k assume k: "\<not> block_key k"
      then have "\<forall>h. k \<noteq> KBlock h" by (cases k) simp_all
      from that(3) [OF this] show "P5 k = ?P k" using k by (cases k) simp_all
    qed
    show "?Q P5" using that(2) orph' [of P5] that(3,4) by (auto simp: blocks_inv_def)
  qed
  show ?thesis
    unfolding rejectBlock_def dec bindE_simps prod.case Let_def hash [symmetric] height may eq
  proof (rule returns_bind, rule put_at [OF holds_at [OF s, of "{}"] R], simp, rule returns_bind, rule del_at [OF _ R],
      assumption, simp, rule returns_bind, rule get_at [OF _ R], assumption, simp, simp add: b, unfold root_simps bindE_simps,
      rule returns_bind, rule put_at [OF _ R], assumption, simp, rule returns_bind, rule del_at [OF _ R], assumption, simp)
    fix s4 assume s4: "?at ?P4 s4"
    show "returns (bindE (if 0 < ?h
            then bindE (kvget E (key_str (KBlock (hashPrevBlock (GetBlockHeader blk)))) s4) (\<lambda>value.
              bindE (root_Block value) (\<lambda>prevBlock.
              bindE (assertE ''prevBlock->next_block_hash()->size() == 64'' (length (fk_next_block_hash prevBlock) = 64)) (\<lambda>_.
              bindE (mutate_hash (replicate 64 CHR ''0'') (fk_next_block_hash prevBlock)) (\<lambda>next.
              kvset E (key_str (KBlock (hashPrevBlock (GetBlockHeader blk)))) (VBlock (prevBlock\<lparr>fk_next_block_hash := next\<rparr>)) s4))))
            else Inr s4) (\<lambda>s. Inr (notify_block E NOTIFY_EVENT_BLOCK_REJECT hash ?h s)))
       (block_does V A E s L NOTIFY_EVENT_BLOCK_REJECT hash ?h ?Q)"
    proof (cases "bs = []")
      case True
      have "chain_recs ?P4 bs" by (rule chain_recs_pop [OF ch]) (simp_all add: True)
      from last [OF s4 this] show ?thesis using True by simp
    next
      case False
      let ?p = "last bs"
      have p: "hashPrevBlock (GetBlockHeader blk) = ?p" "?p \<noteq> hash" using link False d last_in_set [OF False] by metis+
      have l: "length bs - 1 < length (bs @ [hash])" "(bs @ [hash]) ! (length bs - 1) = ?p" "Suc (length bs - 1) = length bs"
        using False by (simp_all add: nth_append last_conv_nth)
      obtain pb where pb: "?P (KBlock ?p) = Some (VBlock pb)" "fk_next_block_hash pb = ToString hash"
      proof -
        have "(if Suc (length bs - 1) < length (bs @ [hash]) then (bs @ [hash]) ! Suc (length bs - 1) else 0) = hash"
          unfolding l(3) by simp
        with chain_recs_block [OF ch l(1)] show ?thesis unfolding l(2) using that by auto
      qed
      have pb4: "?P4 (KBlock ?p) = Some (VBlock pb)" using pb(1) p(2) by simp
      let ?P5 = "?P4(KBlock ?p \<mapsto> VBlock (pb\<lparr>fk_next_block_hash := ToString 0\<rparr>))"
      have m: "mutate_hash (replicate 64 CHR ''0'') (fk_next_block_hash pb) = Inr (ToString 0)" "length (fk_next_block_hash pb) = 64"
        by (simp_all add: mutate_hash_def pb(2) ToString_zero)
      have h: "0 < ?h" using False by simp
      have ch5: "chain_recs ?P5 bs" by (rule chain_recs_pop [OF ch]) (use pb(1) p(2) False in auto)
      show ?thesis
        unfolding if_P [OF h] p(1)
      proof (rule returns_bind, rule returns_bind, rule get_at [OF s4 R _ pb4], simp, unfold root_simps bindE_simps,
          rule returns_bind, rule returns_assert [OF m(2)], unfold m(1) bindE_simps,
          rule put_at [OF s4 R], simp, unfold returns_Inr)
        fix s5 assume "?at ?P5 s5"
        from last [OF this ch5] show "block_does V A E s L NOTIFY_EVENT_BLOCK_REJECT hash ?h ?Q
           (notify_block E NOTIFY_EVENT_BLOCK_REJECT hash ?h s5)" using p(2) by simp
      qed
    qed
  qed
qed

end
