(* ===== verification/Recognize.thy ===== *)
theory Recognize
  imports ParserBlock
begin

text \<open>
  The block recogniser (src/jiexi/src/RecognizeBlock.cc): it names the mining pool of a block
  after an output address of its coinbase, or after a tag in the text of its input scripts,
  and stores the answer as JSON under \<open>15_{block_hash}\<close>. It walks over a range of heights and,
  when asked to, stops at the first block that is already recognised.
\<close>

record MinerInfo =
  poolName :: string
  poolLink :: string

record recognizer =
  payoutAddresses :: "(string, MinerInfo) smap"
  coinbaseTags :: "(string \<times> MinerInfo) list"  \<comment> \<open>keyword and miner\<close>

section \<open>Operations\<close>

definition contains :: "string \<Rightarrow> string \<Rightarrow> bool" where
  \<comment> \<open>\<open>s.find(key) != npos\<close>\<close>
  "contains s key = list_ex (\<lambda>i. take (length key) (drop i s) = key) [0..<Suc (length s)]"

definition defaultInfo :: MinerInfo where
  "defaultInfo = \<lparr>poolName = ''unknown'', poolLink = []\<rparr>"

definition recognizeCoinbase :: "recognizer \<Rightarrow> fb_Tx \<Rightarrow> MinerInfo" where
  "recognizeCoinbase rc cbtx =
     (case List.find (\<lambda>a. map_of (payoutAddresses rc) a \<noteq> None) (concat (map to_addresses (ft_outputs cbtx))) of
        Some a \<Rightarrow> the (map_of (payoutAddresses rc) a)
      | None \<Rightarrow>
          (case List.find (\<lambda>(scriptStr, tag). contains scriptStr (fst tag))
             (concat (map (\<lambda>i. map (Pair (snd (Hex2Bin (ti_script_hex i)))) (coinbaseTags rc)) (ft_inputs cbtx))) of
             Some (scriptStr, tag) \<Rightarrow> snd tag
           | None \<Rightarrow> defaultInfo))"

definition json_field :: "string \<Rightarrow> string \<Rightarrow> string" where
  "json_field name value = [CHR 0x22] @ name @ [CHR 0x22, CHR '':'', CHR 0x22] @ escapeJson value @ [CHR 0x22]"

definition extra_json :: "MinerInfo \<Rightarrow> string" where
  "extra_json mi = ''{'' @ json_field ''pool_name'' (poolName mi) @ '','' @
     json_field ''pool_link'' (poolLink mi) @ ''}''"

definition recognizeCoinbaseTx :: "'db penv \<Rightarrow> recognizer \<Rightarrow> string \<Rightarrow> fb_Tx \<Rightarrow> 'db pstate \<Rightarrow> 'db pstate res" where
  "recognizeCoinbaseTx E rc blockHash cbtx s =
     kvset E (''15_'' @ blockHash) (VStr (extra_json (recognizeCoinbase rc cbtx))) s"

fun recognize_loop :: "'db penv \<Rightarrow> recognizer \<Rightarrow> bool \<Rightarrow> kvval list \<Rightarrow> 'db pstate \<Rightarrow> 'db pstate res" where
  "recognize_loop E rc stopWhenReachLast [] s = Inr s"
| "recognize_loop E rc stopWhenReachLast (v # values) s =
     bindE (value_string v) (\<lambda>hash.
     if stopWhenReachLast \<and> fst (kvgetMayNotExist E (''15_'' @ hash) s) then Inr s else
     bindE (kvget E (''12_'' @ hash @ ''_0'') s) (\<lambda>blockTxs.
     bindE (value_string blockTxs) (\<lambda>blockTxs.
     bindE (kvget E (''01_'' @ take 64 blockTxs) s) (\<lambda>cbtxvalue.
     bindE (root_Tx cbtxvalue) (\<lambda>fbtx.
     bindE (recognizeCoinbaseTx E rc hash fbtx s) (\<lambda>s.
     recognize_loop E rc stopWhenReachLast values s))))))"

definition recognizeBlocks :: "'db penv \<Rightarrow> recognizer \<Rightarrow> int \<Rightarrow> int \<Rightarrow> bool \<Rightarrow> 'db pstate \<Rightarrow> 'db pstate res" where
  "recognizeBlocks E rc beginHeight endHeight stopWhenReachLast s =
     bindE (KVDB_range (pe_rocks E) (key_str (KHeight beginHeight)) (key_str (KHeight endHeight)) 99999999 0 (p_kv s)) (\<lambda>kvs.
     recognize_loop E rc stopWhenReachLast (map snd kvs) s)"

section \<open>Recognising a list of blocks\<close>

text \<open>The coinbase of a block, as its records give it.\<close>

definition coinbase_of :: "(kvkey \<Rightarrow> kvval option) \<Rightarrow> uint256 \<Rightarrow> fb_Tx \<Rightarrow> bool" where
  "coinbase_of P b t = (\<exists>txt g. P (KBlockTxs b 0) = Some (VStr txt) \<and> take 64 txt = ToString g \<and> P (KTx g) = Some (VTx t))"

definition extra_frame :: "(kvkey \<Rightarrow> kvval option) \<Rightarrow> (kvkey \<Rightarrow> kvval option) \<Rightarrow> bool" where
  "extra_frame P P' = (\<forall>k. (\<forall>h. k \<noteq> KExtra h) \<longrightarrow> P' k = P k)"

lemma extra_frame_trans: "extra_frame P P' \<Longrightarrow> extra_frame P' P'' \<Longrightarrow> extra_frame P P''"
  by (simp add: extra_frame_def)

lemma coinbase_of_frame: "extra_frame P P' \<Longrightarrow> coinbase_of P' b t = coinbase_of P b t"
  by (simp add: extra_frame_def coinbase_of_def)

lemma fmt_d_0: "fmt_d 0 = ''0''"
  by code_simp

lemma value_string_VStr: "value_string (VStr x) = Inr x"
  by (simp add: value_string_def)

lemma recognize_loop_at:
  assumes s: "at_ctl V A D c B Y P s" and R: "rocks_ok (pe_rocks E) V" and d: "distinct hs"
    and cb: "\<And>b. b \<in> set hs \<Longrightarrow> coinbase_of P b (t b)"
  shows "returns (recognize_loop E rc stop (map (\<lambda>b. VStr (ToString b)) hs) s) (\<lambda>s'. \<exists>P'. at_ctl V A D c B Y P' s' \<and> extra_frame P P' \<and>
     (\<forall>h. P' (KExtra h) =
        (if h \<in> set (if stop then takeWhile (\<lambda>b. P (KExtra b) = None) hs else hs)
         then Some (VStr (extra_json (recognizeCoinbase rc (t h)))) else P (KExtra h))))"
  using s d cb
proof (induction hs arbitrary: P s)
  case Nil
  then show ?case by (auto simp: extra_frame_def intro!: exI [of _ P])
next
  case (Cons b hs)
  note s = Cons.prems(1)
  have keys: "''15_'' @ ToString b = key_str (KExtra b)" "''12_'' @ ToString b @ ''_0'' = key_str (KBlockTxs b 0)"
    using fmt_d_0 by (simp_all add: key_str.simps)
  have key1: "''01_'' @ ToString g = key_str (KTx g)" for g by (simp add: key_str.simps)
  have may: "fst (kvgetMayNotExist E (key_str (KExtra b)) s) = (P (KExtra b) \<noteq> None)"
    using getMay_pinv [OF at_ctlD(1) [OF s] R, of "KExtra b"] by (simp split: option.split)
  show ?case
  proof (cases "stop \<and> P (KExtra b) \<noteq> None")
    case True
    show ?thesis
    proof -
      have "recognize_loop E rc stop (map (\<lambda>b. VStr (ToString b)) (b # hs)) s = Inr s"
        using True by (simp only: list.map recognize_loop.simps value_string_def kvval.case bindE_simps keys may) simp
      then show ?thesis using True s by (auto simp: extra_frame_def intro!: exI [of _ P])
    qed
  next
    case False
    obtain w g where cb: "P (KBlockTxs b 0) = Some (VStr w)" "take 64 w = ToString g" "P (KTx g) = Some (VTx (t b))"
      using Cons.prems(3) [of b] by (auto simp: coinbase_of_def)
    let ?P = "P(KExtra b \<mapsto> VStr (extra_json (recognizeCoinbase rc (t b))))"
    have fr: "extra_frame P ?P" by (simp add: extra_frame_def)
    have unf: "recognize_loop E rc stop (map (\<lambda>b. VStr (ToString b)) (b # hs)) s =
      bindE (kvget E (key_str (KBlockTxs b 0)) s) (\<lambda>blockTxs. bindE (value_string blockTxs) (\<lambda>blockTxs.
      bindE (kvget E (''01_'' @ take 64 blockTxs) s) (\<lambda>cbtxvalue. bindE (root_Tx cbtxvalue) (\<lambda>fbtx.
      bindE (kvset E (key_str (KExtra b)) (VStr (extra_json (recognizeCoinbase rc fbtx))) s)
        (recognize_loop E rc stop (map (\<lambda>b. VStr (ToString b)) hs))))))"
      unfolding list.map recognize_loop.simps value_string_VStr bindE_simps keys recognizeCoinbaseTx_def may if_not_P [OF False] ..
    show ?thesis
      unfolding unf
    proof (rule returns_bind, rule get_at [OF s R], simp, rule cb(1), unfold value_string_VStr bindE_simps cb(2) key1,
        rule returns_bind, rule get_at [OF s R], simp, rule cb(3), unfold root_simps bindE_simps,
        rule returns_bind, rule put_at [OF s R], simp)
      fix s1 assume s1: "at_ctl V A D c B Y ?P s1"
      have cb': "coinbase_of ?P h (t h)" if "h \<in> set hs" for h
        using Cons.prems(3) [of h] that coinbase_of_frame [OF fr] by simp
      have d: "distinct hs" "b \<notin> set hs" using Cons.prems(2) by simp_all
      have tw: "takeWhile (\<lambda>h. ?P (KExtra h) = None) hs = takeWhile (\<lambda>h. P (KExtra h) = None) hs"
        using d(2) by (intro takeWhile_all) auto
      show "returns (recognize_loop E rc stop (map (\<lambda>b. VStr (ToString b)) hs) s1) (\<lambda>s'. \<exists>P'. at_ctl V A D c B Y P' s' \<and>
         extra_frame P P' \<and> (\<forall>h. P' (KExtra h) =
        (if h \<in> set (if stop then takeWhile (\<lambda>b. P (KExtra b) = None) (b # hs) else b # hs)
         then Some (VStr (extra_json (recognizeCoinbase rc (t h)))) else P (KExtra h))))"
      proof (rule returns_mono [OF Cons.IH [OF s1 d(1) cb']], assumption, unfold tw, elim exE conjE)
        fix s' P' assume P': "at_ctl V A D c B Y P' s'" "extra_frame ?P P'" "\<forall>h. P' (KExtra h) =
          (if h \<in> set (if stop then takeWhile (\<lambda>b. P (KExtra b) = None) hs else hs)
           then Some (VStr (extra_json (recognizeCoinbase rc (t h)))) else ?P (KExtra h))"
        have "P' (KExtra h) = (if h \<in> set (if stop then takeWhile (\<lambda>b. P (KExtra b) = None) (b # hs) else b # hs)
         then Some (VStr (extra_json (recognizeCoinbase rc (t h)))) else P (KExtra h))" for h
          using P'(3) False by (cases "h = b") auto
        then show "\<exists>P'. at_ctl V A D c B Y P' s' \<and> extra_frame P P' \<and> (\<forall>h. P' (KExtra h) =
          (if h \<in> set (if stop then takeWhile (\<lambda>b. P (KExtra b) = None) (b # hs) else b # hs)
           then Some (VStr (extra_json (recognizeCoinbase rc (t h)))) else P (KExtra h)))"
          using P'(1) extra_frame_trans [OF fr P'(2)] by blast
      qed
    qed
  qed
qed

section \<open>One height\<close>

lemma c_str_Cons: "c \<noteq> CHR 0x00 \<Longrightarrow> c_str (c # s) = c # c_str s"
  by (simp add: c_str_def)

lemma nul_notin_ToString [simp]: "CHR 0x00 \<notin> set (ToString h)"
  using GetHex_chars is_hexchar_special(1) by metis

text \<open>A key that only holds a NUL byte in an address comes after the keys of heights.\<close>

lemma key_with_nul: "CHR 0x00 \<in> set (key_str l) \<Longrightarrow> \<exists>s. key_str l = CHR ''2'' # s"
  by (cases l) (auto simp: key_str.simps)

lemma beyond_height:
  assumes "key_str (KHeight h) < key_str l"
  shows "\<not> c_str (key_str l) \<le> key_str (KHeight h)"
proof (cases "CHR 0x00 \<in> set (key_str l)")
  case True
  then obtain s where "key_str l = CHR ''2'' # s" using key_with_nul by blast
  then show ?thesis by (simp add: c_str_Cons key_str.simps less_char_def)
next
  case False
  then show ?thesis using assms by (simp add: c_str_id)
qed

lemma range_one:
  assumes R: "rocks_ok R V" and raw: "raw_ok V db" and v: "V db (key_str (KHeight h)) = Some v"
  shows "KVDB_range R (key_str (KHeight h)) (key_str (KHeight h)) 99999999 0 db = Inr [(key_str (KHeight h), v)]"
proof -
  let ?k = "key_str (KHeight h)" and ?m = "rk_Iterator R db"
  have m: "sm_wf ?m" "map_of ?m = V db" using R by (simp_all add: rocks_ok_def)
  have cs: "c_str ?k = ?k" by (rule c_str_id) (simp add: key_str.simps)
  have "(?k, v) \<in> set ?m" using v m(2) by (metis map_of_SomeD)
  then have mem: "(?k, v) \<in> set (filter (\<lambda>e. ?k \<le> fst e) ?m)" by simp
  have wf: "sm_wf (filter (\<lambda>e. ?k \<le> fst e) ?m)" by (rule sm_wf_filter [OF m(1)])
  obtain e es where e: "filter (\<lambda>e. ?k \<le> fst e) ?m = e # es" using mem by (cases "filter (\<lambda>e. ?k \<le> fst e) ?m") auto
  have "?k \<le> fst e" using Cons_eq_filterD [OF e [symmetric]] by auto
  moreover have "\<forall>x \<in> set es. fst e < fst x" using wf e by (cases e) fastforce
  ultimately have first: "e = (?k, v)" using mem e by (cases e) force
  have after: "\<not> c_str (fst x) \<le> ?k" if "x \<in> set es" for x
  proof -
    have "x \<in> set ?m" using that e by (metis filter_is_subset list.set_intros(2) subsetD)
    then have "V db (fst x) \<noteq> None" using m(2) by (metis domI domIff dom_map_of_conv_image_fst imageI)
    with raw obtain l where l: "fst x = key_str l" unfolding raw_ok_def by blast
    have "?k < fst x" using \<open>\<forall>x \<in> set es. fst e < fst x\<close> that first by simp
    with l beyond_height show ?thesis by simp
  qed
  have "range_loop (\<lambda>k. c_str k \<le> ?k) 99999999 0 1 es [(?k, v)] = [(?k, v)]"
    using after by (cases es) simp_all
  then show ?thesis
    by (simp add: KVDB_range_def KVDB_rangeGT_def cs sm_wf_dropWhile_less [OF m(1)] e first keys_full_def)
qed

lemma recognizeBlocks_one:
  assumes s: "at_ctl V A D c B Y P s" and R: "rocks_ok (pe_rocks E) V" and h: "P (KHeight h) = Some (VStr (ToString b))"
    and cb: "coinbase_of P b t"
  shows "returns (recognizeBlocks E rc h h True s) (\<lambda>s'. \<exists>P'. at_ctl V A D c B Y P' s' \<and> extra_frame P P' \<and>
     P' (KExtra b) \<noteq> None \<and> (\<forall>g. P (KExtra g) \<noteq> None \<longrightarrow> P' (KExtra g) \<noteq> None))"
proof -
  from s have st: "raw_ok V (p_kv s)" "V (p_kv s) (key_str (KHeight h)) = Some (VStr (ToString b))"
    using h by (auto simp: at_ctl_def pinv_def st_def cache_ok_def view_def kv_view_def)
  have d: "distinct [b]" by simp
  note loop = recognize_loop_at [OF s R d, where t = "\<lambda>_. t" and rc = rc and stop = True]
  show ?thesis
    unfolding recognizeBlocks_def range_one [OF R st] bindE_simps list.map snd_conv
  proof (rule returns_mono [OF loop [unfolded list.map]])
    fix s' assume "\<exists>P'. at_ctl V A D c B Y P' s' \<and> extra_frame P P' \<and> (\<forall>h. P' (KExtra h) =
      (if h \<in> set (if True then takeWhile (\<lambda>b. P (KExtra b) = None) [b] else [b])
       then Some (VStr (extra_json (recognizeCoinbase rc t))) else P (KExtra h)))"
    then obtain P' where P': "at_ctl V A D c B Y P' s'" "extra_frame P P'" "\<And>g. P' (KExtra g) =
      (if g = b \<and> P (KExtra b) = None then Some (VStr (extra_json (recognizeCoinbase rc t))) else P (KExtra g))"
      by (elim exE conjE) (rule that, assumption+, simp split: if_splits)
    then have "P' (KExtra b) \<noteq> None" "\<forall>g. P (KExtra g) \<noteq> None \<longrightarrow> P' (KExtra g) \<noteq> None" by (simp_all del: not_None_eq)
    with P' show "\<exists>P'. at_ctl V A D c B Y P' s' \<and> extra_frame P P' \<and> P' (KExtra b) \<noteq> None \<and>
       (\<forall>g. P (KExtra g) \<noteq> None \<longrightarrow> P' (KExtra g) \<noteq> None)" by blast
  qed (use cb in simp)
qed

end
