(* ===== verification/ParserMain.thy ===== *)
theory ParserMain
  imports LedgerHistory Recognize
begin

text \<open>
  The two threads of \<open>tparser\<close> (src/jiexi/src/Parser.cc). \<open>threadProduceTxlogs\<close> reads the rows
  of \<open>0_txlogs2\<close> one after the other (\<open>tryFetchTxLog2FromDB\<close>, with the cache of raw transactions
  \<open>TxInfoCache\<close>), and \<open>threadHandleTxlogs\<close> runs the handlers on them and records the id of the
  last one. The queue between them is the bounded buffer of theory BoundedBuffer.

  The columns \<open>created_at\<close> of \<open>0_txlogs2\<close> and \<open>id\<close> of \<open>raw_txs\<close>, which are not in the model of the
  tables (theory Log2DB), are the parameters \<open>created\<close> and \<open>txid\<close>.
\<close>

section \<open>The cache of raw transactions\<close>

record TxInfo =
  ti_txId :: int
  ti_hex :: string
  ti_count :: int
  ti_useTime :: int

record TxInfoCache =
  tc_cache :: "(uint256, TxInfo) smap"
  tc_lastClearTime :: int

definition load_tx :: "(uint256 \<Rightarrow> int) \<Rightarrow> log2db \<Rightarrow> uint256 \<Rightarrow> TxInfo res" where
  "load_tx txid d hash =
     (case filter (\<lambda>r. fst r = hash) (raw_txs d (raw_table hash)) of
        [] \<Rightarrow> Inl (Throw ''can't find raw tx by hash'')
      | r # _ \<Rightarrow> Inr \<lparr>ti_txId = txid hash, ti_hex = snd r, ti_count = 0, ti_useTime = 0\<rparr>)"

text \<open>
  The clean-up tests the age of the transaction just read (\<open>it\<close>, not \<open>it2\<close>), which may have been
  erased before.
\<close>

definition clear_txs :: "int \<Rightarrow> TxInfo option \<Rightarrow> TxInfoCache \<Rightarrow> TxInfoCache res" where
  "clear_txs now it c =
     (if tc_lastClearTime c + 86400 < now then
        (case it of
           None \<Rightarrow> if tc_cache c = [] then Inr (c\<lparr>tc_lastClearTime := now\<rparr>) else Inl (UB ''iterator of an erased entry'')
         | Some i \<Rightarrow> Inr \<lparr>tc_cache = filter (\<lambda>it2. \<not> ti_useTime i + 86400 < now) (tc_cache c), tc_lastClearTime = now\<rparr>)
      else Inr c)"

definition getTxInfo :: "(uint256 \<Rightarrow> int) \<Rightarrow> log2db \<Rightarrow> int \<Rightarrow> uint256 \<Rightarrow> TxInfoCache \<Rightarrow> (int \<times> string \<times> TxInfoCache) res" where
  "getTxInfo txid d now hash c =
     bindE (case map_of (tc_cache c) hash of
              None \<Rightarrow> load_tx txid d hash
            | Some i \<Rightarrow> Inr i) (\<lambda>i.
     let i = i\<lparr>ti_useTime := now, ti_count := ti_count i + 1\<rparr>;
         erased = ti_count i \<ge> 2;
         c = c\<lparr>tc_cache := if erased then sm_del hash (tc_cache c) else sm_put hash i (tc_cache c)\<rparr> in
     bindE (clear_txs now (if erased then None else Some i) c) (\<lambda>c.
     Inr (ti_txId i, ti_hex i, c)))"

section \<open>Reading the rows\<close>

definition UNCONFIRM_TX_YMD :: int where "UNCONFIRM_TX_YMD = 20300101"
definition UNCONFIRM_TX_TIMESTAMP :: "32 word" where "UNCONFIRM_TX_TIMESTAMP = 1893456000"

definition ymd_of :: "tm \<Rightarrow> int" where
  \<comment> \<open>\<open>atoi(date("%Y%m%d", ..))\<close>\<close>
  "ymd_of t = atoi (nat_str (tm_year t) @ pad0 2 (nat_str (tm_mon t)) @ pad0 2 (nat_str (tm_mday t)))"

definition next_row :: "int \<Rightarrow> log2row list \<Rightarrow> log2row option" where
  \<comment> \<open>\<open>WHERE id > lastId AND batch_id <> -1 ORDER BY id ASC LIMIT 1\<close>\<close>
  "next_row lastId rows =
     (case sort_key row_id (filter (\<lambda>r. row_id r > lastId \<and> batch_id r \<noteq> - 1) rows) of [] \<Rightarrow> None | r # _ \<Rightarrow> Some r)"

definition known_type :: "int \<Rightarrow> bool" where
  "known_type ty = (ty = LOG2TYPE_TX_ACCEPT \<or> ty = LOG2TYPE_TX_CONFIRM \<or> ty = LOG2TYPE_TX_UNCONFIRM \<or> ty = LOG2TYPE_TX_REJECT)"

definition kKeepNum :: int where
  "kKeepNum = 200 * 10000"

definition delete_expired :: "int \<Rightarrow> log2db \<Rightarrow> log2db" where
  "delete_expired i d =
     (if i > kKeepNum \<and> i mod 20000 = 0 then
        let max_id = fold (\<lambda>b m. max (rb_id b) m) (raw_blocks d) 0 in
        d\<lparr>txlogs2 := filter (\<lambda>r. \<not> row_id r < i - kKeepNum) (txlogs2 d),
          raw_blocks := filter (\<lambda>b. \<not> rb_id b < max_id - 4320) (raw_blocks d)\<rparr>
      else d)"

definition tryFetchTxLog2FromDB ::
  "'db penv \<Rightarrow> (int \<Rightarrow> string) \<Rightarrow> (uint256 \<Rightarrow> int) \<Rightarrow> int \<Rightarrow> int \<Rightarrow> TxInfoCache \<Rightarrow> log2db \<Rightarrow>
     ((TxLog2 \<times> TxInfoCache \<times> log2db) option) res" where
  "tryFetchTxLog2FromDB E created txid now lastId c d =
     (case next_row lastId (txlogs2 d) of
        None \<Rightarrow> Inr None
      | Some r \<Rightarrow>
          if \<not> known_type (row_type r) then Inr None else
          bindE (getTxInfo txid d now (row_hash r) c) (\<lambda>(i, hex, c).
          case DecodeHexTx hex of
            None \<Rightarrow> Inl (Throw ''TX decode failed'')
          | Some tx \<Rightarrow>
              let ts = (if row_type r = LOG2TYPE_TX_ACCEPT then UNCONFIRM_TX_TIMESTAMP else word_of_int (row_max_ts r)) in
              Inr (Some (\<lparr>tl_id = row_id r, tl_type = row_type r, tl_blkHeight = row_height r, tl_blkId = row_block_id r,
                tl_maxBlkTimestamp = ts,
                tl_ymd = (if row_type r = LOG2TYPE_TX_ACCEPT then UNCONFIRM_TX_YMD else ymd_of (pe_gmtime E ts)),
                tl_createdAt = created (row_id r), tl_txHex = hex, tl_txHash = row_hash r, tl_tx = tx, tl_txId = i\<rparr>,
                c, delete_expired (row_id r) d))))"

definition updateLastTxlog2Id :: "'db penv \<Rightarrow> int \<Rightarrow> 'db pstate \<Rightarrow> 'db pstate res" where
  "updateLastTxlog2Id E newId s = kvset E (key_str KOffset) (VStr (fmt_d newId)) s"

definition getLastTxLog2Id :: "'db penv \<Rightarrow> 'db pstate \<Rightarrow> (int \<times> 'db pstate) res" where
  "getLastTxLog2Id E s =
     (case kvgetMayNotExist E (key_str KOffset) s of (exist, value) \<Rightarrow>
        if exist then bindE (value_string value) (\<lambda>v. Inr (atoi v, s))
        else bindE (updateLastTxlog2Id E 0 s) (\<lambda>s. Inr (0, s)))"

definition init_counters :: "'db penv \<Rightarrow> 'db pstate \<Rightarrow> 'db pstate res" where
  \<comment> \<open>the counters of unconfirmed transactions that \<open>Parser::init\<close> reads back\<close>
  "init_counters E s =
     bindE (value_string (snd (kvgetMayNotExist E (key_str KUnconfCount) s))) (\<lambda>v.
     let s = (if v \<noteq> [] then s\<lparr>p_unconfirmedTxsCount := atoi v\<rparr> else s) in
     bindE (value_string (snd (kvgetMayNotExist E (key_str KUnconfSize) s))) (\<lambda>v.
     Inr (if v \<noteq> [] then s\<lparr>p_unconfirmedTxsSize := atoi v\<rparr> else s)))"

section \<open>Handling the rows\<close>

definition handleTxlog2 :: "'db penv \<Rightarrow> recognizer \<Rightarrow> rawblock list \<Rightarrow> TxLog2 \<Rightarrow> 'db pstate \<Rightarrow> 'db pstate res" where
  \<comment> \<open>one round of \<open>threadHandleTxlogs\<close>\<close>
  "handleTxlog2 E rc rows txLog2 s =
     (if tl_txHash txLog2 = 0 then Inr s
      else
        bindE (if tl_type txLog2 = LOG2TYPE_TX_ACCEPT then acceptTx E txLog2 s
               else if tl_type txLog2 = LOG2TYPE_TX_CONFIRM then
                 bindE (if IsCoinBase (tl_tx txLog2)
                        then bindE (acceptBlock E rows txLog2 s) (\<lambda>(blockHash, s).
                             recognizeBlocks E rc (tl_blkHeight txLog2) (tl_blkHeight txLog2) True s)
                        else Inr s) (confirmTx E txLog2)
               else if tl_type txLog2 = LOG2TYPE_TX_UNCONFIRM then unconfirmTx E txLog2 s
               else if tl_type txLog2 = LOG2TYPE_TX_REJECT then
                 bindE (if IsCoinBase (tl_tx txLog2) then rejectBlock E rows txLog2 s else Inr s) (rejectTx E txLog2)
               else Inr s) (updateLastTxlog2Id E (tl_id txLog2)))"

end
