(* ===== verification/ParserRun.thy ===== *)
theory ParserRun
  imports ParserMain
begin

text \<open>
  The run of \<open>tparser\<close> over a history of rows: transactions (theory LedgerHistory) and blocks
  (theory ParserBlock) together. \<open>main_step\<close> says which rows may come next: the confirmation
  of a coinbase accepts its block on top of the chain, and the rejection of a coinbase rejects
  the last block. \<open>main_inv\<close> says that the database describes the transactions and the chain.
\<close>

type_synonym main = "hist \<times> uint256 list \<times> (int \<Rightarrow> string sset)"  \<comment> \<open>transactions, blocks, orphans\<close>

definition coinbase_row :: "TxLog2 \<Rightarrow> bool" where
  "coinbase_row l = (IsCoinBase (tl_tx l) \<and> (tl_type l = LOG2TYPE_TX_CONFIRM \<or> tl_type l = LOG2TYPE_TX_REJECT))"

inductive main_step :: "'db penv \<Rightarrow> string set \<Rightarrow> (uint256 \<Rightarrow> CTransaction) \<Rightarrow> (uint256 \<Rightarrow> string) \<Rightarrow> rawblock list \<Rightarrow>
    main \<Rightarrow> TxLog2 \<Rightarrow> main \<Rightarrow> bool"
  for E A T X rows where
  tx: "tx_step E A T X x l y \<Longrightarrow> tl_txHash l \<noteq> 0 \<Longrightarrow> \<not> coinbase_row l \<Longrightarrow>
     main_step E A T X rows (x, bs, Orph) l (y, bs, Orph)"
| block: "tx_step E A T X x l y \<Longrightarrow> tl_txHash l \<noteq> 0 \<Longrightarrow> coinbase_row l \<Longrightarrow> tl_type l = LOG2TYPE_TX_CONFIRM \<Longrightarrow>
     decode_block rows l = Inr (hex, blk) \<Longrightarrow> block_fits E blk bs \<Longrightarrow> tl_blkHeight l = int (length bs) \<Longrightarrow>
     pe_gh E (hd (vtx blk)) = tl_txHash l \<Longrightarrow> hash = pe_bh E (GetBlockHeader blk) \<Longrightarrow>
     main_step E A T X rows (x, bs, Orph) l
       (y, bs @ [hash], Orph(tl_blkHeight l := ss_del (ToString hash) (Orph (tl_blkHeight l))))"
| unblock: "tx_step E A T X x l y \<Longrightarrow> tl_txHash l \<noteq> 0 \<Longrightarrow> coinbase_row l \<Longrightarrow> tl_type l = LOG2TYPE_TX_REJECT \<Longrightarrow>
     decode_block rows l = Inr (hex, blk) \<Longrightarrow> hash = pe_bh E (GetBlockHeader blk) \<Longrightarrow>
     bs \<noteq> [] \<longrightarrow> hashPrevBlock (GetBlockHeader blk) = last bs \<Longrightarrow> tl_blkHeight l = int (length bs) \<Longrightarrow>
     main_step E A T X rows (x, bs @ [hash], Orph) l
       (y, bs, Orph(tl_blkHeight l := ss_ins (ToString hash) (Orph (tl_blkHeight l))))"

inductive main_run :: "'db penv \<Rightarrow> string set \<Rightarrow> (uint256 \<Rightarrow> CTransaction) \<Rightarrow> (uint256 \<Rightarrow> string) \<Rightarrow> rawblock list \<Rightarrow>
    main \<Rightarrow> TxLog2 list \<Rightarrow> main \<Rightarrow> bool"
  for E A T X rows where
  none: "main_run E A T X rows m [] m"
| row: "main_step E A T X rows m l m' \<Longrightarrow> main_run E A T X rows m' ls m'' \<Longrightarrow> main_run E A T X rows m (l # ls) m''"

lemma main_step_tx: "main_step E A T X rows m l m' \<Longrightarrow> tx_step E A T X (fst m) l (fst m')"
  by (induction rule: main_step.induct) simp_all

lemma main_run_tx: "main_run E A T X rows m ls m' \<Longrightarrow> tx_run E A T X (fst m) ls (fst m')"
  by (induction rule: main_run.induct) (auto intro: tx_run.intros dest: main_step_tx)

definition recognised :: "(kvkey \<Rightarrow> kvval option) \<Rightarrow> uint256 list \<Rightarrow> bool" where
  "recognised P bs = (\<forall>b \<in> set bs. P (KExtra b) \<noteq> None)"

definition main_inv :: "'db penv \<Rightarrow> string set \<Rightarrow> (uint256 \<Rightarrow> CTransaction) \<Rightarrow> (uint256 \<Rightarrow> string) \<Rightarrow> main \<Rightarrow> ledger \<Rightarrow> bool" where
  "main_inv E A T X m L = (case m of (x, bs, Orph) \<Rightarrow> ledger_inv E A T X x L \<and>
     blocks_inv (lg_recs L) bs Orph \<and> recognised (lg_recs L) bs)"

section \<open>Independence of the two parts\<close>

definition tx_keys_same :: "(kvkey \<Rightarrow> kvval option) \<Rightarrow> (kvkey \<Rightarrow> kvval option) \<Rightarrow> bool" where
  "tx_keys_same P P' = (\<forall>h n. P' (KTx h) = P (KTx h) \<and> P' (KUnconfirmed h) = P (KUnconfirmed h) \<and> P' (KSpend h n) = P (KSpend h n))"

lemma ledger_inv_recs:
  assumes "ledger_inv E A T X x L" and "tx_keys_same (lg_recs L) P"
  shows "ledger_inv E A T X x (L\<lparr>lg_recs := P\<rparr>)"
proof -
  have "P (spend_key i) = lg_recs L (spend_key i)" for i using assms(2) by (simp add: tx_keys_same_def spend_key_def)
  then show ?thesis
    using assms by (simp add: ledger_inv_def objects_of_def spenders_of_def counts_of_def tx_keys_same_def)
qed

lemma block_frame_tx: "block_frame P P' \<Longrightarrow> tx_keys_same P P'"
  by (simp add: block_frame_def tx_keys_same_def)

lemma extra_frame_tx: "extra_frame P P' \<Longrightarrow> tx_keys_same P P'"
  by (simp add: extra_frame_def tx_keys_same_def)

lemma tx_keys_same_trans: "tx_keys_same P P' \<Longrightarrow> tx_keys_same P' P'' \<Longrightarrow> tx_keys_same P P''"
  by (simp add: tx_keys_same_def)

lemma blocks_inv_frame:
  assumes "blocks_inv P bs Orph" and "\<And>k. block_key k \<Longrightarrow> P' k = P k"
  shows "blocks_inv P' bs Orph"
  using assms by (simp add: blocks_inv_def chain_recs_def orphans_at_def)

definition chain_key :: "kvkey \<Rightarrow> bool" where
  "chain_key k = (block_key k \<or> (\<exists>h. k = KExtra h))"

lemma ledger_keeps_blocks:
  assumes "chain_key k"
  shows "lg_recs (ledger_accept E l L) k = lg_recs L k" "lg_recs (ledger_confirm E l L) k = lg_recs L k"
    "lg_recs (ledger_unconfirm E l L) k = lg_recs L k" "lg_recs (ledger_reject E l L) k = lg_recs L k"
proof -
  have k: "k \<noteq> KTx h" "k \<noteq> KUnconfirmed h" "k \<noteq> KUnconfCount" "k \<noteq> KUnconfSize" "k \<noteq> spend_key i" for h i
    using assms by (auto simp: spend_key_def chain_key_def)
  then have s: "k \<notin> spend_key ` set is" for "is" by blast
  show "lg_recs (ledger_accept E l L) k = lg_recs L k" "lg_recs (ledger_confirm E l L) k = lg_recs L k"
    "lg_recs (ledger_unconfirm E l L) k = lg_recs L k" "lg_recs (ledger_reject E l L) k = lg_recs L k"
    using k by (simp_all add: ledger_accept_def ledger_confirm_def ledger_unconfirm_def ledger_reject_def Let_def recount_def
        spends_put_other [OF s] spends_del_at s)
qed

section \<open>One row\<close>

lemma does_inv:
  assumes "does V A s L' ls s'" and "ledger_inv E A T X y L'" and "\<And>k. chain_key k \<Longrightarrow> lg_recs L' k = lg_recs L k"
  shows "\<exists>L'. holds V A s' L' \<and> ledger_inv E A T X y L' \<and> (\<forall>k. chain_key k \<longrightarrow> lg_recs L' k = lg_recs L k)"
  using assms by (intro exI [of _ L']) (simp add: does_def)

lemma tx_handler:
  assumes step: "tx_step E A T X x l y" and inv: "ledger_inv E A T X x L" and s: "holds V A s L"
    and R: "rocks_ok (pe_rocks E) V" and ob: "object_text_ok E"
  shows "returns (if tl_type l = LOG2TYPE_TX_ACCEPT then acceptTx E l s
     else if tl_type l = LOG2TYPE_TX_CONFIRM then confirmTx E l s
     else if tl_type l = LOG2TYPE_TX_UNCONFIRM then unconfirmTx E l s
     else rejectTx E l s) (\<lambda>s'. \<exists>L'. holds V A s' L' \<and> ledger_inv E A T X y L' \<and>
       (\<forall>k. chain_key k \<longrightarrow> lg_recs L' k = lg_recs L k))"
  using step
proof (cases rule: tx_step.cases)
  case (accept \<sigma> h stk)
  have a: "accept_ready E A l L" "ledger_inv E A T X (\<sigma>(h := Unconfirmed), stk) (ledger_accept E l L)"
    using accept_step [OF inv [unfolded accept(1)] accept(3,4) _ accept(6,7)] accept(5) by blast+
  have ty: "tl_type l = LOG2TYPE_TX_ACCEPT" using accept(6) by (simp add: row_of_def)
  show ?thesis
    unfolding if_P [OF ty] accept(2)
    by (rule returns_mono [OF acceptTx_does [OF s R a(1)]], erule does_inv [OF _ a(2) ledger_keeps_blocks(1)])
next
  case (confirm \<sigma> h stk)
  note a = confirm_step [OF inv [unfolded confirm(1)] confirm(3-5)]
  have ty: "tl_type l = LOG2TYPE_TX_CONFIRM" "tl_type l \<noteq> LOG2TYPE_TX_ACCEPT" using confirm(4) by (simp_all add: row_of_def log2_types)
  show ?thesis
    unfolding if_not_P [OF ty(2)] if_P [OF ty(1)] confirm(2)
    by (rule returns_mono [OF confirmTx_does [OF s R a(1)]], erule does_inv [OF _ a(2) ledger_keeps_blocks(2)])
next
  case (unconfirm \<sigma> h stk)
  note a = unconfirm_step [OF inv [unfolded unconfirm(1)] unconfirm(3,4)]
  have ty: "tl_type l = LOG2TYPE_TX_UNCONFIRM" "tl_type l \<noteq> LOG2TYPE_TX_ACCEPT" "tl_type l \<noteq> LOG2TYPE_TX_CONFIRM"
    using unconfirm(4) by (simp_all add: row_of_def log2_types)
  show ?thesis
    unfolding if_not_P [OF ty(2)] if_not_P [OF ty(3)] if_P [OF ty(1)] unconfirm(2)
    by (rule returns_mono [OF unconfirmTx_does [OF s R a(1)]], erule does_inv [OF _ a(2) ledger_keeps_blocks(3)])
next
  case (reject \<sigma> h stk)
  have a: "reject_ready E A l L" "ledger_inv E A T X (\<sigma>(h := Absent), stk) (ledger_reject E l L)"
    using reject_step [OF inv [unfolded reject(1)] reject(3) ob reject(4)] reject(5) by blast+
  have ty: "tl_type l \<noteq> LOG2TYPE_TX_UNCONFIRM" "tl_type l \<noteq> LOG2TYPE_TX_ACCEPT" "tl_type l \<noteq> LOG2TYPE_TX_CONFIRM"
    using reject(4) by (simp_all add: row_of_def log2_types)
  show ?thesis
    unfolding if_not_P [OF ty(2)] if_not_P [OF ty(3)] if_not_P [OF ty(1)] reject(2)
    by (rule returns_mono [OF rejectTx_does [OF s R a(1)]], erule does_inv [OF _ a(2) ledger_keeps_blocks(4)])
qed

lemma at_holds: "at_ctl V A {} (lg_count L, lg_size L, x, y) (lg_book L) (lg_utxo L) P s \<Longrightarrow> holds V A s (L\<lparr>lg_recs := P\<rparr>)"
  by (simp add: at_ctl_def holds_def ctl_def)

lemma update_last_id:
  assumes s: "holds V A s L" and R: "rocks_ok (pe_rocks E) V"
  shows "returns (updateLastTxlog2Id E i s) (\<lambda>s'. holds V A s' (L\<lparr>lg_recs := (lg_recs L)(KOffset \<mapsto> VStr (fmt_d i))\<rparr>))"
  unfolding updateLastTxlog2Id_def by (rule put_at [OF holds_at [OF s] R], simp, rule at_holds)

lemma chain_inv_frame:
  assumes "blocks_inv P bs Orph" and "recognised P bs" and "\<And>k. chain_key k \<Longrightarrow> P' k = P k"
  shows "blocks_inv P' bs Orph" "recognised P' bs"
  using assms blocks_inv_frame [OF assms(1), of P'] by (simp_all add: chain_key_def recognised_def)

lemma main_inv_recs:
  assumes "main_inv E A T X m L" and "tx_keys_same (lg_recs L) P" and "\<And>k. chain_key k \<Longrightarrow> P k = lg_recs L k"
  shows "main_inv E A T X m (L\<lparr>lg_recs := P\<rparr>)"
  using assms ledger_inv_recs [OF _ assms(2)] chain_inv_frame [OF _ _ assms(3)]
  by (auto simp: main_inv_def split: prod.splits)

lemma not_block_key: "\<not> block_key (KExtra h)"
  by simp

lemma extra_frame_block: "extra_frame P P' \<Longrightarrow> block_key k \<Longrightarrow> P' k = P k"
  unfolding extra_frame_def by (cases k) simp_all

text \<open>The coinbase of a block just accepted is its first transaction, which the database knows.\<close>

lemma coinbase_known:
  assumes "txs_at P b (map gh (vtx blk))" and "vtx blk \<noteq> []" and "P (KTx (gh (hd (vtx blk)))) = Some (VTx t)"
  shows "coinbase_of P b t"
proof -
  obtain tx txs where v: "vtx blk = tx # txs" using assms(2) by (cases "vtx blk") auto
  have "P (KBlockTxs b 0) = Some (VStr (ToString (gh tx) @ concat (map ToString (take (kBatchSize - 1) (map gh txs)))))"
    using assms(1) [unfolded txs_at_def, rule_format, of 0] by (simp add: v take_Cons' kBatchSize_def)
  then show ?thesis using assms(3) by (auto simp: coinbase_of_def v)
qed

lemma recognise_accepted:
  assumes s: "holds V A s (L\<lparr>lg_recs := P\<rparr>)" and R: "rocks_ok (pe_rocks E) V"
    and h: "P (KHeight n) = Some (VStr (ToString b))" and cb: "coinbase_of P b t"
  shows "returns (recognizeBlocks E rc n n True s) (\<lambda>s'. \<exists>P'. holds V A s' (L\<lparr>lg_recs := P'\<rparr>) \<and> extra_frame P P' \<and>
     P' (KExtra b) \<noteq> None \<and> (\<forall>g. P (KExtra g) \<noteq> None \<longrightarrow> P' (KExtra g) \<noteq> None))"
  by (rule returns_mono [OF recognizeBlocks_one [OF holds_at [OF s, of "{}", simplified] R h cb]])
    (elim exE conjE, rule exI, intro conjI, rule at_holds, simp_all)

section \<open>One row, blocks included\<close>

lemma row_type:
  assumes "tx_step E A T X x l y"
  shows "tl_type l = LOG2TYPE_TX_ACCEPT \<or> tl_type l = LOG2TYPE_TX_CONFIRM \<or> tl_type l = LOG2TYPE_TX_UNCONFIRM \<or>
    tl_type l = LOG2TYPE_TX_REJECT"
  using assms by (induction rule: tx_step.induct) (simp_all add: row_of_def)

definition stands :: "('db \<Rightarrow> string \<Rightarrow> kvval option) \<Rightarrow> string set \<Rightarrow> 'db penv \<Rightarrow> (uint256 \<Rightarrow> CTransaction) \<Rightarrow> (uint256 \<Rightarrow> string) \<Rightarrow>
    main \<Rightarrow> 'db pstate \<Rightarrow> bool" where
  "stands V A E T X m s = (\<exists>L. holds V A s L \<and> main_inv E A T X m L)"

lemma stands_row:
  assumes inv: "ledger_inv E A T X x L" and s: "holds V A s L" and step: "tx_step E A T X x l y"
    and bl: "blocks_inv (lg_recs L) bs Orph" "recognised (lg_recs L) bs"
    and R: "rocks_ok (pe_rocks E) V" and ob: "object_text_ok E"
  shows "returns (if tl_type l = LOG2TYPE_TX_ACCEPT then acceptTx E l s
     else if tl_type l = LOG2TYPE_TX_CONFIRM then confirmTx E l s
     else if tl_type l = LOG2TYPE_TX_UNCONFIRM then unconfirmTx E l s
     else rejectTx E l s) (stands V A E T X (y, bs, Orph))"
proof (rule returns_mono [OF tx_handler [OF step inv s R ob]], elim exE conjE)
  fix s' L' assume h: "holds V A s' L'" and i: "ledger_inv E A T X y L'" and k: "\<forall>k. chain_key k \<longrightarrow> lg_recs L' k = lg_recs L k"
  have "blocks_inv (lg_recs L') bs Orph" "recognised (lg_recs L') bs"
    using chain_inv_frame [OF bl, of "lg_recs L'"] k by blast+
  with h i show "stands V A E T X (y, bs, Orph) s'" unfolding stands_def main_inv_def by auto
qed

lemma stands_update:
  assumes "stands V A E T X m s" and R: "rocks_ok (pe_rocks E) V"
  shows "returns (updateLastTxlog2Id E i s) (\<lambda>s'. stands V A E T X m s' \<and>
     kvgetMayNotExist E (key_str KOffset) s' = (True, VStr (fmt_d i)))"
proof -
  from assms(1) obtain L where L: "holds V A s L" "main_inv E A T X m L" unfolding stands_def by blast
  show ?thesis
  proof (rule returns_mono [OF update_last_id [OF L(1) R]], intro conjI)
    fix s' assume h: "holds V A s' (L\<lparr>lg_recs := (lg_recs L)(KOffset \<mapsto> VStr (fmt_d i))\<rparr>)"
    have "main_inv E A T X m (L\<lparr>lg_recs := (lg_recs L)(KOffset \<mapsto> VStr (fmt_d i))\<rparr>)"
      by (rule main_inv_recs [OF L(2)]) (auto simp: tx_keys_same_def chain_key_def)
    with h show "stands V A E T X m s'" unfolding stands_def by blast
    show "kvgetMayNotExist E (key_str KOffset) s' = (True, VStr (fmt_d i))"
      using getMay_pinv [OF at_ctlD(1) [OF holds_at [OF h, of "{}"]] R, of KOffset] by simp
  qed
qed

lemma confirm_known:
  assumes "tx_step E A T X x l y" and "tl_type l = LOG2TYPE_TX_CONFIRM" and "ledger_inv E A T X x L"
  shows "\<exists>t. lg_recs L (KTx (tl_txHash l)) = Some (VTx t)"
  using assms
proof (cases rule: tx_step.cases)
  case (confirm \<sigma> h stk)
  have "objects_of E T \<sigma> (lg_recs L)" using assms(3) unfolding confirm(1) ledger_inv_def by simp
  moreover have "\<sigma> (tl_txHash l) \<noteq> Absent" using confirm(3,4) by (simp add: row_of_def)
  ultimately show ?thesis using object_of by blast
qed (simp_all add: row_of_def log2_types)

lemma main_step_returns:
  assumes step: "main_step E A T X rows m l m'" and st: "stands V A E T X m s"
    and R: "rocks_ok (pe_rocks E) V" and ob: "object_text_ok E"
  shows "returns (handleTxlog2 E rc rows l s) (\<lambda>s'. stands V A E T X m' s' \<and>
     kvgetMayNotExist E (key_str KOffset) s' = (True, VStr (fmt_d (tl_id l))))"
proof -
  from st obtain L where s: "holds V A s L" and inv: "main_inv E A T X m L" unfolding stands_def by blast
  have h: "tl_txHash l \<noteq> 0" using step by (auto elim: main_step.cases)
  have body: "returns (if tl_type l = LOG2TYPE_TX_ACCEPT then acceptTx E l s
     else if tl_type l = LOG2TYPE_TX_CONFIRM then bindE (if IsCoinBase (tl_tx l)
        then bindE (acceptBlock E rows l s) (\<lambda>(blockHash, s). recognizeBlocks E rc (tl_blkHeight l) (tl_blkHeight l) True s)
        else Inr s) (confirmTx E l)
     else if tl_type l = LOG2TYPE_TX_UNCONFIRM then unconfirmTx E l s
     else if tl_type l = LOG2TYPE_TX_REJECT then
        bindE (if IsCoinBase (tl_tx l) then rejectBlock E rows l s else Inr s) (rejectTx E l)
     else Inr s) (stands V A E T X m')"
    using step
  proof (cases rule: main_step.cases)
    case (tx x y bs Orph)
    note I = inv [unfolded tx(1) main_inv_def prod.case]
    have eq: "(if tl_type l = LOG2TYPE_TX_ACCEPT then acceptTx E l s
     else if tl_type l = LOG2TYPE_TX_CONFIRM then bindE (if IsCoinBase (tl_tx l)
        then bindE (acceptBlock E rows l s) (\<lambda>(blockHash, s). recognizeBlocks E rc (tl_blkHeight l) (tl_blkHeight l) True s)
        else Inr s) (confirmTx E l)
     else if tl_type l = LOG2TYPE_TX_UNCONFIRM then unconfirmTx E l s
     else if tl_type l = LOG2TYPE_TX_REJECT then
        bindE (if IsCoinBase (tl_tx l) then rejectBlock E rows l s else Inr s) (rejectTx E l)
     else Inr s) = (if tl_type l = LOG2TYPE_TX_ACCEPT then acceptTx E l s
     else if tl_type l = LOG2TYPE_TX_CONFIRM then confirmTx E l s
     else if tl_type l = LOG2TYPE_TX_UNCONFIRM then unconfirmTx E l s
     else rejectTx E l s)"
      using tx(5) row_type [OF tx(3)] by (auto simp: coinbase_row_def)
    show ?thesis
      unfolding eq tx(2) using I by (intro stands_row [OF _ s tx(3) _ _ R ob]) simp_all
  next
    case (block x y hex blk bs hash Orph)
    note I = inv [unfolded block(1) main_inv_def prod.case]
    have ty: "tl_type l \<noteq> LOG2TYPE_TX_ACCEPT" "IsCoinBase (tl_tx l)" using block(5,6) by (simp_all add: coinbase_row_def log2_types)
    let ?O = "Orph(tl_blkHeight l := ss_del (ToString hash) (Orph (tl_blkHeight l)))"
    have I3: "ledger_inv E A T X x L" "blocks_inv (lg_recs L) bs Orph" "recognised (lg_recs L) bs" using I by blast+
    note acc = acceptBlock_does [OF s R I3(2) block(7,8,9), folded block(11)]
    obtain t where t: "lg_recs L (KTx (tl_txHash l)) = Some (VTx t)" using confirm_known [OF block(3,6) I3(1)] by blast
    have rest: "returns (recognizeBlocks E rc (tl_blkHeight l) (tl_blkHeight l) True s1)
        (\<lambda>s. returns (confirmTx E l s) (stands V A E T X (y, bs @ [hash], ?O)))"
      if s1: "holds V A s1 (L\<lparr>lg_recs := P\<rparr>)" and fr: "block_frame (lg_recs L) P"
        and bi: "blocks_inv P (bs @ [hash]) ?O" and txs: "txs_at P hash (map (pe_gh E) (vtx blk))" for s1 P
    proof -
      have ht: "P (KHeight (tl_blkHeight l)) = Some (VStr (ToString hash))"
        using bi block(9) unfolding blocks_inv_def chain_recs_def by simp
      have "P (KTx (pe_gh E (hd (vtx blk)))) = Some (VTx t)" using fr t unfolding block_frame_def block(10) by simp
      with txs have cb: "coinbase_of P hash t" using block(8) by (intro coinbase_known) (simp_all add: block_fits_def Let_def)
      show ?thesis
      proof (rule returns_mono [OF recognise_accepted [OF s1 R ht cb]], elim exE conjE)
        fix s2 P2 assume s2: "holds V A s2 (L\<lparr>lg_recs := P2\<rparr>)" and fr2: "extra_frame P P2" and ex: "P2 (KExtra hash) \<noteq> None"
          "\<forall>g. P (KExtra g) \<noteq> None \<longrightarrow> P2 (KExtra g) \<noteq> None"
        have 1: "ledger_inv E A T X x (L\<lparr>lg_recs := P2\<rparr>)"
          by (rule ledger_inv_recs [OF I3(1) tx_keys_same_trans [OF block_frame_tx [OF fr] extra_frame_tx [OF fr2]]])
        have 2: "blocks_inv (lg_recs (L\<lparr>lg_recs := P2\<rparr>)) (bs @ [hash]) ?O"
          using blocks_inv_frame [OF bi extra_frame_block [OF fr2]] by simp
        have "P2 (KExtra b) \<noteq> None" if "b \<in> set bs" for b
        proof -
          have "P (KExtra b) = lg_recs L (KExtra b)" using fr by (simp add: block_frame_def)
          moreover have "lg_recs L (KExtra b) \<noteq> None" using that I3(3) unfolding recognised_def by blast
          ultimately show ?thesis using ex(2) by simp
        qed
        then have 3: "recognised (lg_recs (L\<lparr>lg_recs := P2\<rparr>)) (bs @ [hash])" using ex(1) by (simp add: recognised_def)
        show "returns (confirmTx E l s2) (stands V A E T X (y, bs @ [hash], ?O))"
          using stands_row [OF 1 s2 block(3) 2 3 R ob] unfolding if_not_P [OF ty(1)] if_P [OF block(6)] .
      qed
    qed
    show ?thesis
      unfolding if_not_P [OF ty(1)] if_P [OF block(6)] if_P [OF ty(2)] block(2)
      by (rule returns_bind, rule returns_bind, rule returns_mono [OF acc], unfold split_beta block_does_def, elim exE conjE, rule rest)
  next
    case (unblock x y hex blk hash bs Orph)
    note I = inv [unfolded unblock(1) main_inv_def prod.case]
    have ty: "tl_type l \<noteq> LOG2TYPE_TX_ACCEPT" "tl_type l \<noteq> LOG2TYPE_TX_CONFIRM" "tl_type l \<noteq> LOG2TYPE_TX_UNCONFIRM"
      "IsCoinBase (tl_tx l)" using unblock(5,6) by (simp_all add: coinbase_row_def log2_types)
    have I3: "ledger_inv E A T X x L" "blocks_inv (lg_recs L) (bs @ [hash]) Orph" "recognised (lg_recs L) (bs @ [hash])"
      using I by blast+
    show ?thesis
      unfolding if_not_P [OF ty(1)] if_not_P [OF ty(2)] if_not_P [OF ty(3)] if_P [OF unblock(6)] if_P [OF ty(4)] unblock(2)
    proof (rule returns_bind, rule returns_mono [OF rejectBlock_does [OF s R I3(2) unblock(7,8,9,10)]],
        unfold block_does_def, elim exE conjE)
      fix s1 P b assume s1: "holds V A s1 (L\<lparr>lg_recs := P\<rparr>)" and fr: "block_frame (lg_recs L) P"
        and bi: "blocks_inv P bs (Orph(tl_blkHeight l := ss_ins (ToString hash) (Orph (tl_blkHeight l))))"
      have 1: "ledger_inv E A T X x (L\<lparr>lg_recs := P\<rparr>)" by (rule ledger_inv_recs [OF I3(1) block_frame_tx [OF fr]])
      have 2: "blocks_inv (lg_recs (L\<lparr>lg_recs := P\<rparr>)) bs (Orph(tl_blkHeight l := ss_ins (ToString hash) (Orph (tl_blkHeight l))))"
        using bi by simp
      have 3: "recognised (lg_recs (L\<lparr>lg_recs := P\<rparr>)) bs" using I3(3) fr by (simp add: recognised_def block_frame_def)
      show "returns (rejectTx E l s1) (stands V A E T X (y, bs, Orph(tl_blkHeight l := ss_ins (ToString hash) (Orph (tl_blkHeight l)))))"
        using stands_row [OF 1 s1 unblock(3) 2 3 R ob] unfolding if_not_P [OF ty(1)] if_not_P [OF ty(2)] if_not_P [OF ty(3)] .
    qed
  qed
  show ?thesis
    unfolding handleTxlog2_def if_not_P [OF h]
    by (rule returns_bind, rule returns_mono [OF body], rule stands_update [OF _ R])
qed

end
