(* ===== verification/Base58.thy ===== *)
theory Base58
  imports Serialize
begin

text \<open>
  Base58 texts of addresses (src/jiexi/src/bitcoin/base58.h): \<open>EncodeBase58\<close>, \<open>DecodeBase58\<close>, their
  versions with a check sum, and \<open>CBitcoinAddress\<close>. A vector of bytes is a string, a \<open>CBigNum\<close> that
  is not negative a natural number, and the double SHA-256 of the check sum a parameter \<open>H\<close>.

  Both directions are inverse to each other on valid addresses: printing and reading gives the
  address back, and a text that is accepted is, but for white space around it, the printed form.
\<close>

section \<open>Operations\<close>

definition pszBase58 :: string where
  "pszBase58 = ''123456789ABCDEFGHJKLMNPQRSTUVWXYZabcdefghijkmnopqrstuvwxyz''"

fun strchr :: "string \<Rightarrow> char \<Rightarrow> nat option" where
  "strchr [] c = None"
| "strchr (d # s) c = (if c = d then Some 0 else map_option Suc (strchr s c))"

definition setvch :: "string \<Rightarrow> nat" where
  \<comment> \<open>little endian; the top bit, a sign, is not set\<close>
  "setvch vch = foldr (\<lambda>c v. of_char c + 256 * v) vch 0"

function digits :: "nat \<Rightarrow> nat \<Rightarrow> nat list" where
  "digits b n = (if n = 0 \<or> b < 2 then [] else n mod b # digits b (n div b))"
  by pat_completeness auto
termination
  by (relation "measure snd") auto

declare digits.simps [simp del]

definition getvch :: "nat \<Rightarrow> string" where
  \<comment> \<open>little endian, with a zero after a last byte whose top bit is set\<close>
  "getvch n =
     (let v = map char_of (digits 256 n) in
      if v \<noteq> [] \<and> (of_char (last v) :: nat) \<ge> 0x80 then v @ [CHR 0x00] else v)"

definition EncodeBase58 :: "string \<Rightarrow> string" where
  "EncodeBase58 vch =
     (let vchTmp = rev vch @ [CHR 0x00];
          str = map (\<lambda>c. pszBase58 ! c) (digits 58 (setvch vchTmp));
          str = str @ replicate (length (takeWhile (\<lambda>p. p = CHR 0x00) vch)) (pszBase58 ! 0)
      in rev str)"

fun decode_loop :: "nat \<Rightarrow> string \<Rightarrow> nat option" where
  "decode_loop bn [] = Some bn"
| "decode_loop bn (p # ps) =
     (case strchr pszBase58 p of
        None \<Rightarrow> if dropWhile is_space (p # ps) \<noteq> [] then None else Some bn
      | Some i \<Rightarrow> decode_loop (bn * 58 + i) ps)"

definition DecodeBase58 :: "string \<Rightarrow> bool \<times> string" where
  "DecodeBase58 str =
     (let psz = dropWhile is_space (c_str str) in
      case decode_loop 0 psz of
        None \<Rightarrow> (False, [])
      | Some bn \<Rightarrow>
          let vchTmp = getvch bn;
              vchTmp = (if length vchTmp \<ge> 2 \<and> last vchTmp = CHR 0x00 \<and> (of_char (last (butlast vchTmp)) :: nat) \<ge> 0x80
                        then butlast vchTmp else vchTmp);
              nLeadingZeros = length (takeWhile (\<lambda>p. p = pszBase58 ! 0) psz)
          in (True, replicate nLeadingZeros CHR 0x00 @ rev vchTmp))"

definition hash_4 :: "uint256 \<Rightarrow> string" where
  \<comment> \<open>the first four bytes of a hash in memory\<close>
  "hash_4 h = le_bytes 4 (unat h)"

definition EncodeBase58Check :: "(string \<Rightarrow> uint256) \<Rightarrow> string \<Rightarrow> string" where
  "EncodeBase58Check H vchIn = EncodeBase58 (vchIn @ hash_4 (H vchIn))"

definition DecodeBase58Check :: "(string \<Rightarrow> uint256) \<Rightarrow> string \<Rightarrow> bool \<times> string" where
  "DecodeBase58Check H psz =
     (case DecodeBase58 psz of (ok, vchRet) \<Rightarrow>
        if \<not> ok then (False, vchRet)
        else if length vchRet < 4 then (False, [])
        else if hash_4 (H (take (length vchRet - 4) vchRet)) \<noteq> drop (length vchRet - 4) vchRet then (False, [])
        else (True, take (length vchRet - 4) vchRet))"

record CBase58Data =
  vchVersion :: string
  vchData :: string

definition SetString :: "(string \<Rightarrow> uint256) \<Rightarrow> string \<Rightarrow> bool \<times> CBase58Data" where
  \<comment> \<open>\<open>nVersionBytes\<close> is 1\<close>
  "SetString H psz =
     (let vchTemp = snd (DecodeBase58Check H psz) in
      if length vchTemp < 1 then (False, \<lparr>vchVersion = [], vchData = []\<rparr>)
      else (True, \<lparr>vchVersion = take 1 vchTemp, vchData = drop 1 vchTemp\<rparr>))"

definition CBase58Data_ToString :: "(string \<Rightarrow> uint256) \<Rightarrow> CBase58Data \<Rightarrow> string" where
  "CBase58Data_ToString H a = EncodeBase58Check H (vchVersion a @ vchData a)"

subsection \<open>CBitcoinAddress\<close>

record base58_params =
  PUBKEY_ADDRESS :: string
  SCRIPT_ADDRESS :: string

definition main_prefixes :: base58_params where
  "main_prefixes = \<lparr>PUBKEY_ADDRESS = [char_of (0::nat)], SCRIPT_ADDRESS = [char_of (5::nat)]\<rparr>"

definition testnet_prefixes :: base58_params where
  "testnet_prefixes = \<lparr>PUBKEY_ADDRESS = [char_of (111::nat)], SCRIPT_ADDRESS = [char_of (196::nat)]\<rparr>"

definition IsValid :: "base58_params \<Rightarrow> CBase58Data \<Rightarrow> bool" where
  "IsValid P a = (length (vchData a) = 20 \<and> (vchVersion a = PUBKEY_ADDRESS P \<or> vchVersion a = SCRIPT_ADDRESS P))"

definition IsScript :: "base58_params \<Rightarrow> CBase58Data \<Rightarrow> bool" where
  "IsScript P a = (IsValid P a \<and> vchVersion a = SCRIPT_ADDRESS P)"

definition GetKeyID :: "base58_params \<Rightarrow> CBase58Data \<Rightarrow> string option" where
  \<comment> \<open>the 20 bytes of the key\<close>
  "GetKeyID P a = (if \<not> IsValid P a \<or> vchVersion a \<noteq> PUBKEY_ADDRESS P then None else Some (vchData a))"

definition CBitcoinAddress :: "(string \<Rightarrow> uint256) \<Rightarrow> string \<Rightarrow> CBase58Data" where
  "CBitcoinAddress H strAddress = snd (SetString H strAddress)"

definition uint160_GetHex :: "string \<Rightarrow> string" where
  "uint160_GetHex pn = Bin2HexR pn"

definition AddressTableIndex :: "base58_params \<Rightarrow> (string \<Rightarrow> uint256) \<Rightarrow> string \<Rightarrow> int res" where
  \<comment> \<open>the number of a key and that of a script are both the 20 bytes\<close>
  "AddressTableIndex P H address =
     (let addr = CBitcoinAddress H address in
      if \<not> IsValid P addr then Inl (Throw ''invalid address'')
      else let h = uint160_GetHex (vchData addr) in Inr (HexToDecLast2Bytes (take 1 h @ take 1 (drop 1 h))))"

section \<open>Numbers and digits\<close>

definition le_val :: "nat \<Rightarrow> nat list \<Rightarrow> nat" where
  "le_val b ds = foldr (\<lambda>d v. d + b * v) ds 0"

lemma le_val_simps [simp]:
  "le_val b [] = 0" "le_val b (d # ds) = d + b * le_val b ds"
  by (simp_all add: le_val_def)

lemma le_val_append: "le_val b (xs @ ys) = le_val b xs + b ^ length xs * le_val b ys"
  by (induction xs) (simp_all add: algebra_simps)

lemma le_val_zeros [simp]: "le_val b (replicate k 0) = 0"
  by (induction k) simp_all

lemma digits_0 [simp]: "digits b 0 = []"
  by (simp add: digits.simps)

lemma le_val_digits: "2 \<le> b \<Longrightarrow> le_val b (digits b n) = n"
proof (induction b n rule: digits.induct)
  case (1 b n)
  then show ?case by (subst digits.simps) simp
qed

lemma digits_less: "2 \<le> b \<Longrightarrow> d \<in> set (digits b n) \<Longrightarrow> d < b"
proof (induction b n rule: digits.induct)
  case (1 b n)
  then show ?case by (subst (asm) (2) digits.simps) (auto split: if_splits)
qed

lemma last_digits: "2 \<le> b \<Longrightarrow> digits b n \<noteq> [] \<Longrightarrow> last (digits b n) \<noteq> 0"
proof (induction b n rule: digits.induct)
  case (1 b n)
  show ?case
  proof (cases "digits b (n div b) = []")
    case True
    then have "n div b = 0" using "1.prems"(1) by (subst (asm) digits.simps) (simp split: if_splits)
    then have "n < b" using "1.prems"(1) by (simp add: div_eq_0_iff)
    moreover have "n \<noteq> 0" using "1.prems"(2) by (cases n) simp_all
    ultimately show ?thesis using True "1.prems"(1) by (subst digits.simps) simp
  next
    case False
    have n: "\<not> (n = 0 \<or> b < 2)" using "1.prems" by (cases n) simp_all
    with 1 False show ?thesis by (subst digits.simps) simp
  qed
qed

lemma digits_val_le:
  assumes "2 \<le> b" and "\<forall>d \<in> set ds. d < b" and "ds \<noteq> [] \<longrightarrow> last ds \<noteq> 0"
  shows "digits b (le_val b ds) = ds"
  using assms(2,3)
proof (induction ds)
  case Nil
  then show ?case by (simp add: digits.simps)
next
  case (Cons d ds)
  then have d: "d < b" and ds: "digits b (le_val b ds) = ds" by (auto split: if_splits)
  have "d + b * le_val b ds \<noteq> 0"
  proof (cases "ds = []")
    case False
    then have "le_val b ds \<noteq> 0" using ds by (cases "le_val b ds") auto
    with assms(1) show ?thesis by simp
  qed (use Cons.prems in simp)
  moreover have "(d + b * le_val b ds) mod b = d" "(d + b * le_val b ds) div b = le_val b ds" using d by simp_all
  ultimately show ?case using assms(1) ds by (subst digits.simps) simp
qed

text \<open>A number written most significant digit first is zeros and its digits.\<close>

lemma leading_zeros: "takeWhile (\<lambda>d. d = 0) xs = replicate (length (takeWhile (\<lambda>d. d = (0::nat)) xs)) 0"
  by (rule replicate_length_same [symmetric]) (auto dest: set_takeWhileD)

lemma rev_digits_val:
  assumes "2 \<le> b" and "\<forall>d \<in> set ds. d < b"
  shows "rev (digits b (le_val b (rev ds))) = dropWhile (\<lambda>d. d = 0) ds"
proof -
  let ?t = "takeWhile (\<lambda>d. d = 0) ds" and ?r = "dropWhile (\<lambda>d. d = 0) ds"
  have "rev ds = rev (?t @ ?r)" by simp
  also have "\<dots> = rev ?r @ replicate (length ?t) 0" using leading_zeros [of ds] by (metis rev_append rev_replicate)
  finally have "le_val b (rev ds) = le_val b (rev ?r)" by (simp add: le_val_append)
  moreover have "digits b (le_val b (rev ?r)) = rev ?r"
  proof (rule digits_val_le [OF assms(1)])
    show "\<forall>d \<in> set (rev ?r). d < b" using assms(2) by (auto dest: set_dropWhileD)
    show "rev ?r \<noteq> [] \<longrightarrow> last (rev ?r) \<noteq> 0" using hd_dropWhile [of "\<lambda>d. d = 0" ds] by (simp add: last_rev)
  qed
  ultimately show ?thesis by simp
qed

section \<open>The alphabet\<close>

lemma length_alphabet [simp]: "length pszBase58 = 58"
  by (simp add: pszBase58_def)

lemma strchr_Some: "strchr s c = Some i \<Longrightarrow> i < length s \<and> s ! i = c"
  by (induction s arbitrary: i) (auto split: if_splits)

lemma strchr_nth: "distinct s \<Longrightarrow> i < length s \<Longrightarrow> strchr s (s ! i) = Some i"
  by (induction s arbitrary: i) (auto simp: nth_Cons' split: if_splits)

lemma alphabet_distinct: "distinct pszBase58"
  by (simp add: pszBase58_def)

lemma strchr_alphabet [simp]: "i < 58 \<Longrightarrow> strchr pszBase58 (pszBase58 ! i) = Some i"
  by (rule strchr_nth [OF alphabet_distinct]) simp

lemma alphabet_chars: "\<forall>c \<in> set pszBase58. \<not> is_space c \<and> c \<noteq> CHR 0x00 \<and> c \<noteq> CHR '','' \<and> c \<noteq> CHR ''_''"
  by (simp add: pszBase58_def is_space_def)

lemma alphabet_zero: "i < 58 \<Longrightarrow> pszBase58 ! i = pszBase58 ! 0 \<longleftrightarrow> i = 0"
  by (simp add: nth_eq_iff_index_eq [OF alphabet_distinct])

section \<open>Conversion of bases\<close>

definition convert :: "nat \<Rightarrow> nat \<Rightarrow> nat list \<Rightarrow> nat list" where
  \<comment> \<open>most significant digit first; leading zeros are kept\<close>
  "convert b c ds = replicate (length (takeWhile (\<lambda>d. d = 0) ds)) 0 @ rev (digits c (le_val b (rev ds)))"

lemma convert_less: "2 \<le> c \<Longrightarrow> d \<in> set (convert b c ds) \<Longrightarrow> d < c"
  by (auto simp: convert_def digits_less)

lemma convert_back:
  assumes "2 \<le> b" and "2 \<le> c" and "\<forall>d \<in> set ds. d < b"
  shows "convert c b (convert b c ds) = ds"
proof -
  let ?z = "length (takeWhile (\<lambda>d. d = 0) ds)" and ?D = "digits c (le_val b (rev ds))"
  have z: "takeWhile (\<lambda>d. d = 0) (replicate k 0 @ rev ?D) = replicate k 0" for k
  proof (induction k)
    case 0
    show ?case using last_digits [OF assms(2), of "le_val b (rev ds)"] by (cases ?D rule: rev_cases) auto
  qed simp
  have "le_val c (rev (convert b c ds)) = le_val b (rev ds)"
    by (simp add: convert_def le_val_append le_val_digits [OF assms(2)])
  then have "convert c b (convert b c ds) = replicate ?z 0 @ rev (digits b (le_val b (rev ds)))"
    using z [of ?z] by (simp add: convert_def [of c b]) (simp add: convert_def)
  also have "\<dots> = takeWhile (\<lambda>d. d = 0) ds @ dropWhile (\<lambda>d. d = 0) ds"
    using rev_digits_val [OF assms(1,3)] leading_zeros [of ds] by simp
  finally show ?thesis by simp
qed

abbreviation bytes :: "string \<Rightarrow> nat list" where "bytes s \<equiv> map of_char s"
abbreviation chars58 :: "nat list \<Rightarrow> string" where "chars58 ds \<equiv> map (\<lambda>d. pszBase58 ! d) ds"

lemma of_char_0: "(of_char c :: nat) = 0 \<longleftrightarrow> c = CHR 0x00"
  using of_char_eq_iff [of c "CHR 0x00", where 'a = nat] by simp

lemma char_0: "char_of (0 :: nat) = CHR 0x00"
  by (simp add: char_of_def)

lemma setvch_val: "setvch (s @ [CHR 0x00]) = le_val 256 (bytes s)"
  by (simp add: setvch_def le_val_def) (simp add: foldr_map comp_def)

lemma takeWhile_map_length: "(\<And>x. x \<in> set xs \<Longrightarrow> P (f x) = Q x) \<Longrightarrow> length (takeWhile P (map f xs)) = length (takeWhile Q xs)"
  by (induction xs) auto

lemma EncodeBase58_convert: "EncodeBase58 s = chars58 (convert 256 58 (bytes s))"
proof -
  have "length (takeWhile (\<lambda>d. d = (0::nat)) (bytes s)) = length (takeWhile (\<lambda>p. p = CHR 0x00) s)"
    by (rule takeWhile_map_length) (simp add: of_char_0)
  then show ?thesis by (simp add: EncodeBase58_def convert_def setvch_val rev_map Let_def)
qed

lemma getvch_trim:
  "(let v = getvch n in if length v \<ge> 2 \<and> last v = CHR 0x00 \<and> (of_char (last (butlast v)) :: nat) \<ge> 0x80 then butlast v else v)
     = map char_of (digits 256 n)"
proof (cases "digits 256 n" rule: rev_cases)
  case (snoc ds d)
  then have "d < 256" "d \<noteq> 0" using digits_less [of 256 d n] last_digits [of 256 n] by simp_all
  then have "char_of d \<noteq> CHR 0x00" using of_char_0 [of "char_of d"] by (auto simp: of_char_of)
  with snoc \<open>d < 256\<close> show ?thesis by (cases ds) (auto simp: getvch_def Let_def butlast_append)
qed (simp add: getvch_def)

section \<open>Texts that are read\<close>

abbreviation blank :: "string \<Rightarrow> bool" where "blank s \<equiv> list_all is_space s"

lemma strchr_None: "c \<notin> set s \<Longrightarrow> strchr s c = None"
  by (induction s) auto

lemma strchr_space: "is_space c \<Longrightarrow> strchr pszBase58 c = None"
  using alphabet_chars by (auto intro: strchr_None)

lemma dropWhile_blank: "blank s \<Longrightarrow> dropWhile is_space (s @ r) = dropWhile is_space r"
  by (induction s) auto

lemma chars58_no_space: "\<forall>d \<in> set ds. d < 58 \<Longrightarrow> c \<in> set (chars58 ds) \<Longrightarrow> \<not> is_space c \<and> c \<noteq> CHR 0x00 \<and> c \<noteq> CHR '','' \<and> c \<noteq> CHR ''_''"
  using alphabet_chars nth_mem [of _ pszBase58] by fastforce

lemma dropWhile_chars58: "\<forall>d \<in> set ds. d < 58 \<Longrightarrow> blank ws \<Longrightarrow>
   dropWhile is_space (chars58 ds @ ws) = (if ds = [] then [] else chars58 ds @ ws)"
  using chars58_no_space [of ds] dropWhile_blank [of ws "[]"] by (cases ds) auto

lemma decode_loop_blank: "blank ws \<Longrightarrow> decode_loop bn ws = Some bn"
  using dropWhile_blank [of ws "[]"] by (cases ws) (auto simp: strchr_space)

lemma decode_loop_text:
  "\<forall>d \<in> set ds. d < 58 \<Longrightarrow> blank ws \<Longrightarrow> decode_loop bn (chars58 ds @ ws) = Some (foldl (\<lambda>a d. a * 58 + d) bn ds)"
  by (induction ds arbitrary: bn) (simp_all add: decode_loop_blank)

lemma decode_loop_Some:
  "decode_loop bn s = Some n \<Longrightarrow> \<exists>ds ws. s = chars58 ds @ ws \<and> (\<forall>d \<in> set ds. d < 58) \<and> blank ws"
proof (induction s arbitrary: bn)
  case Nil
  then show ?case by (intro exI [of _ "[]"]) simp
next
  case (Cons p s)
  show ?case
  proof (cases "strchr pszBase58 p")
    case None
    with Cons.prems have "dropWhile is_space (p # s) = []" by (simp split: if_splits)
    then have "blank (p # s)" unfolding dropWhile_eq_Nil_conv list_all_iff .
    then show ?thesis by - (rule exI [of _ "[]"], rule exI [of _ "p # s"], simp)
  next
    case (Some i)
    with Cons obtain ds ws where "s = chars58 ds @ ws" "\<forall>d \<in> set ds. d < 58" "blank ws" by fastforce
    with strchr_Some [OF Some] show ?thesis by (intro exI [of _ "i # ds"] exI [of _ ws]) simp
  qed
qed

lemma foldl_val: "foldl (\<lambda>a d. a * b + d) 0 ds = le_val b (rev ds)"
  by (induction ds rule: rev_induct) (simp_all add: algebra_simps)

lemma takeWhile_ones: "\<forall>d \<in> set ds. d < 58 \<Longrightarrow> blank ws \<Longrightarrow>
   length (takeWhile (\<lambda>p. p = pszBase58 ! 0) (chars58 ds @ ws)) = length (takeWhile (\<lambda>d. d = 0) ds)"
proof (induction ds)
  case Nil
  then show ?case by (cases ws) (auto simp: pszBase58_def is_space_def)
qed (auto simp: alphabet_zero)

lemma DecodeBase58_text:
  assumes c: "c_str str = sp @ chars58 ds @ ws" and "blank sp" and d: "\<forall>d \<in> set ds. d < 58" and w: "blank ws"
  shows "DecodeBase58 str = (True, map char_of (convert 58 256 ds))"
proof -
  let ?psz = "dropWhile is_space (c_str str)"
  have psz: "?psz = (if ds = [] then [] else chars58 ds @ ws)"
    using dropWhile_blank [OF assms(2)] dropWhile_chars58 [OF d w] c by simp
  have n: "decode_loop 0 ?psz = Some (le_val 58 (rev ds))"
    using decode_loop_text [OF d w, of 0] psz by (simp add: foldl_val)
  have z: "length (takeWhile (\<lambda>p. p = pszBase58 ! 0) ?psz) = length (takeWhile (\<lambda>d. d = 0) ds)"
    using takeWhile_ones [OF d w] psz by simp
  show ?thesis
    using getvch_trim [of "le_val 58 (rev ds)"] n z char_0 by (simp add: DecodeBase58_def convert_def Let_def rev_map)
qed

lemma DecodeBase58_accepts:
  assumes "fst (DecodeBase58 str)"
  obtains sp ds ws where "c_str str = sp @ chars58 ds @ ws" "blank sp" "\<forall>d \<in> set ds. d < 58" "blank ws"
proof -
  let ?psz = "dropWhile is_space (c_str str)"
  from assms obtain n where "decode_loop 0 ?psz = Some n" by (auto simp: DecodeBase58_def Let_def split: option.splits)
  from decode_loop_Some [OF this] obtain ds ws where t: "?psz = chars58 ds @ ws" "\<forall>d \<in> set ds. d < 58" "blank ws" by blast
  show thesis
  proof (rule that)
    show "c_str str = takeWhile is_space (c_str str) @ chars58 ds @ ws" using t(1) by (metis takeWhile_dropWhile_id)
    show "blank (takeWhile is_space (c_str str))" by (auto simp: list_all_iff dest: set_takeWhileD)
  qed (use t in auto)
qed

lemma EncodeBase58_DecodeBase58: "DecodeBase58 (EncodeBase58 s) = (True, s)"
proof -
  let ?ds = "convert 256 58 (bytes s)"
  have d: "\<forall>d \<in> set ?ds. d < 58" using convert_less [of 58 _ 256] by auto
  have "convert 58 256 ?ds = bytes s" by (rule convert_back) (auto simp: of_char_byte)
  moreover have "c_str (EncodeBase58 s) = [] @ chars58 ?ds @ []"
    using chars58_no_space [OF d, of "CHR 0x00"] by (simp only: EncodeBase58_convert append_Nil append_Nil2) (blast intro: c_str_id)
  ultimately show ?thesis using DecodeBase58_text [of _ "[]" ?ds "[]", OF _ _ d] by (simp add: comp_def)
qed

section \<open>The length of a text\<close>

lemma le_val_less: "\<forall>d \<in> set ds. d < b \<Longrightarrow> le_val b ds < b ^ length ds"
proof (induction ds)
  case (Cons d ds)
  then have "le_val b ds + 1 \<le> b ^ length ds" "d < b" by simp_all
  then have "b * (le_val b ds + 1) \<le> b * b ^ length ds" by (intro mult_le_mono2)
  with \<open>d < b\<close> show ?case by simp
qed simp

lemma length_digits: "2 \<le> b \<Longrightarrow> n < b ^ k \<Longrightarrow> length (digits b n) \<le> k"
proof (induction k arbitrary: n)
  case (Suc k)
  then have "n div b < b ^ k" by (simp add: less_mult_imp_div_less mult.commute)
  with Suc show ?case by (subst digits.simps) simp
qed (simp add: digits.simps)

lemma length_convert:
  assumes "\<forall>d \<in> set ds. d < 256" and "length ds = 25"
  shows "length (convert 256 58 ds) \<le> 35"
proof -
  let ?t = "takeWhile (\<lambda>d. d = 0) ds" and ?r = "dropWhile (\<lambda>d. d = 0) ds"
  have len: "length ?t + length ?r = 25" using assms(2) by (metis length_append takeWhile_dropWhile_id)
  have "rev ds = rev (?t @ ?r)" by simp
  also have "\<dots> = rev ?r @ replicate (length ?t) 0" using leading_zeros [of ds] by (metis rev_append rev_replicate)
  finally have "le_val 256 (rev ds) = le_val 256 (rev ?r)" by (simp add: le_val_append)
  also have "\<dots> < 256 ^ length ?r" using le_val_less [of "rev ?r" 256] assms(1) by (auto dest: set_dropWhileD)
  also have "256 ^ length ?r \<le> (58 :: nat) ^ (length ?r + 10)"
  proof -
    have "(256 :: nat) ^ length ?r * 58 ^ length ?t \<le> 256 ^ length ?r * 256 ^ length ?t" by (simp add: power_mono)
    also have "\<dots> = 256 ^ 25" using len by (simp add: power_add [symmetric] add.commute)
    also have "\<dots> \<le> 58 ^ 35" by simp
    also have "\<dots> = 58 ^ (length ?r + 10 + length ?t)" by (rule arg_cong [where f = "power 58"]) (use len in linarith)
    also have "\<dots> = 58 ^ (length ?r + 10) * (58 :: nat) ^ length ?t" by (rule power_add)
    finally show ?thesis by simp
  qed
  finally have "length (digits 58 (le_val 256 (rev ds))) \<le> length ?r + 10" by (rule length_digits [rotated]) simp
  then show ?thesis using len by (simp add: convert_def)
qed

section \<open>Addresses\<close>

lemma length_hash_4 [simp]: "length (hash_4 h) = 4"
  by (simp add: hash_4_def)

lemma valid_length:
  assumes "IsValid P a" and "P = main_prefixes \<or> P = testnet_prefixes"
  shows "length (vchVersion a) = 1" "length (vchData a) = 20"
  using assms by (auto simp: IsValid_def main_prefixes_def testnet_prefixes_def)

definition payload :: "(string \<Rightarrow> uint256) \<Rightarrow> CBase58Data \<Rightarrow> string" where
  "payload H a = (let v = vchVersion a @ vchData a in v @ hash_4 (H v))"

lemma ToString_payload: "CBase58Data_ToString H a = chars58 (convert 256 58 (bytes (payload H a)))"
  by (simp add: CBase58Data_ToString_def EncodeBase58Check_def payload_def EncodeBase58_convert Let_def)

lemma payload_back: "map char_of (convert 58 256 (convert 256 58 (bytes s))) = s"
proof -
  have "convert 58 256 (convert 256 58 (bytes s)) = bytes s" by (rule convert_back) (auto simp: of_char_byte)
  then show ?thesis by (simp add: comp_def)
qed

lemma address_of_payload:
  assumes "DecodeBase58 s = (True, payload H a)" and "length (vchVersion a) = 1"
  shows "CBitcoinAddress H s = a"
proof -
  have "DecodeBase58Check H s = (True, vchVersion a @ vchData a)"
    using assms(1) by (simp add: DecodeBase58Check_def payload_def Let_def)
  with assms(2) show ?thesis by (simp add: CBitcoinAddress_def SetString_def Let_def)
qed

lemma payload_of_address:
  assumes "CBitcoinAddress H s = a" and "vchVersion a \<noteq> []"
  shows "DecodeBase58 s = (True, payload H a)"
proof -
  obtain ok v where d: "DecodeBase58 s = (ok, v)" by fastforce
  have snd: "\<not> ok \<Longrightarrow> v = []" using d by (auto simp: DecodeBase58_def Let_def split: option.splits)
  let ?w = "take (length v - 4) v"
  have "ok \<and> 4 \<le> length v \<and> hash_4 (H ?w) = drop (length v - 4) v \<and> ?w \<noteq> []"
    using assms d snd by (auto simp: CBitcoinAddress_def SetString_def DecodeBase58Check_def Let_def split: if_splits)
  then have "v = ?w @ hash_4 (H ?w)" "ok" by simp_all
  moreover have "a = \<lparr>vchVersion = take 1 ?w, vchData = drop 1 ?w\<rparr>"
    using assms d snd by (auto simp: CBitcoinAddress_def SetString_def DecodeBase58Check_def Let_def split: if_splits)
  then have "vchVersion a @ vchData a = ?w" by (simp only: CBase58Data.select_convs append_take_drop_id)
  ultimately show ?thesis using d by (simp only: payload_def Let_def)
qed

lemma CBitcoinAddress_texts:
  assumes "IsValid P a" and "P = main_prefixes \<or> P = testnet_prefixes"
  shows "(CBitcoinAddress H s = a \<longleftrightarrow>
      (\<exists>sp ws. list_all is_space sp \<and> list_all is_space ws \<and> c_str s = sp @ CBase58Data_ToString H a @ ws)) \<and>
    length (CBase58Data_ToString H a) \<le> 35 \<and>
    (\<forall>c \<in> set (CBase58Data_ToString H a). c \<notin> {CHR '','', CHR ''_'', CHR 0x00} \<and> \<not> is_space c)"
proof -
  let ?ds = "convert 256 58 (bytes (payload H a))"
  note len = valid_length [OF assms]
  have d: "\<forall>d \<in> set ?ds. d < 58" using convert_less [of 58 _ 256] by auto
  have "CBitcoinAddress H s = a" if "list_all is_space sp" "list_all is_space ws" "c_str s = sp @ CBase58Data_ToString H a @ ws" for sp ws
    using DecodeBase58_text [of s sp ?ds ws, OF _ that(1) d that(2)] that(3) len(1)
    by (intro address_of_payload) (simp_all add: ToString_payload payload_back)
  moreover have "\<exists>sp ws. list_all is_space sp \<and> list_all is_space ws \<and> c_str s = sp @ CBase58Data_ToString H a @ ws"
    if "CBitcoinAddress H s = a"
  proof -
    have dec: "DecodeBase58 s = (True, payload H a)" using len(1) by (intro payload_of_address [OF that]) auto
    then obtain sp ds ws where t: "c_str s = sp @ chars58 ds @ ws" "blank sp" "\<forall>d \<in> set ds. d < 58" "blank ws"
      by (metis DecodeBase58_accepts fst_conv)
    have "map char_of (convert 58 256 ds) = payload H a" using DecodeBase58_text [OF t] dec by simp
    then have "bytes (payload H a) = bytes (map char_of (convert 58 256 ds))" by (rule arg_cong [OF sym])
    also have "\<dots> = map (\<lambda>d. of_char (char_of d :: char)) (convert 58 256 ds)" by simp
    also have "\<dots> = convert 58 256 ds"
      using convert_less [of 256 _ 58 ds] by (intro map_idI) (simp add: of_char_of)
    finally have "?ds = ds" using convert_back [of 58 256 ds] t(3) by simp
    with t show ?thesis unfolding ToString_payload by blast
  qed
  moreover have "length ?ds \<le> 35"
    by (rule length_convert) (use len in \<open>auto simp: payload_def Let_def of_char_byte\<close>)
  moreover have "c \<notin> {CHR '','', CHR ''_'', CHR 0x00} \<and> \<not> is_space c" if "c \<in> set (chars58 ?ds)" for c
    using chars58_no_space [OF d that] by simp
  ultimately show ?thesis unfolding ToString_payload length_map by blast
qed

text \<open>
  C40. Base58 addresses. For a valid address of the main or the test network, the C strings that
  \<open>CBitcoinAddress\<close> reads as this address are exactly its printed form with white space before
  and after it, whatever the hash function of the check sum; the printed form has at most 35
  characters, none of which is a comma, an underscore, white space or a NUL.
\<close>

theorem address_texts:
  assumes "IsValid P a" and "P = main_prefixes \<or> P = testnet_prefixes"
  shows "(CBitcoinAddress H s = a \<longleftrightarrow>
      (\<exists>sp ws. list_all is_space sp \<and> list_all is_space ws \<and> c_str s = sp @ CBase58Data_ToString H a @ ws)) \<and>
    length (CBase58Data_ToString H a) \<le> 35 \<and>
    (\<forall>c \<in> set (CBase58Data_ToString H a). c \<notin> {CHR '','', CHR ''_'', CHR 0x00} \<and> \<not> is_space c)"
  by (rule CBitcoinAddress_texts [OF assms])

definition sample_address :: CBase58Data where
  "sample_address = \<lparr>vchVersion = [char_of (0::nat)], vchData = replicate 20 CHR ''b''\<rparr>"

theorem address_texts_witness:
  "let t = CBase58Data_ToString (\<lambda>s. of_nat (length s)) sample_address in
   CBitcoinAddress (\<lambda>s. of_nat (length s)) ('' '' @ t @ [CHR 0x0A]) = sample_address"
proof -
  let ?H = "\<lambda>s. of_nat (length s) :: uint256"
  have v: "IsValid main_prefixes sample_address" by (simp add: IsValid_def sample_address_def main_prefixes_def)
  note t = address_texts [OF v, of ?H, OF disjI1, OF refl]
  have "c_str ('' '' @ CBase58Data_ToString ?H sample_address @ [CHR 0x0A]) = '' '' @ CBase58Data_ToString ?H sample_address @ [CHR 0x0A]"
    by (rule c_str_id) (use t [of "[]"] in \<open>simp; blast\<close>)
  then have "\<exists>sp ws. list_all is_space sp \<and> list_all is_space ws \<and>
      c_str ('' '' @ CBase58Data_ToString ?H sample_address @ [CHR 0x0A]) = sp @ CBase58Data_ToString ?H sample_address @ ws"
    by (intro exI [of _ "'' ''"] exI [of _ "[CHR 0x0A]"]) (simp add: is_space_def)
  with t show ?thesis unfolding Let_def by blast
qed

text \<open>The table of an address is chosen by the last byte of its number.\<close>

lemma AddressTableIndex_last:
  "AddressTableIndex P H s =
     (let a = CBitcoinAddress H s in
      if IsValid P a then Inr (int (of_char (last (vchData a)))) else Inl (Throw ''invalid address''))"
proof (cases "IsValid P (CBitcoinAddress H s)")
  case True
  let ?a = "CBitcoinAddress H s"
  have "vchData ?a \<noteq> []" using True by (auto simp: IsValid_def)
  then have h: "uint160_GetHex (vchData ?a) = byte_hex (of_char (last (vchData ?a))) @ Bin2Hex (rev (butlast (vchData ?a)))"
    by (cases "vchData ?a" rule: rev_cases) (simp_all add: uint160_GetHex_def Bin2HexR_def)
  show ?thesis
    using True of_char_byte [of "last (vchData ?a)"]
    by (simp add: AddressTableIndex_def h byte_hex_def HexToDecLast2Bytes_def less_mult_imp_div_less zdiv_int zmod_int Let_def)
qed (simp add: AddressTableIndex_def Let_def)

end
