(* ===== verification/ParserSamples.thy ===== *)
theory ParserSamples
  imports ParserRun Samples Base58
begin

text \<open>
  An empty database satisfies the invariant of the parser, and a small history on it: the
  coinbase of a first block is accepted, confirmed with its block, unconfirmed and rejected
  with it. The properties of the parser are applied on this history.
\<close>

section \<open>An empty database\<close>

definition fresh :: "'db \<Rightarrow> 'db pstate" where
  "fresh db = \<lparr>p_kv = db, p_cache = [], p_heap = [], p_lastUseIdx = 0, p_unconfirmedTxsCount = 0,
     p_unconfirmedTxsSize = 0, p_currBlockHeight = - 1, p_notified = []\<rparr>"

definition empty_ledger :: ledger where
  "empty_ledger = \<lparr>lg_book = (\<lambda>_. ([], [])), lg_utxo = (\<lambda>_ _. None), lg_recs = (\<lambda>_. None), lg_count = 0, lg_size = 0\<rparr>"

definition genesis :: main where
  "genesis = ((\<lambda>_. Absent, []), [], \<lambda>_. [])"

lemma fresh_holds:
  assumes "V db = (\<lambda>_. None)" and "finite A" and "int (card A) \<le> kMaxCacheCount"
  shows "holds V A (fresh db) empty_ledger"
proof -
  have w: "view V (fresh db) = (\<lambda>_. None)" by (simp add: view_def kv_view_def fun_eq_iff fresh_def assms(1))
  have i: "info V (fresh db) = (\<lambda>_. fbAddress (AddressInfo_new 0))"
    unfolding info_def w by (simp add: fun_eq_iff fresh_def) (simp add: stored_info_def)
  have st: "st V A (fresh db) (\<lambda>_. None) (\<lambda>_. fbAddress (AddressInfo_new 0))"
    using assms by (simp add: st_def cache_ok_def w i) (simp add: fresh_def raw_ok_def)
  have "book_ok (\<lambda>_. None) (\<lambda>_. fbAddress (AddressInfo_new 0)) (\<lambda>_. ([], []))"
    by (auto simp: book_ok_def chain_ok_def chain_at_def page_info_def total_def fbAddress_def AddressInfo_new_def)
  moreover have "unspent_ok (\<lambda>_. None) (\<lambda>_. fbAddress (AddressInfo_new 0)) (\<lambda>_ _. None) (\<lambda>_. 0)"
    by (simp add: unspent_ok_def fbAddress_def AddressInfo_new_def)
  ultimately have "pinv V A (fresh db) {} (\<lambda>_. ([], [])) (\<lambda>_ _. None) (\<lambda>_. None)"
    by (intro pinvI [OF st]) (simp_all add: stored_info_def)
  then show ?thesis by (simp add: holds_def empty_ledger_def) (simp add: fresh_def)
qed

lemma genesis_inv: "main_inv E A T X genesis empty_ledger"
  by (auto simp: main_inv_def genesis_def empty_ledger_def ledger_inv_def hist_ok_def book_of_def page_of_def
      utxo_of_def objects_of_def spenders_of_def counts_of_def blocks_inv_def chain_recs_def orphans_at_def recognised_def fun_eq_iff)

lemma fresh_stands:
  assumes "V db = (\<lambda>_. None)" and "finite A" and "int (card A) \<le> kMaxCacheCount"
  shows "stands V A E T X genesis (fresh db)"
  using fresh_holds [of V db A, OF assms] genesis_inv unfolding stands_def by blast

section \<open>A small history\<close>

definition sample_addr :: string where
  "sample_addr = CBase58Data_ToString (\<lambda>s. of_nat (length s)) sample_address"

definition parser_env :: "(string \<times> kvval) list penv" where
  "parser_env = \<lparr>pe_rocks = list_rocks, pe_gh = sample_gh, pe_bh = sample_bh,
     pe_Solver = (\<lambda>_. (True, TX_PUBKEYHASH, [])), pe_ExtractDestination = (\<lambda>_. Some sample_addr), pe_keyAddress = (\<lambda>k. k),
     pe_objectText = ToString, pe_asm = (\<lambda>_. []), pe_time = 0,
     pe_gmtime = (\<lambda>_. \<lparr>tm_year = 2015, tm_mon = 1, tm_mday = 1, tm_hour = 0, tm_min = 0, tm_sec = 0\<rparr>),
     pe_difficulty = (\<lambda>_. 0), pe_interval = 210000, pe_notifyBeginHeight = - 1\<rparr>"

definition sample_reward :: CTransaction where
  "sample_reward = sample_tx 1 [(0, - 1)] [5000000000]"

definition sample_row :: "int \<Rightarrow> int \<Rightarrow> int \<Rightarrow> TxLog2" where
  "sample_row i ty height = \<lparr>tl_id = i, tl_type = ty, tl_blkHeight = height, tl_blkId = 7,
     tl_maxBlkTimestamp = (if ty = LOG2TYPE_TX_ACCEPT then UNCONFIRM_TX_TIMESTAMP else 9),
     tl_ymd = (if ty = LOG2TYPE_TX_ACCEPT then UNCONFIRM_TX_YMD else 20150101), tl_createdAt = [],
     tl_txHex = EncodeHexTx sample_reward, tl_txHash = 1, tl_tx = sample_reward, tl_txId = 5\<rparr>"

definition sample_first :: CBlock where
  "sample_first = sample_block 3 0 9 [sample_reward]"

definition sample_rows :: "rawblock list" where
  "sample_rows = [\<lparr>rb_id = 7, rb_hash = 3, rb_height = 0, rb_chain_id = 0, rb_hex = EncodeHexBlock sample_first\<rparr>]"

abbreviation sample_T :: "uint256 \<Rightarrow> CTransaction" where "sample_T \<equiv> \<lambda>_. sample_reward"
abbreviation sample_X :: "uint256 \<Rightarrow> string" where "sample_X \<equiv> \<lambda>_. EncodeHexTx sample_reward"
abbreviation sample_A :: "string set" where "sample_A \<equiv> {sample_addr}"

definition sample_log :: "TxLog2 list" where
  "sample_log = [sample_row 1 LOG2TYPE_TX_ACCEPT (- 1), sample_row 2 LOG2TYPE_TX_CONFIRM 0,
     sample_row 3 LOG2TYPE_TX_UNCONFIRM 0, sample_row 4 LOG2TYPE_TX_REJECT 0]"

lemma parser_env_ok: "rocks_ok (pe_rocks parser_env) map_of" "object_text_ok parser_env"
proof -
  show "rocks_ok (pe_rocks parser_env) map_of" using list_rocks_ok by (simp add: parser_env_def)
  have "k = KAddrTxIdx a h" if "key_str k = ''22_'' @ a @ ''_'' @ ToString h" for k a h
    using that key_str.simps(12) [of a h] by (metis key_str_inject)
  then show "object_text_ok parser_env" by (simp add: object_text_ok_def parser_env_def)
qed

lemma sample_stands: "stands map_of sample_A parser_env sample_T sample_X genesis (fresh [])"
  by (rule fresh_stands) (simp_all add: kMaxCacheCount_def fun_eq_iff)

lemma sample_spent [simp]: "spent_ins sample_reward = []"
  by (simp add: spent_ins_def sample_reward_def)

lemma sample_fine: "fine parser_env sample_A sample_T h"
  by (simp add: fine_def touch_def tbal_def GetValueOut_def out_total_def MoneyRange_def) 
    (simp add: sample_reward_def sample_tx_def MoneyRange_def dests_def ExtractDestinations_def parser_env_def out_balance_def in_balance_def sm_add_def)

lemma sample_decode: "decode_block sample_rows (sample_row i ty n) = Inr (EncodeHexBlock sample_first, sample_first)"
proof -
  have "wf_block sample_first"
    by (simp add: sample_first_def sample_block_def sample_reward_def sample_tx_def wf_block_def wf_tx_def wf_script_def
        wf_txout_def MAX_SIZE_def)
  from DecodeHexBlk_EncodeHexBlock [OF this] show ?thesis
    by (simp add: decode_block_def sample_rows_def sample_row_def getBlockRawHexByBlockId_def EncodeHexBlock_def HexStr_Bin2Hex)
qed

lemma sample_first_simps:
  "pe_bh parser_env (GetBlockHeader sample_first) = 3" "vtx sample_first = [sample_reward]" "pe_gh parser_env sample_reward = 1"
  "IsCoinBase sample_reward"
  by (simp_all add: parser_env_def sample_first_def sample_block_def sample_bh_def GetBlockHeader_def CBlockHeader.truncate_def
      sample_reward_def)

lemma sample_fits: "block_fits parser_env sample_first []"
  unfolding block_fits_def Let_def sample_first_simps
  by (simp add: sample_reward_def sample_tx_def GetValueOut_def out_total_def MoneyRange_def GetBlockValue_def parser_env_def)

lemma sample_row_of: "row_of sample_T sample_X ty 1 (sample_row i ty n)" "tl_blkHeight (sample_row i ty n) = n"
  "tl_txHash (sample_row i ty n) = 1" "tl_type (sample_row i ty n) = ty" "tl_tx (sample_row i ty n) = sample_reward"
  by (simp_all add: row_of_def sample_row_def)

lemma sample_step: "main_step parser_env sample_A sample_T sample_X sample_rows genesis (sample_row 1 LOG2TYPE_TX_ACCEPT (- 1))
   (((\<lambda>_. Absent)(1 := Unconfirmed), []), [], \<lambda>_. [])"
  unfolding genesis_def
  by (rule main_step.tx [OF tx_step.accept [where h = 1]])
    (simp_all add: coinbase_row_def sample_row_of sample_first_simps(4) log2_types sample_fine)

lemma sample_touch: "map_of (tbal parser_env sample_T h) a = (if a = sample_addr then Some 5000000000 else None)"
  by (simp add: tbal_def in_balance_def)
    (simp add: sample_reward_def sample_tx_def dests_def ExtractDestinations_def parser_env_def out_balance_def map_of_sm_add)

lemma sample_block_step: "\<exists>O2. main_step parser_env sample_A sample_T sample_X sample_rows
   (((\<lambda>_. Absent)(1 := Unconfirmed), []), [], \<lambda>_. []) (sample_row 2 LOG2TYPE_TX_CONFIRM 0) (((\<lambda>_. Absent)(1 := Confirmed), [1]), [3], O2)"
proof -
  note types = coinbase_row_def sample_row_of sample_first_simps(4) log2_types
  let ?U = "(\<lambda>_. Absent)(1 := Unconfirmed) :: uint256 \<Rightarrow> txstate" and ?C = "(\<lambda>_. Absent)(1 := Confirmed) :: uint256 \<Rightarrow> txstate"
  have "tx_step parser_env sample_A sample_T sample_X (?U, []) (sample_row 2 LOG2TYPE_TX_CONFIRM 0) (?U(1 := Confirmed), [] @ [1])"
    by (rule tx_step.confirm) (simp_all add: sample_row_of)
  then have "tx_step parser_env sample_A sample_T sample_X (?U, []) (sample_row 2 LOG2TYPE_TX_CONFIRM 0) (?C, [1])" by simp
  from main_step.block [OF this _ _ _ sample_decode sample_fits, where Orph = "\<lambda>_. []"] show ?thesis
    by (auto simp: types sample_first_simps)
qed

lemma sample_run: "\<exists>O'. main_run parser_env sample_A sample_T sample_X sample_rows genesis sample_log (((\<lambda>_. Absent), []), [], O')"
proof -
  note types = coinbase_row_def sample_row_of sample_first_simps(4) log2_types
  let ?step = "main_step parser_env sample_A sample_T sample_X sample_rows"
  let ?U = "(\<lambda>_. Absent)(1 := Unconfirmed) :: uint256 \<Rightarrow> txstate" and ?C = "(\<lambda>_. Absent)(1 := Confirmed) :: uint256 \<Rightarrow> txstate"
  have 1: "?step genesis (sample_row 1 LOG2TYPE_TX_ACCEPT (- 1)) ((?U, []), [], \<lambda>_. [])"
    by (rule sample_step)
  obtain O2 where 2: "?step ((?U, []), [], \<lambda>_. []) (sample_row 2 LOG2TYPE_TX_CONFIRM 0) ((?C, [1]), [3], O2)"
    using sample_block_step by blast
  have "tx_step parser_env sample_A sample_T sample_X (?C, [] @ [1]) (sample_row 3 LOG2TYPE_TX_UNCONFIRM 0) (?C(1 := Unconfirmed), [])"
    by (rule tx_step.unconfirm) (simp_all add: sample_row_of)
  then have "tx_step parser_env sample_A sample_T sample_X (?C, [1]) (sample_row 3 LOG2TYPE_TX_UNCONFIRM 0) (?U, [])" by simp
  from main_step.tx [OF this] have
    3: "?step ((?C, [1]), [3], O2) (sample_row 3 LOG2TYPE_TX_UNCONFIRM 0) ((?U, []), [3], O2)" by (simp add: types)
  have "tx_step parser_env sample_A sample_T sample_X (?U, []) (sample_row 4 LOG2TYPE_TX_REJECT 0) (?U(1 := Absent), [])"
    by (rule tx_step.reject) (simp_all add: sample_row_of)
  then have "tx_step parser_env sample_A sample_T sample_X (?U, []) (sample_row 4 LOG2TYPE_TX_REJECT 0) (\<lambda>_. Absent, [])"
    by (simp add: fun_upd_def cong: if_cong)
  from main_step.unblock [OF this _ _ _ sample_decode, of 3 "[]" O2] obtain O4 where
    4: "?step ((?U, []), [3], O2) (sample_row 4 LOG2TYPE_TX_REJECT 0) ((\<lambda>_. Absent, []), [], O4)"
    by (simp add: types sample_first_simps)
  show ?thesis
    unfolding sample_log_def by (rule exI, (rule main_run.row, rule 1 2 3 4)+, rule main_run.none)
qed

end
