(* ===== verification/ParserReplay.thy ===== *)
theory ParserReplay
  imports ParserSamples
begin

text \<open>
  The properties of \<open>tparser\<close>: each handler implements its operation on the ledger, blocks are
  pushed on and popped off the chain, and a whole history of rows is replayed without an
  error.
\<close>

lemma sample_holds: "holds map_of sample_A (fresh []) empty_ledger"
  by (rule fresh_holds) (simp_all add: kMaxCacheCount_def fun_eq_iff)

lemma sample_ledger: "ledger_inv parser_env sample_A sample_T sample_X (\<lambda>_. Absent, []) empty_ledger"
  using genesis_inv [of parser_env sample_A sample_T sample_X] by (simp add: main_inv_def genesis_def)

abbreviation sample_accepted :: ledger where
  "sample_accepted \<equiv> ledger_accept parser_env (sample_row 1 LOG2TYPE_TX_ACCEPT (- 1)) empty_ledger"

abbreviation sample_confirmed :: ledger where
  "sample_confirmed \<equiv> ledger_confirm parser_env (sample_row 2 LOG2TYPE_TX_CONFIRM 0) sample_accepted"

lemma sample_accept: "accept_ready parser_env sample_A (sample_row 1 LOG2TYPE_TX_ACCEPT (- 1)) empty_ledger"
  "ledger_inv parser_env sample_A sample_T sample_X ((\<lambda>_. Absent)(1 := Unconfirmed), [])
     (ledger_accept parser_env (sample_row 1 LOG2TYPE_TX_ACCEPT (- 1)) empty_ledger)"
  using accept_step [OF sample_ledger, of 1 "sample_row 1 LOG2TYPE_TX_ACCEPT (- 1)"] sample_fine [of 1] sample_row_of by simp_all

lemma sample_confirm: "confirm_ready parser_env sample_A (sample_row 2 LOG2TYPE_TX_CONFIRM 0) sample_accepted"
  "ledger_inv parser_env sample_A sample_T sample_X ((\<lambda>_. Absent)(1 := Confirmed), [] @ [1]) sample_confirmed"
  using confirm_step [OF sample_accept(2), of 1 "sample_row 2 LOG2TYPE_TX_CONFIRM 0"] sample_row_of by simp_all

lemma sample_unconfirm: "unconfirm_ready parser_env sample_A (sample_row 3 LOG2TYPE_TX_UNCONFIRM 0) sample_confirmed"
  using unconfirm_step [OF sample_confirm(2), of "sample_row 3 LOG2TYPE_TX_UNCONFIRM 0"] sample_row_of by simp_all

lemma sample_reject: "reject_ready parser_env sample_A (sample_row 2 LOG2TYPE_TX_REJECT 0) sample_accepted"
  using reject_step [OF sample_accept(2), of 1 "sample_row 2 LOG2TYPE_TX_REJECT 0"] parser_env_ok(2) sample_row_of by simp_all

lemma sample_accept_run: "returns (acceptTx parser_env (sample_row 1 LOG2TYPE_TX_ACCEPT (- 1)) (fresh []))
   (\<lambda>s. holds map_of sample_A s sample_accepted)"
  by (rule returns_mono [OF acceptTx_does [OF sample_holds parser_env_ok(1) sample_accept(1)]]) (simp add: does_def)

lemma main_run_returns:
  assumes "main_run E A T X rows m ls m'" and "stands V A E T X m s"
    and "rocks_ok (pe_rocks E) V" and "object_text_ok E"
  shows "returns (foldE (handleTxlog2 E rc rows) ls s) (\<lambda>s'. stands V A E T X m' s' \<and>
     (ls \<noteq> [] \<longrightarrow> getLastTxLog2Id E s' = Inr (tl_id (last ls), s')))"
  using assms(1,2)
proof (induction arbitrary: s rule: main_run.induct)
  case (row m l m' ls m'')
  show ?case
    unfolding foldE.simps
  proof (rule returns_bind, rule returns_mono [OF main_step_returns [OF row.hyps(1) row.prems assms(3,4)]], elim conjE)
    fix s1 assume s1: "stands V A E T X m' s1" and o: "kvgetMayNotExist E (key_str KOffset) s1 = (True, VStr (fmt_d (tl_id l)))"
    have "getLastTxLog2Id E s1 = Inr (tl_id l, s1)" by (simp add: getLastTxLog2Id_def o value_string_def)
    with row.IH [OF s1] show "returns (foldE (handleTxlog2 E rc rows) ls s1) (\<lambda>s'. stands V A E T X m'' s' \<and>
       (l # ls \<noteq> [] \<longrightarrow> getLastTxLog2Id E s' = Inr (tl_id (last (l # ls)), s')))"
      by (cases "ls = []") (auto elim: returns_mono)
  qed
qed simp



text \<open>
  C3. \<open>acceptTx\<close> implements the acceptance of a transaction on the ledger: every touched address
  gets the transaction at the end of its unconfirmed ones with the change of its balance, the
  new outputs enter the tables of unspent outputs and the spent ones leave them, the records of
  the transaction, its spent outputs and the counters are written, and one group of
  notification lines is appended.
\<close>

theorem acceptTx_refines:
  assumes "holds V A s L" and "rocks_ok (pe_rocks E) V" and "accept_ready E A l L"
  shows "returns (acceptTx E l s) (does V A s (ledger_accept E l L)
     (note_lines E (tx_balance E (lg_recs L) (tl_tx l)) l (p_currBlockHeight s)))"
  by (rule acceptTx_does [OF assms])

theorem acceptTx_refines_witness:
  "returns (acceptTx parser_env (sample_row 1 LOG2TYPE_TX_ACCEPT (- 1)) (fresh []))
     (\<lambda>s'. holds map_of sample_A s' (ledger_accept parser_env (sample_row 1 LOG2TYPE_TX_ACCEPT (- 1)) empty_ledger))"
  by (rule returns_mono [OF acceptTx_refines [OF sample_holds parser_env_ok(1) sample_accept(1)]]) (simp add: does_def)

text \<open>
  C5. \<open>confirmTx\<close> implements the confirmation: the transaction moves, on every touched address,
  from its place among the unconfirmed ones to the end of the confirmed ones; its record gets
  the height and time of the block (and a coinbase its fee); it leaves the pool and its counters.
\<close>

theorem confirmTx_refines:
  assumes "holds V A s L" and "rocks_ok (pe_rocks E) V" and "confirm_ready E A l L"
  shows "returns (confirmTx E l s) (does V A s (ledger_confirm E l L)
     (note_lines E (tx_balance E (lg_recs L) (tl_tx l)) l (p_currBlockHeight s)))"
  by (rule confirmTx_does [OF assms])

theorem confirmTx_refines_witness:
  "returns (bindE (acceptTx parser_env (sample_row 1 LOG2TYPE_TX_ACCEPT (- 1)) (fresh []))
     (confirmTx parser_env (sample_row 2 LOG2TYPE_TX_CONFIRM 0))) (\<lambda>s. holds map_of sample_A s sample_confirmed)"
  by (rule returns_bind, rule returns_mono [OF sample_accept_run],
      rule returns_mono [OF confirmTx_refines [OF _ parser_env_ok(1) sample_confirm(1)]]) (simp_all add: does_def)

text \<open>
  C6. \<open>unconfirmTx\<close> implements the return of the last confirmed transaction to the pool: on every
  touched address it becomes the first unconfirmed one, its record loses height and time, and
  the pool counts it again.
\<close>

theorem unconfirmTx_refines:
  assumes "holds V A s L" and "rocks_ok (pe_rocks E) V" and "unconfirm_ready E A l L"
  shows "returns (unconfirmTx E l s) (does V A s (ledger_unconfirm E l L)
     (note_lines E (tx_balance E (lg_recs L) (tl_tx l)) l (p_currBlockHeight s)))"
  by (rule unconfirmTx_does [OF assms])

theorem unconfirmTx_refines_witness:
  "returns (bindE (acceptTx parser_env (sample_row 1 LOG2TYPE_TX_ACCEPT (- 1)) (fresh []))
     (\<lambda>s. bindE (confirmTx parser_env (sample_row 2 LOG2TYPE_TX_CONFIRM 0) s)
        (unconfirmTx parser_env (sample_row 3 LOG2TYPE_TX_UNCONFIRM 0))))
     (\<lambda>s. holds map_of sample_A s (ledger_unconfirm parser_env (sample_row 3 LOG2TYPE_TX_UNCONFIRM 0) sample_confirmed))"
  by (rule returns_bind, rule returns_mono [OF sample_accept_run], rule returns_bind,
      rule returns_mono [OF confirmTx_does [OF _ parser_env_ok(1) sample_confirm(1)]], assumption,
      rule returns_mono [OF unconfirmTx_refines [OF _ parser_env_ok(1) sample_unconfirm]]) (simp_all add: does_def)



text \<open>
  C7. \<open>acceptBlock\<close> pushes a block on the chain: with the records of the heights and blocks those
  of a chain of hashes linked both ways, they are those of the chain with the block on top; the
  hashes of its transactions are stored in strings of 500, it leaves the orphans of its
  height, and one notification line is written.
\<close>

theorem acceptBlock_pushes:
  assumes "holds V A s L" and "rocks_ok (pe_rocks E) V" and "blocks_inv (lg_recs L) bs Orph"
    and "decode_block rows l = Inr (hex, blk)" and "block_fits E blk bs" and "tl_blkHeight l = int (length bs)"
    and "hash = pe_bh E (GetBlockHeader blk)"
  shows "returns (acceptBlock E rows l s) (\<lambda>(bh, s'). bh = ToString hash \<and>
     block_does V A E s L NOTIFY_EVENT_BLOCK_ACCEPT hash (tl_blkHeight l) (\<lambda>P.
       blocks_inv P (bs @ [hash]) (Orph(tl_blkHeight l := ss_del (ToString hash) (Orph (tl_blkHeight l)))) \<and>
       txs_at P hash (map (pe_gh E) (vtx blk)) \<and>
       P (KTimestamp (tl_maxBlkTimestamp l) (tl_blkHeight l)) = Some (VStr (ToString hash))) s')"
  unfolding assms(7) by (rule acceptBlock_does [OF assms(1-6)])

lemma sample_blocks: "blocks_inv (lg_recs empty_ledger) [] (\<lambda>_. [])"
  using genesis_inv [of parser_env sample_A sample_T sample_X] by (simp add: main_inv_def genesis_def)

lemma sample_first_at: "tl_blkHeight (sample_row 2 LOG2TYPE_TX_CONFIRM 0) = int (length [])"
  "3 = pe_bh parser_env (GetBlockHeader sample_first)"
  by (simp_all add: sample_row_of sample_first_simps)

theorem acceptBlock_pushes_witness:
  "returns (acceptBlock parser_env sample_rows (sample_row 2 LOG2TYPE_TX_CONFIRM 0) (fresh [])) (\<lambda>(bh, s').
     bh = ToString 3 \<and> (\<exists>P. holds map_of sample_A s' (empty_ledger\<lparr>lg_recs := P\<rparr>) \<and> chain_recs P [3]))"
  by (rule returns_mono [OF acceptBlock_pushes [OF sample_holds parser_env_ok(1) sample_blocks sample_decode sample_fits
      sample_first_at]]) (auto simp: block_does_def blocks_inv_def)

text \<open>
  C8. \<open>rejectBlock\<close> pops the last block: the records are those of the chain without it, it is
  marked as an orphan and listed among the orphans of its height, and its time stamp is gone.
\<close>

theorem rejectBlock_pops:
  assumes "holds V A s L" and "rocks_ok (pe_rocks E) V" and "blocks_inv (lg_recs L) (bs @ [hash]) Orph"
    and "decode_block rows l = Inr (hex, blk)" and "hash = pe_bh E (GetBlockHeader blk)"
    and "bs \<noteq> [] \<longrightarrow> hashPrevBlock (GetBlockHeader blk) = last bs" and "tl_blkHeight l = int (length bs)"
  shows "returns (rejectBlock E rows l s)
     (block_does V A E s L NOTIFY_EVENT_BLOCK_REJECT hash (tl_blkHeight l) (\<lambda>P.
       blocks_inv P bs (Orph(tl_blkHeight l := ss_ins (ToString hash) (Orph (tl_blkHeight l)))) \<and>
       (\<exists>b. P (KBlock hash) = Some (VBlock b) \<and> fk_is_orphan b) \<and>
       P (KTimestamp (tl_maxBlkTimestamp l) (tl_blkHeight l)) = None))"
  by (rule rejectBlock_does [OF assms])

theorem rejectBlock_pops_witness:
  "returns (bindE (acceptBlock parser_env sample_rows (sample_row 2 LOG2TYPE_TX_CONFIRM 0) (fresh []))
     (\<lambda>(bh, s). rejectBlock parser_env sample_rows (sample_row 4 LOG2TYPE_TX_REJECT 0) s))
     (\<lambda>s'. \<exists>P. holds map_of sample_A s' (empty_ledger\<lparr>lg_recs := P\<rparr>) \<and> orphans_at P 0 [ToString 3])"
proof (rule returns_bind, rule returns_mono [OF acceptBlock_does [OF sample_holds parser_env_ok(1) sample_blocks sample_decode sample_fits
      sample_first_at(1)]], unfold sample_first_simps split_beta block_does_def sample_row_of, elim conjE exE)
  fix x P
  assume x: "holds map_of sample_A (snd x) (empty_ledger\<lparr>lg_recs := P\<rparr>)"
    and b: "blocks_inv P ([] @ [3]) ((\<lambda>_. [])(0 := ss_del (ToString 3) []))"
  show "returns (rejectBlock parser_env sample_rows (sample_row 4 LOG2TYPE_TX_REJECT 0) (snd x))
     (\<lambda>s'. \<exists>P. holds map_of sample_A s' (empty_ledger\<lparr>lg_recs := P\<rparr>) \<and> orphans_at P 0 [ToString 3])"
  proof -
    have inv: "blocks_inv (lg_recs (empty_ledger\<lparr>lg_recs := P\<rparr>)) ([] @ [3]) (\<lambda>_. [])" using b by (simp add: fun_upd_idem)
    have link: "([] :: uint256 list) \<noteq> [] \<longrightarrow> hashPrevBlock (GetBlockHeader sample_first) = last []" by simp
    have height: "tl_blkHeight (sample_row 4 LOG2TYPE_TX_REJECT 0) = int (length ([] :: uint256 list))" by (simp add: sample_row_of)
    show ?thesis
      by (rule returns_mono [OF rejectBlock_pops [OF x parser_env_ok(1) inv sample_decode sample_first_at(2) link height]])
        (clarsimp simp: sample_row_of block_does_def blocks_inv_def, rule exI, rule conjI, assumption, drule spec [of _ 0], simp)
  qed
qed

text \<open>
  C9. What stops the handling of a confirmed coinbase before anything is written. The row of a
  block that is not among the raw blocks raises, and so does a raw block that does not decode;
  a block whose coinbase pays less than the subsidy of its height, which the rules of the
  network allow, fails the assertion of \<open>_insertBlock\<close>, whatever the state of the database.
\<close>

theorem coinbase_confirm_errors:
  assumes "tl_type l = LOG2TYPE_TX_CONFIRM" and "IsCoinBase (tl_tx l)" and "tl_txHash l \<noteq> 0"
  shows "((\<forall>r \<in> set rows. rb_id r \<noteq> tl_blkId l) \<longrightarrow>
      handleTxlog2 E rc rows l s = Inl (Throw ''can't find block by blkID from DB'')) \<and>
    (\<forall>hex. getBlockRawHexByBlockId (tl_blkId l) rows = Inr hex \<longrightarrow> DecodeHexBlk hex = None \<longrightarrow>
      handleTxlog2 E rc rows l s = Inl (Throw ''decode block hex failure'')) \<and>
    (\<forall>hex blk cb txs v. decode_block rows l = Inr (hex, blk) \<longrightarrow> pe_bh E (GetBlockHeader blk) \<noteq> 0 \<longrightarrow> vtx blk = cb # txs \<longrightarrow>
      GetValueOut cb = Inr v \<longrightarrow> v < GetBlockValue (pe_interval E) (tl_blkHeight l) 0 \<longrightarrow>
      handleTxlog2 E rc rows l s = Inl (AssertFail ''rewardFees >= 0''))"
proof -
  have h: "handleTxlog2 E rc rows l s = Inl e" if "acceptBlock E rows l s = Inl e" for e
    using assms that by (simp add: handleTxlog2_def log2_types)
  have 1: "getBlockRawHexByBlockId (tl_blkId l) rows = Inl (Throw ''can't find block by blkID from DB'')"
    if "\<forall>r \<in> set rows. rb_id r \<noteq> tl_blkId l"
    using that by (simp add: getBlockRawHexByBlockId_def filter_empty_conv)
  have 3: "acceptBlock E rows l s = Inl (AssertFail ''rewardFees >= 0'')"
    if "decode_block rows l = Inr (hex, blk)" "pe_bh E (GetBlockHeader blk) \<noteq> 0" "vtx blk = cb # txs" "GetValueOut cb = Inr v"
      "v < GetBlockValue (pe_interval E) (tl_blkHeight l) 0" for hex blk cb txs v
    using that by (simp add: acceptBlock_def insertBlock_def TargetToPdiff_def first_tx_def assertE_def Let_def)
  show ?thesis
    by (intro conjI allI impI h) (simp_all add: 3, simp_all add: acceptBlock_def decode_block_def 1)
qed

definition poor_reward :: CTransaction where
  "poor_reward = sample_tx 1 [(0, - 1)] [4999999999]"

definition poor_first :: CBlock where
  "poor_first = sample_block 3 0 9 [poor_reward]"

theorem coinbase_confirm_errors_witness:
  "handleTxlog2 parser_env \<lparr>payoutAddresses = [], coinbaseTags = []\<rparr> [\<lparr>rb_id = 7, rb_hash = 3, rb_height = 0, rb_chain_id = 0, rb_hex = EncodeHexBlock poor_first\<rparr>]
     (sample_row 2 LOG2TYPE_TX_CONFIRM 0) (fresh []) = Inl (AssertFail ''rewardFees >= 0'')"
proof -
  let ?rows = "[\<lparr>rb_id = 7, rb_hash = 3, rb_height = 0, rb_chain_id = 0, rb_hex = EncodeHexBlock poor_first\<rparr>]"
  have "wf_block poor_first"
    by (simp add: poor_first_def sample_block_def poor_reward_def sample_tx_def wf_block_def wf_tx_def wf_script_def
        wf_txout_def MAX_SIZE_def)
  from DecodeHexBlk_EncodeHexBlock [OF this] have d: "decode_block ?rows (sample_row 2 LOG2TYPE_TX_CONFIRM 0) = Inr (EncodeHexBlock poor_first, poor_first)"
    by (simp add: decode_block_def sample_row_def getBlockRawHexByBlockId_def EncodeHexBlock_def HexStr_Bin2Hex)
  have v: "pe_bh parser_env (GetBlockHeader poor_first) \<noteq> 0" "vtx poor_first = [poor_reward]" "GetValueOut poor_reward = Inr 4999999999"
    "4999999999 < GetBlockValue (pe_interval parser_env) (tl_blkHeight (sample_row 2 LOG2TYPE_TX_CONFIRM 0)) 0"
    by (simp_all add: parser_env_def poor_first_def sample_block_def sample_bh_def GetBlockHeader_def CBlockHeader.truncate_def
        poor_reward_def sample_tx_def GetValueOut_def MoneyRange_def GetBlockValue_def sample_row_of)
  show ?thesis
    using coinbase_confirm_errors [of "sample_row 2 LOG2TYPE_TX_CONFIRM 0" ?rows parser_env "\<lparr>payoutAddresses = [], coinbaseTags = []\<rparr>" "fresh []"] d v
    by (simp add: sample_row_of sample_first_simps)
qed

end
