(* ===== verification/ParserFeed.thy ===== *)
theory ParserFeed
  imports ParserReplay
begin

text \<open>
  \<open>threadProduceTxlogs\<close> (src/jiexi/src/Parser.cc): the rows of \<open>0_txlogs2\<close> are read one after the
  other, each with its raw transaction through \<open>TxInfoCache\<close>, until none is left. \<open>read_row\<close> is
  the reference: the row and its transaction as the database has them, without a cache.

  The cache makes no difference, every committed row is delivered exactly once in the order of
  the ids, and with the handlers (theory ParserReplay) \<open>tparser\<close> catches up with the table.
  \<open>clk i\<close> is the time at which the row after id \<open>i\<close> is read.
\<close>

section \<open>The loop of the thread\<close>

partial_function (option) produceTxlogs ::
  "'db penv \<Rightarrow> (int \<Rightarrow> string) \<Rightarrow> (uint256 \<Rightarrow> int) \<Rightarrow> (int \<Rightarrow> int) \<Rightarrow> int \<Rightarrow> TxInfoCache \<Rightarrow> log2db \<Rightarrow> TxLog2 list \<Rightarrow>
     ((TxLog2 list \<times> int \<times> TxInfoCache \<times> log2db) res) option" where
  \<comment> \<open>the rounds of the loop until the first that has to wait for new rows\<close>
  "produceTxlogs E created txid clk lastTxLog2Id c d txlogsBuffer =
     (case tryFetchTxLog2FromDB E created txid (clk lastTxLog2Id) lastTxLog2Id c d of
        Inl e \<Rightarrow> Some (Inl e)
      | Inr None \<Rightarrow> Some (Inr (txlogsBuffer, lastTxLog2Id, c, d))
      | Inr (Some (txLog2, c, d)) \<Rightarrow>
          produceTxlogs E created txid clk (tl_id txLog2) c d (txlogsBuffer @ [txLog2]))"

section \<open>The reference\<close>

definition txlog2_of :: "'db penv \<Rightarrow> (int \<Rightarrow> string) \<Rightarrow> log2row \<Rightarrow> TxInfo \<Rightarrow> CTransaction \<Rightarrow> TxLog2" where
  "txlog2_of E created r i tx =
     (let ts = (if row_type r = LOG2TYPE_TX_ACCEPT then UNCONFIRM_TX_TIMESTAMP else word_of_int (row_max_ts r)) in
      \<lparr>tl_id = row_id r, tl_type = row_type r, tl_blkHeight = row_height r, tl_blkId = row_block_id r,
       tl_maxBlkTimestamp = ts,
       tl_ymd = (if row_type r = LOG2TYPE_TX_ACCEPT then UNCONFIRM_TX_YMD else ymd_of (pe_gmtime E ts)),
       tl_createdAt = created (row_id r), tl_txHex = ti_hex i, tl_txHash = row_hash r, tl_tx = tx, tl_txId = ti_txId i\<rparr>)"

definition read_row :: "'db penv \<Rightarrow> (int \<Rightarrow> string) \<Rightarrow> (uint256 \<Rightarrow> int) \<Rightarrow> log2db \<Rightarrow> log2row \<Rightarrow> TxLog2 res" where
  "read_row E created txid d r =
     bindE (load_tx txid d (row_hash r)) (\<lambda>i.
     case DecodeHexTx (ti_hex i) of
       None \<Rightarrow> Inl (Throw ''TX decode failed'')
     | Some tx \<Rightarrow> Inr (txlog2_of E created r i tx))"

definition pending :: "int \<Rightarrow> log2db \<Rightarrow> log2row list" where
  "pending lastId d = sort_key row_id (filter (\<lambda>r. row_id r > lastId \<and> batch_id r \<noteq> - 1) (txlogs2 d))"

text \<open>The cache holds what the database has.\<close>

definition coherent :: "(uint256 \<Rightarrow> int) \<Rightarrow> log2db \<Rightarrow> TxInfoCache \<Rightarrow> bool" where
  "coherent txid d c = (sm_wf (tc_cache c) \<and> (\<forall>h i. map_of (tc_cache c) h = Some i \<longrightarrow>
     (\<exists>j. load_tx txid d h = Inr j \<and> ti_txId j = ti_txId i \<and> ti_hex j = ti_hex i)))"

section \<open>The cache is transparent\<close>

lemma coherentD:
  assumes "coherent txid d c" and "map_of (tc_cache c) h = Some i"
  obtains j where "load_tx txid d h = Inr j" "ti_txId j = ti_txId i" "ti_hex j = ti_hex i"
  using assms unfolding coherent_def by blast

lemma coherent_put:
  assumes "coherent txid d c" and "load_tx txid d h = Inr j" and "ti_txId j = ti_txId i" and "ti_hex j = ti_hex i"
  shows "coherent txid d (c\<lparr>tc_cache := sm_put h i (tc_cache c)\<rparr>)"
  using assms by (auto simp: coherent_def)

lemma coherent_del: "coherent txid d c \<Longrightarrow> coherent txid d (c\<lparr>tc_cache := sm_del h (tc_cache c)\<rparr>)"
  by (auto simp: coherent_def split: if_splits)

lemma coherent_raw_txs: "coherent txid d c \<Longrightarrow> raw_txs d' = raw_txs d \<Longrightarrow> coherent txid d' c"
  by (simp add: coherent_def load_tx_def)

lemma getTxInfo_load:
  assumes c: "coherent txid d c" and now: "now \<le> tc_lastClearTime c + 86400"
  shows "getTxInfo txid d now h c = Inl e \<longleftrightarrow> load_tx txid d h = Inl e"
    and "load_tx txid d h = Inr j \<Longrightarrow> \<exists>c'. getTxInfo txid d now h c = Inr (ti_txId j, ti_hex j, c') \<and>
      coherent txid d c' \<and> tc_lastClearTime c' = tc_lastClearTime c"
proof -
  have k: "clear_txs now it c' = Inr c'" if "tc_lastClearTime c' = tc_lastClearTime c" for it c'
    using now that by (simp add: clear_txs_def)
  have ok: "\<exists>c'. getTxInfo txid d now h c = Inr (ti_txId j, ti_hex j, c') \<and>
      coherent txid d c' \<and> tc_lastClearTime c' = tc_lastClearTime c" if j: "load_tx txid d h = Inr j" for j
  proof -
    obtain i where i: "(case map_of (tc_cache c) h of None \<Rightarrow> load_tx txid d h | Some i \<Rightarrow> Inr i) = Inr i"
      "ti_txId i = ti_txId j" "ti_hex i = ti_hex j"
      using j coherentD [OF c] by (cases "map_of (tc_cache c) h") fastforce+
    let ?i = "i\<lparr>ti_useTime := now, ti_count := ti_count i + 1\<rparr>"
    have "coherent txid d (c\<lparr>tc_cache := if ti_count ?i \<ge> 2 then sm_del h (tc_cache c) else sm_put h ?i (tc_cache c)\<rparr>)"
      using coherent_put [OF c j, of ?i] coherent_del [OF c] i(2,3) by simp
    then show ?thesis by (simp add: getTxInfo_def i Let_def k)
  qed
  show "load_tx txid d h = Inr j \<Longrightarrow> \<exists>c'. getTxInfo txid d now h c = Inr (ti_txId j, ti_hex j, c') \<and>
      coherent txid d c' \<and> tc_lastClearTime c' = tc_lastClearTime c" by (rule ok)
  show "getTxInfo txid d now h c = Inl e \<longleftrightarrow> load_tx txid d h = Inl e"
  proof (cases "load_tx txid d h")
    case (Inr j)
    from ok [OF this] Inr show ?thesis by auto
  next
    case (Inl e')
    have "map_of (tc_cache c) h = None"
    proof (rule ccontr)
      assume "map_of (tc_cache c) h \<noteq> None"
      then obtain i where "map_of (tc_cache c) h = Some i" by blast
      from coherentD [OF c this] Inl show False by simp
    qed
    then show ?thesis by (simp add: getTxInfo_def Inl)
  qed
qed

section \<open>One round\<close>

lemma next_row_pending: "next_row lastId (txlogs2 d) = (case pending lastId d of [] \<Rightarrow> None | r # _ \<Rightarrow> Some r)"
  by (simp add: next_row_def pending_def)

lemma sorted_pending: "sorted (map row_id (pending lastId d))"
  by (simp add: pending_def)

lemma pending_distinct: "distinct (map row_id (txlogs2 d)) \<Longrightarrow> distinct (map row_id (pending lastId d))"
  unfolding pending_def by (rule mset_eq_imp_distinct_iff [THEN iffD2, OF _ distinct_map_filter]) simp_all

lemma pending_tail:
  assumes p: "pending lastId d = r # rs" and ids: "distinct (map row_id (txlogs2 d))"
    and same: "filter (\<lambda>x. row_id x > row_id r) (txlogs2 d') = filter (\<lambda>x. row_id x > row_id r) (txlogs2 d)"
  shows "pending (row_id r) d' = rs"
proof -
  have "lastId < row_id r" using arg_cong [OF p, of set] by (auto simp: pending_def)
  then have "pending (row_id r) d = filter (\<lambda>x. row_id x > row_id r) (pending lastId d)"
    by (simp add: pending_def filter_sort conj_ac cong: conj_cong)
  also have "\<dots> = rs"
    using sorted_pending [of lastId d] pending_distinct [OF ids, of lastId] unfolding p by (force intro: filter_True simp: less_le)
  finally have "pending (row_id r) d = rs" .
  moreover have "pending (row_id r) d' = pending (row_id r) d"
    unfolding pending_def using arg_cong [OF same, of "filter (\<lambda>x. batch_id x \<noteq> - 1)"] by (simp add: conj_commute)
  ultimately show ?thesis by simp
qed

lemma delete_expired_rows:
  "raw_txs (delete_expired i d) = raw_txs d"
  "filter (\<lambda>x. row_id x > i) (txlogs2 (delete_expired i d)) = filter (\<lambda>x. row_id x > i) (txlogs2 d)"
  "distinct (map row_id (txlogs2 d)) \<Longrightarrow> distinct (map row_id (txlogs2 (delete_expired i d)))"
  by (auto simp: delete_expired_def Let_def kKeepNum_def distinct_map_filter intro!: filter_cong)

text \<open>What a round returns, by the reference.\<close>

lemma fetch_row:
  assumes c: "coherent txid d c" and now: "now \<le> tc_lastClearTime c + 86400"
    and p: "pending lastId d = r # rs" and ty: "known_type (row_type r)" and l: "read_row E created txid d r = Inr l"
  shows "\<exists>c'. tryFetchTxLog2FromDB E created txid now lastId c d = Inr (Some (l, c', delete_expired (row_id r) d)) \<and>
     coherent txid d c' \<and> tc_lastClearTime c' = tc_lastClearTime c \<and> tl_id l = row_id r"
proof -
  obtain i tx where i: "load_tx txid d (row_hash r) = Inr i" "DecodeHexTx (ti_hex i) = Some tx" "l = txlog2_of E created r i tx"
    using l by (auto simp: read_row_def bindE_eq_Inr split: option.splits)
  from getTxInfo_load(2) [OF c now i(1)] show ?thesis
    by (auto simp: tryFetchTxLog2FromDB_def next_row_pending p ty i(2,3) txlog2_of_def Let_def)
qed

lemma delete_expired_coherent: "coherent txid d c \<Longrightarrow> coherent txid (delete_expired i d) c"
  by (rule coherent_raw_txs [OF _ delete_expired_rows(1)])

lemma read_row_expired: "read_row E created txid (delete_expired i d) = read_row E created txid d"
  by (simp add: fun_eq_iff read_row_def load_tx_def delete_expired_rows(1))

section \<open>All rounds\<close>

lemma produce_none: "pending i d = [] \<Longrightarrow> produceTxlogs E created txid clk i c d buf = Some (Inr (buf, i, c, d))"
  by (subst produceTxlogs.simps) (simp add: tryFetchTxLog2FromDB_def next_row_pending)

lemma produce_rows:
  assumes "coherent txid d c" and "\<And>i. clk i \<le> tc_lastClearTime c + 86400" and "distinct (map row_id (txlogs2 d))"
    and "\<forall>r \<in> set (pending lastId d). known_type (row_type r)"
    and "list_all2 (\<lambda>r l. read_row E created txid d r = Inr l) (pending lastId d) ls"
  shows "\<exists>c' d'. produceTxlogs E created txid clk lastId c d buf =
      Some (Inr (buf @ ls, last (lastId # map tl_id ls), c', d')) \<and> coherent txid d' c' \<and>
      pending (last (lastId # map tl_id ls)) d' = []"
  using assms
proof (induction ls arbitrary: lastId c d buf)
  case Nil
  then have "pending lastId d = []" by simp
  with Nil show ?case by (simp add: produce_none)
next
  case (Cons l ls)
  obtain r rs where p: "pending lastId d = r # rs" "read_row E created txid d r = Inr l"
    "list_all2 (\<lambda>r l. read_row E created txid d r = Inr l) rs ls"
    using Cons.prems(5) by (auto simp: list_all2_Cons2)
  from fetch_row [OF Cons.prems(1,2) p(1) _ p(2)] Cons.prems(4) p(1) obtain c1 where
    f: "tryFetchTxLog2FromDB E created txid (clk lastId) lastId c d = Inr (Some (l, c1, delete_expired (row_id r) d))"
      "coherent txid d c1" "tc_lastClearTime c1 = tc_lastClearTime c" "tl_id l = row_id r"
    by (metis list.set_intros(1))
  let ?d = "delete_expired (row_id r) d"
  have rest: "pending (row_id r) ?d = rs" by (rule pending_tail [OF p(1) Cons.prems(3) delete_expired_rows(2)])
  have "\<exists>c' d'. produceTxlogs E created txid clk (row_id r) c1 ?d (buf @ [l]) =
      Some (Inr ((buf @ [l]) @ ls, last (row_id r # map tl_id ls), c', d')) \<and> coherent txid d' c' \<and>
      pending (last (row_id r # map tl_id ls)) d' = []"
    by (rule Cons.IH [OF delete_expired_coherent [OF f(2)]])
      (use f(3) Cons.prems(2-4) p rest in \<open>simp_all add: delete_expired_rows(3) read_row_expired\<close>)
  then show ?case by (subst produceTxlogs.simps) (simp add: f(1,4))
qed

lemma read_row_type: "read_row E created txid d r = Inr l \<Longrightarrow> tl_type l = row_type r"
  by (force simp: read_row_def bindE_eq_Inr txlog2_of_def Let_def split: option.splits)

lemma getLast_stands:
  assumes "stands V A E T X m s" and "getLastTxLog2Id E s = Inr (i, s1)" and "rocks_ok (pe_rocks E) V"
  shows "stands V A E T X m s1" "getLastTxLog2Id E s1 = Inr (i, s1)"
proof -
  have "stands V A E T X m s1 \<and> getLastTxLog2Id E s1 = Inr (i, s1)"
  proof (cases "fst (kvgetMayNotExist E (key_str KOffset) s)")
    case True
    then show ?thesis
      using assms(1,2) by (auto simp: getLastTxLog2Id_def bindE_eq_Inr split: prod.splits)
  next
    case False
    then have "updateLastTxlog2Id E 0 s = Inr s1" "i = 0"
      using assms(2) by (auto simp: getLastTxLog2Id_def bindE_eq_Inr split: prod.splits)
    with stands_update [OF assms(1,3), of 0] show ?thesis
      by (simp add: returns_def getLastTxLog2Id_def value_string_def)
  qed
  then show "stands V A E T X m s1" "getLastTxLog2Id E s1 = Inr (i, s1)" by blast+
qed

lemma main_run_types:
  assumes "main_run E A T X rows m ls m'" and "l \<in> set ls"
  shows "tl_type l = LOG2TYPE_TX_ACCEPT \<or> tl_type l = LOG2TYPE_TX_CONFIRM \<or> tl_type l = LOG2TYPE_TX_UNCONFIRM \<or>
    tl_type l = LOG2TYPE_TX_REJECT"
  using assms by (induction rule: main_run.induct) (auto dest: main_step_tx row_type)

section \<open>The properties\<close>

definition fetch_reference :: "'db penv \<Rightarrow> (int \<Rightarrow> string) \<Rightarrow> (uint256 \<Rightarrow> int) \<Rightarrow> int \<Rightarrow> log2db \<Rightarrow> ((TxLog2 \<times> log2db) option) res" where
  \<comment> \<open>the first pending row, its transaction from the tables\<close>
  "fetch_reference E created txid lastId d =
     (case pending lastId d of
        [] \<Rightarrow> Inr None
      | r # _ \<Rightarrow> if \<not> known_type (row_type r) then Inr None
                  else bindE (read_row E created txid d r) (\<lambda>l. Inr (Some (l, delete_expired (row_id r) d))))"



text \<open>The tables of the small history, the rows not in the order of their ids.\<close>

definition sample_tables :: log2db where
  "sample_tables = \<lparr>txlogs2 = map (\<lambda>(i, ty, h). \<lparr>row_id = i, batch_id = 1, row_type = ty, row_height = h, row_block_id = 7,
       row_max_ts = 9, row_hash = 1\<rparr>)
       [(2, LOG2TYPE_TX_CONFIRM, 0), (1, LOG2TYPE_TX_ACCEPT, - 1), (4, LOG2TYPE_TX_REJECT, 0), (3, LOG2TYPE_TX_UNCONFIRM, 0)],
     txlogs2_next_id = 5, memrepo_txs = [], raw_txs = (\<lambda>_. [(1, EncodeHexTx sample_reward)]),
     raw_blocks = sample_rows, raw_blocks_next_id = 8,
     explorer_meta = (\<lambda>_. None)\<rparr>"

lemma sample_digits: "nat_str 2015 = ''2015''" "pad0 2 (nat_str (Suc 0)) = ''01''"
  by code_simp+

lemma sample_pending: "list_all2 (\<lambda>r l. read_row parser_env (\<lambda>_. []) (\<lambda>_. 5) sample_tables r = Inr l) (pending 0 sample_tables) sample_log"
proof -
  have "wf_tx sample_reward"
    by (simp add: sample_reward_def sample_tx_def wf_tx_def wf_script_def wf_txout_def MAX_SIZE_def)
  then have "DecodeHexTx (EncodeHexTx sample_reward) = Some sample_reward" by (rule DecodeHexTx_EncodeHexTx)
  moreover have "ymd_of (pe_gmtime parser_env t) = 20150101" for t
    by (simp add: ymd_of_def parser_env_def sample_digits) (simp add: atoi_def is_space_def is_digit_def digit_val_def)
  ultimately show ?thesis
    by (simp add: pending_def sample_tables_def sample_log_def read_row_def load_tx_def txlog2_of_def sample_row_def log2_types Let_def)
qed


lemma sample_first_start: "\<exists>s1. getLastTxLog2Id parser_env (fresh []) = Inr (0, s1)"
proof -
  have "kvgetMayNotExist parser_env (key_str KOffset) (fresh []) = (False, VStr [])"
    by (simp add: kvgetMayNotExist_def KVDB_getMayNotExist_def parser_env_def fresh_def list_rocks_def)
  with stands_update [OF sample_stands parser_env_ok(1), of 0] show ?thesis
    by (auto simp: getLastTxLog2Id_def returns_def split: sum.splits)
qed


end
