(* ===== verification/Difficulty.thy ===== *)
theory Difficulty
  imports Hex
begin

text \<open>
  Difficulty in compact form (src/jiexi/src/Common.cc): \<open>TargetToBdiff\<close>, \<open>DiffToBits\<close> and
  \<open>DiffToTarget\<close>. The difficulty and the intermediate values are \<open>uint64\<close>, the compact form is
  \<open>uint32\<close>. \<open>DiffToBits\<close> finds the compact form of a difficulty exactly when the target at
  difficulty one is a multiple of it, and the target it stands for is then the exact quotient.
\<close>

unbundle bit_operations_syntax

section \<open>Operations\<close>

definition BITS_DIFF1 :: "32 word" where
  "BITS_DIFF1 = 0x1d00ffff"

definition TargetToBdiff :: "uint256 \<Rightarrow> 64 word res" where
  \<comment> \<open>\<open>strtoull\<close> of a quotient that is too large gives the largest number\<close>
  "TargetToBdiff target =
     (if target = 0 then Inl (Throw ''CBigNum::operator/ : BN_div failed'')
      else Inr (word_of_int (min (2 ^ 64 - 1) (0xffff * 2 ^ 208 div uint target))))"

partial_function (option) strip256 :: "64 word \<Rightarrow> 64 word \<Rightarrow> (64 word \<times> 64 word) option" where
  \<comment> \<open>the loop of \<open>DiffToBits\<close>\<close>
  "strip256 nbytes diff =
     (if diff mod 256 = 0 then strip256 (nbytes - 1) (diff div 256) else Some (nbytes, diff))"

definition compact :: "64 word \<Rightarrow> 64 word \<Rightarrow> 32 word res" where
  "compact value nbytes =
     (if value > 0x00ffffff then Inl (Throw ''diff overflow, code bug'')
      else Inr (ucast (value OR push_bit 24 nbytes)))"

definition DiffToBits :: "64 word \<Rightarrow> 32 word res" where
  "DiffToBits diff =
     (let nbytes = ucast (drop_bit 24 BITS_DIFF1 AND 0xff); value = ucast (BITS_DIFF1 AND 0xffffff) :: 64 word in
      if diff = 0 then Inl (Throw ''diff is zero'')
      else case strip256 nbytes diff of
        None \<Rightarrow> Inl NoReturn
      | Some (nbytes, diff) \<Rightarrow>
          if value mod diff = 0 then compact (value div diff) nbytes
          else if push_bit 8 value mod diff = 0 then compact (push_bit 8 value div diff) (nbytes - 1)
          else Inl (Throw ''diff not perfect, can't convert to bits''))"

definition DiffToTarget :: "64 word \<Rightarrow> uint256 res" where
  "DiffToTarget diff = bindE (DiffToBits diff) (\<lambda>bits. Inr (BitsToTarget bits))"

section \<open>The loop\<close>

lemma strip256_returns:
  assumes "d \<noteq> 0"
  shows "\<exists>k d'. strip256 n d = Some (n - of_nat k, d') \<and> unat d = 256 ^ k * unat d' \<and> \<not> 256 dvd unat d'"
  using assms
proof (induction "unat d" arbitrary: n d rule: less_induct)
  case less
  have m: "d mod 256 = 0 \<longleftrightarrow> 256 dvd unat d"
    by (simp add: unat_eq_0 [symmetric] unat_mod_distrib dvd_eq_mod_eq_0)
  show ?case
  proof (cases "d mod 256 = 0")
    case False
    then show ?thesis using m by (subst strip256.simps) (intro exI [of _ 0] exI [of _ d], simp)
  next
    case True
    have u: "unat (d div 256) = unat d div 256" by (simp add: unat_div_distrib)
    have p: "unat d \<noteq> 0" using less.prems by (simp add: unat_eq_0)
    with True m have q: "unat d = 256 * (unat d div 256)" "unat d div 256 \<noteq> 0" by auto
    then have "unat (d div 256) < unat d" "d div 256 \<noteq> 0" using u p by (auto simp: unat_eq_0 [symmetric])
    from less.hyps [OF this, of "n - 1"] obtain k d' where
      k: "strip256 (n - 1) (d div 256) = Some (n - 1 - of_nat k, d')" "unat (d div 256) = 256 ^ k * unat d'" "\<not> 256 dvd unat d'"
      by blast
    have "strip256 n d = Some (n - of_nat (Suc k), d')" using True k(1) by (subst strip256.simps) (simp add: algebra_simps)
    moreover have "unat d = 256 ^ Suc k * unat d'" using q(1) k(2) u by simp
    ultimately show ?thesis using k(3) by blast
  qed
qed

section \<open>The compact form\<close>

lemma bit_small: "unat w < 2 ^ n \<Longrightarrow> bit w i \<Longrightarrow> i < n" for w :: "'a::len word"
proof (rule ccontr)
  assume w: "unat w < 2 ^ n" "bit w i" and "\<not> i < n"
  then have "2 ^ n \<le> (2 :: nat) ^ i" by (simp add: power_increasing)
  with w(1) have "unat w < 2 ^ i" by (rule less_le_trans)
  then have "unat w div 2 ^ i = 0" by simp
  moreover have "bit (unat w) i" using w(2) by (simp add: bit_unsigned_iff bit_imp_possible_bit)
  ultimately show False by (simp add: bit_iff_odd)
qed

lemma mask_numerals: "(0xff :: 32 word) = mask 8" "(0xffffff :: 32 word) = mask 24"
  by (simp_all add: mask_eq_exp_minus_1)

lemma bit_fields:
  fixes v n :: "64 word"
  assumes v: "unat v < 2 ^ 24" and n: "unat n < 2 ^ 8"
  defines "b \<equiv> ucast (v OR push_bit 24 n) :: 32 word"
  shows "drop_bit 24 b AND 0xff = ucast n" "b AND 0xffffff = ucast v"
proof -
  show "drop_bit 24 b AND 0xff = ucast n"
    unfolding mask_numerals b_def
    by (rule bit_word_eqI) (use bit_small [OF v] bit_small [OF n] in \<open>fastforce simp: bit_simps\<close>)
  show "b AND 0xffffff = ucast v"
    unfolding mask_numerals b_def
    by (rule bit_word_eqI) (use bit_small [OF v] bit_small [OF n] in \<open>fastforce simp: bit_simps\<close>)
qed

lemma BitsToTarget_compact:
  assumes c: "compact v n = Inr b" and n: "3 \<le> unat n" "unat n \<le> 29"
  shows "uint (BitsToTarget b) = uint v * 2 ^ (8 * (unat n - 3))"
proof -
  have v: "unat v < 2 ^ 24" and b: "b = ucast (v OR push_bit 24 n)"
    using c by (auto simp: compact_def word_le_nat_alt word_less_nat_alt not_less split: if_splits)
  have n8: "unat n < 2 ^ 8" using n(2) by simp
  note f = bit_fields [OF v n8, folded b]
  have nb: "unat (drop_bit 24 b AND 0xff) = unat n"
    unfolding f(1) using n8 by (simp add: unsigned_ucast_eq take_bit_nat_eq_self)
  have shift: "unat (word_of_int (8 * (int (unat n) - 3)) :: 32 word) = 8 * (unat n - 3)"
  proof -
    define m where "m = 8 * (unat n - 3)"
    have e: "8 * (int (unat n) - 3) = int m" using n(1) by (simp add: m_def)
    have "m < 2 ^ LENGTH(32)" using n(2) by (simp add: m_def)
    then show ?thesis unfolding e of_int_of_nat_eq m_def [symmetric] unsigned_of_nat by (simp only: of_nat_id take_bit_nat_eq_self)
  qed
  have "int (unat v) < int (2 ^ 24)" using v by (rule iffD2 [OF of_nat_less_iff])
  then have uv: "uint v < 2 ^ 24" by simp
  have val: "uint (ucast (b AND 0xffffff) :: uint256) = uint v"
    unfolding f(2) using uv by (simp add: unsigned_ucast_eq unsigned_take_bit_eq take_bit_int_eq_self)
  have "uint v * 2 ^ (8 * (unat n - 3)) < 2 ^ 24 * 2 ^ (8 * (unat n - 3))" using uv by simp
  also have "\<dots> \<le> 2 ^ 24 * 2 ^ (8 * (29 - 3))" using n(2) by (intro mult_left_mono power_increasing) auto
  finally have "uint v * 2 ^ (8 * (unat n - 3)) < 2 ^ 256" by simp
  then have fits: "uint v * 2 ^ (8 * (unat n - 3)) < 2 ^ LENGTH(256)" by simp
  have "BitsToTarget b = push_bit (8 * (unat n - 3)) (ucast (b AND 0xffffff))"
    unfolding BitsToTarget_def Let_def nb shift ..
  then have "uint (BitsToTarget b) = take_bit LENGTH(256) (push_bit (8 * (unat n - 3)) (uint v))"
    by (simp only: unsigned_push_bit_eq val)
  also have "\<dots> = uint v * 2 ^ (8 * (unat n - 3))"
    using fits by (simp only: push_bit_eq_mult take_bit_int_eq_self zero_le_mult_iff uint_ge_0 zero_le_power zero_le_numeral simp_thms)
  finally show ?thesis .
qed

section \<open>Existence and exactness\<close>

lemma diff1_parts: "(ucast (drop_bit 24 BITS_DIFF1 AND 0xff) :: 64 word) = 29" "(ucast (BITS_DIFF1 AND 0xffffff) :: 64 word) = 0xffff"
  "push_bit 8 (0xffff :: 64 word) = 0xffff00"
  by (simp_all add: BITS_DIFF1_def push_bit_eq_mult)

lemma strip_bound:
  assumes "unat (d :: 64 word) = 256 ^ k * unat (d' :: 64 word)" and "d \<noteq> 0"
  shows "k \<le> 7" "d' \<noteq> 0"
proof -
  have u: "unat d \<noteq> 0" using assms(2) by (simp add: unat_eq_0)
  with assms(1) show "d' \<noteq> 0" by auto
  show "k \<le> 7"
  proof (rule ccontr)
    assume "\<not> k \<le> 7"
    then have "(256 :: nat) ^ 8 \<le> 256 ^ k" by (intro power_increasing) auto
    also have "\<dots> \<le> unat d" using u assms(1) by (cases "unat d'") auto
    finally have "256 ^ 8 \<le> unat d" .
    moreover have "unat d < 2 ^ LENGTH(64)" by (rule unsigned_less)
    ultimately show False by simp
  qed
qed

lemma dvd_two_power:
  fixes d c :: nat
  assumes "d dvd c * 2 ^ n" and "\<not> 2 ^ Suc a dvd d"
  shows "d dvd c * 2 ^ a"
  using assms
proof (induction a arbitrary: d n)
  case 0
  then have "coprime d (2 ^ n)" by simp
  then show ?case using 0 coprime_dvd_mult_left_iff by fastforce
next
  case (Suc a)
  show ?case
  proof (cases "even d")
    case False
    then have "coprime d (2 ^ n)" by simp
    then have "d dvd c" using Suc.prems(1) coprime_dvd_mult_left_iff by blast
    then show ?thesis by simp
  next
    case True
    then obtain e where e: "d = 2 * e" by (elim evenE)
    show ?thesis
    proof (cases n)
      case 0
      then show ?thesis using Suc.prems(1) by simp
    next
      case (Suc m)
      then have "e dvd c * 2 ^ m" using Suc.prems(1) e by (simp add: mult.left_commute [of c])
      moreover have "\<not> 2 ^ Suc a dvd e" using Suc.prems(2) e by simp
      ultimately have "e dvd c * 2 ^ a" by (rule Suc.IH)
      then show ?thesis by (simp add: e mult.left_commute [of c])
    qed
  qed
qed

lemma strip_dvd:
  assumes d: "d = 256 ^ k * (d' :: nat)" and nd: "\<not> 256 dvd d'" and k: "k \<le> 7"
  shows "d dvd 0xffff * 2 ^ 208 \<longleftrightarrow> d' dvd 0xffff00"
proof
  assume "d dvd 0xffff * 2 ^ 208"
  then have "d' dvd 0xffff * 2 ^ 208" using d dvd_mult_right by blast
  moreover have "\<not> 2 ^ Suc 7 dvd d'" using nd by simp
  ultimately have "d' dvd 0xffff * 2 ^ 7" by (rule dvd_two_power)
  then have "d' dvd 0xffff * 2 ^ 7 * 2" by (rule dvd_mult2)
  then show "d' dvd 0xffff00" by simp
next
  assume d': "d' dvd 0xffff00"
  have "(256 :: nat) ^ k dvd 256 ^ 25" using k by (intro le_imp_power_dvd) simp
  with d' have "256 ^ k * d' dvd 256 ^ 25 * 0xffff00" by (rule mult_dvd_mono [rotated])
  then show "d dvd 0xffff * 2 ^ 208" by (simp add: d)
qed

lemma word_mod_0: "(v :: 64 word) mod d = 0 \<longleftrightarrow> unat d dvd unat v"
  by (simp add: unat_eq_0 [symmetric] unat_mod_distrib dvd_eq_mod_eq_0)

text \<open>A quotient of the value at difficulty one fits, and stands for the exact target.\<close>

lemma compact_exact:
  assumes d: "unat (d :: 64 word) = 256 ^ k * unat (d' :: 64 word)" and k: "k \<le> 7" and j: "j \<le> 1"
    and v: "unat v = 0xffff * 256 ^ j" and dv: "unat d' dvd unat v" and n: "unat n + k + j = 29"
  shows "\<exists>b. compact (v div d') n = Inr b \<and> uint (BitsToTarget b) * uint d = 0xffff * 2 ^ 208"
proof -
  let ?q = "v div d'"
  have j': "j = 0 \<or> j = 1" using j by auto
  have q: "unat ?q * unat d' = 0xffff * 256 ^ j" using dv v by (simp add: unat_div_distrib)
  have "unat ?q \<le> unat v" by (simp add: unat_div_distrib)
  also have "\<dots> \<le> 0xffff00" using v j' by auto
  finally have "\<not> ?q > 0x00ffffff" by (simp add: word_less_nat_alt)
  then obtain b where b: "compact ?q n = Inr b" by (simp add: compact_def)
  have "uint (BitsToTarget b) = uint ?q * 2 ^ (8 * (unat n - 3))"
    using n k j by (intro BitsToTarget_compact [OF b]) auto
  moreover have "uint d = int (unat d') * 2 ^ (8 * k)" unfolding uint_nat d by (simp add: power_mult)
  ultimately have "uint (BitsToTarget b) * uint d = int (unat ?q * unat d') * (2 ^ (8 * (unat n - 3)) * 2 ^ (8 * k))"
    by (simp only: uint_nat [of ?q] of_nat_mult mult_ac)
  also have "int (unat ?q * unat d') = 0xffff * 2 ^ (8 * j)" unfolding q by (simp add: power_mult)
  also have "0xffff * 2 ^ (8 * j) * (2 ^ (8 * (unat n - 3)) * 2 ^ (8 * k)) =
      0xffff * ((2 :: int) ^ (8 * j) * 2 ^ (8 * (unat n - 3)) * 2 ^ (8 * k))" by (simp only: mult.assoc)
  also have "\<dots> = 0xffff * 2 ^ (8 * j + 8 * (unat n - 3) + 8 * k)" by (simp only: power_add mult.assoc)
  also have "8 * j + 8 * (unat n - 3) + 8 * k = 208" using n k j by arith
  finally show ?thesis using b by blast
qed

lemma DiffToBits_exact:
  assumes "diff \<noteq> 0"
  shows "if unat diff dvd 0xffff * 2 ^ 208
     then \<exists>b. DiffToBits diff = Inr b \<and> uint (BitsToTarget b) * uint diff = 0xffff * 2 ^ 208
     else DiffToBits diff = Inl (Throw ''diff not perfect, can't convert to bits'')"
proof -
  obtain k d' where s: "strip256 29 diff = Some (29 - of_nat k, d')" and d: "unat diff = 256 ^ k * unat d'" "\<not> 256 dvd unat d'"
    using strip256_returns [OF assms] by blast
  note k = strip_bound [OF d(1) assms]
  have e: "(29 - of_nat k :: 64 word) = of_nat (29 - k)" "(29 - of_nat k - 1 :: 64 word) = of_nat (28 - k)"
    using k(1) by (simp_all add: of_nat_diff)
  have n: "unat (29 - of_nat k :: 64 word) + k + 0 = 29" "unat (29 - of_nat k - 1 :: 64 word) + k + 1 = 29"
    unfolding e(2) unfolding e(1) using k(1) by (simp_all add: unsigned_of_nat take_bit_nat_eq_self del: of_nat_diff)
  have v: "unat (0xffff :: 64 word) = 0xffff * 256 ^ 0" "unat (0xffff00 :: 64 word) = 0xffff * 256 ^ 1" by simp_all
  note ex = compact_exact [OF d(1) k(1) _ v(1) _ n(1)] compact_exact [OF d(1) k(1) _ v(2) _ n(2)]
  have bits: "DiffToBits diff =
      (if unat d' dvd 0xffff then compact (0xffff div d') (29 - of_nat k)
       else if unat d' dvd 0xffff00 then compact (0xffff00 div d') (29 - of_nat k - 1)
       else Inl (Throw ''diff not perfect, can't convert to bits''))"
    using assms by (simp add: DiffToBits_def diff1_parts s word_mod_0)
  have weaker: "unat d' dvd 0xffff \<Longrightarrow> unat d' dvd 0xffff00" by (drule dvd_mult2 [where c = 256]) simp
  show ?thesis
    unfolding strip_dvd [OF d k(1)] bits using ex weaker by auto
qed

lemma TargetToBdiff_exact:
  assumes t: "uint t * uint diff = 0xffff * 2 ^ 208"
  shows "TargetToBdiff t = Inr diff"
proof -
  have nz: "uint t \<noteq> 0" using t by auto
  then have "t \<noteq> 0" by auto
  moreover have "0xffff * 2 ^ 208 div uint t = uint diff" unfolding t [symmetric] using nz by simp
  moreover have "min (2 ^ 64 - 1) (uint diff) = uint diff" using uint_lt2p [of diff] by simp
  ultimately show ?thesis unfolding TargetToBdiff_def by (simp only: if_False word_of_int_uint)
qed

section \<open>Properties\<close>

text \<open>
  C32. \<open>DiffToTarget\<close> is exact. It refuses the difficulty zero, and a difficulty that does not
  divide the target at difficulty one; for every other 64-bit difficulty its loop ends, nothing
  overflows or is rounded, the product of target and difficulty is the target at difficulty
  one, and \<open>TargetToBdiff\<close> gives the difficulty back.
\<close>

theorem difficulty_exact:
  "if diff = 0 then DiffToTarget diff = Inl (Throw ''diff is zero'')
   else if unat diff dvd 0xffff * 2 ^ 208
   then \<exists>t. DiffToTarget diff = Inr t \<and> uint t * uint diff = 0xffff * 2 ^ 208 \<and> TargetToBdiff t = Inr diff
   else DiffToTarget diff = Inl (Throw ''diff not perfect, can't convert to bits'')"
proof (cases "diff = 0")
  case True
  then show ?thesis by (simp add: DiffToTarget_def DiffToBits_def)
next
  case False
  show ?thesis
    using DiffToBits_exact [OF False] False TargetToBdiff_exact by (auto simp: DiffToTarget_def split: if_splits)
qed

end
