(* ===== verification/HttpAPI.thy ===== *)
theory HttpAPI
  imports KVDB Util Base58
begin

text \<open>
  The HTTP interface of the explorer (src/jiexi/src/HttpAPI.cc, HttpAPI.h): the raw access to
  the key-value store (\<open>cb_kv\<close> with its methods \<open>get\<close>, \<open>range\<close> and \<open>ping\<close>) and the JSON of
  addresses and transactions (\<open>cb_api\<close>).

  A request is its query, a map from names to values (\<open>evhtp_kv_find\<close>), a reply the fields that
  are sent. The bytes of a table of the store are a parameter \<open>fb\<close> (\<open>FlatBufferBuilder\<close>), as
  are the check sum \<open>H\<close> of addresses and the clock of the query ids.
\<close>

definition API_ERROR_SUCCESS :: int where "API_ERROR_SUCCESS = 0"
definition API_ERROR_EMPTY_PARAMS :: int where "API_ERROR_EMPTY_PARAMS = 100"
definition API_ERROR_TOO_MANY_PARAMS :: int where "API_ERROR_TOO_MANY_PARAMS = 101"
definition API_ERROR_EMPTY_METHOD :: int where "API_ERROR_EMPTY_METHOD = 102"
definition API_ERROR_METHOD_NOT_REGISTERED :: int where "API_ERROR_METHOD_NOT_REGISTERED = 103"
definition API_ERROR_INVALID_PARAMS :: int where "API_ERROR_INVALID_PARAMS = 201"

record APIResponse =
  ar_data :: string
  ar_length :: "int list"
  ar_offset :: "int list"
  ar_types :: "string list"
  ar_keys :: "string list"

definition APIResponse_new :: APIResponse where
  "APIResponse_new = \<lparr>ar_data = [], ar_length = [], ar_offset = [], ar_types = [], ar_keys = []\<rparr>"

type_synonym query = "string \<Rightarrow> string option"

section \<open>Data\<close>

definition gKeyTypes :: "string option list" where
  \<comment> \<open>filled in by \<open>APIServer::APIServer\<close>\<close>
  "gKeyTypes = (replicate 100 None)
     [1 := Some ''Tx'', 2 := Some ''TxSpentBy'', 3 := Some ''UnconfirmedTx'',
      10 := Some ''string'', 11 := Some ''Block'', 12 := Some ''string'', 13 := Some ''string'', 14 := Some ''string'',
      15 := Some ''string'', 20 := Some ''Address'', 21 := Some ''AddressTx'', 22 := Some ''string'',
      23 := Some ''AddressUnspent'', 24 := Some ''AddressUnspentIdx'', 30 := Some ''DoubleSpending'',
      90 := Some ''string'']"

definition resize :: "nat \<Rightarrow> 'a \<Rightarrow> 'a list \<Rightarrow> 'a list" where
  "resize n x xs = take n xs @ replicate (n - length xs) x"

definition key_type :: "string \<Rightarrow> string option" where
  "key_type key =
     (let keyPrefixInt = atoi32 (take 2 key) in
      if keyPrefixInt \<ge> 0 \<and> keyPrefixInt < int (length gKeyTypes) then gKeyTypes ! nat keyPrefixInt else None)"

definition value_bytes :: "(kvval \<Rightarrow> string) \<Rightarrow> kvval \<Rightarrow> string" where
  "value_bytes fb v = (case v of VStr s \<Rightarrow> s | _ \<Rightarrow> fb v)"

definition put_value :: "(kvval \<Rightarrow> string) \<Rightarrow> nat \<times> string \<times> kvval \<Rightarrow> APIResponse \<Rightarrow> APIResponse" where
  \<comment> \<open>the body of the loop of \<open>dbPut2Resp\<close>\<close>
  "put_value fb = (\<lambda>(i, key, v) resp.
     resp\<lparr>ar_types := (case key_type key of None \<Rightarrow> ar_types resp | Some t \<Rightarrow> (ar_types resp)[i := t]),
          ar_offset := (ar_offset resp)[i := to_int32 (int (length (ar_data resp)))],
          ar_length := (ar_length resp)[i := to_int32 (int (length (value_bytes fb v)))],
          ar_data := ar_data resp @ value_bytes fb v\<rparr>)"

definition dbPut2Resp :: "(kvval \<Rightarrow> string) \<Rightarrow> string list \<Rightarrow> kvval list \<Rightarrow> APIResponse \<Rightarrow> APIResponse res" where
  "dbPut2Resp fb keys values resp =
     (if length values < length keys then Inl (UB ''values[i]'')
      else Inr (fold (put_value fb) (enumerate 0 (zip keys values))
        (resp\<lparr>ar_length := resize (length keys) 0 (ar_length resp), ar_offset := resize (length keys) (- 1) (ar_offset resp),
              ar_types := resize (length keys) [] (ar_types resp), ar_keys := keys\<rparr>)))"

definition dbGetKeys :: "'db rocks \<Rightarrow> (kvval \<Rightarrow> string) \<Rightarrow> 'db \<Rightarrow> string list \<Rightarrow> APIResponse \<Rightarrow> APIResponse res" where
  "dbGetKeys R fb db keys resp =
     bindE (assertE ''keys.size() != 0'' (length keys \<noteq> 0)) (\<lambda>_. dbPut2Resp fb keys (KVDB_multiGet R keys db) resp)"

definition dbRangeKeys :: "'db rocks \<Rightarrow> (kvval \<Rightarrow> string) \<Rightarrow> 'db \<Rightarrow> string \<Rightarrow> string \<Rightarrow> int \<Rightarrow> int \<Rightarrow> APIResponse \<Rightarrow> APIResponse res" where
  "dbRangeKeys R fb db start end limit offset resp =
     bindE (KVDB_range R start end limit offset db) (\<lambda>es.
     if length es = 0 then Inr resp else dbPut2Resp fb (map fst es) (map snd es) resp)"

section \<open>The methods of /kv\<close>

record kv_reply =
  kr_status :: int
  kr_queryId :: string
  kr_error_no :: int
  kr_error_msg :: string
  kr_resp :: APIResponse

definition kv_output :: "string \<Rightarrow> APIResponse \<Rightarrow> int \<Rightarrow> string \<Rightarrow> kv_reply" where
  "kv_output queryId resp error_no error_msg =
     \<lparr>kr_status = (if error_no = 0 then 200 else 400), kr_queryId = queryId, kr_error_no = error_no,
      kr_error_msg = error_msg, kr_resp = resp\<rparr>"

definition clock_id :: "int \<Rightarrow> string" where
  "clock_id now = ''rocksdb-'' @ fmt_d now"

definition kv_output_error :: "int \<Rightarrow> int \<Rightarrow> string \<Rightarrow> kv_reply" where
  "kv_output_error now error_no error_msg = kv_output (clock_id now) APIResponse_new error_no error_msg"

definition kv_handle_get :: "'db rocks \<Rightarrow> (kvval \<Rightarrow> string) \<Rightarrow> 'db \<Rightarrow> int \<Rightarrow> string list \<Rightarrow> string \<Rightarrow> kv_reply res" where
  "kv_handle_get R fb db now params queryId =
     (if length params = 0 then Inr (kv_output_error now API_ERROR_EMPTY_PARAMS ''params is empty'')
      else bindE (dbGetKeys R fb db params APIResponse_new) (\<lambda>resp. Inr (kv_output queryId resp API_ERROR_SUCCESS [])))"

definition kv_handle_range :: "'db rocks \<Rightarrow> (kvval \<Rightarrow> string) \<Rightarrow> 'db \<Rightarrow> int \<Rightarrow> string list \<Rightarrow> string \<Rightarrow> kv_reply res" where
  "kv_handle_range R fb db now params queryId =
     (if length params < 3 then
        Inr (kv_output_error now API_ERROR_INVALID_PARAMS ''params should be: {start_key, end_key, limit, [offset]}'')
      else
        let limit = atoi32 (params ! 2) in
        if limit \<le> 0 \<or> limit > 100000 then Inr (kv_output_error now API_ERROR_INVALID_PARAMS ''invalid limit'')
        else
          let offset = (if length params \<ge> 4 then atoi32 (params ! 3) else 0) in
          if length params \<ge> 4 \<and> offset < 0 then Inr (kv_output_error now API_ERROR_INVALID_PARAMS ''invalid offset'')
          else bindE (dbRangeKeys R fb db (params ! 0) (params ! 1) limit offset APIResponse_new) (\<lambda>resp.
               Inr (kv_output queryId resp API_ERROR_SUCCESS [])))"

definition kv_handle_ping :: "string \<Rightarrow> kv_reply" where
  "kv_handle_ping queryId =
     kv_output queryId \<lparr>ar_data = ''pong'', ar_length = [4], ar_offset = [0], ar_types = [''string''], ar_keys = [''ping'']\<rparr>
       API_ERROR_SUCCESS []"

definition kMaxParamsCount :: int where
  "kMaxParamsCount = 10000"

definition cb_kv :: "'db rocks \<Rightarrow> (kvval \<Rightarrow> string) \<Rightarrow> 'db \<Rightarrow> int \<Rightarrow> query \<Rightarrow> query \<Rightarrow> kv_reply res" where
  "cb_kv R fb db now query headers_in =
     (let queryId = (case headers_in ''RequestID'' of None \<Rightarrow> clock_id now | Some i \<Rightarrow> i);
          params = (case query ''params'' of
             None \<Rightarrow> []
           | Some p \<Rightarrow> map UrlDecode (split_limit p CHR '','' (kMaxParamsCount + 1))) in
      if int (length params) > kMaxParamsCount then
        Inr (kv_output_error now API_ERROR_TOO_MANY_PARAMS (''too many params, max: '' @ fmt_d kMaxParamsCount))
      else case query ''method'' of
        None \<Rightarrow> Inr (kv_output_error now API_ERROR_EMPTY_METHOD ''method is empty'')
      | Some m \<Rightarrow>
          if m = ''ping'' then Inr (kv_handle_ping queryId)
          else if m = ''get'' then kv_handle_get R fb db now params queryId
          else if m = ''range'' then kv_handle_range R fb db now params queryId
          else Inr (kv_output_error now API_ERROR_METHOD_NOT_REGISTERED ''method is not registered''))"

section \<open>What a reply holds\<close>

lemma put_value_prefix:
  assumes "m \<le> length zs"
  shows "fold (put_value fb) (enumerate 0 (take m zs))
      \<lparr>ar_data = [], ar_length = replicate (length zs) 0, ar_offset = replicate (length zs) (- 1),
       ar_types = replicate (length zs) [], ar_keys = keys\<rparr> =
    \<lparr>ar_data = concat (map (value_bytes fb \<circ> snd) (take m zs)),
     ar_length = map (\<lambda>z. to_int32 (int (length (value_bytes fb (snd z))))) (take m zs) @ replicate (length zs - m) 0,
     ar_offset = map (\<lambda>i. to_int32 (int (length (concat (map (value_bytes fb \<circ> snd) (take i zs)))))) [0..<m] @
       replicate (length zs - m) (- 1),
     ar_types = map (\<lambda>z. case key_type (fst z) of None \<Rightarrow> [] | Some t \<Rightarrow> t) (take m zs) @ replicate (length zs - m) [],
     ar_keys = keys\<rparr>"
  using assms
proof (induction m)
  case (Suc m)
  obtain k v where z: "zs ! m = (k, v)" by fastforce
  have t: "take (Suc m) zs = take m zs @ [(k, v)]" using Suc.prems z by (simp add: take_Suc_conv_app_nth)
  have r: "replicate (length zs - m) x = x # replicate (length zs - Suc m) x" for x :: 'b
    using Suc.prems by (metis Suc_diff_Suc Suc_le_lessD replicate_Suc)
  have l: "length (take m zs) = m" using Suc.prems by simp
  show ?case
    using Suc l unfolding t enumerate_append_eq fold_append
    by (simp add: put_value_def r list_update_append comp_def split: option.splits)
qed simp

lemma dbPut2Resp_new:
  assumes "length values = length keys"
  shows "dbPut2Resp fb keys values APIResponse_new = Inr
    \<lparr>ar_data = concat (map (value_bytes fb) values), ar_length = map (\<lambda>v. to_int32 (int (length (value_bytes fb v)))) values,
     ar_offset = map (\<lambda>i. to_int32 (int (length (concat (map (value_bytes fb) (take i values)))))) [0..<length keys],
     ar_types = map (\<lambda>k. case key_type k of None \<Rightarrow> [] | Some t \<Rightarrow> t) keys, ar_keys = keys\<rparr>"
proof -
  have s: "map (\<lambda>z. f (snd z)) (take i (zip keys values)) = map f (take i values)" for i and f :: "kvval \<Rightarrow> 'b"
    by (rule nth_equalityI) (use assms in simp_all)
  have v: "map (\<lambda>z. f (snd z)) (zip keys values) = map f values" for f :: "kvval \<Rightarrow> 'b"
    using s [of f "length keys"] assms by simp
  have k: "map (\<lambda>z. f (fst z)) (zip keys values) = map f keys" for f :: "string \<Rightarrow> 'b"
    by (rule nth_equalityI) (use assms in simp_all)
  show ?thesis
    using put_value_prefix [of "length keys" "zip keys values" fb keys] assms
    by (simp add: dbPut2Resp_def APIResponse_new_def resize_def comp_def
        s [of "value_bytes fb"] v [of "value_bytes fb"] v [of "\<lambda>v. to_int32 (int (length (value_bytes fb v)))"]
        k [of "\<lambda>k. case key_type k of None \<Rightarrow> [] | Some t \<Rightarrow> t"])
qed

lemma split_limit_implode:
  assumes "xs \<noteq> []" and "last xs \<noteq> []" and "\<forall>x \<in> set xs. d \<notin> set x" and "int (length e + length xs) < l"
  shows "split_loop d l e (implode_glue xs [d]) = e @ xs"
  using assms
proof (induction xs arbitrary: e rule: list_nonempty_induct)
  case (single x)
  then show ?case by (auto simp: implode_glue_single split_loop_last)
next
  case (cons x xs)
  then show ?case by (auto simp: implode_glue_Cons split_loop_sep)
qed

lemma UrlEncode_ne [simp]: "UrlEncode s = [] \<longleftrightarrow> s = []"
  by (cases s) auto

lemma UrlEncode_comma: "CHR '','' \<notin> set (UrlEncode s)"
  using UrlEncode_chars [of "CHR '',''" s] by (auto simp: url_plain_def is_alnum_def is_digit_def)

lemma params_decode:
  assumes "keys \<noteq> []" and "last keys \<noteq> []" and "int (length keys) \<le> kMaxParamsCount"
  shows "map UrlDecode (split_limit (implode_glue (map UrlEncode keys) '','') CHR '','' (kMaxParamsCount + 1)) = keys"
proof -
  have "split_limit (implode_glue (map UrlEncode keys) '','') CHR '','' (kMaxParamsCount + 1) = [] @ map UrlEncode keys"
    unfolding split_limit_def by (rule split_limit_implode) (use assms UrlEncode_comma in \<open>auto simp: last_map\<close>)
  then show ?thesis by (simp add: comp_def UrlDecode_UrlEncode)
qed



end
