(* ===== verification/KvTypes.thy ===== *)
theory KvTypes
  imports HttpAPI ParserReplay
begin

text \<open>
  The types of the records: the interface names the type of a value after the prefix of its
  key (\<open>gKeyTypes\<close> of src/jiexi/src/HttpAPI.cc), and the handlers of \<open>tparser\<close> must agree. Here
  every handler is shown to keep a database in which every value has the type of its key,
  whatever the input: a handler that returns has written only such values. The rules of the
  collection \<open>keeps\<close> say it of each operation, in terms of the ones it calls.
\<close>

definition val_type :: "kvval \<Rightarrow> string" where
  "val_type v = (case v of
     VStr s \<Rightarrow> ''string'' | VTx t \<Rightarrow> ''Tx'' | VSpentBy t \<Rightarrow> ''TxSpentBy'' | VUnconfirmed u \<Rightarrow> ''UnconfirmedTx''
   | VBlock b \<Rightarrow> ''Block'' | VAddress a \<Rightarrow> ''Address'' | VAddressTx a \<Rightarrow> ''AddressTx''
   | VUnspent u \<Rightarrow> ''AddressUnspent'' | VUnspentIdx i \<Rightarrow> ''AddressUnspentIdx'')"

definition typed :: "('db \<Rightarrow> string \<Rightarrow> kvval option) \<Rightarrow> 'db \<Rightarrow> bool" where
  "typed V db = (\<forall>k v t. V db k = Some v \<longrightarrow> key_type k = Some t \<longrightarrow> val_type v = t)"

definition fits :: "string \<Rightarrow> kvval \<Rightarrow> bool" where
  "fits k v = (key_type k = Some (val_type v))"

section \<open>Types of the keys\<close>

lemma key_prefix:
  "key_type (CHR ''0'' # CHR ''1'' # r) = Some ''Tx''" "key_type (CHR ''0'' # CHR ''2'' # r) = Some ''TxSpentBy''"
  "key_type (CHR ''0'' # CHR ''3'' # r) = Some ''UnconfirmedTx''" "key_type (CHR ''1'' # CHR ''0'' # r) = Some ''string''"
  "key_type (CHR ''1'' # CHR ''1'' # r) = Some ''Block''" "key_type (CHR ''1'' # CHR ''2'' # r) = Some ''string''"
  "key_type (CHR ''1'' # CHR ''3'' # r) = Some ''string''" "key_type (CHR ''1'' # CHR ''4'' # r) = Some ''string''"
  "key_type (CHR ''1'' # CHR ''5'' # r) = Some ''string''" "key_type (CHR ''2'' # CHR ''0'' # r) = Some ''Address''"
  "key_type (CHR ''2'' # CHR ''1'' # r) = Some ''AddressTx''" "key_type (CHR ''2'' # CHR ''2'' # r) = Some ''string''"
  "key_type (CHR ''2'' # CHR ''3'' # r) = Some ''AddressUnspent''" "key_type (CHR ''2'' # CHR ''4'' # r) = Some ''AddressUnspentIdx''"
  "key_type (CHR ''9'' # CHR ''0'' # r) = Some ''string''"
  by (simp_all add: key_type_def gKeyTypes_def atoi32_def to_int32_def atoi_def c_str_def is_space_def is_digit_def digit_val_def Let_def)

fun kind_type :: "kvkey \<Rightarrow> string" where
  "kind_type (KTx h) = ''Tx''" | "kind_type (KSpend h n) = ''TxSpentBy''" | "kind_type (KUnconfirmed h) = ''UnconfirmedTx''"
| "kind_type (KBlock h) = ''Block''" | "kind_type (KAddr a) = ''Address''" | "kind_type (KAddrTx a i) = ''AddressTx''"
| "kind_type (KUnspent a i) = ''AddressUnspent''" | "kind_type (KUnspentIdx a h n) = ''AddressUnspentIdx''"
| "kind_type _ = ''string''"

lemma key_type_key_str: "key_type (key_str k) = Some (kind_type k)"
  by (cases k) (simp_all add: key_str.simps key_prefix)

lemma val_type_simps [simp]:
  "val_type (VStr s) = ''string''" "val_type (VTx t) = ''Tx''" "val_type (VSpentBy b) = ''TxSpentBy''"
  "val_type (VUnconfirmed w) = ''UnconfirmedTx''" "val_type (VBlock k) = ''Block''" "val_type (VAddress a) = ''Address''"
  "val_type (VAddressTx x) = ''AddressTx''" "val_type (VUnspent u) = ''AddressUnspent''" "val_type (VUnspentIdx i) = ''AddressUnspentIdx''"
  by (simp_all add: val_type_def)

lemma fits_record:
  "fits (key_str (KTx h)) (VTx t)" "fits (key_str (KSpend h n)) (VSpentBy b)" "fits (key_str (KUnconfirmed h)) (VUnconfirmed w)"
  "fits (key_str (KHeight m)) (VStr s)" "fits (key_str (KBlock h)) (VBlock k)" "fits (key_str (KBlockTxs h n)) (VStr s)"
  "fits (key_str (KOrphan m)) (VStr s)" "fits (key_str (KTimestamp x m)) (VStr s)" "fits (key_str (KExtra h)) (VStr s)"
  "fits (key_str (KAddr a)) (VAddress d)" "fits (key_str (KAddrTx a m)) (VAddressTx e)" "fits (key_str (KAddrTxIdx a h)) (VStr s)"
  "fits (key_str (KUnspent a m)) (VUnspent u)" "fits (key_str (KUnspentIdx a h n)) (VUnspentIdx m)"
  "fits (key_str KOffset) (VStr s)" "fits (key_str KUnconfCount) (VStr s)" "fits (key_str KUnconfSize) (VStr s)"
  by (simp_all add: fits_def key_type_key_str)

lemma fits_text: "fits (''22_'' @ r) (VStr t)" "fits (''15_'' @ r) (VStr t)"
  by (simp_all add: fits_def key_prefix)

lemma fits_root: "root_AddressTx v = Inr x \<Longrightarrow> fits (key_str (KAddrTx a i)) v"
  by (auto simp: root_AddressTx_def fits_record split: kvval.splits)

section \<open>The operations on the store\<close>

definition ensures :: "'a res \<Rightarrow> ('a \<Rightarrow> bool) \<Rightarrow> bool" where
  \<comment> \<open>the result, if there is one\<close>
  "ensures m Q = (\<forall>x. m = Inr x \<longrightarrow> Q x)"

definition typed_state :: "('db \<Rightarrow> string \<Rightarrow> kvval option) \<Rightarrow> 'db pstate \<Rightarrow> bool" where
  "typed_state V s = typed V (p_kv s)"

named_theorems keeps "rules for operations that keep the types of the records"

lemma ensures_Inr [keeps]: "Q x \<Longrightarrow> ensures (Inr x) Q"
  and ensures_Inl [keeps]: "ensures (Inl e) Q"
  by (simp_all add: ensures_def)

lemma ensures_if [keeps]: "ensures m Q \<Longrightarrow> ensures n Q \<Longrightarrow> ensures (if b then m else n) Q"
  by simp

lemma ensures_bind: "ensures m P \<Longrightarrow> (\<And>x. m = Inr x \<Longrightarrow> P x \<Longrightarrow> ensures (f x) Q) \<Longrightarrow> ensures (bindE m f) Q"
  by (cases m) (simp_all add: ensures_def)

lemma ensures_bind_pair:
  "ensures m (\<lambda>(a, s). typed_state V s) \<Longrightarrow> (\<And>a s. m = Inr (a, s) \<Longrightarrow> typed_state V s \<Longrightarrow> ensures (f a s) Q) \<Longrightarrow>
     ensures (bindE m (\<lambda>(a, s). f a s)) Q"
  by (cases m) (auto simp: ensures_def)

lemma ensures_any: "ensures m (\<lambda>_. True)"
  by (simp add: ensures_def)

lemma ensures_bind_any: "(\<And>x. m = Inr x \<Longrightarrow> ensures (f x) Q) \<Longrightarrow> ensures (bindE m f) Q"
  by (cases m) (simp_all add: ensures_def)

lemmas seq = ensures_bind_pair ensures_bind

lemma ensures_foldE:
  assumes "I s" and "\<And>x s. I s \<Longrightarrow> ensures (f x s) I"
  shows "ensures (foldE f xs s) I"
  using assms(1)
proof (induction xs arbitrary: s)
  case (Cons x xs)
  show ?case unfolding foldE.simps by (rule ensures_bind [OF assms(2) [OF Cons.prems]]) (rule Cons.IH)
qed (simp add: ensures_def)

lemmas foldE_typed [keeps] = ensures_foldE [where I = "typed_state V" for V]

lemma kvset_typed [keeps]:
  assumes "rocks_ok (pe_rocks E) V" and "typed_state V s" and "fits k v"
  shows "ensures (kvset E k v s) (typed_state V)"
proof -
  obtain ok db where p: "rk_Put (pe_rocks E) (p_kv s) k v = (ok, db)" by fastforce
  have "V (snd (rk_Put (pe_rocks E) (p_kv s) k v)) = (V (p_kv s))(k \<mapsto> v)" using assms(1) by (simp add: rocks_ok_def)
  then have "V db = (V (p_kv s))(k \<mapsto> v)" by (simp add: p)
  moreover have "p_kv s' = db" if "kvset E k v s = Inr s'" for s'
    using that p by (auto simp: kvset_def KVDB_set_def bindE_eq_Inr split: if_splits)
  ultimately show ?thesis using assms(2,3) by (auto simp: ensures_def typed_state_def typed_def fits_def)
qed

lemma kvdel_typed [keeps]:
  assumes "rocks_ok (pe_rocks E) V" and "typed_state V s"
  shows "ensures (kvdel E k s) (typed_state V)"
proof -
  obtain ok db where p: "rk_Delete (pe_rocks E) (p_kv s) k = (ok, db)" by fastforce
  have "V (snd (rk_Delete (pe_rocks E) (p_kv s) k)) = (V (p_kv s))(k := None)" using assms(1) by (simp add: rocks_ok_def)
  then have "V db = (V (p_kv s))(k := None)" by (simp add: p)
  moreover have "p_kv s' = db" if "kvdel E k s = Inr s'" for s'
    using that p by (auto simp: kvdel_def KVDB_del_def bindE_eq_Inr split: if_splits)
  ultimately show ?thesis using assms(2) by (auto simp: ensures_def typed_state_def typed_def)
qed

lemma getAddressInfo_typed [keeps]: "typed_state V s \<Longrightarrow> ensures (getAddressInfo E a s) (\<lambda>(p, s). typed_state V s)"
  by (auto simp: ensures_def typed_state_def getAddressInfo_def clear_cache_def bindE_eq_Inr Let_def split: option.splits if_splits)

lemma setInfo_typed [keeps]: "typed_state V s \<Longrightarrow> typed_state V (setInfo p f s)"
  by (simp add: typed_state_def setInfo_def)

lemma flush_typed [keeps]:
  assumes "rocks_ok (pe_rocks E) V" and "typed_state V s"
  shows "ensures (flushAddressInfo E bal s) (typed_state V)"
  unfolding flushAddressInfo_def flush_one_def [abs_def]
  by (rule seq keeps fits_record assms | assumption)+

section \<open>The addresses\<close>

lemma insertAddressTx_typed [keeps]:
  assumes "rocks_ok (pe_rocks E) V" and "typed_state V s"
  shows "ensures (insertAddressTx E l it s) (typed_state V)"
  unfolding insertAddressTx_def Let_def
  by (rule seq keeps fits_record assms | assumption)+

lemma accept_address_typed [keeps]:
  assumes "rocks_ok (pe_rocks E) V" and "typed_state V s"
  shows "ensures (accpetTx_insertAddressTxs E l bal s) (typed_state V)"
  unfolding accpetTx_insertAddressTxs_def by (rule keeps assms | assumption)+

lemma switchTxNode_typed [keeps]:
  assumes "rocks_ok (pe_rocks E) V" and "typed_state V s"
  shows "ensures (switchTxNode E a i j s) (typed_state V)"
  unfolding switchTxNode_def Let_def list.map One_nat_def nth_Cons_0 nth_Cons_Suc
  by (rule seq keeps fits_record fits_text fits_root assms ensures_any | assumption)+

lemma confirmAddressTxNode_typed [keeps]:
  assumes "rocks_ok (pe_rocks E) V" and "typed_state V s"
  shows "ensures (confirmAddressTxNode E a n p s) (typed_state V)"
  unfolding confirmAddressTxNode_def Let_def
  by (rule seq keeps fits_record assms ensures_any | assumption)+

lemma unconfirmAddressTxNode_typed [keeps]:
  assumes "rocks_ok (pe_rocks E) V" and "typed_state V s"
  shows "ensures (unconfirmAddressTxNode E a n p s) (typed_state V)"
  unfolding unconfirmAddressTxNode_def Let_def
  by (rule seq keeps fits_record assms ensures_any | assumption)+

lemma confirm_position_typed:
  assumes "confirm_position E a h p s = Some r" and "rocks_ok (pe_rocks E) V" and "typed_state V s"
  shows "ensures r (\<lambda>(n, s). typed_state V s)"
proof -
  let ?P = "\<lambda>E a h p s r. rocks_ok (pe_rocks E) V \<longrightarrow> typed_state V s \<longrightarrow> ensures r (\<lambda>(n, s). typed_state V s)"
  have "?P E a h p s r"
  proof (rule confirm_position.raw_induct [where P = ?P, OF _ assms(1)], intro impI)
    fix pos and E :: "'a penv" and a h p s r
    assume IH: "\<And>E a h p s r. pos E a h p s = Some r \<Longrightarrow> ?P E a h p s r"
      and R: "rocks_ok (pe_rocks E) V" and s: "typed_state V s"
      and body: "(case getAddressTxNode E a h s of Inl e \<Rightarrow> Some (Inl e)
        | Inr currNode \<Rightarrow>
            if lastConfirmedTxIdx (p_heap s ! p) + 1 = nd_idx currNode then Some (Inr (currNode, s))
            else (case switchTxNode E a (lastConfirmedTxIdx (p_heap s ! p) + 1) (nd_idx currNode) s of
                Inl e \<Rightarrow> Some (Inl e) | Inr s' \<Rightarrow> pos E a h p s')) = Some r"
    show "ensures r (\<lambda>(n, s). typed_state V s)"
      using body IH [of E] R s switchTxNode_typed [OF R s]
      by (auto simp: ensures_def bindE_def split: sum.splits if_splits)
  qed
  with assms show ?thesis by blast
qed

lemma reject_position_typed:
  assumes "reject_position E a h p s = Some r" and "rocks_ok (pe_rocks E) V" and "typed_state V s"
  shows "ensures r (\<lambda>(n, s). typed_state V s)"
proof -
  let ?P = "\<lambda>E a h p s r. rocks_ok (pe_rocks E) V \<longrightarrow> typed_state V s \<longrightarrow> ensures r (\<lambda>(n, s). typed_state V s)"
  have "?P E a h p s r"
  proof (rule reject_position.raw_induct [where P = ?P, OF _ assms(1)], intro impI)
    fix pos and E :: "'a penv" and a h p s r
    assume IH: "\<And>E a h p s r. pos E a h p s = Some r \<Longrightarrow> ?P E a h p s r"
      and R: "rocks_ok (pe_rocks E) V" and s: "typed_state V s"
      and body: "(case getAddressTxNode E a h s of Inl e \<Rightarrow> Some (Inl e)
        | Inr currNode \<Rightarrow>
            if nd_idx currNode + 1 = txCount (p_heap s ! p) then Some (Inr (currNode, s))
            else (case bindE (assertE ''addrInfo->txCount_ >= 2'' (txCount (p_heap s ! p) \<ge> 2)) (\<lambda>_.
                switchTxNode E a (txCount (p_heap s ! p) - 1) (nd_idx currNode) s) of
                Inl e \<Rightarrow> Some (Inl e) | Inr s' \<Rightarrow> pos E a h p s')) = Some r"
    show "ensures r (\<lambda>(n, s). typed_state V s)"
      using body IH [of E] R s switchTxNode_typed [OF R s]
      by (auto simp: ensures_def bindE_def split: sum.splits if_splits)
  qed
  with assms show ?thesis by blast
qed

lemma confirmAddressTx_typed [keeps]:
  assumes "rocks_ok (pe_rocks E) V" and "typed_state V s"
  shows "ensures (confirmAddressTx E l it s) (typed_state V)"
  unfolding confirmAddressTx_def
proof (rule ensures_bind_pair [OF getAddressInfo_typed [OF assms(2)]])
  fix p s assume s: "typed_state V s"
  show "ensures (case confirm_position E (fst it) (tl_txHash l) p s of None \<Rightarrow> Inl NoReturn
      | Some r \<Rightarrow> bindE r (\<lambda>(n, s). confirmAddressTxNode E (fst it) (n\<lparr>nd_txBlockTime := tl_maxBlkTimestamp l, nd_txHeight := tl_blkHeight l\<rparr>) p s))
      (typed_state V)"
    by (cases "confirm_position E (fst it) (tl_txHash l) p s")
      (auto intro!: seq keeps assms(1) confirm_position_typed [OF _ assms(1) s])
qed

lemma unconfirmAddressTx_typed [keeps]:
  assumes "rocks_ok (pe_rocks E) V" and "typed_state V s"
  shows "ensures (unconfirmAddressTx E l it s) (typed_state V)"
  unfolding unconfirmAddressTx_def
  by (rule seq keeps assms ensures_any | assumption)+

lemma removeAddressTxNode_typed [keeps]:
  assumes "rocks_ok (pe_rocks E) V" and "typed_state V s"
  shows "ensures (removeAddressTxNode E a idx h d p s) (typed_state V)"
  unfolding removeAddressTxNode_def
  by (rule seq keeps assms ensures_any | assumption)+

lemma rejectAddressTx_typed [keeps]:
  assumes "rocks_ok (pe_rocks E) V" and "typed_state V s"
  shows "ensures (rejectAddressTx E l it s) (typed_state V)"
  unfolding rejectAddressTx_def
proof (rule ensures_bind_pair [OF getAddressInfo_typed [OF assms(2)]])
  fix p s assume s: "typed_state V s"
  show "ensures (case reject_position E (fst it) (tl_txHash l) p s of None \<Rightarrow> Inl NoReturn
      | Some r \<Rightarrow> bindE r (\<lambda>(n, s). removeAddressTxNode E (fst it) (txCount (p_heap s ! p) - 1) (tl_txHash l) (nd_balanceDiff n) p s))
      (typed_state V)"
    by (cases "reject_position E (fst it) (tl_txHash l) p s")
      (auto intro!: seq keeps assms(1) reject_position_typed [OF _ assms(1) s])
qed

lemma rejectAddressTxs_typed [keeps]:
  assumes "rocks_ok (pe_rocks E) V" and "typed_state V s"
  shows "ensures (rejectAddressTxs E l bal s) (typed_state V)"
  unfolding rejectAddressTxs_def by (rule keeps assms | assumption)+

section \<open>Unspent outputs\<close>

lemma insertAddressUnspent_typed [keeps]:
  assumes "rocks_ok (pe_rocks E) V" and "typed_state V s"
  shows "ensures (insertAddressUnspent E v a h n m s) (typed_state V)"
  unfolding insertAddressUnspent_def Let_def
  by (rule seq keeps fits_record assms | assumption)+

lemma deleteUnspent_typed [keeps]:
  assumes "rocks_ok (pe_rocks E) V" and "typed_state V s"
  shows "ensures (deleteUnspent E a h n s) (typed_state V)"
  unfolding deleteUnspent_def
  by (rule seq keeps assms ensures_any | assumption)+

lemma removeUnspent_typed [keeps]:
  assumes "rocks_ok (pe_rocks E) V" and "typed_state V s"
  shows "ensures (removeUnspent E p a s) (typed_state V)"
  unfolding removeUnspent_def
  by (rule seq keeps assms | assumption)+

lemma acceptTx_removeUnspentOutputs_typed [keeps]:
  assumes "rocks_ok (pe_rocks E) V" and "typed_state V s"
  shows "ensures (acceptTx_removeUnspentOutputs E tx prevs s) (typed_state V)"
  unfolding acceptTx_removeUnspentOutputs_def split_beta
  by (rule seq keeps assms ensures_any | assumption)+

lemma acceptTx_insertSpendTxs_typed [keeps]:
  assumes "rocks_ok (pe_rocks E) V" and "typed_state V s"
  shows "ensures (acceptTx_insertSpendTxs E h tx s) (typed_state V)"
  unfolding acceptTx_insertSpendTxs_def split_beta
  by (rule seq keeps fits_record assms | assumption)+

section \<open>The handlers of transactions\<close>

lemma foldE_pair [keeps]:
  assumes "typed_state V s" and "\<And>x a s. typed_state V s \<Longrightarrow> ensures (f x (a, s)) (\<lambda>(a, s). typed_state V s)"
  shows "ensures (foldE f xs (a, s)) (\<lambda>(a, s). typed_state V s)"
  by (rule ensures_foldE [where I = "\<lambda>(a, s). typed_state V s"]) (use assms in auto)

lemma pair_Inr [keeps]: "typed_state V s \<Longrightarrow> ensures (Inr (a, s)) (\<lambda>(a, s). typed_state V s)"
  by (simp_all add: ensures_def)

lemma accept_output_typed:
  assumes "rocks_ok (pe_rocks E) V" and "typed_state V s"
  shows "ensures (accept_output E h x (bal, outs, s)) (\<lambda>(bal, outs, s). typed_state V s)"
  unfolding accept_output_def split_beta split_conv fst_conv snd_conv
  by (rule ensures_bind [where P = "\<lambda>x. typed_state V (snd x)"],
      rule ensures_foldE [where I = "\<lambda>x. typed_state V (snd x)"])
    (simp_all add: assms, (rule seq keeps assms | simp)+)

lemma accept_outputs_typed [keeps]:
  assumes "rocks_ok (pe_rocks E) V" and "typed_state V s"
  shows "ensures (foldE (accept_output E h) xs (bal, outs, s)) (\<lambda>(bal, outs, s). typed_state V s)"
  by (rule ensures_foldE [where I = "\<lambda>(bal, outs, s). typed_state V s"])
    (use assms accept_output_typed [OF assms(1)] in auto)

lemma counters_typed [keeps]:
  assumes "rocks_ok (pe_rocks E) V" and "typed_state V s"
  shows "ensures (addUnconfirmedTxPool E l s) (typed_state V)" "ensures (removeUnconfirmedTxPool E l s) (typed_state V)"
proof -
  have "ensures (store_pool_counters E s') (typed_state V)" if "typed_state V s'" for s'
    unfolding store_pool_counters_def by (rule seq keeps fits_record assms(1) that | assumption)+
  then show "ensures (addUnconfirmedTxPool E l s) (typed_state V)" "ensures (removeUnconfirmedTxPool E l s) (typed_state V)"
    using assms(2) by (simp_all add: addUnconfirmedTxPool_def removeUnconfirmedTxPool_def typed_state_def)
qed

lemma notify_typed [keeps]: "typed_state V s \<Longrightarrow> typed_state V (writeNotificationLogs E bal l s)"
  by (simp add: writeNotificationLogs_def typed_state_def)

lemma ensures_bind_triple:
  "ensures m (\<lambda>(a, b, s). typed_state V s) \<Longrightarrow> (\<And>a b s. m = Inr (a, b, s) \<Longrightarrow> typed_state V s \<Longrightarrow> ensures (f a b s) Q) \<Longrightarrow>
     ensures (bindE m (\<lambda>(a, b, s). f a b s)) Q"
  by (cases m) (auto simp: ensures_def)

lemma ensures_case_triple [keeps]: "(\<And>a b c. ensures (f a b c) Q) \<Longrightarrow> ensures (case x of (a, b, c) \<Rightarrow> f a b c) Q"
  by (cases x) auto

lemma acceptTx_typed:
  assumes "rocks_ok (pe_rocks E) V" and "typed_state V s"
  shows "ensures (acceptTx E l s) (typed_state V)"
  unfolding acceptTx_def Let_def
  apply (rule ensures_bind_triple seq keeps fits_record assms TrueI ensures_any | assumption)+
  done

lemma confirmTx_typed:
  assumes "rocks_ok (pe_rocks E) V" and "typed_state V s"
  shows "ensures (confirmTx E l s) (typed_state V)"
  unfolding confirmTx_def Let_def
  apply (rule ensures_bind_any, rule ensures_bind, (rule keeps assms | assumption)+)
  apply (rule ensures_bind_any, rule ensures_bind_any, rule ensures_bind_any)
  apply (rule seq keeps fits_record assms | assumption)+
  done

lemma unconfirmTx_typed:
  assumes "rocks_ok (pe_rocks E) V" and "typed_state V s"
  shows "ensures (unconfirmTx E l s) (typed_state V)"
  unfolding unconfirmTx_def Let_def
  apply (rule seq keeps fits_record assms TrueI ensures_any | assumption)+
  done

lemma reject_input_typed [keeps]:
  assumes "rocks_ok (pe_rocks E) V" and "typed_state V s"
  shows "ensures (reject_input E x (bal, s)) (\<lambda>(bal, s). typed_state V s)"
  unfolding reject_input_def split_beta split_conv fst_conv snd_conv
  by (rule ensures_bind, rule kvdel_typed [OF assms], rule ensures_foldE [where I = "\<lambda>x. typed_state V (snd x)", unfolded split_beta])
    (simp_all, (rule seq keeps assms | simp)+)

lemma reject_output_typed [keeps]:
  assumes "rocks_ok (pe_rocks E) V" and "typed_state V s"
  shows "ensures (reject_output E h x (bal, s)) (\<lambda>(bal, s). typed_state V s)"
  unfolding reject_output_def split_beta split_conv fst_conv snd_conv
  by (rule ensures_foldE [where I = "\<lambda>x. typed_state V (snd x)", unfolded split_beta])
    (simp_all add: assms, (rule seq keeps assms | simp)+)

lemma rejectTx_typed:
  assumes "rocks_ok (pe_rocks E) V" and "typed_state V s"
  shows "ensures (rejectTx E l s) (typed_state V)"
  unfolding rejectTx_def Let_def
  apply (rule seq keeps fits_record assms TrueI case_prodI ensures_any | assumption)+
  done

section \<open>Blocks\<close>

lemma ensures_case_pair: "(\<And>a b. ensures (f a b) Q) \<Longrightarrow> ensures (case x of (a, b) \<Rightarrow> f a b) Q"
  by (cases x) auto

lemma update_next_hash_typed [keeps]:
  assumes "rocks_ok (pe_rocks E) V" and "typed_state V s"
  shows "ensures (update_next_hash E h t s) (typed_state V)"
  unfolding update_next_hash_def
  by (rule seq keeps fits_record assms ensures_any | assumption)+

lemma insertBlock_typed [keeps]:
  assumes "rocks_ok (pe_rocks E) V" and "typed_state V s"
  shows "ensures (insertBlock E blk n sz t s) (typed_state V)"
  unfolding insertBlock_def Let_def
  apply (rule ensures_bind_any, rule ensures_bind_any, rule ensures_bind_any, rule ensures_bind_any)
  apply (rule seq keeps fits_record assms | assumption)+
  done

lemma insert_block_tx_typed:
  assumes "rocks_ok (pe_rocks E) V" and "typed_state V s"
  shows "ensures (insert_block_tx E h tx (i, value, s)) (\<lambda>(i, value, s). typed_state V s)"
  unfolding insert_block_tx_def Let_def split_conv
  by (rule ensures_if) (rule ensures_bind keeps fits_record assms case_prodI | assumption)+

lemma insertBlockTxs_typed [keeps]:
  assumes "rocks_ok (pe_rocks E) V" and "typed_state V s"
  shows "ensures (insertBlockTxs E blk s) (typed_state V)"
  unfolding insertBlockTxs_def Let_def
proof (rule ensures_bind_triple)
  show "ensures (foldE (insert_block_tx E (pe_bh E (GetBlockHeader blk))) (vtx blk) (0, [], s)) (\<lambda>(i, value, s). typed_state V s)"
    by (rule ensures_foldE [where I = "\<lambda>(i, value, s). typed_state V s"])
      (use assms insert_block_tx_typed [OF assms(1)] in auto)
qed (rule keeps fits_record assms(1) | assumption)+

lemma removeOrphan_typed [keeps]:
  assumes "rocks_ok (pe_rocks E) V" and "typed_state V s"
  shows "ensures (removeOrphan E n h s) (typed_state V)"
  unfolding removeOrphan_def Let_def
  by (rule ensures_case_pair) (rule seq keeps fits_record assms ensures_any | assumption)+

lemma notify_block_typed [keeps]: "typed_state V s \<Longrightarrow> typed_state V (notify_block E ty h n s)"
  by (simp add: notify_block_def typed_state_def)

lemma acceptBlock_typed [keeps]:
  assumes "rocks_ok (pe_rocks E) V" and "typed_state V s"
  shows "ensures (acceptBlock E rows l s) (\<lambda>(b, s). typed_state V s)"
  unfolding acceptBlock_def Let_def
  by (rule ensures_bind_any, rule ensures_case_pair) (rule seq keeps fits_record assms case_prodI | assumption)+

lemma rejectBlock_typed [keeps]:
  assumes "rocks_ok (pe_rocks E) V" and "typed_state V s"
  shows "ensures (rejectBlock E rows l s) (typed_state V)"
  unfolding rejectBlock_def Let_def
  by (rule ensures_bind_any, rule ensures_case_pair, rule ensures_bind_any)
    (rule seq keeps fits_record assms ensures_any | assumption)+

lemma recognizeBlocks_typed [keeps]:
  assumes "rocks_ok (pe_rocks E) V" and "typed_state V s"
  shows "ensures (recognizeBlocks E rc m n stop s) (typed_state V)"
proof -
  have "ensures (recognize_loop E rc stop vs s) (typed_state V)" for vs
    using assms(2)
  proof (induction vs arbitrary: s)
    case (Cons v vs)
    show ?case unfolding recognize_loop.simps recognizeCoinbaseTx_def
      apply (rule ensures_bind_any, rule ensures_if, rule ensures_Inr, rule Cons.prems)
      apply (rule ensures_bind_any, rule ensures_bind_any, rule ensures_bind_any, rule ensures_bind_any)
      apply (rule ensures_bind, rule kvset_typed [OF assms(1) Cons.prems fits_text(2)], erule Cons.IH)
      done
  qed (simp add: ensures_def)
  then show ?thesis unfolding recognizeBlocks_def by (rule ensures_bind_any)
qed

section \<open>Rows\<close>

lemma handleTxlog2_typed:
  assumes "rocks_ok (pe_rocks E) V" and "typed_state V s"
  shows "ensures (handleTxlog2 E rc rows l s) (typed_state V)"
proof -
  note ops = acceptTx_typed confirmTx_typed unconfirmTx_typed rejectTx_typed
  show ?thesis
    unfolding handleTxlog2_def updateLastTxlog2Id_def
    apply (rule ensures_if, rule ensures_Inr, rule assms(2), rule ensures_bind)
     apply (rule seq keeps ops assms | assumption)+
    apply (rule kvset_typed fits_record assms(1) | assumption)+
    done
qed

lemma multiGet_length: "rocks_ok R V \<Longrightarrow> length (KVDB_multiGet R keys db) = length keys"
  by (simp add: KVDB_multiGet_def rocks_ok_def)

text \<open>
  C39. What the interface says of the type of a value is right. Whatever rows the handlers of
  \<open>tparser\<close> have worked through, starting on a database in which every value has the type of its
  key (an empty one, for instance), the type that a reply gives for a key the program formats
  is the type of the value that is stored there; for any other key it is that or none.
\<close>

theorem kv_types_right:
  assumes "rocks_ok (pe_rocks E) V" and "typed V (p_kv s)" and "foldE (handleTxlog2 E rc rows) ls s = Inr s'"
    and "dbGetKeys (pe_rocks E) fb (p_kv s') keys APIResponse_new = Inr resp"
    and "i < length keys" and "V (p_kv s') (keys ! i) = Some v"
  shows "if keys ! i \<in> range key_str then ar_types resp ! i = val_type v else ar_types resp ! i \<in> {[], val_type v}"
proof -
  have "ensures (foldE (handleTxlog2 E rc rows) ls s) (typed_state V)"
    by (rule foldE_typed [OF _ handleTxlog2_typed [OF assms(1)]]) (use assms(2) in \<open>simp_all add: typed_state_def\<close>)
  then have t: "typed V (p_kv s')" using assms(3) by (simp add: ensures_def typed_state_def)
  have "ar_types resp = map (\<lambda>k. case key_type k of None \<Rightarrow> [] | Some t \<Rightarrow> t) keys"
    using assms(4) dbPut2Resp_new [OF multiGet_length [OF assms(1), of keys "p_kv s'"], of fb]
    by (auto simp: dbGetKeys_def bindE_eq_Inr)
  then have "ar_types resp ! i = (case key_type (keys ! i) of None \<Rightarrow> [] | Some t \<Rightarrow> t)" using assms(5) by simp
  moreover have "key_type (keys ! i) = Some x \<Longrightarrow> val_type v = x" for x using t assms(6) by (auto simp: typed_def)
  moreover have "keys ! i \<in> range key_str \<Longrightarrow> \<exists>x. key_type (keys ! i) = Some x" by (auto simp: key_type_key_str)
  ultimately show ?thesis by (auto split: option.splits)
qed

theorem kv_types_right_witness:
  "\<exists>s' resp. foldE (handleTxlog2 parser_env \<lparr>payoutAddresses = [], coinbaseTags = []\<rparr> sample_rows) sample_log (fresh []) = Inr s' \<and>
     dbGetKeys list_rocks (\<lambda>_. []) (p_kv s') [key_str KOffset] APIResponse_new = Inr resp \<and> ar_types resp ! 0 = ''string''"
proof -
  obtain O' where run: "main_run parser_env sample_A sample_T sample_X sample_rows genesis sample_log ((\<lambda>_. Absent, []), [], O')"
    using sample_run by blast
  from main_run_returns [OF run sample_stands parser_env_ok, of "\<lparr>payoutAddresses = [], coinbaseTags = []\<rparr>"]
  obtain s' where s': "foldE (handleTxlog2 parser_env \<lparr>payoutAddresses = [], coinbaseTags = []\<rparr> sample_rows) sample_log (fresh []) = Inr s'"
    "getLastTxLog2Id parser_env s' = Inr (4, s')"
    by (auto simp: returns_def sample_log_def sample_row_def)
  have R: "pe_rocks parser_env = list_rocks" by (simp add: parser_env_def)
  obtain v where v: "map_of (p_kv s') (key_str KOffset) = Some v"
    using s'(2) by (cases "map_of (p_kv s') (key_str KOffset)")
      (auto simp: getLastTxLog2Id_def kvgetMayNotExist_def KVDB_getMayNotExist_def R list_rocks_def bindE_eq_Inr)
  have val: "val_type v = ''string''"
    using s'(2) v by (cases v)
      (auto simp: getLastTxLog2Id_def kvgetMayNotExist_def KVDB_getMayNotExist_def R list_rocks_def bindE_eq_Inr value_string_def)
  obtain resp where r: "dbGetKeys (pe_rocks parser_env) (\<lambda>_. []) (p_kv s') [key_str KOffset] APIResponse_new = Inr resp"
    using dbPut2Resp_new [OF multiGet_length [OF parser_env_ok(1), of "[key_str KOffset]" "p_kv s'"], of "\<lambda>_. []"]
    by (simp add: dbGetKeys_def)
  from kv_types_right [OF parser_env_ok(1) _ s'(1) r, of 0 v] v val have "ar_types resp ! 0 = ''string''"
    by (simp add: typed_def fresh_def)
  with s'(1) r show ?thesis unfolding R by blast
qed

end
