(* ===== verification/AddressAPI.thy ===== *)
theory AddressAPI
  imports HttpAPI ParserReplay
begin

text \<open>
  The JSON interface of the explorer (\<open>cb_api\<close> and \<open>APIHandler\<close> of src/jiexi/src/HttpAPI.cc): an
  address with its newest transactions, and a transaction. \<open>buf\<close> is the text built so far, as
  in the code, since \<open>removeLastComma\<close> looks at its last character.

  The property ties the interface to the chain of transactions that \<open>tparser\<close> keeps (theory
  AddrChain): the keys of an address sort like the positions, so the scan of the store, which
  goes down from the last position, meets exactly the records of the address, newest first.
\<close>

section \<open>Operations\<close>

record APIInOut =
  io_verbose :: int
  io_pageNo :: int
  io_pageSize :: int
  io_errorNo :: int
  io_errorMsg :: string
  io_data :: string

definition APIInOut_new :: "int \<Rightarrow> int \<Rightarrow> int \<Rightarrow> APIInOut" where
  "APIInOut_new verbose pageNo pageSize =
     \<lparr>io_verbose = verbose, io_pageNo = pageNo, io_pageSize = pageSize, io_errorNo = 0, io_errorMsg = [], io_data = []\<rparr>"

definition removeLastComma :: "string \<Rightarrow> string" where
  "removeLastComma buf = (if length buf > 0 \<and> last buf = CHR '','' then butlast buf else buf)"

definition jstr :: "string \<Rightarrow> string \<Rightarrow> string" where
  \<comment> \<open>\<open>"\"name\":\"%s\","\<close>\<close>
  "jstr name v = CHR 0x22 # name @ [CHR 0x22, CHR '':'', CHR 0x22] @ c_str v @ [CHR 0x22, CHR '','']"

definition jnum :: "string \<Rightarrow> int \<Rightarrow> string" where
  \<comment> \<open>\<open>"\"name\":%d,"\<close>\<close>
  "jnum name v = CHR 0x22 # name @ [CHR 0x22, CHR '':''] @ fmt_d v @ '',''"

definition jopen :: "string \<Rightarrow> string" where
  \<comment> \<open>\<open>"\"name\":["\<close>\<close>
  "jopen name = CHR 0x22 # name @ [CHR 0x22, CHR '':'', CHR ''['']"

definition quoted :: "string list \<Rightarrow> string" where
  \<comment> \<open>the addresses of an input or output, each in quotation marks, with no comma between them\<close>
  "quoted as = concat (map (\<lambda>a. CHR 0x22 # c_str a @ [CHR 0x22]) as)"

definition getTx_input :: "int \<Rightarrow> bool \<Rightarrow> fb_TxInput \<Rightarrow> string \<Rightarrow> string" where
  "getTx_input verbose is_coinbase input buf =
     (let buf = buf @ ''{'';
          buf = (if verbose \<ge> 3 then buf @ jnum ''sequence'' (uint (ti_sequence input)) @
                   jstr ''script_asm'' (ti_script_asm input) @ jstr ''script_hex'' (ti_script_hex input) else buf);
          buf = (if \<not> is_coinbase then
                   removeLastComma (buf @ jstr ''prev_hash'' (ti_prev_tx_hash input) @
                     jnum ''prev_position'' (ti_prev_position input) @ jnum ''prev_value'' (ti_prev_value input) @
                     jopen ''prev_addr'' @ quoted (ti_prev_addresses input)) @ '']'' else buf)
      in removeLastComma buf @ ''},'')"

definition getTx_output :: "int \<Rightarrow> fb_TxOutput \<Rightarrow> string \<Rightarrow> string" where
  "getTx_output verbose output buf =
     (let buf = removeLastComma (buf @ ''{'' @ jopen ''address'' @ quoted (to_addresses output)) @ ''],'' @
            jnum ''value'' (to_value output);
          buf = (if verbose \<ge> 3 then buf @ jstr ''script_asm'' (to_script_asm output) @
                   jstr ''script_hex'' (to_script_hex output) @ jstr ''script_type'' (to_script_type output) else buf)
      in removeLastComma buf @ ''},'')"

definition tx_text :: "string \<Rightarrow> int \<Rightarrow> fb_Tx \<Rightarrow> string \<Rightarrow> string" where
  \<comment> \<open>what \<open>APIHandler::getTx\<close> adds to \<open>buf\<close>\<close>
  "tx_text txHash verbose fbTx buf =
     (let buf = buf @ jstr ''hash'' txHash @ jnum ''block_height'' (ft_block_height fbTx) @
           CHR 0x22 # ''is_coinbase'' @ [CHR 0x22, CHR '':''] @ (if ft_is_coinbase fbTx then ''true'' else ''false'') @ '','' @
           jnum ''inputs_count'' (ft_inputs_count fbTx) @ jnum ''inputs_value'' (ft_inputs_value fbTx) @
           jnum ''outputs_count'' (ft_outputs_count fbTx) @ jnum ''outputs_value'' (ft_outputs_value fbTx);
         buf = (if verbose \<ge> 2 then buf @ jnum ''size'' (ft_size fbTx) @ jnum ''fee'' (ft_fee fbTx) @
                  jnum ''version'' (ft_version fbTx) @ jnum ''lock_time'' (uint (ft_lock_time fbTx)) else buf);
         buf = fold (getTx_input verbose (ft_is_coinbase fbTx)) (ft_inputs fbTx) (buf @ jopen ''inputs'');
         buf = removeLastComma buf @ ''],'' @ jopen ''outputs'';
         buf = fold (getTx_output verbose) (ft_outputs fbTx) buf
     in removeLastComma buf @ '']'')"

definition APIHandler_getTx :: "'db rocks \<Rightarrow> 'db \<Rightarrow> string \<Rightarrow> string \<Rightarrow> int \<Rightarrow> string res" where
  "APIHandler_getTx R db txHash buf verbose =
     bindE (KVDB_get R (''01_'' @ c_str txHash) db) (\<lambda>kvValue.
     bindE (root_Tx kvValue) (\<lambda>fbTx. Inr (tx_text txHash verbose fbTx buf)))"

definition address_tx :: "'db rocks \<Rightarrow> 'db \<Rightarrow> int \<Rightarrow> kvval \<Rightarrow> string \<Rightarrow> string res" where
  \<comment> \<open>the body of the loop over the transactions in \<open>APIHandler::address\<close>\<close>
  "address_tx R db verbose v buf =
     bindE (root_AddressTx v) (\<lambda>fbAddressTx.
     bindE (APIHandler_getTx R db (at_tx_hash fbAddressTx)
        (buf @ ''{'' @ jnum ''block_time'' (uint (at_tx_block_time fbAddressTx)) @
           jnum ''balance_diff'' (at_balance_diff fbAddressTx)) verbose) (\<lambda>buf.
     Inr (buf @ ''},'')))"

definition address_page :: "'db rocks \<Rightarrow> 'db \<Rightarrow> string \<Rightarrow> int \<Rightarrow> int \<Rightarrow> kvval list res" where
  \<comment> \<open>the values \<open>APIHandler::address\<close> lists\<close>
  "address_page R db address tx_count pageSize =
     (let endIdx = tx_count - 1 - pageSize;
          endIdx = (if endIdx \<le> 0 then 0 else endIdx);
          keyStart = ''21_'' @ c_str address @ ''_'' @ fmt_010d (tx_count - 1);
          keyEnd = ''21_'' @ c_str address @ ''_'' @ fmt_010d endIdx in
      bindE (KVDB_range R keyStart keyEnd pageSize 0 db) (\<lambda>es.
      bindE (assertE ''values.size() > 0'' (length (map snd es) > 0)) (\<lambda>_.
      Inr (map snd es))))"

definition address_head :: "string \<Rightarrow> string \<Rightarrow> fb_Address option \<Rightarrow> string" where
  \<comment> \<open>the fields before the list of transactions; \<open>keyID\<close> stays zero for the address of a script\<close>
  "address_head address keyID a =
     ''{'' @ jstr ''address'' address @ jstr ''hash160'' (uint160_GetHex keyID) @
     jnum ''n_tx'' (case a of None \<Rightarrow> 0 | Some a \<Rightarrow> fa_tx_count a) @
     jnum ''total_received'' (case a of None \<Rightarrow> 0 | Some a \<Rightarrow> fa_received a) @
     jnum ''total_sent'' (case a of None \<Rightarrow> 0 | Some a \<Rightarrow> fa_sent a) @
     jnum ''final_balance'' (case a of None \<Rightarrow> 0 | Some a \<Rightarrow> fa_received a - fa_sent a) @ jopen ''txs''"

definition APIHandler_address :: "base58_params \<Rightarrow> (string \<Rightarrow> uint256) \<Rightarrow> 'db rocks \<Rightarrow> 'db \<Rightarrow> query \<Rightarrow> APIInOut \<Rightarrow> APIInOut res" where
  "APIHandler_address P H R db query resp =
     (let address = (case query ''address'' of None \<Rightarrow> [] | Some a \<Rightarrow> a);
          addressObj = CBitcoinAddress H address in
      if \<not> IsValid P addressObj then
        Inr (resp\<lparr>io_errorNo := API_ERROR_INVALID_PARAMS, io_errorMsg := ''invalid address''\<rparr>)
      else
        let keyID = (case GetKeyID P addressObj of None \<Rightarrow> replicate 20 CHR 0x00 | Some i \<Rightarrow> i);
            kvValue = snd (KVDB_getMayNotExist R (''20_'' @ c_str address) db) in
        bindE (if \<not> value_empty kvValue then bindE (root_Address kvValue) (\<lambda>a. Inr (Some a)) else Inr None) (\<lambda>fbAddress.
        let buf = io_data resp @ address_head address keyID fbAddress in
        bindE (case fbAddress of
            None \<Rightarrow> Inr buf
          | Some a \<Rightarrow>
              if fa_tx_count a > 0 then
                bindE (address_page R db address (fa_tx_count a) (io_pageSize resp)) (\<lambda>values.
                bindE (foldE (address_tx R db (io_verbose resp)) values buf) (\<lambda>buf. Inr (removeLastComma buf)))
              else Inr buf) (\<lambda>buf.
        Inr (resp\<lparr>io_data := buf @ '']}''\<rparr>))))"

definition APIHandler_tx :: "'db rocks \<Rightarrow> 'db \<Rightarrow> query \<Rightarrow> APIInOut \<Rightarrow> APIInOut res" where
  "APIHandler_tx R db query resp =
     (let hash = (case query ''hash'' of None \<Rightarrow> [] | Some h \<Rightarrow> h) in
      if length hash \<noteq> 64 then Inr (resp\<lparr>io_errorNo := API_ERROR_INVALID_PARAMS, io_errorMsg := ''invalid tx hash''\<rparr>)
      else bindE (APIHandler_getTx R db hash (io_data resp @ ''{'') (io_verbose resp)) (\<lambda>buf.
           Inr (resp\<lparr>io_data := buf @ ''}''\<rparr>)))"

definition api_output :: "string \<Rightarrow> int \<Rightarrow> string \<Rightarrow> int \<times> string" where
  \<comment> \<open>status and body\<close>
  "api_output data error_no error_msg =
     (if error_no = API_ERROR_SUCCESS then 200 else 400,
      CHR ''{'' # CHR 0x22 # ''error_no'' @ [CHR 0x22, CHR '':''] @ fmt_d error_no @ CHR '','' # CHR 0x22 # ''error_msg'' @
        [CHR 0x22, CHR '':'', CHR 0x22] @ c_str error_msg @ [CHR 0x22, CHR '','', CHR 0x22] @ ''data'' @ [CHR 0x22, CHR '':''] @
        (if length data = 0 then ''null'' else data) @ ''}'')"

definition int_param :: "query \<Rightarrow> string \<Rightarrow> int \<Rightarrow> int" where
  "int_param query name d = (case query name of None \<Rightarrow> d | Some v \<Rightarrow> atoi32 v)"

definition cb_api :: "base58_params \<Rightarrow> (string \<Rightarrow> uint256) \<Rightarrow> 'db rocks \<Rightarrow> 'db \<Rightarrow> query \<Rightarrow> (int \<times> string) res" where
  "cb_api P H R db query =
     (case query ''method'' of
        None \<Rightarrow> Inr (api_output [] API_ERROR_EMPTY_PARAMS ''method is empty'')
      | Some m \<Rightarrow>
          let verbose = int_param query ''verbose'' 1; verbose = (if verbose \<le> 0 then 1 else verbose);
              pageNo = int_param query ''page_no'' 1; pageNo = (if pageNo \<le> 0 then 1 else pageNo);
              pageSize = int_param query ''page_size'' 50; pageSize = (if pageSize < 0 \<or> pageSize > 1000 then 50 else pageSize);
              apiInOut = APIInOut_new verbose pageNo pageSize in
          if m = ''address'' \<or> m = ''tx'' then
            bindE (if m = ''address'' then APIHandler_address P H R db query apiInOut else APIHandler_tx R db query apiInOut) (\<lambda>io.
            Inr (api_output (io_data io) (io_errorNo io) (io_errorMsg io)))
          else Inr (api_output [] API_ERROR_INVALID_PARAMS ''method is not found''))"

section \<open>The order of the keys\<close>

lemma digits_val_acc: "list_all is_digit s \<Longrightarrow> digits_val acc s = acc * 10 ^ length s + digits_val 0 s"
proof (induction s arbitrary: acc)
  case (Cons c s)
  have "digits_val (acc * 10 + digit_val c) s = (acc * 10 + digit_val c) * 10 ^ length s + digits_val 0 s"
    by (rule Cons.IH) (use Cons.prems in simp)
  moreover have "digits_val (digit_val c) s = digit_val c * 10 ^ length s + digits_val 0 s"
    by (rule Cons.IH) (use Cons.prems in simp)
  ultimately show ?case using Cons.prems by (simp add: add_mult_distrib)
qed simp

lemma digits_val_less: "list_all is_digit s \<Longrightarrow> digits_val 0 s < 10 ^ length s"
proof (induction s)
  case (Cons c s)
  then have "digit_val c \<le> 9" "digits_val 0 s < 10 ^ length s" by (auto simp: is_digit_def digit_val_def)
  then have "digit_val c * 10 ^ length s + digits_val 0 s < 9 * 10 ^ length s + 10 ^ length s"
    by (intro add_le_less_mono mult_le_mono1)
  then show ?case using Cons.prems digits_val_acc [of s "digit_val c"] by simp
qed simp

lemma digits_less_iff:
  "length xs = length ys \<Longrightarrow> list_all is_digit xs \<Longrightarrow> list_all is_digit ys \<Longrightarrow> xs < ys \<longleftrightarrow> digits_val 0 xs < digits_val 0 ys"
proof (induction xs ys rule: list_induct2)
  case (Cons x xs y ys)
  let ?p = "10 ^ length xs :: nat"
  have v: "digits_val 0 (x # xs) = digit_val x * ?p + digits_val 0 xs" "digits_val 0 (y # ys) = digit_val y * ?p + digits_val 0 ys"
    "digits_val 0 xs < ?p" "digits_val 0 ys < ?p"
    using Cons.prems Cons.hyps digits_val_acc [of xs "digit_val x"] digits_val_acc [of ys "digit_val y"]
      digits_val_less [of xs] digits_val_less [of ys] by simp_all
  have "is_digit x" "is_digit y" using Cons.prems by simp_all
  then have d: "x < y \<longleftrightarrow> digit_val x < digit_val y" "x = y \<longleftrightarrow> digit_val x = digit_val y"
    unfolding less_char_def char_eq_iff_of_char [of x y] is_digit_def digit_val_def by linarith+
  have step: "a * ?p + b < c * ?p + e" if "a < c" "b < ?p" for a b c e :: nat
  proof -
    have "(a + 1) * ?p \<le> c * ?p" using that(1) by (intro mult_le_mono1) simp
    with that(2) show ?thesis by simp
  qed
  consider "digit_val x < digit_val y" | "digit_val x = digit_val y" | "digit_val y < digit_val x" by linarith
  then show ?case
  proof cases
    case 1
    then show ?thesis using step [OF 1 v(3), of "digits_val 0 ys"] d v(1,2) by (simp del: digits_val.simps)
  next
    case 2
    then show ?thesis using Cons.IH Cons.prems d v(1,2) by (simp del: digits_val.simps)
  next
    case 3
    then show ?thesis using step [OF 3 v(4), of "digits_val 0 xs"] d v(1,2) by (simp del: digits_val.simps)
  qed
qed simp

lemma fmt_010d_less:
  assumes "0 \<le> i" and "i < 10 ^ 10" and "0 \<le> j" and "j < 10 ^ 10"
  shows "fmt_010d i < fmt_010d j \<longleftrightarrow> i < j" "fmt_010d i \<le> fmt_010d j \<longleftrightarrow> i \<le> j"
proof -
  have "fmt_010d k = pad0 10 (nat_str (nat k))" if "0 \<le> k" for k using that by (simp add: fmt_010d_def)
  then show less: "fmt_010d i < fmt_010d j \<longleftrightarrow> i < j"
    using digits_less_iff [of "fmt_010d i" "fmt_010d j"] assms length_fmt_010d list_all_pad0 by (auto simp: nat_less_eq_zless)
  then show "fmt_010d i \<le> fmt_010d j \<longleftrightarrow> i \<le> j"
    by (auto simp: order_le_less)
qed

lemma append_less [simp]: "p @ x < p @ y \<longleftrightarrow> x < (y :: string)" "p @ x \<le> p @ y \<longleftrightarrow> x \<le> y"
  by (induction p) simp_all

lemma between_prefix: "p @ x \<le> k \<Longrightarrow> k \<le> p @ y \<Longrightarrow> \<exists>r. k = p @ (r :: string)"
proof (induction p arbitrary: k)
  case (Cons c p)
  then obtain d k' where "k = d # k'" by (cases k) auto
  with Cons show ?case by (auto simp: order_antisym)
qed simp

section \<open>The page of an address\<close>

lemma first_sep:
  assumes "c \<notin> set x" and "c \<notin> set y" and "x @ c # r = y @ c # t"
  shows "x = y \<and> r = t"
  using assms by (induction x arbitrary: y) (auto simp: Cons_eq_append_conv append_eq_Cons_conv)

lemma chain_key_between:
  assumes raw: "V db k \<noteq> None" "raw_ok V db" and at: "chain_at (kv_view V db) a L" and a: "CHR ''_'' \<notin> set a"
    and tame: "\<forall>b i. kv_view V db (KAddrTx b i) \<noteq> None \<longrightarrow> CHR ''_'' \<notin> set b"
    and lo: "0 \<le> lo" "lo \<le> hi" and n: "int (length L) < 10 ^ 10" and hi: "hi < int (length L)"
    and k: "key_str (KAddrTx a lo) \<le> k" "k \<le> key_str (KAddrTx a hi)"
  shows "\<exists>i. lo \<le> i \<and> i \<le> hi \<and> k = key_str (KAddrTx a i)"
proof -
  let ?p = "''21_'' @ a @ ''_''"
  have key: "key_str (KAddrTx b i) = (''21_'' @ b @ ''_'') @ fmt_010d i" for b i by (simp add: key_str.simps)
  obtain r where r: "k = ?p @ r" using between_prefix k unfolding key by blast
  obtain q where q: "k = key_str q" using raw by (auto simp: raw_ok_def)
  have "key_kind q = 21" using r unfolding q by (simp flip: digits_val_key add: is_digit_def digit_val_def)
  then obtain b i where q': "q = KAddrTx b i" by (cases q) auto
  have present: "kv_view V db (KAddrTx b i) \<noteq> None" using raw(1) by (simp add: kv_view_def q q')
  have "b @ CHR ''_'' # fmt_010d i = a @ CHR ''_'' # r" using r unfolding q q' key by simp
  then have "b = a" using first_sep [OF tame [rule_format, OF present] a] by blast
  moreover from this have i: "0 \<le> i" "i < int (length L)" using present at by (auto simp: chain_at_def split: if_splits)
  moreover have "lo \<le> i" "i \<le> hi"
  proof -
    have "fmt_010d lo \<le> fmt_010d i" "fmt_010d i \<le> fmt_010d hi"
      using k unfolding q q' \<open>b = a\<close> key append_less by blast+
    then show "lo \<le> i" "i \<le> hi" using fmt_010d_less(2) [of lo i] fmt_010d_less(2) [of i hi] i n hi lo by simp_all
  qed
  ultimately show ?thesis using q q' by blast
qed

lemma chain_entries:
  assumes R: "rocks_ok R V" and raw: "raw_ok V db" and at: "chain_at (kv_view V db) a L" and a: "CHR ''_'' \<notin> set a"
    and tame: "\<forall>b i. kv_view V db (KAddrTx b i) \<noteq> None \<longrightarrow> CHR ''_'' \<notin> set b"
    and n: "int (length L) < 10 ^ 10" and lo: "lo < length L"
  shows "filter (\<lambda>e. key_str (KAddrTx a (int lo)) \<le> fst e \<and> fst e \<le> key_str (KAddrTx a (int (length L) - 1))) (rk_Iterator R db) =
    map (\<lambda>j. (key_str (KAddrTx a (int j)), node_of (L ! j))) [lo..<length L]" (is "?F = map ?e _")
proof (rule sm_wf_set_inject)
  have it: "sm_wf (rk_Iterator R db)" "map_of (rk_Iterator R db) = V db" using R by (simp_all add: rocks_ok_def)
  then show "sm_wf ?F" by (simp add: sm_wf_filter)
  have le: "key_str (KAddrTx a i) \<le> key_str (KAddrTx a j) \<longleftrightarrow> i \<le> j" "key_str (KAddrTx a i) < key_str (KAddrTx a j) \<longleftrightarrow> i < j"
    if "0 \<le> i" "i < int (length L)" "0 \<le> j" "j < int (length L)" for i j
    using that n fmt_010d_less [of i j] by (simp_all add: key_str.simps)
  show "sm_wf (map ?e [lo..<length L])"
    unfolding sm_wf_def by (simp add: sorted_wrt_map comp_def) (rule sorted_wrt_mono_rel [OF _ sorted_wrt_upt], simp add: le)
  have node: "V db (key_str (KAddrTx a i)) = Some (node_of (L ! nat i))" if "0 \<le> i" "i < int (length L)" for i
    using at that by (simp add: chain_at_def kv_view_def)
  show "set ?F = set (map ?e [lo..<length L])"
  proof (intro set_eqI iffI)
    fix e assume "e \<in> set ?F"
    then have e: "e \<in> set (rk_Iterator R db)" "key_str (KAddrTx a (int lo)) \<le> fst e"
      "fst e \<le> key_str (KAddrTx a (int (length L) - 1))" by auto
    then have v: "V db (fst e) = Some (snd e)" using it sm_wf_map_of_iff by (metis prod.collapse)
    obtain i where i: "int lo \<le> i" "i \<le> int (length L) - 1" "fst e = key_str (KAddrTx a i)"
      using chain_key_between [where k = "fst e" and lo = "int lo" and hi = "int (length L) - 1", OF _ raw at a tame _ _ n] e v lo by auto
    then have "e = ?e (nat i)" using v node [of i] by (cases e) simp
    then show "e \<in> set (map ?e [lo..<length L])" using i by (auto intro!: image_eqI [of _ _ "nat i"])
  next
    fix e assume "e \<in> set (map ?e [lo..<length L])"
    then obtain j where j: "lo \<le> j" "j < length L" "e = ?e j" by auto
    then have "e \<in> set (rk_Iterator R db)" using node [of "int j"] it sm_wf_map_of_iff by (metis nat_int of_nat_0_le_iff of_nat_less_iff)
    moreover have "key_str (KAddrTx a (int j)) \<le> key_str (KAddrTx a (int (length L) - 1))"
      using le(1) [of "int j" "int (length L) - 1"] j by linarith
    ultimately show "e \<in> set ?F" using j le(1) [of "int lo" "int j"] by simp
  qed
qed

lemma key_at_nul:
  assumes "V db (key_str (KAddrTx a i) @ CHR 0x00 # r) \<noteq> None" and "raw_ok V db" and "CHR ''_'' \<notin> set a"
    and tame: "\<forall>b i. kv_view V db (KAddrTx b i) \<noteq> None \<longrightarrow> CHR ''_'' \<notin> set b"
  shows False
proof -
  have key: "key_str (KAddrTx b j) = ''21_'' @ b @ CHR ''_'' # fmt_010d j" for b j by (simp add: key_str.simps)
  obtain q where q: "key_str (KAddrTx a i) @ CHR 0x00 # r = key_str q" using assms(1,2) unfolding raw_ok_def by blast
  have "take 2 (key_str q) = ''21''" using arg_cong [OF q, of "take 2"] unfolding key by simp
  then have "key_kind q = 21" using digits_val_key [of q] by (simp add: is_digit_def digit_val_def)
  then obtain b j where q': "q = KAddrTx b j" by (cases q) auto
  have present: "kv_view V db (KAddrTx b j) \<noteq> None" using assms(1) by (simp add: kv_view_def q q')
  have "b @ CHR ''_'' # fmt_010d j = a @ CHR ''_'' # (fmt_010d i @ CHR 0x00 # r)" using q unfolding q' key by simp
  then have "fmt_010d j = fmt_010d i @ CHR 0x00 # r" using first_sep [OF tame [rule_format, OF present] assms(3)] by blast
  then have "CHR 0x00 \<in> set (fmt_010d j)" by simp
  then show False by simp
qed

lemma address_page_newest:
  assumes R: "rocks_ok R V" and raw: "raw_ok V db" and at: "chain_at (kv_view V db) a L"
    and a: "CHR ''_'' \<notin> set a" "CHR 0x00 \<notin> set a"
    and tame: "\<forall>b i. kv_view V db (KAddrTx b i) \<noteq> None \<longrightarrow> CHR ''_'' \<notin> set b"
    and n: "int (length L) < 10 ^ 10" "L \<noteq> []" and ps: "1 \<le> ps" "ps < 2 ^ 31"
  shows "address_page R db a (int (length L)) ps = Inr (map node_of (take (nat ps) (rev L)))"
proof -
  let ?n = "length L"
  define lo where "lo = nat (int ?n - 1 - ps)"
  have lo: "lo < ?n" "(if int ?n - 1 - ps \<le> 0 then 0 else int ?n - 1 - ps) = int lo" using n(2) ps by (cases L; auto simp: lo_def)+
  let ?key = "\<lambda>i. key_str (KAddrTx a i)" and ?T = "map (\<lambda>j. (key_str (KAddrTx a (int j)), node_of (L ! j))) [lo..<?n]"
  have it: "sm_wf (rk_Iterator R db)" "map_of (rk_Iterator R db) = V db" using R by (simp_all add: rocks_ok_def)
  have keys: "?key i = ''21_'' @ c_str a @ ''_'' @ fmt_010d i" for i
    by (simp add: key_str.simps c_str_id [OF a(2)])
  have no_nul: "CHR 0x00 \<notin> set (?key i)" for i using a(2) by (simp add: key_str.simps)
  have le: "?key (int ?n - 1) \<le> ?key (int lo) \<longleftrightarrow> int ?n - 1 \<le> int lo"
    using fmt_010d_less(2) [of "int ?n - 1" "int lo"] n lo(1) by (simp add: key_str.simps)
  have F: "filter (\<lambda>e. ?key (int lo) \<le> fst e \<and> fst e \<le> ?key (int ?n - 1)) (rk_Iterator R db) = ?T"
    by (rule chain_entries [OF R raw at a(1) tame n(1) lo(1)])
  have "(?key (int ?n - 1), node_of (L ! (?n - 1))) \<in> set ?T" using lo(1) by (auto simp: of_nat_diff intro!: image_eqI [of _ _ "?n - 1"])
  then have last: "\<exists>e \<in> set (rk_Iterator R db). ?key (int ?n - 1) \<le> fst e" using F by (metis (no_types, lifting) filter_is_subset fst_conv order_refl subsetD)
  have R': "(if ?key (int ?n - 1) \<le> ?key (int lo) then filter (\<lambda>e. ?key (int ?n - 1) \<le> fst e \<and> fst e \<le> ?key (int lo)) (rk_Iterator R db)
     else rev (filter (\<lambda>e. ?key (int lo) \<le> fst e \<and> fst e \<le> ?key (int ?n - 1)) (rk_Iterator R db))) = rev ?T"
  proof (cases "int ?n - 1 \<le> int lo")
    case True
    then have lo': "lo = ?n - 1" "int lo = int ?n - 1" using lo(1) by simp_all
    then have "rev ?T = ?T" using n(2) by (cases "?n") simp_all
    then show ?thesis using F True by (simp add: lo'(2))
  qed (simp add: le F)
  have cut: "if ?key (int ?n - 1) \<le> ?key (int lo) then c_str (fst e) \<le> ?key (int lo) \<longleftrightarrow> fst e \<le> ?key (int lo)
     else fst e \<le> ?key (int ?n - 1) \<longrightarrow> (?key (int lo) \<le> c_str (fst e) \<longleftrightarrow> ?key (int lo) \<le> fst e)"
    if "e \<in> set (rk_Iterator R db)" for e
  proof -
    have v: "V db (fst e) \<noteq> None" using that it sm_wf_map_of_iff by (metis option.distinct(1) prod.collapse)
    have "fst e \<le> ?key (int lo)" if "c_str (fst e) \<le> ?key (int lo)"
      using c_str_below [OF no_nul that] key_at_nul [OF _ raw a(1) tame] v by metis
    moreover have "c_str (fst e) = fst e" if "?key (int lo) \<le> fst e" "fst e \<le> ?key (int ?n - 1)"
    proof -
      have "e \<in> set ?T" using that \<open>e \<in> set (rk_Iterator R db)\<close> unfolding F [symmetric] by simp
      then show ?thesis using no_nul by (auto simp: c_str_id)
    qed
    ultimately show ?thesis using c_str_le [of "fst e"] by auto
  qed
  define es where "es = take (nat ps) (rev ?T)"
  have "KVDB_range R (?key (int ?n - 1)) (?key (int lo)) ps 0 db = Inr es"
    unfolding es_def by (subst KVDB_range_keys [OF R]) (use ps cut no_nul last R' in simp_all)
  moreover have "map snd es = map node_of (take (nat ps) (rev L))"
  proof -
    have "map snd ?T = map node_of (drop lo L)" by (rule nth_equalityI) simp_all
    then have "map snd (rev ?T) = map node_of (take (?n - lo) (rev L))" by (simp add: rev_map [symmetric] rev_drop [symmetric])
    then show ?thesis using n(2) ps by (simp add: es_def take_map [symmetric] lo_def min_def)
  qed
  moreover from this have "es \<noteq> []" using n(2) ps(1) by auto
  ultimately show ?thesis
    unfolding address_page_def lo(2) Let_def keys [symmetric] by simp
qed

section \<open>The text\<close>

lemma removeLastComma_append [simp]: "x \<noteq> [] \<Longrightarrow> removeLastComma (buf @ x) = buf @ removeLastComma x"
  by (simp add: removeLastComma_def butlast_append)

lemma getTx_input_append: "getTx_input verbose c i buf = buf @ getTx_input verbose c i []"
  by (cases "verbose \<ge> 3"; cases c) (simp_all add: getTx_input_def Let_def jstr_def)

lemma getTx_output_append: "getTx_output verbose out buf = buf @ getTx_output verbose out []"
  by (cases "verbose \<ge> 3") (simp_all add: getTx_output_def Let_def)

lemma fold_append_only: "(\<And>x b. f x b = b @ f x []) \<Longrightarrow> fold f xs b = b @ fold f xs ([] :: string)"
  by (induction xs arbitrary: b) (simp, metis append.assoc fold_simps(2))

lemma tx_text_append: "tx_text h verbose t buf = buf @ tx_text h verbose t []"
proof -
  define I where "I = fold (getTx_input verbose (ft_is_coinbase t)) (ft_inputs t) []"
  define O' where "O' = fold (getTx_output verbose) (ft_outputs t) []"
  have "fold (getTx_input verbose (ft_is_coinbase t)) (ft_inputs t) b = b @ I" for b
    unfolding I_def by (rule fold_append_only, rule getTx_input_append)
  moreover have "fold (getTx_output verbose) (ft_outputs t) b = b @ O'" for b
    unfolding O'_def by (rule fold_append_only, rule getTx_output_append)
  ultimately show ?thesis
    by (cases "verbose \<ge> 2") (simp_all add: tx_text_def Let_def jopen_def)
qed

definition tx_json :: "int \<Rightarrow> entry \<Rightarrow> fb_Tx \<Rightarrow> string" where
  "tx_json verbose e t = ''{'' @ jnum ''block_time'' (uint (e_time e)) @ jnum ''balance_diff'' (e_diff e) @
     tx_text (ToString (e_hash e)) verbose t [] @ ''}''"

lemma KVDB_get_tx:
  assumes "rocks_ok R V" and "kv_view V db (KTx h) = Some (VTx t)"
  shows "APIHandler_getTx R db (ToString h) buf verbose = Inr (buf @ tx_text (ToString h) verbose t [])"
  using KVDB_get_view [OF assms(1), of "KTx h" db] assms(2) tx_text_append [of "ToString h" verbose t buf]
  by (simp add: APIHandler_getTx_def key_str.simps)

lemma address_txs:
  assumes "rocks_ok R V" and "\<forall>e \<in> set es. kv_view V db (KTx (e_hash e)) = Some (VTx (t e))"
  shows "foldE (address_tx R db verbose) (map node_of es) buf = Inr (buf @ concat (map (\<lambda>e. tx_json verbose e (t e) @ '','') es))"
  using assms(2)
proof (induction es arbitrary: buf)
  case (Cons e es)
  then have "address_tx R db verbose (node_of e) buf = Inr (buf @ tx_json verbose e (t e) @ '','')"
    by (simp add: address_tx_def node_of_def KVDB_get_tx [OF assms(1)] tx_json_def)
  with Cons show ?case by simp
qed simp

lemma commas: "xs \<noteq> [] \<Longrightarrow> removeLastComma (buf @ concat (map (\<lambda>x. f x @ '','') xs)) = buf @ implode_glue (map f xs) '',''"
proof (induction xs arbitrary: buf rule: list_nonempty_induct)
  case (single x)
  then show ?case by (simp add: implode_glue_single) (simp add: removeLastComma_def)
next
  case (cons x xs)
  then show ?case using cons.IH [of "buf @ f x @ '',''"] by (simp add: implode_glue_Cons)
qed

section \<open>The property\<close>

lemma address_text_plain:
  assumes "P = main_prefixes \<or> P = testnet_prefixes" and "IsValid P (CBitcoinAddress H a)" and "CHR 0x00 \<notin> set a"
  shows "CHR ''_'' \<notin> set a"
proof
  assume u: "CHR ''_'' \<in> set a"
  define t where "t = CBase58Data_ToString H (CBitcoinAddress H a)"
  note texts = CBitcoinAddress_texts [OF assms(2,1), of H a, folded t_def]
  have "\<exists>sp ws. list_all is_space sp \<and> list_all is_space ws \<and> c_str a = sp @ t @ ws" by (rule texts [THEN conjunct1, THEN iffD1]) (rule refl)
  moreover have t: "CHR ''_'' \<notin> set t"
  proof
    assume "CHR ''_'' \<in> set t"
    then have "CHR ''_'' \<notin> {CHR '','', CHR ''_'', CHR 0x00} \<and> \<not> is_space (CHR ''_'')" by (rule texts [THEN conjunct2, THEN conjunct2, rule_format])
    then show False by simp
  qed
  ultimately obtain sp ws where w: "list_all is_space sp" "list_all is_space ws" "a = sp @ t @ ws" unfolding c_str_id [OF assms(3)] by blast
  have "CHR ''_'' \<notin> set s" if "list_all is_space s" for s using that by (auto simp: list_all_iff is_space_def)
  then show False using u t w by simp
qed

lemma address_head_found:
  assumes "rocks_ok R V" and "CHR 0x00 \<notin> set a" and "\<forall>a v. kv_view V db (KAddr a) = Some v \<longrightarrow> (\<exists>x. v = VAddress x)"
    and "stored_info (kv_view V db) a = page_info (C, U) u m"
  shows "\<exists>f. (if \<not> value_empty (snd (KVDB_getMayNotExist R (''20_'' @ c_str a) db))
       then bindE (root_Address (snd (KVDB_getMayNotExist R (''20_'' @ c_str a) db))) (\<lambda>a. Inr (Some a)) else Inr None) = Inr f \<and>
     address_head a k f = address_head a k (Some (page_info (C, U) 0 0)) \<and>
     (f = None \<longrightarrow> C @ U = []) \<and> (\<forall>x. f = Some x \<longrightarrow> fa_tx_count x = int (length (C @ U)))"
proof -
  have key: "''20_'' @ c_str a = key_str (KAddr a)" by (simp add: key_str.simps c_str_id [OF assms(2)])
  have head: "address_head a k (Some (page_info (C, U) u m)) = address_head a k (Some (page_info (C, U) 0 0))"
    by (simp add: address_head_def page_info_def)
  show ?thesis
  proof (cases "kv_view V db (KAddr a)")
    case None
    then have "page_info (C, U) u m = fbAddress (AddressInfo_new 0)" using assms(4) by (simp add: stored_info_def)
    then have z: "C @ U = []" by (auto simp: page_info_def fbAddress_def AddressInfo_new_def)
    then have "address_head a k None = address_head a k (Some (page_info (C, U) 0 0))"
      by (simp add: address_head_def page_info_def)
    with z None show ?thesis unfolding key KVDB_getMayNotExist_view [OF assms(1)] by (simp add: value_empty_def)
  next
    case (Some v)
    then obtain x where "v = VAddress x" using assms(3) by blast
    with Some assms(4) have "v = VAddress (page_info (C, U) u m)" by (simp add: stored_info_def)
    with Some head show ?thesis unfolding key KVDB_getMayNotExist_view [OF assms(1)]
      by (simp add: value_empty_def) (simp add: page_info_def)
  qed
qed

lemma address_reply:
  assumes R: "rocks_ok R V" and P: "P = main_prefixes \<or> P = testnet_prefixes" and q: "query ''address'' = Some a"
    and a: "CHR 0x00 \<notin> set a" "IsValid P (CBitcoinAddress H a)"
    and raw: "raw_ok V db" and at: "chain_at (kv_view V db) a (C @ U)"
    and addr: "\<forall>a v. kv_view V db (KAddr a) = Some v \<longrightarrow> (\<exists>x. v = VAddress x)"
    and info: "stored_info (kv_view V db) a = page_info (C, U) u m"
    and tame: "\<forall>b i. kv_view V db (KAddrTx b i) \<noteq> None \<longrightarrow> CHR ''_'' \<notin> set b"
    and txs: "\<forall>e \<in> set (C @ U). kv_view V db (KTx (e_hash e)) = Some (VTx (t e))"
    and n: "int (length (C @ U)) < 10 ^ 10" and ps: "1 \<le> io_pageSize io" "io_pageSize io < 2 ^ 31"
  shows "APIHandler_address P H R db query io = Inr (io\<lparr>io_data := io_data io @
      address_head a (case GetKeyID P (CBitcoinAddress H a) of None \<Rightarrow> replicate 20 CHR 0x00 | Some i \<Rightarrow> i) (Some (page_info (C, U) 0 0)) @
      implode_glue (map (\<lambda>e. tx_json (io_verbose io) e (t e)) (take (nat (io_pageSize io)) (rev (C @ U)))) '','' @ '']}''\<rparr>)"
proof -
  let ?k = "case GetKeyID P (CBitcoinAddress H a) of None \<Rightarrow> replicate 20 CHR 0x00 | Some i \<Rightarrow> i"
  let ?es = "take (nat (io_pageSize io)) (rev (C @ U))"
  from address_head_found [OF R a(1) addr info, of ?k] obtain f where
    f: "(if \<not> value_empty (snd (KVDB_getMayNotExist R (''20_'' @ c_str a) db))
       then bindE (root_Address (snd (KVDB_getMayNotExist R (''20_'' @ c_str a) db))) (\<lambda>a. Inr (Some a)) else Inr None) = Inr f"
    "address_head a ?k f = address_head a ?k (Some (page_info (C, U) 0 0))"
    "f = None \<Longrightarrow> C @ U = []" "\<And>x. f = Some x \<Longrightarrow> fa_tx_count x = int (length (C @ U))" by blast
  have list: "(case f of None \<Rightarrow> Inr buf
      | Some x \<Rightarrow> if fa_tx_count x > 0 then
            bindE (address_page R db a (fa_tx_count x) (io_pageSize io)) (\<lambda>values.
            bindE (foldE (address_tx R db (io_verbose io)) values buf) (\<lambda>buf. Inr (removeLastComma buf)))
          else Inr buf) = Inr (buf @ implode_glue (map (\<lambda>e. tx_json (io_verbose io) e (t e)) ?es) '','')" for buf
  proof (cases "C @ U = []")
    case True
    then show ?thesis using f(4) by (auto simp: implode_glue_def split: option.split)
  next
    case False
    then obtain x where x: "f = Some x" using f(3) by auto
    have "address_page R db a (fa_tx_count x) (io_pageSize io) = Inr (map node_of ?es)"
      unfolding f(4) [OF x] by (rule address_page_newest [OF R raw at address_text_plain [OF P a(2,1)] a(1) tame n False ps])
    moreover have "foldE (address_tx R db (io_verbose io)) (map node_of ?es) buf =
        Inr (buf @ concat (map (\<lambda>e. tx_json (io_verbose io) e (t e) @ '','') ?es))"
      by (rule address_txs [OF R]) (use txs set_take_subset in fastforce)
    moreover have "?es \<noteq> []" unfolding take_eq_Nil using False ps by auto
    note commas [OF this, of buf "\<lambda>e. tx_json (io_verbose io) e (t e)"]
    moreover have "0 < fa_tx_count x" unfolding f(4) [OF x] using False by (cases "C @ U") simp_all
    ultimately show ?thesis by (simp add: x del: removeLastComma_append rev_append)
  qed
  show ?thesis
    unfolding APIHandler_address_def q Let_def option.case if_not_P [OF not_not [THEN iffD2, OF a(2)]] f(1) bindE_simps f(2) list
    by simp
qed

lemma touched_entry:
  assumes "ledger_inv E A T X (\<sigma>, stk) L" and "e \<in> set (fst (lg_book L b) @ snd (lg_book L b))"
  shows "\<sigma> (e_hash e) \<noteq> Absent" and "b \<in> touch E T (e_hash e)" and "b \<in> A"
proof -
  obtain C U where pg: "lg_book L b = (C, U)" by fastforce
  have p: "page_of E T (\<sigma>, stk) b (C, U)" and h: "hist_ok E A T (\<sigma>, stk)"
    using assms(1) by (simp_all add: ledger_inv_def book_of_def flip: pg)
  have "e_hash e \<in> e_hash ` set C \<union> e_hash ` set U" using assms(2) pg by auto
  moreover have "e_hash ` set C = set (filter (\<lambda>h. b \<in> touch E T h) stk)" using p by (simp add: page_of_def flip: set_map)
  ultimately have "e_hash e \<in> {h \<in> set stk. b \<in> touch E T h} \<union> {h. \<sigma> h = Unconfirmed \<and> b \<in> touch E T h}" using p by (simp add: page_of_def)
  then show "\<sigma> (e_hash e) \<noteq> Absent" "b \<in> touch E T (e_hash e)" using h by (auto simp: hist_ok_def)
  then show "b \<in> A" using h by (auto simp: hist_ok_def fine_def)
qed

text \<open>
  C37. The JSON interface shows the history. After any legal history that \<open>tparser\<close> has replayed,
  \<open>APIHandler::address\<close> answers a request for a valid address without an error: it lists the
  newest transactions of the address, at most \<open>page_size\<close> of them, newest first: first
  the unconfirmed ones, then the confirmed ones against the order of confirmation, each
  with the change it made to the balance; the head has the number of transactions and the sums of
  exactly the transactions of the history that touch the address.
\<close>

theorem address_newest_first:
  assumes "holds V A s L" and "main_inv E A T X ((\<sigma>, stk), bs, Orph) L" and "rocks_ok R V"
    and "P = main_prefixes \<or> P = testnet_prefixes" and "query ''address'' = Some a"
    and "CHR 0x00 \<notin> set a" and "IsValid P (CBitcoinAddress H a)"
    and "\<forall>b \<in> A. CHR ''_'' \<notin> set b" and "card {h. \<sigma> h \<noteq> Absent} < 10 ^ 10"
    and "1 \<le> io_pageSize io" and "io_pageSize io < 2 ^ 31" and "lg_book L a = (C, U)"
  shows "map e_hash C = filter (\<lambda>h. a \<in> touch E T h) stk \<and> distinct (map e_hash U) \<and>
    e_hash ` set U = {h. \<sigma> h = Unconfirmed \<and> a \<in> touch E T h} \<and>
    (\<forall>e \<in> set (C @ U). map_of (tbal E T (e_hash e)) a = Some (e_diff e)) \<and>
    APIHandler_address P H R (p_kv s) query io = Inr (io\<lparr>io_data := io_data io @
      address_head a (case GetKeyID P (CBitcoinAddress H a) of None \<Rightarrow> replicate 20 CHR 0x00 | Some i \<Rightarrow> i) (Some (page_info (C, U) 0 0)) @
      implode_glue (map (\<lambda>e. tx_json (io_verbose io) e (ledger_tx L (e_hash e))) (take (nat (io_pageSize io)) (rev (C @ U)))) '','' @ '']}''\<rparr>)"
proof -
  have li: "ledger_inv E A T X (\<sigma>, stk) L" using assms(2) by (simp add: main_inv_def)
  then have pg: "page_of E T (\<sigma>, stk) a (C, U)" and fin: "finite {h. \<sigma> h \<noteq> Absent}"
    by (auto simp: ledger_inv_def book_of_def hist_ok_def simp flip: assms(12))
  obtain I where st: "st V A s (kv_view V (p_kv s)) I" and bk: "book_ok (kv_view V (p_kv s)) I (lg_book L)"
    and plain: "\<forall>k. plain_key k \<longrightarrow> kv_view V (p_kv s) k = lg_recs L k" and I: "\<forall>a. stored_info (kv_view V (p_kv s)) a = I a"
    using assms(1) unfolding holds_def pinv_def st_def view_def by blast
  have at: "chain_at (kv_view V (p_kv s)) b (fst (lg_book L b) @ snd (lg_book L b))" for b using bk by (simp add: book_ok_def chain_ok_def)
  obtain u m where info: "stored_info (kv_view V (p_kv s)) a = page_info (C, U) u m"
    using bk I unfolding book_ok_def chain_ok_def by (metis assms(12))
  have ca: "cache_ok V A s" using st by (simp add: st_def)
  have tame: "\<forall>b i. kv_view V (p_kv s) (KAddrTx b i) \<noteq> None \<longrightarrow> CHR ''_'' \<notin> set b"
  proof (intro allI impI)
    fix b i assume "kv_view V (p_kv s) (KAddrTx b i) \<noteq> None"
    with at [of b] have "fst (lg_book L b) @ snd (lg_book L b) \<noteq> []" by (auto simp: chain_at_def split: if_splits)
    then have "b \<in> A" using touched_entry(3) [OF li] by (metis last_in_set)
    then show "CHR ''_'' \<notin> set b" using assms(8) by blast
  qed
  have txs: "\<forall>e \<in> set (C @ U). kv_view V (p_kv s) (KTx (e_hash e)) = Some (VTx (ledger_tx L (e_hash e)))"
  proof
    fix e assume "e \<in> set (C @ U)"
    then have "\<sigma> (e_hash e) \<noteq> Absent" using touched_entry(1) [OF li, of e a] assms(12) by simp
    moreover have "objects_of E T \<sigma> (lg_recs L)" using li by (simp add: ledger_inv_def)
    ultimately obtain t where "lg_recs L (KTx (e_hash e)) = Some (VTx t)" using object_of by blast
    then show "kv_view V (p_kv s) (KTx (e_hash e)) = Some (VTx (ledger_tx L (e_hash e)))" using plain by (simp add: ledger_tx_def)
  qed
  have n: "int (length (C @ U)) < 10 ^ 10"
  proof -
    have "distinct (map e_hash (C @ U))" using at [of a] by (simp add: chain_at_def assms(12))
    moreover have "set (map e_hash (C @ U)) \<subseteq> {h. \<sigma> h \<noteq> Absent}" using touched_entry(1) [OF li, of _ a] assms(12) by auto
    ultimately have "length (C @ U) \<le> card {h. \<sigma> h \<noteq> Absent}" by (metis card_mono distinct_card fin length_map)
    then show ?thesis using assms(9) by (simp del: length_append)
  qed
  have "APIHandler_address P H R (p_kv s) query io = Inr (io\<lparr>io_data := io_data io @
      address_head a (case GetKeyID P (CBitcoinAddress H a) of None \<Rightarrow> replicate 20 CHR 0x00 | Some i \<Rightarrow> i) (Some (page_info (C, U) 0 0)) @
      implode_glue (map (\<lambda>e. tx_json (io_verbose io) e (ledger_tx L (e_hash e))) (take (nat (io_pageSize io)) (rev (C @ U)))) '','' @ '']}''\<rparr>)"
    by (rule address_reply [where t = "\<lambda>e. ledger_tx L (e_hash e)" and query = query and db = "p_kv s" and V = V, OF assms(3,4,5,6,7) _ _ _ info tame txs n assms(10,11)])
      (use ca at [of a] in \<open>auto simp: cache_ok_def view_def assms(12)\<close>)
  then show ?thesis using pg unfolding page_of_def set_append prod.case fst_conv snd_conv by (intro conjI) (elim conjE, assumption)+
qed

theorem address_newest_first_witness:
  "returns (handleTxlog2 parser_env \<lparr>payoutAddresses = [], coinbaseTags = []\<rparr> sample_rows (sample_row 1 LOG2TYPE_TX_ACCEPT (- 1)) (fresh []))
     (\<lambda>s. \<exists>e t buf. e_hash e = 1 \<and> e_diff e = 5000000000 \<and>
        APIHandler_address main_prefixes (\<lambda>s. of_nat (length s)) list_rocks (p_kv s) [''address'' \<mapsto> sample_addr] (APIInOut_new 1 1 50) =
          Inr ((APIInOut_new 1 1 50)\<lparr>io_data := buf @ tx_json 1 e t @ '']}''\<rparr>))"
proof (rule returns_mono [OF main_step_returns [OF sample_step sample_stands parser_env_ok]], elim conjE)
  fix s assume "stands map_of sample_A parser_env sample_T sample_X (((\<lambda>_. Absent)(1 := Unconfirmed), []), [], \<lambda>_. []) s"
  then obtain L where L: "holds map_of sample_A s L"
    "main_inv parser_env sample_A sample_T sample_X (((\<lambda>_. Absent)(1 := Unconfirmed), []), [], \<lambda>_. []) L" unfolding stands_def by blast
  obtain C U where pg: "lg_book L sample_addr = (C, U)" by fastforce
  let ?H = "\<lambda>s. of_nat (length s) :: uint256" and ?io = "APIInOut_new 1 1 50"
  have v: "IsValid main_prefixes sample_address" by (simp add: IsValid_def sample_address_def main_prefixes_def)
  note texts = CBitcoinAddress_texts [OF v disjI1 [OF refl], where H = ?H, folded sample_addr_def]
  have chars: "c \<noteq> CHR ''_'' \<and> c \<noteq> CHR 0x00" if "c \<in> set sample_addr" for c
    using texts [THEN conjunct2, THEN conjunct2] that by blast
  then have nul: "CHR 0x00 \<notin> set sample_addr" "CHR ''_'' \<notin> set sample_addr" by blast+
  have "c_str sample_addr = [] @ sample_addr @ []" by (simp add: c_str_id [OF nul(1)])
  then have addr: "CBitcoinAddress ?H sample_addr = sample_address"
    by (intro texts [THEN conjunct1, THEN iffD2] exI [of _ "[]"] conjI) simp_all
  note listed = address_newest_first [OF L list_rocks_ok disjI1 [OF refl], of "[''address'' \<mapsto> sample_addr]" sample_addr ?H ?io C U]
  have r: "map e_hash C = [] \<and> distinct (map e_hash U) \<and> e_hash ` set U = {1} \<and>
    (\<forall>e \<in> set (C @ U). map_of (tbal parser_env sample_T (e_hash e)) sample_addr = Some (e_diff e)) \<and>
    (\<exists>buf. APIHandler_address main_prefixes ?H list_rocks (p_kv s) [''address'' \<mapsto> sample_addr] ?io = Inr (?io\<lparr>io_data := buf @
      implode_glue (map (\<lambda>e. tx_json 1 e (ledger_tx L (e_hash e))) (take 50 (rev (C @ U)))) '','' @ '']}''\<rparr>))"
    using listed v addr nul pg by (auto simp: APIInOut_new_def touch_map_of sample_touch)
  then have C: "C = []" and U: "distinct (map e_hash U)" "e_hash ` set U = {1}" by simp_all
  then obtain e V where "U = e # V" "e_hash e = 1" by (cases U) auto
  moreover from this have "V = []" using U by (cases V) auto
  ultimately have e: "C = []" "U = [e]" "e_hash e = 1" using C by simp_all
  with r show "\<exists>e t buf. e_hash e = 1 \<and> e_diff e = 5000000000 \<and>
        APIHandler_address main_prefixes ?H list_rocks (p_kv s) [''address'' \<mapsto> sample_addr] ?io =
          Inr (?io\<lparr>io_data := buf @ tx_json 1 e t @ '']}''\<rparr>)"
    by (intro exI [of _ e]) (auto simp: sample_touch implode_glue_single)
qed

end
