(* ===== verification/NotifyFiles.thy ===== *)
theory NotifyFiles
  imports LogWriter NotifyItem
begin

text \<open>
  The files of the notification log (src/jiexi/src/NotifyLog.cc): \<open>NotifyProducer\<close>, with which
  \<open>tparser\<close> writes groups of lines, and \<open>NotifyLogReader\<close>, with which \<open>notifyd\<close> reads them. The
  writer keeps the contract of theory LogWriter, the reader that of theory LogFiles.
\<close>

section \<open>Operations\<close>

record notifyw = log1w +
  nw_fileOffset :: int

definition kFileMaxSize :: int where
  "kFileMaxSize = 100 * 1024 * 1024"

definition NotifyProducer_new :: "logdir \<Rightarrow> notifyw" where
  "NotifyProducer_new F = \<lparr>w_index = - 1, w_open = False, w_files = F, w_ticks = 0, nw_fileOffset = - 1\<rparr>"

definition NotifyProducer_init :: "string list \<Rightarrow> notifyw \<Rightarrow> notifyw" where
  \<comment> \<open>the loop over the stems of the file names in the directory\<close>
  "NotifyProducer_init stems w =
     w\<lparr>w_index := fold (\<lambda>stem i. let idx = atoi32 stem in if idx > i then idx else i) stems (w_index w)\<rparr>"

definition NotifyProducer_write :: "(int \<Rightarrow> bool) \<Rightarrow> (nat \<Rightarrow> bool) \<Rightarrow> string \<Rightarrow> notifyw \<Rightarrow> notifyw res" where
  \<comment> \<open>\<open>opens\<close> and \<open>writes\<close> tell whether \<open>fopen\<close> of a file and the \<open>n\<close>th \<open>fwrite\<close> succeed\<close>
  "NotifyProducer_write opens writes lines w =
     (let idx = (if w_index w = - 1 then 0 else w_index w) in
      if \<not> w_open w \<and> \<not> opens idx then Inl (Throw ''open file failure'') else
      let offset = (if w_open w then nw_fileOffset w else int (length (content (w_files w) idx))) in
      if \<not> writes (w_ticks w) then Inl (Throw ''[NotifyProducer::write] fwrite return size_t is NOT match line length'') else
      let offset = offset + int (length lines); full = (offset > kFileMaxSize)
      in Inr (w\<lparr>w_index := (if full then idx + 1 else idx), w_open := \<not> full,
              w_files := (w_files w)(idx := Some (content (w_files w) idx @ lines)), w_ticks := w_ticks w + 1,
              nw_fileOffset := offset\<rparr>))"

definition readLines :: "logdir \<Rightarrow> int \<Rightarrow> int \<Rightarrow> (string \<times> int) list res" where
  \<comment> \<open>the lines, each with the offset after it\<close>
  "readLines F currFileIndex currFileOffset =
     (case F currFileIndex of
        None \<Rightarrow> Inl (Throw ''open file failure'')
      | Some c \<Rightarrow> Inr (read_lines (seek c currFileOffset) currFileOffset []))"

definition isNewFileExist :: "logdir \<Rightarrow> int \<Rightarrow> bool" where
  "isNewFileExist F currFileIndex = (F (currFileIndex + 1) \<noteq> None)"

definition tryRemoveOldFiles :: "(int \<Rightarrow> bool) \<Rightarrow> int \<Rightarrow> logdir \<Rightarrow> logdir res" where
  \<comment> \<open>nothing calls it\<close>
  "tryRemoveOldFiles rm currFileIndex F = tryRemoveOld rm (currFileIndex - 100) F"

section \<open>The contracts\<close>

lemma NotifyProducer_write_InrD:
  assumes "NotifyProducer_write opens writes lines w = Inr w'"
  shows "w_files w' = (w_files w)(next_file w := Some (content (w_files w) (next_file w) @ lines)) \<and>
    next_file w \<le> w_index w' \<and> w_index w' \<le> next_file w + 1 \<and> w_ticks w' = Suc (w_ticks w)"
  using assms by (auto simp: NotifyProducer_write_def Let_def next_file_def split: if_splits)

interpretation notify_writer: log_writer "NotifyProducer_write opens writes" "\<lambda>lines n. lines" for opens writes
  by unfold_locales (rule NotifyProducer_write_InrD)

text \<open>The offset is the length of the open file.\<close>

lemma NotifyProducer_write_offset:
  assumes "NotifyProducer_write opens writes lines w = Inr w'"
    and "w_open w \<longrightarrow> w_index w \<noteq> - 1 \<and> nw_fileOffset w = int (length (content (w_files w) (w_index w)))"
  shows "w_open w' \<longrightarrow> w_index w' \<noteq> - 1 \<and> nw_fileOffset w' = int (length (content (w_files w') (w_index w')))"
  using assms by (auto simp: NotifyProducer_write_def Let_def content_def split: if_splits)

lemma fold_max: "fold (\<lambda>x i. if x > i then x else i) xs m = Max (insert m (set xs :: int set))"
proof -
  have "(\<lambda>x i :: int. if x > i then x else i) = max" by (auto simp: fun_eq_iff max_def)
  then show ?thesis using Max.set_eq_fold [of m xs] by (simp add: insert_commute)
qed

text \<open>Opening the directory finds the newest file, so that the contract holds from the start.\<close>

lemma NotifyProducer_init_inv:
  assumes "set is = {i. F i \<noteq> None}" and "\<forall>i \<in> set is. 0 \<le> i \<and> i < 2 ^ 31"
  shows "w_inv (NotifyProducer_init (map fmt_d is) (NotifyProducer_new F))"
proof -
  have a: "atoi32 (fmt_d i) = i" if "i \<in> set is" for i
    using assms(2) that by (intro atoi32_fmt_d) fastforce+
  have "fold (\<lambda>stem i. let idx = atoi32 stem in if idx > i then idx else i) (map fmt_d is) m = fold (\<lambda>x i. if x > i then x else i) is m" for m
    unfolding fold_map comp_def Let_def by (rule fold_cong) (simp_all add: a cong: if_cong)
  then have i: "w_index (NotifyProducer_init (map fmt_d is) (NotifyProducer_new F)) = Max (insert (- 1) (set is))"
    by (simp add: NotifyProducer_init_def NotifyProducer_new_def fold_max)
  have "w_files (NotifyProducer_init (map fmt_d is) (NotifyProducer_new F)) = F"
    by (simp add: NotifyProducer_init_def NotifyProducer_new_def)
  moreover have "- 1 \<le> Max (insert (- 1) (set is))" "\<forall>j \<in> set is. j \<le> Max (insert (- 1) (set is))" by simp_all
  ultimately show ?thesis using assms by (simp add: w_inv_def i)
qed

text \<open>One look at the directory, as the consumer takes it.\<close>

definition notify_read :: "logdir \<times> logdir \<Rightarrow> logpos \<Rightarrow> (string list \<times> logpos) res" where
  "notify_read e p =
     bindE (readLines (snd e) (fileIndex p) (fileOffset p)) (\<lambda>its.
     Inr (map fst its, if its \<noteq> [] then p\<lparr>fileOffset := snd (last its)\<rparr>
       else if isNewFileExist (fst e) (fileIndex p) then \<lparr>fileIndex = fileIndex p + 1, fileOffset = 0\<rparr> else p))"

lemma notify_read_stream:
  assumes "snapshots G N (fst e) (snd e) (fileIndex p)" and "notify_read e p = Inr (ls, p')"
  shows "ahead G N p = ls @ ahead G N p'"
proof -
  obtain c where c: "snd e (fileIndex p) = Some c" using assms(2) by (auto simp: notify_read_def readLines_def split: option.splits)
  define its where "its = read_lines (seek c (fileOffset p)) (fileOffset p) []"
  have "ls = map fst its" and p': "p' = (if its \<noteq> [] then p\<lparr>fileOffset := snd (last its)\<rparr>
      else if fst e (fileIndex p + 1) \<noteq> None then \<lparr>fileIndex = fileIndex p + 1, fileOffset = 0\<rparr> else p)"
    using assms(2) unfolding notify_read_def readLines_def isNewFileExist_def c option.case bindE_simps its_def [symmetric]
    by (auto split: if_splits)
  with read_step_stream [OF assms(1) c its_def] show ?thesis by simp
qed

interpretation notify_source: line_source notify_read "\<lambda>e. snapshots G N (fst e) (snd e)" "ahead G N" for G N
proof unfold_locales
  fix e p ls p' assume r: "notify_read e p = Inr (ls, p')"
  then show "fileIndex p \<le> fileIndex p'" by (auto simp: notify_read_def)
  assume "snapshots G N (fst e) (snd e) (fileIndex p)"
  then show "ahead G N p = ls @ ahead G N p'" by (rule notify_read_stream [OF _ r])
qed

text \<open>
  Line by line: each line taken is the next one of the file's final content \<open>f\<close>, and the offset that
  comes with it is where the next one starts.
\<close>

fun tracks :: "string \<Rightarrow> int \<Rightarrow> (string \<times> int) list \<Rightarrow> bool" where
  "tracks f off [] = True"
| "tracks f off ((l, o') # its) = (off < o' \<and> lines_of (seek f off) = l # lines_of (seek f o') \<and> tracks f o' its)"

lemma tracks_snoc:
  "tracks f off (its @ [(l, o')]) \<longleftrightarrow> tracks f off its \<and> (let k = (if its = [] then off else snd (last its)) in
     k < o' \<and> lines_of (seek f k) = l # lines_of (seek f o'))"
  by (induction its arbitrary: off) (auto simp: Let_def)

lemma read_lines_tracks:
  assumes "0 \<le> off" and "take (length c) f = c" and "nat k \<le> length c" and "0 \<le> k"
    and "acc = [] \<longrightarrow> k = off" and "acc \<noteq> [] \<longrightarrow> k = snd (last acc)" and "tracks f off acc"
  shows "tracks f off (read_lines (drop (nat k) c) k acc)"
  using assms(3-)
proof (induction "drop (nat k) c" k acc rule: read_lines.induct)
  case (1 k acc)
  let ?s = "drop (nat k) c"
  show ?case
  proof (cases "CHR 0x0A \<in> set ?s")
    case False
    then show ?thesis using "1.prems" by (simp add: read_lines.simps [of ?s])
  next
    case True
    then obtain l r where s: "?s = l @ CHR 0x0A # r" and l: "CHR 0x0A \<notin> set l" using newline_split by blast
    have gl: "getline_by CHR 0x0A ?s = (l, r)" using l by (simp add: s getline_by_sep)
    define o' where "o' = k + int (length l) + 1"
    have nat_o: "nat o' = nat k + Suc (length l)" using "1.prems"(2) by (simp add: o'_def nat_add_distrib)
    have r: "r = drop (nat o') c" using arg_cong [OF s, of "drop (Suc (length l))"] by (simp add: nat_o add.commute)
    have len: "nat o' \<le> length c" using arg_cong [OF s, of length] "1.prems"(1) by (simp add: nat_o)
    have f: "f = c @ drop (length c) f" using assms(2) by (metis append_take_drop_id)
    have "seek f k = ?s @ drop (length c) f" using "1.prems"(1,2) by (subst f) (simp add: seek_def)
    moreover have "seek f o' = r @ drop (length c) f" using len "1.prems"(2) by (subst f) (simp add: seek_def r o'_def)
    ultimately have next_line: "lines_of (seek f k) = l # lines_of (seek f o')" using l s by simp
    have tr: "tracks f off (acc @ [(l, o')])"
      using "1.prems" next_line by (auto simp: tracks_snoc Let_def o'_def)
    show ?thesis
    proof (cases "length (acc @ [(l, o')]) > 500")
      case stop: True
      then have "read_lines ?s k acc = acc @ [(l, o')]"
        using True gl by (simp add: read_lines.simps [of ?s] Let_def o'_def)
      then show ?thesis using tr by simp
    next
      case False
      then have "read_lines ?s k acc = read_lines r o' (acc @ [(l, o')])"
        using True gl by (simp add: read_lines.simps [of ?s] Let_def o'_def)
      moreover have "tracks f off (read_lines (drop (nat o') c) o' (acc @ [(l, o')]))"
      proof (rule "1.hyps")
        show "snd (getline_by CHR 0x0A ?s) = drop (nat o') c" by (simp only: gl snd_conv r)
        show "0 \<le> o'" using "1.prems"(2) by (simp add: o'_def)
        show "l = fst (getline_by CHR 0x0A ?s)" by (simp add: gl)
      qed (use True False len tr in \<open>simp_all add: o'_def\<close>)
      ultimately show ?thesis by (simp only: r)
    qed
  qed
qed

lemma readLines_tracks:
  assumes "snapshots G N F0 F1 i" and "0 \<le> off" and "readLines F1 i off = Inr its"
  shows "tracks (content G i) off its"
proof -
  obtain c where c: "F1 i = Some c" "its = read_lines (seek c off) off []"
    using assms(3) by (auto simp: readLines_def split: option.splits)
  have take: "take (length c) (content G i) = c" using assms(1) c(1) by (simp add: snapshots_def)
  show ?thesis
  proof (cases "nat off \<le> length c")
    case True
    then show ?thesis
      using read_lines_tracks [OF assms(2) take True assms(2)] c(2) assms(2) by (simp add: seek_def)
  next
    case False
    then show ?thesis using c(2) by (simp add: seek_def read_lines.simps)
  qed
qed

text \<open>
  A look at a directory that nobody writes to. While lines are ahead, it takes some of them or moves
  on to the next file.
\<close>

definition unbroken :: "logdir \<Rightarrow> bool" where
  "unbroken F = (\<forall>i j. 0 \<le> i \<and> i \<le> j \<and> F j \<noteq> None \<longrightarrow> F i \<noteq> None)"

definition remaining :: "logdir \<Rightarrow> int \<Rightarrow> logpos \<Rightarrow> nat" where
  "remaining F N p = length (ahead F N p) + nat (N - fileIndex p)"

lemma notify_read_progress:
  assumes F: "unbroken F" "\<forall>i. F i \<noteq> None \<longrightarrow> 0 \<le> i \<and> i \<le> N" "F (fileIndex p) \<noteq> None"
    and r: "notify_read (F, F) p = Inr (ls, p')" and more: "ahead F N p \<noteq> []"
  shows "F (fileIndex p') \<noteq> None \<and> remaining F N p' < remaining F N p"
proof -
  let ?i = "fileIndex p"
  obtain c where c: "F ?i = Some c" using F(3) by blast
  have sn: "snapshots F N F F ?i" using F(2) c by (auto simp: snapshots_def content_def split: option.splits)
  define its where "its = read_lines (seek c (fileOffset p)) (fileOffset p) []"
  have ls: "ls = map fst its" and p': "p' = (if its \<noteq> [] then p\<lparr>fileOffset := snd (last its)\<rparr>
      else if F (?i + 1) \<noteq> None then \<lparr>fileIndex = ?i + 1, fileOffset = 0\<rparr> else p)"
    using r unfolding notify_read_def readLines_def isNewFileExist_def fst_conv snd_conv c option.case bindE_simps its_def [symmetric]
    by (auto split: if_splits)
  have stream: "ahead F N p = ls @ ahead F N p'" by (rule notify_read_stream [OF _ r]) (simp add: sn)
  show ?thesis
  proof (cases "its = []")
    case False
    then show ?thesis using stream ls p' F(3) by (simp add: remaining_def)
  next
    case True
    have "F (?i + 1) \<noteq> None"
    proof
      assume none: "F (?i + 1) = None"
      have i: "0 \<le> ?i" using F(2,3) by blast
      have "F j = None" if "?i + 1 \<le> j" for j
        using F(1) i none that unfolding unbroken_def by (metis add_nonneg_nonneg zero_le_one)
      then have "content F j = []" if "j \<in> set [?i + 1..N]" for j using that by (simp add: content_def)
      then have "concat (map (\<lambda>j. lines_of (content F j)) [?i + 1..N]) = []" by simp
      moreover have "CHR 0x0A \<notin> set (seek c (fileOffset p))"
        using True its_def read_lines_none [of "seek c (fileOffset p)" "fileOffset p"] by simp
      ultimately have "ahead F N p = []" by (simp add: ahead_def content_def c)
      with more show False by blast
    qed
    moreover have "?i + 1 \<le> N" using F(2) calculation by blast
    ultimately show ?thesis using True stream ls p' by (simp add: remaining_def)
  qed
qed

end
