(* ===== verification/Notifyd.thy ===== *)
theory Notifyd
  imports NotifyFiles Base58 Log2DB
begin

text \<open>
  The notification daemon (class \<open>Notify\<close> and the callbacks of \<open>NotifyHttpd\<close> in
  src/jiexi/src/NotifyLog.cc): applications subscribe to addresses over HTTP, and the consumer
  thread reads the notification log and inserts each event into the tables of the applications
  it concerns.

  The tables of src/install/init_notify_db.sql are lists of rows; a statement is its effect on
  them with the unique key, the automatic numbers and the affected rows that the code
  checks (\<open>updateOrThrowEx\<close>). Texts of addresses are compared exactly. The columns that nothing
  reads are left out, except where MySQL counts a row as affected only if some column changes.

  Properties: memory and tables agree on the subscriptions, and every event is inserted exactly
  once for every application it concerns, also when the daemon is stopped and started again.
\<close>

section \<open>State\<close>

record event_row =
  ev_id :: int
  ev_type :: int
  ev_hash :: string
  ev_height :: int
  ev_address :: string
  ev_amount :: int
  ev_created :: string

record event_table =
  et_rows :: "event_row list"
  et_next :: int

record notify_db =
  nd_subs :: "(int \<times> string) list"
  nd_events :: "int \<Rightarrow> event_table option"
  nd_status :: "(string \<times> string) option"

record notify =
  nt_addressTable :: "(string, int sset) smap"
  nt_appIds :: "int sset"
  nt_pos :: logpos
  nt_db :: notify_db

text \<open>
  What the daemon gets from outside: the parsing of times, the text of the time when row \<open>i\<close>
  of an application is inserted, and for the line that ends at a position the time when
  \<open>lastWriteDBTime\<close> is compared, the time it is set to and the text of the time of the update.
\<close>

record notify_env =
  ne_params :: base58_params
  ne_sha :: "string \<Rightarrow> uint256"
  ne_str2time :: "string \<Rightarrow> int"
  ne_created :: "int \<Rightarrow> int \<Rightarrow> string"
  ne_now :: "logpos \<Rightarrow> int"
  ne_then :: "logpos \<Rightarrow> int"
  ne_stamp :: "logpos \<Rightarrow> string"

definition kMaxCount :: int where
  "kMaxCount = 3000000"

section \<open>Subscriptions\<close>

definition subscribers :: "(string, int sset) smap \<Rightarrow> string \<Rightarrow> int sset" where
  \<comment> \<open>\<open>addressTable_[a]\<close>\<close>
  "subscribers m a = (case map_of m a of None \<Rightarrow> [] | Some A \<Rightarrow> A)"

definition create_events :: "int \<Rightarrow> notify_db \<Rightarrow> notify_db" where
  \<comment> \<open>\<open>CREATE TABLE `event_app_N` LIKE `tpl_event_app`\<close>, unless the table is there\<close>
  "create_events appID d = (case nd_events d appID of
     Some _ \<Rightarrow> d | None \<Rightarrow> d\<lparr>nd_events := (nd_events d)(appID \<mapsto> \<lparr>et_rows = [], et_next = 1\<rparr>)\<rparr>)"

definition insert_sub :: "int \<Rightarrow> string \<Rightarrow> notify_db \<Rightarrow> notify_db res" where
  \<comment> \<open>the unique key \<open>(app_id, address)\<close>\<close>
  "insert_sub appID a d =
     (if (appID, a) \<in> set (nd_subs d) then Inl (Throw ''exec sql failure: duplicate entry'')
      else Inr (d\<lparr>nd_subs := nd_subs d @ [(appID, a)]\<rparr>))"

definition insertAddress :: "notify_env \<Rightarrow> int \<Rightarrow> string \<Rightarrow> bool \<Rightarrow> notify \<Rightarrow> (bool \<times> notify) res" where
  "insertAddress E appID address sync2mysql s =
     (let bitcoinAddr = CBitcoinAddress (ne_sha E) address in
      if \<not> IsValid (ne_params E) bitcoinAddr then Inr (False, s) else
      let a = CBase58Data_ToString (ne_sha E) bitcoinAddr in
      if appID \<in> set (subscribers (nt_addressTable s) a) then Inr (False, s) else
      let s = s\<lparr>nt_addressTable := sm_put a (ss_ins appID (subscribers (nt_addressTable s) a)) (nt_addressTable s)\<rparr>;
          isAppIDExist = (appID \<in> set (nt_appIds s));
          s = (if \<not> isAppIDExist then s\<lparr>nt_appIds := ss_ins appID (nt_appIds s)\<rparr> else s) in
      if sync2mysql then
        let d = (if \<not> isAppIDExist then create_events appID (nt_db s) else nt_db s) in
        bindE (insert_sub appID a d) (\<lambda>d. Inr (True, s\<lparr>nt_db := d\<rparr>))
      else Inr (True, s))"

definition delete_sub :: "int \<Rightarrow> string \<Rightarrow> notify_db \<Rightarrow> notify_db res" where
  "delete_sub appID a d =
     (let rows = filter (\<lambda>r. r \<noteq> (appID, a)) (nd_subs d)
      in updateOrThrowEx 1 (d\<lparr>nd_subs := rows\<rparr>, int (length (nd_subs d) - length rows)))"

definition removeAddress :: "notify_env \<Rightarrow> int \<Rightarrow> string \<Rightarrow> notify \<Rightarrow> (bool \<times> notify) res" where
  \<comment> \<open>the table in memory is changed at \<open>string(address)\<close>, the text of the request, not at \<open>a\<close>\<close>
  "removeAddress E appID address s =
     (let bitcoinAddr = CBitcoinAddress (ne_sha E) address in
      if \<not> IsValid (ne_params E) bitcoinAddr then Inr (False, s) else
      let a = CBase58Data_ToString (ne_sha E) bitcoinAddr in
      if appID \<notin> set (subscribers (nt_addressTable s) a) then Inr (False, s) else
      let s = s\<lparr>nt_addressTable := sm_put (c_str address) (ss_del appID (subscribers (nt_addressTable s) (c_str address)))
                (nt_addressTable s)\<rparr>
      in bindE (delete_sub appID a (nt_db s)) (\<lambda>d. Inr (True, s\<lparr>nt_db := d\<rparr>)))"

definition loadAddressTableFromDB :: "notify_env \<Rightarrow> notify \<Rightarrow> notify res" where
  "loadAddressTableFromDB E s =
     foldE (\<lambda>(app, a) s. bindE (insertAddress E app a False s) (\<lambda>(b, s). Inr s)) (nd_subs (nt_db s)) s"

section \<open>Events\<close>

definition insert_event :: "notify_env \<Rightarrow> int \<Rightarrow> int \<Rightarrow> string \<Rightarrow> int \<Rightarrow> string \<Rightarrow> int \<Rightarrow> notify \<Rightarrow> notify res" where
  "insert_event E app ty hash height address amount s =
     (case nd_events (nt_db s) app of
        None \<Rightarrow> Inl (Throw ''exec sql failure: no such table'')
      | Some t \<Rightarrow>
          let row = \<lparr>ev_id = et_next t, ev_type = ty, ev_hash = hash, ev_height = height, ev_address = address,
                ev_amount = amount, ev_created = ne_created E app (et_next t)\<rparr>
          in Inr (s\<lparr>nt_db := (nt_db s)\<lparr>nd_events := (nd_events (nt_db s))(app \<mapsto>
               \<lparr>et_rows = et_rows t @ [row], et_next = et_next t + 1\<rparr>)\<rparr>\<rparr>))"

definition trim_events :: "int \<Rightarrow> notify \<Rightarrow> notify res" where
  \<comment> \<open>\<open>atoi\<close> reads the ids, which are \<open>bigint\<close>\<close>
  "trim_events app s =
     (case nd_events (nt_db s) app of
        None \<Rightarrow> Inl (Throw ''exec sql failure: no such table'')
      | Some t \<Rightarrow>
          let ids = map ev_id (et_rows t);
              min_id = atoi32 (fmt_d (if ids = [] then 0 else Min (set ids)));
              max_id = atoi32 (fmt_d (if ids = [] then 0 else Max (set ids))) in
          bindE (assertE ''max_id >= min_id'' (max_id \<ge> min_id)) (\<lambda>_.
          if max_id > min_id + kMaxCount + 500000
          then Inr (s\<lparr>nt_db := (nt_db s)\<lparr>nd_events := (nd_events (nt_db s))(app \<mapsto>
               t\<lparr>et_rows := filter (\<lambda>r. \<not> ev_id r < max_id - kMaxCount) (et_rows t)\<rparr>)\<rparr>\<rparr>)
          else Inr s))"

definition handleBlockEvent :: "notify_env \<Rightarrow> NotifyItem \<Rightarrow> notify \<Rightarrow> (nat \<times> notify) res" where
  "handleBlockEvent E item s =
     foldE (\<lambda>app (cnt, s).
       bindE (insert_event E app (ni_type item) (ToString (ni_hash item)) (ni_height item) [] 0 s) (\<lambda>s.
       bindE (trim_events app s) (\<lambda>s. Inr (cnt + 1, s)))) (nt_appIds s) (0, s)"

definition handleTxEvent :: "notify_env \<Rightarrow> NotifyItem \<Rightarrow> notify \<Rightarrow> (nat \<times> notify) res" where
  "handleTxEvent E item s =
     (case map_of (nt_addressTable s) (ni_address item) of
        None \<Rightarrow> Inr (0, s)
      | Some apps \<Rightarrow>
          foldE (\<lambda>app (cnt, s).
            bindE (insert_event E app (ni_type item) (ToString (ni_hash item)) (ni_height item) (ni_address item)
              (ni_amount item) s) (\<lambda>s. Inr (cnt + 1, s))) apps (0, s))"

section \<open>The consumer\<close>

definition status_text :: "logpos \<Rightarrow> string" where
  "status_text p = fmt_d (fileIndex p) @ '','' @ fmt_d (fileOffset p)"

definition updateStatus :: "notify_env \<Rightarrow> notify \<Rightarrow> notify res" where
  \<comment> \<open>a row that does not change does not count as affected\<close>
  "updateStatus E s =
     (let new = (status_text (nt_pos s), ne_stamp E (nt_pos s)) in
      bindE (updateOrThrowEx 1 (Some new, if nd_status (nt_db s) = None \<or> nd_status (nt_db s) = Some new then 0 else 1)) (\<lambda>v.
      Inr (s\<lparr>nt_db := (nt_db s)\<lparr>nd_status := v\<rparr>\<rparr>)))"

definition getStatus :: "string \<Rightarrow> notify \<Rightarrow> notify res" where
  "getStatus now s =
     (case nd_status (nt_db s) of
        None \<Rightarrow> Inr (s\<lparr>nt_pos := \<lparr>fileIndex = 0, fileOffset = 0\<rparr>, nt_db := (nt_db s)\<lparr>nd_status := Some (''0,0'', now)\<rparr>\<rparr>)
      | Some (value, _) \<Rightarrow>
          let arr = split value CHR '','' in
          bindE (assertE ''arr.size() == 2'' (length arr = 2)) (\<lambda>_.
          Inr (s\<lparr>nt_pos := \<lparr>fileIndex = atoi (arr ! 0), fileOffset = atoi (arr ! 1)\<rparr>\<rparr>)))"

definition NotifyItem_new :: NotifyItem where
  \<comment> \<open>the constructor leaves the time stamp as it is\<close>
  "NotifyItem_new = NotifyItem_reset \<lparr>ni_timestamp = 0, ni_type = 0, ni_height = 0, ni_amount = 0, ni_hash = 0, ni_address = []\<rparr>"

definition consume_line :: "notify_env \<Rightarrow> string \<times> int \<Rightarrow> notify \<times> int \<Rightarrow> (notify \<times> int) res" where
  \<comment> \<open>the body of the loop over the lines; the second part of the state is \<open>lastWriteDBTime\<close>\<close>
  "consume_line E = (\<lambda>(line, offset) (s, lastWriteDBTime).
     let s = s\<lparr>nt_pos := (nt_pos s)\<lparr>fileOffset := offset\<rparr>\<rparr> in
     bindE (NotifyItem_parse (ne_str2time E) line NotifyItem_new) (\<lambda>(ok, item).
     if \<not> ok then Inr (s, lastWriteDBTime) else
     bindE (if ni_type item = NOTIFY_EVENT_BLOCK_ACCEPT \<or> ni_type item = NOTIFY_EVENT_BLOCK_REJECT
            then handleBlockEvent E item s else handleTxEvent E item s) (\<lambda>(cnt, s).
     if cnt > 0 \<or> ne_now E (nt_pos s) > lastWriteDBTime + 3
     then bindE (updateStatus E s) (\<lambda>s. Inr (s, ne_then E (nt_pos s)))
     else Inr (s, lastWriteDBTime))))"

definition consume_round :: "notify_env \<Rightarrow> logdir \<times> logdir \<Rightarrow> notify \<times> int \<Rightarrow> (notify \<times> int) res" where
  \<comment> \<open>one round of \<open>threadConsumeNotifyLogs\<close>, which looks at the directory twice\<close>
  "consume_round E = (\<lambda>(F0, F1) (s, lastWriteDBTime).
     let newFile = isNewFileExist F0 (fileIndex (nt_pos s)) in
     bindE (readLines F1 (fileIndex (nt_pos s)) (fileOffset (nt_pos s))) (\<lambda>lines.
     if newFile \<and> length lines = 0
     then Inr (s\<lparr>nt_pos := \<lparr>fileIndex = fileIndex (nt_pos s) + 1, fileOffset = 0\<rparr>\<rparr>, lastWriteDBTime)
     else foldE (consume_line E) lines (s, lastWriteDBTime)))"

section \<open>HTTP\<close>

definition notify_reply :: "int \<Rightarrow> string \<Rightarrow> string" where
  "notify_reply error_no error_msg =
     CHR ''{'' # CHR 0x22 # ''error_no'' @ CHR 0x22 # CHR '':'' # fmt_d error_no @ CHR '','' # CHR 0x22 # ''error_msg'' @
     [CHR 0x22, CHR '':'', CHR 0x22] @ error_msg @ [CHR 0x22, CHR ''}'']"

definition cb_address :: "notify_env \<Rightarrow> string \<Rightarrow> (string \<Rightarrow> string option) \<Rightarrow> notify \<Rightarrow> (string \<times> notify) res" where
  \<comment> \<open>the reply and the state after it\<close>
  "cb_address E token query s =
     (case (query ''appid'', query ''token'', query ''method'', query ''address'') of
        (Some queryAppID, Some queryToken, Some queryMethod, Some queryAddress) \<Rightarrow>
          let appID = atoi32 queryAppID in
          if \<not> IsValid (ne_params E) (CBitcoinAddress (ne_sha E) queryAddress) then Inr (notify_reply 1 ''invalid address'', s)
          else if c_str queryToken \<noteq> c_str token then Inr (notify_reply 1 ''invalid token'', s)
          else if appID \<le> 0 then Inr (notify_reply 1 ''invalid appid'', s)
          else if c_str queryMethod = ''insert'' then
            bindE (insertAddress E appID queryAddress True s) (\<lambda>(b, s).
            Inr (if \<not> b then notify_reply 20 ''address already exist'' else notify_reply 0 [], s))
          else if c_str queryMethod = ''delete'' then
            bindE (removeAddress E appID queryAddress s) (\<lambda>(b, s).
            Inr (if \<not> b then notify_reply 21 ''address is not exist'' else notify_reply 0 [], s))
          else Inr (notify_reply 1 ''invalid method'', s)
      | _ \<Rightarrow> Inr (notify_reply 1 ''invalid params'', s))"

definition jfield :: "string \<Rightarrow> string \<Rightarrow> string" where
  "jfield name v = CHR 0x22 # name @ CHR 0x22 # CHR '':'' # v"

definition jtext :: "string \<Rightarrow> string" where
  "jtext v = CHR 0x22 # v @ [CHR 0x22]"

definition event_json :: "event_row \<Rightarrow> string" where
  "event_json r = ''{'' @ jfield ''id'' (fmt_d (ev_id r)) @ '','' @ jfield ''type'' (fmt_d (ev_type r)) @ '','' @
     jfield ''hash'' (jtext (ev_hash r)) @ '','' @ jfield ''height'' (fmt_d (ev_height r)) @ '','' @
     jfield ''address'' (jtext (ev_address r)) @ '','' @ jfield ''amount'' (fmt_d (ev_amount r)) @ '','' @
     jfield ''created_at'' (jtext (ev_created r)) @ ''},''"

definition pull_rows :: "int \<Rightarrow> event_table \<Rightarrow> event_row list" where
  \<comment> \<open>\<open>SELECT ... WHERE `id` > offset ORDER BY `id` ASC LIMIT 1000\<close>\<close>
  "pull_rows offset t = take 1000 (sort_key ev_id (filter (\<lambda>r. ev_id r > offset) (et_rows t)))"

definition cb_pull_events :: "string \<Rightarrow> (string \<Rightarrow> string option) \<Rightarrow> notify_db \<Rightarrow> int sset \<Rightarrow> string \<times> int sset" where
  \<comment> \<open>the reply and \<open>tableIndex\<close>, the applications whose table was seen\<close>
  "cb_pull_events token query d tableIndex =
     (case (query ''appid'', query ''token'', query ''offset'') of
        (Some queryAppID, Some queryToken, Some queryOffset) \<Rightarrow>
          let appID = atoi32 queryAppID; offset = atoi (c_str queryOffset) in
          if c_str queryToken \<noteq> c_str token then (notify_reply 1 ''invalid token'', tableIndex)
          else if appID \<notin> set tableIndex \<and> nd_events d appID = None
          then (notify_reply 30 ''app events table is not exist'', tableIndex)
          else
            let tableIndex = ss_ins appID tableIndex;
                rows = (case nd_events d appID of None \<Rightarrow> [] | Some t \<Rightarrow> pull_rows offset t) in
            if length rows = 0 then (notify_reply 30 ''app events table is empty'', tableIndex)
            else
              let resp = ''{'' @ jfield ''error_no'' ''0'' @ '','' @ jfield ''error_msg'' (jtext []) @ '','' @
                    jfield ''results'' ''['' @ concat (map event_json rows)
              in (butlast resp @ '']}'', tableIndex)
      | _ \<Rightarrow> (notify_reply 1 ''invalid params'', tableIndex))"

section \<open>What the tables hold\<close>

text \<open>
  An event as the columns of its row. The table of an application holds the newest of the events
  \<open>es\<close> inserted since it was created, numbered from one, and never drops one of the last
  three million.
\<close>

type_synonym event = "int \<times> string \<times> int \<times> string \<times> int"

definition event_at :: "notify_env \<Rightarrow> int \<Rightarrow> int \<Rightarrow> event \<Rightarrow> event_row" where
  "event_at E app i = (\<lambda>(ty, hash, height, address, amount).
     \<lparr>ev_id = i, ev_type = ty, ev_hash = hash, ev_height = height, ev_address = address, ev_amount = amount,
      ev_created = ne_created E app i\<rparr>)"

fun rows_from :: "notify_env \<Rightarrow> int \<Rightarrow> int \<Rightarrow> event list \<Rightarrow> event_row list" where
  "rows_from E app i [] = []"
| "rows_from E app i (e # es) = event_at E app i e # rows_from E app (i + 1) es"

definition kept :: "notify_env \<Rightarrow> int \<Rightarrow> event_table \<Rightarrow> event list \<Rightarrow> bool" where
  "kept E app t es = (\<exists>k \<le> length es. et_rows t = rows_from E app (int k + 1) (drop k es) \<and>
     et_next t = int (length es) + 1 \<and> (0 < k \<longrightarrow> 3000001 \<le> length es - k))"

definition logs :: "notify_env \<Rightarrow> notify \<Rightarrow> (int \<Rightarrow> event list) \<Rightarrow> bool" where
  "logs E s A = (\<forall>app t. nd_events (nt_db s) app = Some t \<longrightarrow> kept E app t (A app))"

lemma rows_from_append: "rows_from E app i (es @ fs) = rows_from E app i es @ rows_from E app (i + int (length es)) fs"
  by (induction es arbitrary: i) (simp_all add: algebra_simps)

lemma length_rows_from [simp]: "length (rows_from E app i es) = length es"
  by (induction es arbitrary: i) simp_all

lemma ids_rows_from: "map ev_id (rows_from E app i es) = [i..i + int (length es) - 1]"
  by (induction es arbitrary: i) (simp_all add: event_at_def split_beta upto_rec1)

lemma filter_rows_from:
  "i \<le> m \<Longrightarrow> m \<le> i + int (length es) \<Longrightarrow>
     filter (\<lambda>r. \<not> ev_id r < m) (rows_from E app i es) = rows_from E app m (drop (nat (m - i)) es)"
proof (induction es arbitrary: i)
  case (Cons e es)
  show ?case
  proof (cases "i = m")
    case True
    have "filter (\<lambda>r. \<not> ev_id r < m) (rows_from E app m (e # es)) = rows_from E app m (e # es)"
    proof (rule filter_True, rule ballI)
      fix r assume "r \<in> set (rows_from E app m (e # es))"
      then have "ev_id r \<in> set (map ev_id (rows_from E app m (e # es)))" unfolding set_map by (rule imageI)
      then show "\<not> ev_id r < m" unfolding ids_rows_from by simp
    qed
    then show ?thesis using True by simp
  next
    case False
    then have "nat (m - i) = Suc (nat (m - (i + 1)))" using Cons.prems by simp
    moreover have "ev_id (event_at E app i e) < m" using False Cons.prems by (simp add: event_at_def split_beta)
    ultimately show ?thesis using Cons False by simp
  qed
qed simp

definition same :: "notify \<Rightarrow> notify \<Rightarrow> bool" where
  "same s s' = (nt_addressTable s' = nt_addressTable s \<and> nt_appIds s' = nt_appIds s \<and> nt_pos s' = nt_pos s \<and>
     nd_subs (nt_db s') = nd_subs (nt_db s) \<and> nd_status (nt_db s') = nd_status (nt_db s) \<and>
     dom (nd_events (nt_db s')) = dom (nd_events (nt_db s)))"

lemma same_refl [simp]: "same s s"
  by (simp add: same_def)

lemma same_trans: "same s t \<Longrightarrow> same t u \<Longrightarrow> same s u"
  by (simp add: same_def)

lemma insert_event_logs:
  assumes "logs E s A" and "app \<in> dom (nd_events (nt_db s))"
  shows "returns (insert_event E app ty hash height address amount s)
     (\<lambda>s'. logs E s' (A(app := A app @ [(ty, hash, height, address, amount)])) \<and> same s s')"
proof -
  obtain t where t: "nd_events (nt_db s) app = Some t" using assms(2) by blast
  with assms(1) have "kept E app t (A app)" by (simp add: logs_def)
  then obtain k where k: "k \<le> length (A app)" "et_rows t = rows_from E app (int k + 1) (drop k (A app))"
    "et_next t = int (length (A app)) + 1" "0 < k \<longrightarrow> 3000001 \<le> length (A app) - k" unfolding kept_def by blast
  let ?e = "(ty, hash, height, address, amount)"
  let ?t = "\<lparr>et_rows = et_rows t @ [event_at E app (et_next t) ?e], et_next = et_next t + 1\<rparr>"
  have "kept E app ?t (A app @ [?e])"
    unfolding kept_def using k by (intro exI [of _ k]) (auto simp: rows_from_append of_nat_diff algebra_simps)
  then show ?thesis
    using assms t by (auto simp: insert_event_def logs_def same_def event_at_def)
qed

lemma trim_events_logs:
  assumes "logs E s A" and "app \<in> dom (nd_events (nt_db s))" and "length (A app) < 2 ^ 31" and "A app \<noteq> []"
  shows "returns (trim_events app s) (\<lambda>s'. logs E s' A \<and> same s s' \<and>
     (\<forall>t. nd_events (nt_db s') app = Some t \<longrightarrow> length (et_rows t) \<le> 3500001))"
proof -
  obtain t where t: "nd_events (nt_db s) app = Some t" using assms(2) by blast
  with assms(1) have "kept E app t (A app)" by (simp add: logs_def)
  then obtain k where k: "k \<le> length (A app)" "et_rows t = rows_from E app (int k + 1) (drop k (A app))"
    "et_next t = int (length (A app)) + 1" "0 < k \<longrightarrow> 3000001 \<le> length (A app) - k" unfolding kept_def by blast
  let ?n = "int (length (A app))"
  have kn: "int k < ?n" using k(1,4) assms(4) by (cases "k = 0") auto
  have ids: "map ev_id (et_rows t) = [int k + 1..?n]" using k(1) by (simp add: k(2) ids_rows_from of_nat_diff)
  have mm: "Min {int k + 1..?n} = int k + 1" "Max {int k + 1..?n} = ?n" using kn by (auto intro: Min_eqI Max_eqI)
  have n: "?n < 2 ^ 31" using assms(3) by simp
  have at: "atoi32 (fmt_d (int k + 1)) = int k + 1" "atoi32 (fmt_d ?n) = ?n" using kn n by (simp_all add: atoi32_fmt_d)
  have ne: "[int k + 1..?n] \<noteq> []" using kn by simp
  show ?thesis
  proof (cases "?n > int k + 1 + kMaxCount + 500000")
    case True
    let ?t = "t\<lparr>et_rows := filter (\<lambda>r. \<not> ev_id r < ?n - kMaxCount) (et_rows t)\<rparr>"
    let ?k = "nat (?n - kMaxCount - 1)"
    have "filter (\<lambda>r. \<not> ev_id r < ?n - kMaxCount) (et_rows t) = rows_from E app (?n - kMaxCount) (drop (nat (?n - kMaxCount - (int k + 1))) (drop k (A app)))"
      unfolding k(2) by (rule filter_rows_from) (use True k(1) in \<open>simp_all add: kMaxCount_def of_nat_diff\<close>)
    moreover have "nat (?n - kMaxCount - (int k + 1)) + k = ?k" "int ?k + 1 = ?n - kMaxCount" using True by (simp_all add: kMaxCount_def)
    ultimately have rows: "et_rows ?t = rows_from E app (int ?k + 1) (drop ?k (A app))" by simp
    moreover have "?k \<le> length (A app)" "3000001 \<le> length (A app) - ?k" "length (A app) - ?k \<le> 3500001" using True by (simp_all add: kMaxCount_def)
    ultimately have "kept E app ?t (A app)" "length (et_rows ?t) \<le> 3500001"
      unfolding kept_def using k(3) by (auto intro!: exI [of _ ?k])
    then show ?thesis
      using True ne assms(1) t by (auto simp: trim_events_def ids mm at assertE_def Let_def kMaxCount_def logs_def same_def)
  next
    case False
    then have "length (et_rows t) \<le> 3500001" using k(1,2) by (simp add: kMaxCount_def)
    with False show ?thesis
      using kn ne assms(1) t by (auto simp: trim_events_def ids mm at assertE_def Let_def kMaxCount_def)
  qed
qed

text \<open>An event goes to the tables of a set of applications.\<close>

lemma to_apps:
  assumes f: "\<And>app s A. logs E s A \<Longrightarrow> app \<in> dom (nd_events (nt_db s)) \<Longrightarrow> length (A app) < 2 ^ 31 - 1 \<Longrightarrow>
      returns (f app s) (\<lambda>s'. logs E s' (A(app := A app @ [e])) \<and> same s s')"
    and "distinct apps" and "set apps \<subseteq> dom (nd_events (nt_db s))" and "logs E s A" and "\<forall>app \<in> set apps. length (A app) < 2 ^ 31 - 1"
  shows "returns (foldE (\<lambda>app (cnt, s). bindE (f app s) (\<lambda>s. Inr (cnt + 1, s))) apps (c, s))
     (\<lambda>(cnt, s'). cnt = c + length apps \<and> logs E s' (\<lambda>app. A app @ (if app \<in> set apps then [e] else [])) \<and> same s s')"
  using assms(2-)
proof (induction apps arbitrary: c s A)
  case (Cons app apps)
  have "returns (f app s) (\<lambda>s'. logs E s' (A(app := A app @ [e])) \<and> same s s')"
    using Cons.prems by (intro f) auto
  then obtain s1 where s1: "f app s = Inr s1" "logs E s1 (A(app := A app @ [e]))" "same s s1" by (auto simp: returns_def)
  have "set apps \<subseteq> dom (nd_events (nt_db s1))" using Cons.prems(2) s1(3) by (simp add: same_def)
  moreover have "\<forall>x \<in> set apps. length ((A(app := A app @ [e])) x) < 2 ^ 31 - 1" using Cons.prems(1,4) by auto
  ultimately have "returns (foldE (\<lambda>app (cnt, s). bindE (f app s) (\<lambda>s. Inr (cnt + 1, s))) apps (c + 1, s1))
     (\<lambda>(cnt, s'). cnt = c + 1 + length apps \<and>
        logs E s' (\<lambda>x. (A(app := A app @ [e])) x @ (if x \<in> set apps then [e] else [])) \<and> same s1 s')"
    using Cons.IH [OF _ _ s1(2), of "c + 1"] Cons.prems(1) by simp
  moreover have "(\<lambda>x. (A(app := A app @ [e])) x @ (if x \<in> set apps then [e] else [])) =
      (\<lambda>x. A x @ (if x \<in> set (app # apps) then [e] else []))" using Cons.prems(1) by (auto simp: fun_eq_iff)
  ultimately show ?case using s1 by (auto simp: returns_def intro: same_trans)
qed simp

text \<open>The events of an item for an application, by the subscriptions, and those of a line.\<close>

definition item_events :: "notify \<Rightarrow> int \<Rightarrow> NotifyItem \<Rightarrow> event list" where
  "item_events s app i =
     (if ni_type i = NOTIFY_EVENT_BLOCK_ACCEPT \<or> ni_type i = NOTIFY_EVENT_BLOCK_REJECT
      then if app \<in> set (nt_appIds s) then [(ni_type i, ToString (ni_hash i), ni_height i, [], 0)] else []
      else if app \<in> set (subscribers (nt_addressTable s) (ni_address i))
      then [(ni_type i, ToString (ni_hash i), ni_height i, ni_address i, ni_amount i)] else [])"

definition line_events :: "notify_env \<Rightarrow> notify \<Rightarrow> int \<Rightarrow> string \<Rightarrow> event list" where
  "line_events E s app line =
     (case NotifyItem_parse (ne_str2time E) line NotifyItem_new of
        Inr (True, i) \<Rightarrow> item_events s app i | _ \<Rightarrow> [])"

text \<open>Every subscriber has a table.\<close>

definition tabled :: "notify \<Rightarrow> bool" where
  "tabled s = (ss_wf (nt_appIds s) \<and> set (nt_appIds s) \<subseteq> dom (nd_events (nt_db s)) \<and>
     (\<forall>a. ss_wf (subscribers (nt_addressTable s) a) \<and> set (subscribers (nt_addressTable s) a) \<subseteq> set (nt_appIds s)))"

lemma handleBlockEvent_logs:
  assumes "tabled s" and "logs E s A" and "\<forall>app \<in> set (nt_appIds s). length (A app) < 2 ^ 31 - 1"
  shows "returns (handleBlockEvent E i s) (\<lambda>(cnt, s'). cnt = length (nt_appIds s) \<and> logs E s' (\<lambda>app. A app @
     (if app \<in> set (nt_appIds s) then [(ni_type i, ToString (ni_hash i), ni_height i, [], 0)] else [])) \<and> same s s')"
proof -
  let ?e = "(ni_type i, ToString (ni_hash i), ni_height i, [], 0)"
  let ?f = "\<lambda>app s. bindE (insert_event E app (ni_type i) (ToString (ni_hash i)) (ni_height i) [] 0 s) (trim_events app)"
  have f: "returns (?f app s) (\<lambda>s'. logs E s' (A(app := A app @ [?e])) \<and> same s s')"
    if "logs E s A" "app \<in> dom (nd_events (nt_db s))" "length (A app) < 2 ^ 31 - 1" for app s A
  proof (rule returns_bind, rule returns_mono [OF insert_event_logs [OF that(1,2)]], elim conjE)
    fix s1 assume s1: "logs E s1 (A(app := A app @ [?e]))" "same s s1"
    have "app \<in> dom (nd_events (nt_db s1))" using that(2) s1(2) by (simp add: same_def)
    moreover have "length ((A(app := A app @ [?e])) app) < 2 ^ 31" "(A(app := A app @ [?e])) app \<noteq> []" using that(3) by simp_all
    ultimately show "returns (trim_events app s1) (\<lambda>s'. logs E s' (A(app := A app @ [?e])) \<and> same s s')"
      using trim_events_logs [OF s1(1)] s1(2) by (blast intro: returns_mono same_trans)
  qed
  have "returns (foldE (\<lambda>app (cnt, s). bindE (?f app s) (\<lambda>s. Inr (cnt + 1, s))) (nt_appIds s) (0, s))
     (\<lambda>(cnt, s'). cnt = 0 + length (nt_appIds s) \<and> logs E s' (\<lambda>app. A app @ (if app \<in> set (nt_appIds s) then [?e] else [])) \<and> same s s')"
    by (rule to_apps [where f = ?f, OF f]) (use assms ss_wf_distinct in \<open>auto simp: tabled_def\<close>)
  moreover have "(\<lambda>app (cnt :: nat, s). bindE (?f app s) (\<lambda>s. Inr (cnt + 1, s))) = (\<lambda>app (cnt, s).
       bindE (insert_event E app (ni_type i) (ToString (ni_hash i)) (ni_height i) [] 0 s) (\<lambda>s.
       bindE (trim_events app s) (\<lambda>s. Inr (cnt + 1, s :: notify))))"
    by (auto simp: fun_eq_iff bindE_def split: sum.splits)
  ultimately show ?thesis unfolding handleBlockEvent_def by (simp only: add_0)
qed

lemma handleTxEvent_logs:
  assumes "tabled s" and "logs E s A" and "\<forall>app \<in> set (subscribers (nt_addressTable s) (ni_address i)). length (A app) < 2 ^ 31 - 1"
  shows "returns (handleTxEvent E i s) (\<lambda>(cnt, s'). cnt = length (subscribers (nt_addressTable s) (ni_address i)) \<and>
     logs E s' (\<lambda>app. A app @ (if app \<in> set (subscribers (nt_addressTable s) (ni_address i))
       then [(ni_type i, ToString (ni_hash i), ni_height i, ni_address i, ni_amount i)] else [])) \<and> same s s')"
proof (cases "map_of (nt_addressTable s) (ni_address i)")
  case None
  then show ?thesis using assms by (simp add: handleTxEvent_def subscribers_def)
next
  case (Some apps)
  then have apps: "subscribers (nt_addressTable s) (ni_address i) = apps" by (simp add: subscribers_def)
  have "set apps \<subseteq> dom (nd_events (nt_db s))" "distinct apps"
    using assms(1) ss_wf_distinct unfolding tabled_def apps [symmetric] by blast+
  note wf = this
  have "returns (foldE (\<lambda>app (cnt, s). bindE (insert_event E app (ni_type i) (ToString (ni_hash i)) (ni_height i) (ni_address i) (ni_amount i) s)
       (\<lambda>s. Inr (cnt + 1, s))) apps (0, s)) (\<lambda>(cnt, s'). cnt = 0 + length apps \<and>
     logs E s' (\<lambda>app. A app @ (if app \<in> set apps then [(ni_type i, ToString (ni_hash i), ni_height i, ni_address i, ni_amount i)] else [])) \<and> same s s')"
    by (rule to_apps [where f = "\<lambda>app. insert_event E app (ni_type i) (ToString (ni_hash i)) (ni_height i) (ni_address i) (ni_amount i)", OF insert_event_logs])
      (use assms apps wf in simp_all)
  then show ?thesis using Some by (simp add: handleTxEvent_def apps)
qed

section \<open>The position\<close>

lemma status_text_inject: "status_text p = status_text q \<longleftrightarrow> p = q"
proof
  assume "status_text p = status_text q"
  then have "fmt_d (fileIndex p) = fmt_d (fileIndex q)" "fmt_d (fileOffset p) = fmt_d (fileOffset q)"
    using append_sep_inject [of "CHR '',''" "fmt_d (fileOffset p)" "fmt_d (fileOffset q)"] by (auto simp: status_text_def)
  then show "p = q" by (metis atoi_fmt_d logpos.equality old.unit.exhaust)
qed simp

lemma getStatus_status:
  assumes "nd_status (nt_db s) = Some (status_text q, t)"
  shows "getStatus now s = Inr (s\<lparr>nt_pos := q\<rparr>)"
proof -
  have "split (status_text q) CHR '','' = [fmt_d (fileIndex q), fmt_d (fileOffset q)]"
    by (simp add: split_def status_text_def split_loop_sep split_loop_last)
  then show ?thesis by (simp add: getStatus_def assms)
qed

definition behind :: "logpos \<Rightarrow> logpos \<Rightarrow> bool" where
  "behind q p = (fileIndex q < fileIndex p \<or> fileIndex q = fileIndex p \<and> fileOffset q \<le> fileOffset p)"

text \<open>
  The recorded position is where the daemon starts again. It is in the stream \<open>S\<close> of lines, and
  between it and the position reached there are only lines that concern nobody.
\<close>

definition resumes :: "notify_env \<Rightarrow> logdir \<Rightarrow> int \<Rightarrow> string list \<Rightarrow> notify \<Rightarrow> bool" where
  "resumes E G N S s = (\<exists>q t pre sk. nd_status (nt_db s) = Some (status_text q, t) \<and> behind q (nt_pos s) \<and> 0 \<le> fileOffset q \<and>
     S = pre @ ahead G N q \<and> ahead G N q = sk @ ahead G N (nt_pos s) \<and> (\<forall>l \<in> set sk. \<forall>app. line_events E s app l = []))"

definition consuming :: "notify_env \<Rightarrow> logdir \<Rightarrow> int \<Rightarrow> string list \<Rightarrow> notify \<Rightarrow> (int \<Rightarrow> event list) \<Rightarrow> bool" where
  "consuming E G N S s A = (tabled s \<and> logs E s A \<and> resumes E G N S s \<and> 0 \<le> fileOffset (nt_pos s))"

definition subs_same :: "notify \<Rightarrow> notify \<Rightarrow> bool" where
  "subs_same s s' = (nt_addressTable s' = nt_addressTable s \<and> nt_appIds s' = nt_appIds s \<and>
     nd_subs (nt_db s') = nd_subs (nt_db s) \<and> dom (nd_events (nt_db s')) = dom (nd_events (nt_db s)))"

lemma subs_same_refl [simp]: "subs_same s s"
  by (simp add: subs_same_def)

lemma subs_same_trans: "subs_same s t \<Longrightarrow> subs_same t u \<Longrightarrow> subs_same s u"
  by (simp add: subs_same_def)

lemma line_events_same: "subs_same s s' \<Longrightarrow> line_events E s' app l = line_events E s app l"
proof -
  assume "subs_same s s'"
  then have "item_events s' app = item_events s app" by (auto simp: subs_same_def item_events_def fun_eq_iff)
  then show ?thesis unfolding line_events_def by (simp only:)
qed

lemma tabled_same: "subs_same s s' \<Longrightarrow> tabled s' = tabled s"
  by (simp add: subs_same_def tabled_def)

lemma resumes_skip:
  assumes "resumes E G N S s" and "subs_same s s'" and "nd_status (nt_db s') = nd_status (nt_db s)"
    and "behind (nt_pos s) (nt_pos s')" and "ahead G N (nt_pos s) = sk @ ahead G N (nt_pos s')"
    and "\<forall>l \<in> set sk. \<forall>app. line_events E s app l = []"
  shows "resumes E G N S s'"
proof -
  from assms(1) obtain q t pre sk1 where q: "nd_status (nt_db s) = Some (status_text q, t)" "behind q (nt_pos s)" "0 \<le> fileOffset q"
    "S = pre @ ahead G N q" "ahead G N q = sk1 @ ahead G N (nt_pos s)" "\<forall>l \<in> set sk1. \<forall>app. line_events E s app l = []"
    unfolding resumes_def by blast
  have "behind q (nt_pos s')" using q(2) assms(4) by (auto simp: behind_def)
  moreover have "ahead G N q = (sk1 @ sk) @ ahead G N (nt_pos s')" using q(5) assms(5) by simp
  moreover have "\<forall>l \<in> set (sk1 @ sk). \<forall>app. line_events E s' app l = []" using q(6) assms(6) line_events_same [OF assms(2)] by auto
  ultimately show ?thesis unfolding resumes_def using q(1,3,4) assms(3) by metis
qed

lemma updateStatus_ok:
  assumes "nd_status (nt_db s) = Some (status_text q, t)" and "q \<noteq> nt_pos s"
  shows "updateStatus E s = Inr (s\<lparr>nt_db := (nt_db s)\<lparr>nd_status := Some (status_text (nt_pos s), ne_stamp E (nt_pos s))\<rparr>\<rparr>)"
  using assms by (simp add: updateStatus_def updateOrThrowEx_def status_text_inject Let_def)

lemma item_events_len: "tabled s \<Longrightarrow> length (item_events s app i) \<le> 1"
  by (simp add: item_events_def)

text \<open>An item of a line goes to the tables, and the count tells whether it concerns anybody.\<close>

lemma handle_item:
  assumes "tabled s" and "logs E s A" and "\<forall>app. length (A app @ item_events s app i) < 2 ^ 31"
  shows "returns (if ni_type i = NOTIFY_EVENT_BLOCK_ACCEPT \<or> ni_type i = NOTIFY_EVENT_BLOCK_REJECT
       then handleBlockEvent E i s else handleTxEvent E i s)
     (\<lambda>(cnt, s'). logs E s' (\<lambda>app. A app @ item_events s app i) \<and> same s s' \<and> (cnt = 0 \<longrightarrow> (\<forall>app. item_events s app i = [])))"
proof (cases "ni_type i = NOTIFY_EVENT_BLOCK_ACCEPT \<or> ni_type i = NOTIFY_EVENT_BLOCK_REJECT")
  case True
  then have e: "item_events s app i = (if app \<in> set (nt_appIds s) then [(ni_type i, ToString (ni_hash i), ni_height i, [], 0)] else [])"
    for app by (simp add: item_events_def)
  have "\<forall>app \<in> set (nt_appIds s). length (A app) < 2 ^ 31 - 1" using assms(3) by (auto simp: e dest!: spec split: if_splits)
  from handleBlockEvent_logs [OF assms(1,2) this, of i] True show ?thesis by (auto simp: e elim!: returns_mono)
next
  case False
  let ?apps = "subscribers (nt_addressTable s) (ni_address i)"
  have e: "item_events s app i = (if app \<in> set ?apps then [(ni_type i, ToString (ni_hash i), ni_height i, ni_address i, ni_amount i)] else [])"
    for app using False by (simp add: item_events_def)
  have "\<forall>app \<in> set ?apps. length (A app) < 2 ^ 31 - 1" using assms(3) by (auto simp: e dest!: spec split: if_splits)
  from handleTxEvent_logs [OF assms(1,2) this] False show ?thesis by (auto simp: e elim!: returns_mono)
qed

definition next_line :: "logdir \<Rightarrow> logpos \<Rightarrow> string \<Rightarrow> int \<Rightarrow> bool" where
  "next_line G p l o' = (fileOffset p < o' \<and>
     lines_of (seek (content G (fileIndex p)) (fileOffset p)) = l # lines_of (seek (content G (fileIndex p)) o'))"

lemma consume_line_ok:
  assumes inv: "consuming E G N S s A" and nl: "next_line G (nt_pos s) l o'"
    and parse: "NotifyItem_parse (ne_str2time E) l NotifyItem_new = Inr r"
    and small: "\<forall>app. length (A app @ line_events E s app l) < 2 ^ 31"
  shows "returns (consume_line E (l, o') (s, t)) (\<lambda>(s', t'). consuming E G N S s' (\<lambda>app. A app @ line_events E s app l) \<and>
     subs_same s s' \<and> nt_pos s' = (nt_pos s)\<lparr>fileOffset := o'\<rparr>)"
proof -
  let ?p = "(nt_pos s)\<lparr>fileOffset := o'\<rparr>" and ?s = "s\<lparr>nt_pos := (nt_pos s)\<lparr>fileOffset := o'\<rparr>\<rparr>"
  have i: "tabled s" "logs E s A" "resumes E G N S s" "0 \<le> fileOffset (nt_pos s)" using inv by (simp_all add: consuming_def)
  have o: "0 \<le> o'" "behind (nt_pos s) ?p" using nl i(4) by (simp_all add: next_line_def behind_def)
  have ahead: "ahead G N (nt_pos s) = [l] @ ahead G N ?p" using nl by (simp add: next_line_def ahead_def)
  have s: "tabled ?s" "logs E ?s A" "subs_same s ?s" using i(1,2) by (simp_all add: tabled_def logs_def subs_same_def)
  obtain ok i0 where r: "r = (ok, i0)" by fastforce
  show ?thesis
  proof (cases ok)
    case False
    then have none: "line_events E s app l = []" for app using parse r by (simp add: line_events_def)
    have "resumes E G N S ?s" by (rule resumes_skip [OF i(3) s(3) _ _ _]) (use o ahead none in auto)
    then show ?thesis using False parse r s o none by (simp add: consume_line_def consuming_def)
  next
    case True
    then have e: "line_events E s app l = item_events s app i0" for app using parse r by (simp add: line_events_def)
    have e': "item_events ?s app i0 = item_events s app i0" for app by (simp add: item_events_def)
    have "\<forall>app. length (A app @ item_events ?s app i0) < 2 ^ 31" using small by (simp add: e e')
    from handle_item [OF s(1,2) this] obtain cnt s1 where
      h: "(if ni_type i0 = NOTIFY_EVENT_BLOCK_ACCEPT \<or> ni_type i0 = NOTIFY_EVENT_BLOCK_REJECT
       then handleBlockEvent E i0 ?s else handleTxEvent E i0 ?s) = Inr (cnt, s1)"
      and l1: "logs E s1 (\<lambda>app. A app @ line_events E s app l)" and sm: "same ?s s1"
      and none: "cnt = 0 \<longrightarrow> (\<forall>app. line_events E s app l = [])"
      by (auto simp: returns_def e e')
    have s1: "subs_same s s1" "nt_pos s1 = ?p" "nd_status (nt_db s1) = nd_status (nt_db s)" using sm by (simp_all add: same_def subs_same_def)
    have step: "consume_line E (l, o') (s, t) = (if cnt > 0 \<or> ne_now E (nt_pos s1) > t + 3
       then bindE (updateStatus E s1) (\<lambda>s. Inr (s, ne_then E (nt_pos s))) else Inr (s1, t))"
      using True h parse r by (simp add: consume_line_def)
    show ?thesis
    proof (cases "cnt > 0 \<or> ne_now E (nt_pos s1) > t + 3")
      case False
      have "resumes E G N S s1" by (rule resumes_skip [OF i(3) s1(1,3)]) (use o ahead none False s1(2) in auto)
      then show ?thesis using False step l1 s1 o tabled_same [OF s1(1)] i(1) by (simp add: consuming_def)
    next
      case True
      from i(3) obtain q t1 pre sk where q: "nd_status (nt_db s1) = Some (status_text q, t1)" "behind q (nt_pos s)"
        "S = pre @ ahead G N q" "ahead G N q = sk @ ahead G N (nt_pos s)"
        unfolding resumes_def s1(3) by blast
      have "q \<noteq> nt_pos s1" using q(2) nl s1(2) by (auto simp: behind_def next_line_def)
      note u = updateStatus_ok [OF q(1) this, of E]
      define s2 where "s2 = s1\<lparr>nt_db := (nt_db s1)\<lparr>nd_status := Some (status_text (nt_pos s1), ne_stamp E (nt_pos s1))\<rparr>\<rparr>"
      have s2: "subs_same s s2" "logs E s2 (\<lambda>app. A app @ line_events E s app l)" "nt_pos s2 = ?p"
        using s1 l1 by (simp_all add: s2_def subs_same_def logs_def)
      have "resumes E G N S s2" unfolding resumes_def using s1(2) o q(3,4) ahead
        by (intro exI [of _ "nt_pos s2"] exI [of _ "ne_stamp E (nt_pos s1)"] exI [of _ "pre @ sk @ [l]"] exI [of _ "[]"])
          (simp add: s2_def behind_def)
      then have "consuming E G N S s2 (\<lambda>app. A app @ line_events E s app l)"
        using s2 o tabled_same [OF s2(1)] i(1) by (simp add: consuming_def)
      then show ?thesis using True step u s2 by (simp add: s2_def)
    qed
  qed
qed

text \<open>A batch of lines.\<close>

abbreviation adds :: "notify_env \<Rightarrow> notify \<Rightarrow> (int \<Rightarrow> event list) \<Rightarrow> string list \<Rightarrow> int \<Rightarrow> event list" where
  "adds E s A ls \<equiv> (\<lambda>app. A app @ concat (map (line_events E s app) ls))"

definition parses :: "notify_env \<Rightarrow> string \<Rightarrow> bool" where
  "parses E l = (\<exists>r. NotifyItem_parse (ne_str2time E) l NotifyItem_new = Inr r)"

lemma consume_lines_ok:
  assumes "consuming E G N S s A" and "tracks (content G (fileIndex (nt_pos s))) (fileOffset (nt_pos s)) its"
    and "\<forall>l \<in> set (map fst its). parses E l"
    and "\<forall>app. length (adds E s A (map fst its) app) < 2 ^ 31"
  shows "returns (foldE (consume_line E) its (s, t)) (\<lambda>(s', t'). consuming E G N S s' (adds E s A (map fst its)) \<and> subs_same s s' \<and>
     nt_pos s' = (if its = [] then nt_pos s else (nt_pos s)\<lparr>fileOffset := snd (last its)\<rparr>))"
  using assms
proof (induction its arbitrary: s t A)
  case (Cons it its)
  obtain l o' where it: "it = (l, o')" by fastforce
  obtain r where r: "NotifyItem_parse (ne_str2time E) l NotifyItem_new = Inr r" using Cons.prems(3) it by (auto simp: parses_def)
  have nl: "next_line G (nt_pos s) l o'" using Cons.prems(2) it by (simp add: next_line_def)
  have len: "length (A app @ line_events E s app l) \<le> length (adds E s A (map fst (it # its)) app)" for app by (simp add: it)
  have "\<forall>app. length (A app @ line_events E s app l) < 2 ^ 31" using Cons.prems(4) le_less_trans [OF len] by blast
  from consume_line_ok [OF Cons.prems(1) nl r this, of t] obtain s1 t1 where
    s1: "consume_line E (l, o') (s, t) = Inr (s1, t1)" "consuming E G N S s1 (\<lambda>app. A app @ line_events E s app l)"
      "subs_same s s1" "nt_pos s1 = (nt_pos s)\<lparr>fileOffset := o'\<rparr>" by (auto simp: returns_def)
  have ev: "line_events E s1 = line_events E s" using line_events_same [OF s1(3)] by (simp add: fun_eq_iff)
  let ?A = "\<lambda>app. A app @ line_events E s app l"
  have "returns (foldE (consume_line E) its (s1, t1)) (\<lambda>(s', t'). consuming E G N S s' (adds E s1 ?A (map fst its)) \<and> subs_same s1 s' \<and>
     nt_pos s' = (if its = [] then nt_pos s1 else (nt_pos s1)\<lparr>fileOffset := snd (last its)\<rparr>))"
    by (rule Cons.IH [OF s1(2)]) (use Cons.prems s1(4) it ev in auto)
  moreover have "adds E s1 ?A (map fst its) = adds E s A (map fst (it # its))" by (simp add: it ev)
  ultimately show ?case using s1 it by (auto simp: returns_def intro: subs_same_trans)
qed simp

text \<open>Rounds: files once seen stay, and those the daemon stands at are there.\<close>

fun stays :: "int \<Rightarrow> (logdir \<times> logdir) list \<Rightarrow> bool" where
  "stays i [] = True"
| "stays i (e # es) = (snd e i \<noteq> None \<and> stays i es \<and> (fst e (i + 1) \<noteq> None \<longrightarrow> stays (i + 1) es))"

lemma consume_round_ok:
  assumes inv: "consuming E G N S s A" and sn: "snapshots G N (fst e) (snd e) (fileIndex (nt_pos s))"
    and there: "snd e (fileIndex (nt_pos s)) \<noteq> None"
    and parse: "\<forall>l \<in> set (ahead G N (nt_pos s)). parses E l"
    and small: "\<forall>app. length (adds E s A (ahead G N (nt_pos s)) app) < 2 ^ 31"
  shows "returns (consume_round E e (s, t)) (\<lambda>(s', t'). \<exists>ls. ahead G N (nt_pos s) = ls @ ahead G N (nt_pos s') \<and>
     consuming E G N S s' (adds E s A ls) \<and> subs_same s s' \<and>
     (fileIndex (nt_pos s') = fileIndex (nt_pos s) \<or> fileIndex (nt_pos s') = fileIndex (nt_pos s) + 1 \<and> fst e (fileIndex (nt_pos s) + 1) \<noteq> None) \<and>
     notify_read e (nt_pos s) = Inr (ls, nt_pos s'))"
proof -
  obtain F0 F1 where e: "e = (F0, F1)" by fastforce
  let ?i = "fileIndex (nt_pos s)"
  from there e obtain its where its: "readLines F1 ?i (fileOffset (nt_pos s)) = Inr its" by (auto simp: readLines_def)
  let ?p = "if its \<noteq> [] then (nt_pos s)\<lparr>fileOffset := snd (last its)\<rparr>
       else if isNewFileExist F0 ?i then \<lparr>fileIndex = ?i + 1, fileOffset = 0\<rparr> else nt_pos s"
  have read: "notify_read e (nt_pos s) = Inr (map fst its, ?p)" using its e by (simp add: notify_read_def)
  note stream = notify_read_stream [OF sn read]
  have off: "0 \<le> fileOffset (nt_pos s)" using inv by (simp add: consuming_def)
  have tr: "tracks (content G ?i) (fileOffset (nt_pos s)) its"
    by (rule readLines_tracks [OF _ off its]) (use sn e in simp)
  show ?thesis
  proof (cases "isNewFileExist F0 ?i \<and> its = []")
    case True
    let ?s = "s\<lparr>nt_pos := \<lparr>fileIndex = ?i + 1, fileOffset = 0\<rparr>\<rparr>"
    have ss: "subs_same s ?s" by (simp add: subs_same_def)
    have "resumes E G N S ?s"
      by (rule resumes_skip [OF _ ss, where sk = "[]"]) (use inv stream True in \<open>auto simp: consuming_def behind_def\<close>)
    then have "consuming E G N S ?s A" using inv tabled_same [OF ss] by (simp add: consuming_def logs_def)
    moreover have "consume_round E e (s, t) = Inr (?s, t)" using True its e by (simp add: consume_round_def Let_def)
    ultimately show ?thesis using True stream read ss e by (auto simp: isNewFileExist_def intro!: exI [of _ "[]"])
  next
    case False
    have "\<forall>l \<in> set (map fst its). parses E l" using parse stream by auto
    moreover have "\<forall>app. length (adds E s A (map fst its) app) < 2 ^ 31"
    proof
      fix app
      have "length (adds E s A (map fst its) app) \<le> length (adds E s A (ahead G N (nt_pos s)) app)" by (simp add: stream)
      then show "length (adds E s A (map fst its) app) < 2 ^ 31" using small by (meson le_less_trans)
    qed
    ultimately have "returns (foldE (consume_line E) its (s, t)) (\<lambda>(s', t'). consuming E G N S s' (adds E s A (map fst its)) \<and> subs_same s s' \<and>
       nt_pos s' = (if its = [] then nt_pos s else (nt_pos s)\<lparr>fileOffset := snd (last its)\<rparr>))"
      by (rule consume_lines_ok [OF inv tr])
    moreover have "consume_round E e (s, t) = foldE (consume_line E) its (s, t)"
      using False its e by (auto simp: consume_round_def Let_def)
    ultimately obtain s' t' where r: "consume_round E e (s, t) = Inr (s', t')" "consuming E G N S s' (adds E s A (map fst its))"
      "subs_same s s'" "nt_pos s' = (if its = [] then nt_pos s else (nt_pos s)\<lparr>fileOffset := snd (last its)\<rparr>)"
      unfolding returns_def by auto
    moreover have "?p = nt_pos s'" using False r(4) by auto
    ultimately have "ahead G N (nt_pos s) = map fst its @ ahead G N (nt_pos s')" "fileIndex (nt_pos s') = fileIndex (nt_pos s)"
      "notify_read e (nt_pos s) = Inr (map fst its, nt_pos s')"
      using stream read by simp_all
    then show ?thesis unfolding r(1) returns_Inr prod.case using r(2,3) by blast
  qed
qed

lemma consume_rounds_ok:
  assumes "consuming E G N S s A" and "\<forall>e \<in> set es. \<forall>i. snapshots G N (fst e) (snd e) i" and "stays (fileIndex (nt_pos s)) es"
    and "\<forall>l \<in> set (ahead G N (nt_pos s)). parses E l"
    and "\<forall>app. length (adds E s A (ahead G N (nt_pos s)) app) < 2 ^ 31"
  shows "returns (foldE (consume_round E) es (s, t)) (\<lambda>(s', t'). \<exists>ls. ahead G N (nt_pos s) = ls @ ahead G N (nt_pos s') \<and>
     consuming E G N S s' (adds E s A ls) \<and> subs_same s s')"
  using assms
proof (induction es arbitrary: s t A)
  case Nil
  then show ?case by simp
next
  case (Cons e es)
  have "returns (consume_round E e (s, t)) (\<lambda>(s', t'). \<exists>ls. ahead G N (nt_pos s) = ls @ ahead G N (nt_pos s') \<and>
     consuming E G N S s' (adds E s A ls) \<and> subs_same s s' \<and>
     (fileIndex (nt_pos s') = fileIndex (nt_pos s) \<or> fileIndex (nt_pos s') = fileIndex (nt_pos s) + 1 \<and> fst e (fileIndex (nt_pos s) + 1) \<noteq> None))"
    by (rule returns_mono [OF consume_round_ok [OF Cons.prems(1)]]) (use Cons.prems in auto)
  then obtain s1 t1 ls1 where s1: "consume_round E e (s, t) = Inr (s1, t1)" "ahead G N (nt_pos s) = ls1 @ ahead G N (nt_pos s1)"
    "consuming E G N S s1 (adds E s A ls1)" "subs_same s s1"
    "fileIndex (nt_pos s1) = fileIndex (nt_pos s) \<or> fileIndex (nt_pos s1) = fileIndex (nt_pos s) + 1 \<and> fst e (fileIndex (nt_pos s) + 1) \<noteq> None"
    by (auto simp: returns_def)
  have ev: "line_events E s1 = line_events E s" using line_events_same [OF s1(4)] by (simp add: fun_eq_iff)
  have add: "adds E s1 (adds E s A ls1) ls = adds E s A (ls1 @ ls)" for ls by (simp add: ev)
  have len: "length (adds E s1 (adds E s A ls1) ls app) = length (adds E s A (ls1 @ ls) app)" for ls app by (simp add: ev)
  have "stays (fileIndex (nt_pos s1)) es" using Cons.prems(3) s1(5) by auto
  moreover have "\<forall>l \<in> set (ahead G N (nt_pos s1)). parses E l" using Cons.prems(4) s1(2) by simp
  moreover have "\<forall>app. length (adds E s1 (adds E s A ls1) (ahead G N (nt_pos s1)) app) < 2 ^ 31"
    unfolding len s1(2) [symmetric] by (rule Cons.prems(5))
  ultimately have "returns (foldE (consume_round E) es (s1, t1)) (\<lambda>(s', t'). \<exists>ls. ahead G N (nt_pos s1) = ls @ ahead G N (nt_pos s') \<and>
     consuming E G N S s' (adds E s1 (adds E s A ls1) ls) \<and> subs_same s1 s')"
    using Cons.IH [OF s1(3)] Cons.prems(2) by auto
  then obtain s2 t2 ls2 where s2: "foldE (consume_round E) es (s1, t1) = Inr (s2, t2)" "ahead G N (nt_pos s1) = ls2 @ ahead G N (nt_pos s2)"
    "consuming E G N S s2 (adds E s A (ls1 @ ls2))" "subs_same s1 s2"
    unfolding returns_def add by auto
  have "ahead G N (nt_pos s) = (ls1 @ ls2) @ ahead G N (nt_pos s2)" using s1(2) s2(2) by simp
  moreover have "foldE (consume_round E) (e # es) (s, t) = Inr (s2, t2)" using s1(1) s2(1) by simp
  ultimately show ?case using s2(3) subs_same_trans [OF s1(4) s2(4)] unfolding returns_def by blast
qed

text \<open>Once the directory is quiet, so many rounds as there are lines and files ahead take everything.\<close>

lemma consume_rounds_catch_up:
  assumes "consuming E F N S s A" and F: "unbroken F" "\<forall>i. F i \<noteq> None \<longrightarrow> 0 \<le> i \<and> i \<le> N" and "F (fileIndex (nt_pos s)) \<noteq> None"
    and "\<forall>l \<in> set (ahead F N (nt_pos s)). parses E l"
    and "\<forall>app. length (adds E s A (ahead F N (nt_pos s)) app) < 2 ^ 31"
    and "ahead F N (nt_pos s) = [] \<or> remaining F N (nt_pos s) \<le> k"
  shows "returns (foldE (consume_round E) (replicate k (F, F)) (s, t)) (\<lambda>(s', t'). consuming E F N S s' (adds E s A (ahead F N (nt_pos s))))"
  using assms(1,4-)
proof (induction k arbitrary: s t A)
  case 0
  then have "ahead F N (nt_pos s) = []" by (auto simp: remaining_def)
  then show ?case using "0.prems"(1) by simp
next
  case (Suc k)
  have sn: "snapshots F N F F i" for i using F(2) by (auto simp: snapshots_def content_def split: option.splits)
  from consume_round_ok [OF Suc.prems(1), of "(F, F)" t] Suc.prems sn obtain s1 t1 ls1 where
    s1: "consume_round E (F, F) (s, t) = Inr (s1, t1)" "ahead F N (nt_pos s) = ls1 @ ahead F N (nt_pos s1)"
      "consuming E F N S s1 (adds E s A ls1)" "subs_same s s1"
    and at: "fileIndex (nt_pos s1) = fileIndex (nt_pos s) \<or> fileIndex (nt_pos s1) = fileIndex (nt_pos s) + 1 \<and> F (fileIndex (nt_pos s) + 1) \<noteq> None"
    and read: "notify_read (F, F) (nt_pos s) = Inr (ls1, nt_pos s1)"
    by (auto simp: returns_def)
  have there: "F (fileIndex (nt_pos s1)) \<noteq> None" using at Suc.prems(2) by auto
  have ev: "line_events E s1 = line_events E s" using line_events_same [OF s1(4)] by (simp add: fun_eq_iff)
  have add: "adds E s1 (adds E s A ls1) (ahead F N (nt_pos s1)) = adds E s A (ahead F N (nt_pos s))" by (simp add: ev s1(2))
  have "ahead F N (nt_pos s1) = [] \<or> remaining F N (nt_pos s1) \<le> k"
  proof (cases "ahead F N (nt_pos s) = []")
    case True
    then show ?thesis using s1(2) by simp
  next
    case False
    with notify_read_progress [OF F Suc.prems(2) read] Suc.prems(5) show ?thesis by simp
  qed
  then have "returns (foldE (consume_round E) (replicate k (F, F)) (s1, t1))
      (\<lambda>(s', t'). consuming E F N S s' (adds E s1 (adds E s A ls1) (ahead F N (nt_pos s1))))"
  proof (intro Suc.IH [OF s1(3) there])
    show "\<forall>l \<in> set (ahead F N (nt_pos s1)). parses E l" using Suc.prems(3) s1(2) by simp
    show "\<forall>app. length (adds E s1 (adds E s A ls1) (ahead F N (nt_pos s1)) app) < 2 ^ 31"
      using Suc.prems(4) unfolding add [THEN fun_cong] by blast
  qed
  then show ?case using s1(1) unfolding add by simp
qed

section \<open>Memory and tables agree on the subscriptions\<close>

definition canonical :: "notify_env \<Rightarrow> string \<Rightarrow> bool" where
  "canonical E a = (IsValid (ne_params E) (CBitcoinAddress (ne_sha E) a) \<and>
     CBase58Data_ToString (ne_sha E) (CBitcoinAddress (ne_sha E) a) = a)"

definition known_network :: "notify_env \<Rightarrow> bool" where
  "known_network E = (ne_params E = main_prefixes \<or> ne_params E = testnet_prefixes)"

definition subs_ok :: "notify_env \<Rightarrow> notify \<Rightarrow> bool" where
  "subs_ok E s = (sm_wf (nt_addressTable s) \<and> tabled s \<and> distinct (nd_subs (nt_db s)) \<and>
     (\<forall>app a. (app, a) \<in> set (nd_subs (nt_db s)) \<longleftrightarrow> app \<in> set (subscribers (nt_addressTable s) a)) \<and>
     (\<forall>app a. (app, a) \<in> set (nd_subs (nt_db s)) \<longrightarrow> canonical E a))"

lemma canonical_text:
  assumes "known_network E" and "IsValid (ne_params E) (CBitcoinAddress (ne_sha E) address)"
  shows "canonical E (CBase58Data_ToString (ne_sha E) (CBitcoinAddress (ne_sha E) address))"
proof -
  let ?H = "ne_sha E" and ?o = "CBitcoinAddress (ne_sha E) address"
  define t where "t = CBase58Data_ToString ?H ?o"
  note texts = CBitcoinAddress_texts [OF assms(2) assms(1) [unfolded known_network_def], of ?H, folded t_def]
  have "CHR 0x00 \<notin> set t" using texts [THEN conjunct2, THEN conjunct2] by blast
  then have "c_str t = [] @ t @ []" by (simp add: c_str_id)
  then have "CBitcoinAddress ?H t = ?o" by (intro texts [THEN conjunct1, THEN iffD2] exI [of _ "[]"] conjI) simp_all
  then show ?thesis using assms(2) by (simp add: canonical_def t_def)
qed

lemma canonical_c_str:
  assumes "known_network E" and "canonical E a"
  shows "c_str a = a"
proof -
  let ?H = "ne_sha E"
  have v: "IsValid (ne_params E) (CBitcoinAddress ?H a)" and t: "CBase58Data_ToString ?H (CBitcoinAddress ?H a) = a"
    using assms(2) by (simp_all add: canonical_def)
  have "\<forall>c \<in> set (CBase58Data_ToString ?H (CBitcoinAddress ?H a)). c \<notin> {CHR '','', CHR ''_'', CHR 0x00} \<and> \<not> is_space c"
    using CBitcoinAddress_texts [OF v assms(1) [unfolded known_network_def], of ?H] by blast
  then have "CHR 0x00 \<notin> set a" unfolding t by blast
  then show ?thesis by (rule c_str_id)
qed

lemma subscribers_put [simp]: "subscribers (sm_put a A m) x = (if x = a then A else subscribers m x)"
  by (simp add: subscribers_def)

lemma create_events_simps [simp]:
  "nd_subs (create_events app d) = nd_subs d" "nd_status (create_events app d) = nd_status d"
  "dom (nd_events (create_events app d)) = insert app (dom (nd_events d))"
  by (auto simp: create_events_def split: option.split)

lemma insertAddress_ok:
  fixes address :: string
  assumes net: "known_network E" and ok: "subs_ok E s"
  defines "a \<equiv> CBase58Data_ToString (ne_sha E) (CBitcoinAddress (ne_sha E) address)"
  shows "returns (insertAddress E app address True s) (\<lambda>(b, s'). subs_ok E s' \<and>
     (b \<longleftrightarrow> IsValid (ne_params E) (CBitcoinAddress (ne_sha E) address) \<and> (app, a) \<notin> set (nd_subs (nt_db s))) \<and>
     set (nd_subs (nt_db s')) = (if b then insert (app, a) (set (nd_subs (nt_db s))) else set (nd_subs (nt_db s))))"
proof (cases "IsValid (ne_params E) (CBitcoinAddress (ne_sha E) address) \<and> (app, a) \<notin> set (nd_subs (nt_db s))")
  case False
  then show ?thesis using ok by (auto simp: insertAddress_def subs_ok_def a_def Let_def)
next
  case True
  then have new: "app \<notin> set (subscribers (nt_addressTable s) a)" and c: "canonical E a"
    using ok canonical_text [OF net] by (simp_all add: subs_ok_def a_def)
  let ?apps = "if app \<in> set (nt_appIds s) then nt_appIds s else ss_ins app (nt_appIds s)"
  let ?d = "if app \<in> set (nt_appIds s) then nt_db s else create_events app (nt_db s)"
  let ?s = "s\<lparr>nt_addressTable := sm_put a (ss_ins app (subscribers (nt_addressTable s) a)) (nt_addressTable s),
     nt_appIds := ?apps, nt_db := ?d\<lparr>nd_subs := nd_subs ?d @ [(app, a)]\<rparr>\<rparr>"
  have "insertAddress E app address True s = Inr (True, ?s)"
    using True new by (simp add: insertAddress_def insert_sub_def Let_def flip: a_def)
  moreover have "subs_ok E ?s"
    using ok True c by (auto simp: subs_ok_def tabled_def)
  ultimately show ?thesis using True by simp
qed

lemma delete_sub_present:
  assumes "distinct (nd_subs d)" and "(app, a) \<in> set (nd_subs d)"
  shows "delete_sub app a d = Inr (d\<lparr>nd_subs := filter (\<lambda>r. r \<noteq> (app, a)) (nd_subs d)\<rparr>)"
proof -
  have "{r. r = (app, a)} \<inter> set (nd_subs d) = {(app, a)}" using assms(2) by auto
  then have "length (filter (\<lambda>r. r = (app, a)) (nd_subs d)) = 1" by (simp add: distinct_length_filter [OF assms(1)])
  then have "length (nd_subs d) - length (filter (\<lambda>r. r \<noteq> (app, a)) (nd_subs d)) = 1"
    using sum_length_filter_compl [of "\<lambda>r. r = (app, a)" "nd_subs d"] by simp
  then show ?thesis
    using length_filter_le [of "\<lambda>r. r \<noteq> (app, a)" "nd_subs d"] by (simp add: delete_sub_def updateOrThrowEx_def Let_def of_nat_diff)
qed

lemma removeAddress_ok:
  assumes net: "known_network E" and ok: "subs_ok E s" and c: "canonical E address"
  shows "returns (removeAddress E app address s) (\<lambda>(b, s'). subs_ok E s' \<and>
     (b \<longleftrightarrow> (app, address) \<in> set (nd_subs (nt_db s))) \<and>
     set (nd_subs (nt_db s')) = set (nd_subs (nt_db s)) - {(app, address)})"
proof (cases "(app, address) \<in> set (nd_subs (nt_db s))")
  case False
  then show ?thesis using ok c by (auto simp: removeAddress_def subs_ok_def canonical_def Let_def)
next
  case True
  then have sub: "app \<in> set (subscribers (nt_addressTable s) address)" using ok by (simp add: subs_ok_def)
  let ?rows = "filter (\<lambda>r. r \<noteq> (app, address)) (nd_subs (nt_db s))"
  let ?s = "s\<lparr>nt_addressTable := sm_put address (ss_del app (subscribers (nt_addressTable s) address)) (nt_addressTable s),
     nt_db := (nt_db s)\<lparr>nd_subs := ?rows\<rparr>\<rparr>"
  have d: "distinct (nd_subs (nt_db s))" using ok by (simp add: subs_ok_def)
  note delete_sub_present [OF this True]
  then have "removeAddress E app address s = Inr (True, ?s)"
    using sub c canonical_c_str [OF net c]
    by (simp add: removeAddress_def canonical_def Let_def)
  moreover have "subs_ok E ?s"
    using ok sub by (auto simp: subs_ok_def tabled_def)
  ultimately show ?thesis using True by auto
qed

definition loaded :: "(int \<times> string) list \<Rightarrow> notify \<Rightarrow> notify \<Rightarrow> bool" where
  "loaded rows s s' = (nt_db s' = nt_db s \<and> nt_pos s' = nt_pos s \<and> sm_wf (nt_addressTable s') \<and>
     (\<forall>a. ss_wf (subscribers (nt_addressTable s') a) \<and> set (subscribers (nt_addressTable s') a) = {app. (app, a) \<in> set rows}) \<and>
     ss_wf (nt_appIds s') \<and> set (nt_appIds s') = fst ` set rows)"

lemma load_ok:
  assumes "distinct (nd_subs (nt_db s))" and "\<forall>(app, a) \<in> set (nd_subs (nt_db s)). canonical E a"
    and "nt_addressTable s = []" and "nt_appIds s = []"
  shows "returns (loadAddressTableFromDB E s) (loaded (nd_subs (nt_db s)) s)"
  unfolding loadAddressTableFromDB_def
proof (rule returns_foldE [where I = "\<lambda>pre. loaded pre s"])
  show "loaded [] s s" using assms(3,4) by (simp add: loaded_def subscribers_def)
next
  fix pre x rest s1 assume x: "nd_subs (nt_db s) = pre @ x # rest" and l: "loaded pre s s1"
  obtain app a where xa: "x = (app, a)" by fastforce
  have c: "canonical E a" and new: "(app, a) \<notin> set pre" using assms(1,2) x xa by auto
  from new l have "app \<notin> set (subscribers (nt_addressTable s1) a)" by (simp add: loaded_def)
  with c have "insertAddress E app a False s1 = Inr (True, s1\<lparr>
      nt_addressTable := sm_put a (ss_ins app (subscribers (nt_addressTable s1) a)) (nt_addressTable s1),
      nt_appIds := if app \<in> set (nt_appIds s1) then nt_appIds s1 else ss_ins app (nt_appIds s1)\<rparr>)"
    by (simp add: insertAddress_def canonical_def Let_def)
  then show "returns ((\<lambda>(app, a) s. bindE (insertAddress E app a False s) (\<lambda>(b, s). Inr s)) x s1) (loaded (pre @ [x]) s)"
    using l by (auto simp: xa loaded_def)
qed

text \<open>Starting the daemon (the constructor and \<open>Notify::init\<close>) and one session of it.\<close>

definition notifyd_start :: "notify_env \<Rightarrow> string \<Rightarrow> notify_db \<Rightarrow> notify res" where
  "notifyd_start E now db =
     bindE (loadAddressTableFromDB E \<lparr>nt_addressTable = [], nt_appIds = [], nt_pos = \<lparr>fileIndex = 0, fileOffset = 0\<rparr>, nt_db = db\<rparr>)
       (getStatus now)"

definition notifyd_session :: "notify_env \<Rightarrow> string \<times> (logdir \<times> logdir) list \<Rightarrow> notify_db \<Rightarrow> notify_db res" where
  "notifyd_session E = (\<lambda>(now, es) db. bindE (notifyd_start E now db) (\<lambda>s.
     bindE (foldE (consume_round E) es (s, 0)) (\<lambda>(s, t). Inr (nt_db s))))"

text \<open>
  What the tables say between two sessions: \<open>rows\<close> are the subscriptions, the recorded position is
  in the stream \<open>S\<close>, and the event tables hold the events \<open>A\<close> followed by those of the lines before it.
\<close>

definition item_events_of :: "(int \<times> string) list \<Rightarrow> int \<Rightarrow> NotifyItem \<Rightarrow> event list" where
  "item_events_of rows app i =
     (if ni_type i = NOTIFY_EVENT_BLOCK_ACCEPT \<or> ni_type i = NOTIFY_EVENT_BLOCK_REJECT
      then if app \<in> fst ` set rows then [(ni_type i, ToString (ni_hash i), ni_height i, [], 0)] else []
      else if (app, ni_address i) \<in> set rows
      then [(ni_type i, ToString (ni_hash i), ni_height i, ni_address i, ni_amount i)] else [])"

definition line_events_of :: "notify_env \<Rightarrow> (int \<times> string) list \<Rightarrow> int \<Rightarrow> string \<Rightarrow> event list" where
  "line_events_of E rows app line =
     (case NotifyItem_parse (ne_str2time E) line NotifyItem_new of
        Inr (True, i) \<Rightarrow> item_events_of rows app i | _ \<Rightarrow> [])"

definition tables_ok :: "notify_env \<Rightarrow> (int \<times> string) list \<Rightarrow> notify_db \<Rightarrow> bool" where
  "tables_ok E rows db = (nd_subs db = rows \<and> distinct rows \<and> (\<forall>(app, a) \<in> set rows. canonical E a) \<and>
     fst ` set rows \<subseteq> dom (nd_events db))"

definition starts_at :: "notify_db \<Rightarrow> logpos \<Rightarrow> bool" where
  "starts_at db q = (case nd_status db of None \<Rightarrow> q = \<lparr>fileIndex = 0, fileOffset = 0\<rparr> | Some v \<Rightarrow> fst v = status_text q)"

definition stored_upto :: "notify_env \<Rightarrow> logdir \<Rightarrow> int \<Rightarrow> string list \<Rightarrow> (int \<times> string) list \<Rightarrow> (int \<Rightarrow> event list) \<Rightarrow>
    notify_db \<Rightarrow> logpos \<Rightarrow> bool" where
  "stored_upto E G N S rows A db q = (\<exists>ls. starts_at db q \<and> 0 \<le> fileOffset q \<and>
     S = ls @ ahead G N q \<and> (\<forall>app t. nd_events db app = Some t \<longrightarrow> kept E app t (A app @ concat (map (line_events_of E rows app) ls))))"

lemma loaded_line_events:
  assumes "loaded rows s0 s" and "subs_same s s'"
  shows "line_events E s' app l = line_events_of E rows app l"
proof -
  have "item_events s app = item_events_of rows app" using assms(1) by (auto simp: loaded_def item_events_def item_events_of_def fun_eq_iff)
  then have "line_events E s app l = line_events_of E rows app l" unfolding line_events_def line_events_of_def by (simp only:)
  then show ?thesis by (simp add: line_events_same [OF assms(2)])
qed

lemma start_ok:
  assumes "tables_ok E rows db" and "starts_at db q"
  shows "returns (notifyd_start E now db) (\<lambda>s. loaded rows \<lparr>nt_addressTable = [], nt_appIds = [], nt_pos = q, nt_db = nt_db s\<rparr> s \<and>
     nd_events (nt_db s) = nd_events db \<and> tables_ok E rows (nt_db s) \<and> (\<exists>t. nd_status (nt_db s) = Some (status_text q, t)))"
proof -
  let ?s0 = "\<lparr>nt_addressTable = [], nt_appIds = [], nt_pos = \<lparr>fileIndex = 0, fileOffset = 0\<rparr>, nt_db = db\<rparr>"
  have "returns (loadAddressTableFromDB E ?s0) (loaded rows ?s0)"
    using load_ok [of ?s0 E] assms(1) by (simp add: tables_ok_def)
  then obtain s1 where s1: "loadAddressTableFromDB E ?s0 = Inr s1" "loaded rows ?s0 s1" by (auto simp: returns_def)
  have db1: "nt_db s1 = db" using s1(2) by (simp add: loaded_def)
  have zero: "''0,0'' = status_text \<lparr>fileIndex = 0, fileOffset = 0\<rparr>" by code_simp
  show ?thesis
  proof (cases "nd_status db")
    case None
    then show ?thesis using s1 db1 assms zero by (simp add: notifyd_start_def getStatus_def starts_at_def loaded_def tables_ok_def)
  next
    case (Some v)
    then have st: "nd_status (nt_db s1) = Some (status_text q, snd v)" using assms(2) db1 by (cases v) (simp add: starts_at_def)
    then show ?thesis using s1 db1 assms(1) getStatus_status [OF st, of now] by (simp add: notifyd_start_def loaded_def)
  qed
qed

lemma session_start:
  assumes ok: "tables_ok E rows db" and q: "starts_at db q" "0 \<le> fileOffset q" and S: "S = ls @ ahead G N q"
    and kept: "\<forall>app t. nd_events db app = Some t \<longrightarrow> kept E app t (A app @ concat (map (line_events_of E rows app) ls))"
  obtains s where "notifyd_start E now db = Inr s" and "loaded rows \<lparr>nt_addressTable = [], nt_appIds = [], nt_pos = q, nt_db = nt_db s\<rparr> s"
    and "nt_pos s = q" and "tables_ok E rows (nt_db s)" and "line_events E s = line_events_of E rows"
    and "consuming E G N S s (\<lambda>app. A app @ concat (map (line_events_of E rows app) ls))"
proof -
  from start_ok [OF ok q(1), of now] obtain s t where start: "notifyd_start E now db = Inr s"
    and l: "loaded rows \<lparr>nt_addressTable = [], nt_appIds = [], nt_pos = q, nt_db = nt_db s\<rparr> s"
    and db1: "nd_events (nt_db s) = nd_events db" "tables_ok E rows (nt_db s)" "nd_status (nt_db s) = Some (status_text q, t)"
    unfolding returns_def by blast
  have pos: "nt_pos s = q" using l by (simp add: loaded_def)
  have ev: "line_events E s = line_events_of E rows" using loaded_line_events [OF l subs_same_refl] by (simp add: fun_eq_iff)
  have tab: "tabled s"
  proof -
    have "{app. (app, a) \<in> set rows} \<subseteq> fst ` set rows" for a by force
    then show ?thesis using l db1(2) by (simp add: loaded_def tabled_def tables_ok_def)
  qed
  have "consuming E G N S s (\<lambda>app. A app @ concat (map (line_events_of E rows app) ls))"
    unfolding consuming_def resumes_def
    by (intro conjI tab exI [of _ q] exI [of _ t] exI [of _ ls] exI [of _ "[]"])
      (use q S kept db1 pos in \<open>simp_all add: logs_def behind_def\<close>)
  with start l pos db1(2) ev that show thesis by blast
qed

lemma session_ok:
  assumes ok: "tables_ok E rows db" and up: "stored_upto E G N S rows A db q"
    and es: "\<forall>e \<in> set es. \<forall>i. snapshots G N (fst e) (snd e) i" "stays (fileIndex q) es"
    and parse: "\<forall>l \<in> set S. parses E l"
    and small: "\<forall>app. length (A app @ concat (map (line_events_of E rows app) S)) < 2 ^ 31"
  shows "returns (notifyd_session E (now, es) db) (\<lambda>db'. tables_ok E rows db' \<and> (\<exists>q'. stored_upto E G N S rows A db' q'))"
proof -
  from up obtain ls where u: "starts_at db q" "0 \<le> fileOffset q" "S = ls @ ahead G N q"
    "\<forall>app t. nd_events db app = Some t \<longrightarrow> kept E app t (A app @ concat (map (line_events_of E rows app) ls))"
    unfolding stored_upto_def by blast
  let ?A = "\<lambda>app. A app @ concat (map (line_events_of E rows app) ls)"
  obtain s where start: "notifyd_start E now db = Inr s" and l: "loaded rows \<lparr>nt_addressTable = [], nt_appIds = [], nt_pos = q, nt_db = nt_db s\<rparr> s"
    and pos: "nt_pos s = q" and tab: "tables_ok E rows (nt_db s)" and ev: "line_events E s = line_events_of E rows"
    and inv: "consuming E G N S s ?A"
    using session_start [OF ok u, of now] by blast
  have "\<forall>app. length (adds E s ?A (ahead G N (nt_pos s)) app) < 2 ^ 31" using small u(3) by (simp add: ev pos)
  moreover have "\<forall>l \<in> set (ahead G N (nt_pos s)). parses E l" using parse u(3) pos by simp
  ultimately obtain s2 t2 ls2 where s2: "foldE (consume_round E) es (s, 0) = Inr (s2, t2)" "ahead G N q = ls2 @ ahead G N (nt_pos s2)"
    "consuming E G N S s2 (adds E s ?A ls2)" "subs_same s s2"
    using consume_rounds_ok [OF inv es(1), of 0] es(2) unfolding returns_def pos by auto
  have res: "notifyd_session E (now, es) db = Inr (nt_db s2)" using start s2(1) by (simp add: notifyd_session_def)
  have t2: "tables_ok E rows (nt_db s2)" using s2(4) tab by (simp add: tables_ok_def subs_same_def)
  from s2(3) obtain q2 st pre sk where q2: "nd_status (nt_db s2) = Some (status_text q2, st)" "0 \<le> fileOffset q2" "S = pre @ ahead G N q2"
    "ahead G N q2 = sk @ ahead G N (nt_pos s2)" "\<forall>l \<in> set sk. \<forall>app. line_events E s2 app l = []"
    unfolding consuming_def resumes_def by blast
  have "ls @ ls2 = pre @ sk" using u(3) s2(2) q2(3,4) by simp
  moreover have "concat (map (line_events_of E rows app) sk) = []" for app
    using q2(5) loaded_line_events [OF l s2(4)] by (simp add: concat_eq_Nil_conv)
  ultimately have same_events: "concat (map (line_events_of E rows app) (ls @ ls2)) = concat (map (line_events_of E rows app) pre)" for app by simp
  have "stored_upto E G N S rows A (nt_db s2) q2"
    unfolding stored_upto_def
  proof (intro exI conjI)
    show "\<forall>app t. nd_events (nt_db s2) app = Some t \<longrightarrow> kept E app t (A app @ concat (map (line_events_of E rows app) pre))"
      using s2(3) unfolding consuming_def logs_def ev same_events [symmetric] by simp
  qed (use q2 in \<open>simp_all add: starts_at_def\<close>)
  with res t2 show ?thesis by (auto simp: returns_def)
qed

lemma session_catches_up:
  assumes ok: "tables_ok E rows db" and up: "stored_upto E F N S rows A db q"
    and F: "unbroken F" "\<forall>i. F i \<noteq> None \<longrightarrow> 0 \<le> i \<and> i \<le> N" "F (fileIndex q) \<noteq> None"
    and parse: "\<forall>l \<in> set S. parses E l"
    and small: "\<forall>app. length (A app @ concat (map (line_events_of E rows app) S)) < 2 ^ 31" and k: "length S + nat N \<le> k"
  shows "returns (notifyd_session E (now, replicate k (F, F)) db)
     (\<lambda>db'. \<forall>app t. nd_events db' app = Some t \<longrightarrow> kept E app t (A app @ concat (map (line_events_of E rows app) S)))"
proof -
  from up obtain ls where u: "starts_at db q" "0 \<le> fileOffset q" "S = ls @ ahead F N q"
    "\<forall>app t. nd_events db app = Some t \<longrightarrow> kept E app t (A app @ concat (map (line_events_of E rows app) ls))"
    unfolding stored_upto_def by blast
  let ?A = "\<lambda>app. A app @ concat (map (line_events_of E rows app) ls)"
  obtain s where start: "notifyd_start E now db = Inr s" and pos: "nt_pos s = q" and ev: "line_events E s = line_events_of E rows"
    and inv: "consuming E F N S s ?A"
    using session_start [OF ok u, of now] by blast
  have add: "adds E s ?A (ahead F N (nt_pos s)) app = A app @ concat (map (line_events_of E rows app) S)" for app by (simp add: ev pos u(3))
  have "0 \<le> fileIndex q" using F(2,3) by blast
  then have "remaining F N (nt_pos s) \<le> k" using k u(3) pos by (simp add: remaining_def)
  moreover have "\<forall>l \<in> set (ahead F N (nt_pos s)). parses E l" using parse u(3) pos by simp
  ultimately have "returns (foldE (consume_round E) (replicate k (F, F)) (s, 0))
      (\<lambda>(s', t'). consuming E F N S s' (adds E s ?A (ahead F N (nt_pos s))))"
    using F(3) small unfolding add [symmetric] pos [symmetric] by (intro consume_rounds_catch_up [OF inv F(1,2)]) simp_all
  then obtain s' t' where s': "foldE (consume_round E) (replicate k (F, F)) (s, 0) = Inr (s', t')"
    "consuming E F N S s' (adds E s ?A (ahead F N (nt_pos s)))" by (auto simp: returns_def)
  have "notifyd_session E (now, replicate k (F, F)) db = Inr (nt_db s')" using start s'(1) by (simp add: notifyd_session_def)
  moreover have "\<forall>app t. nd_events (nt_db s') app = Some t \<longrightarrow> kept E app t (A app @ concat (map (line_events_of E rows app) S))"
    using s'(2) unfolding consuming_def logs_def add by blast
  ultimately show ?thesis by simp
qed

text \<open>Sessions in sequence; the file each of them starts with is there.\<close>

fun files_there :: "notify_env \<Rightarrow> (string \<times> (logdir \<times> logdir) list) list \<Rightarrow> notify_db \<Rightarrow> bool" where
  "files_there E [] db = True"
| "files_there E (x # ss) db = ((\<forall>s. notifyd_start E (fst x) db = Inr s \<longrightarrow> stays (fileIndex (nt_pos s)) (snd x)) \<and>
     (\<forall>db'. notifyd_session E x db = Inr db' \<longrightarrow> files_there E ss db'))"

lemma sessions_ok:
  assumes "tables_ok E rows db" and "\<exists>q. stored_upto E G N S rows A db q"
    and "\<forall>x \<in> set ss. \<forall>e \<in> set (snd x). \<forall>i. snapshots G N (fst e) (snd e) i" and "files_there E ss db"
    and parse: "\<forall>l \<in> set S. parses E l"
    and small: "\<forall>app. length (A app @ concat (map (line_events_of E rows app) S)) < 2 ^ 31"
  shows "returns (foldE (notifyd_session E) ss db) (\<lambda>db'. tables_ok E rows db' \<and> (\<exists>q'. stored_upto E G N S rows A db' q'))"
  using assms(1-4)
proof (induction ss arbitrary: db)
  case (Cons x ss)
  obtain now es where x: "x = (now, es)" by fastforce
  obtain q where q: "stored_upto E G N S rows A db q" using Cons.prems(2) by blast
  then have "starts_at db q" unfolding stored_upto_def by blast
  from start_ok [OF Cons.prems(1) this, of now] obtain s where "notifyd_start E now db = Inr s" "nt_pos s = q"
    by (auto simp: returns_def loaded_def)
  then have "stays (fileIndex q) es" using Cons.prems(4) by (auto simp: x)
  from session_ok [OF Cons.prems(1) q _ this parse small, of now] Cons.prems(3)
  have "returns (notifyd_session E x db) (\<lambda>db'. tables_ok E rows db' \<and> (\<exists>q'. stored_upto E G N S rows A db' q'))" by (simp add: x)
  then obtain db1 where db1: "notifyd_session E x db = Inr db1" "tables_ok E rows db1" "\<exists>q'. stored_upto E G N S rows A db1 q'"
    by (auto simp: returns_def)
  have "files_there E ss db1" using Cons.prems(4) db1(1) by simp
  then show ?case using Cons.IH [OF db1(2,3)] Cons.prems(3) db1(1) by simp
qed simp

text \<open>
  A request to remove an address in another spelling, such as one with a blank before it, deletes
  the row but leaves the subscription in memory: the set that is changed is the one at the text of
  the request.
\<close>

lemma removeAddress_other_spelling:
  assumes ok: "subs_ok E s" and v: "IsValid (ne_params E) (CBitcoinAddress (ne_sha E) address)"
    and a: "a = CBase58Data_ToString (ne_sha E) (CBitcoinAddress (ne_sha E) address)" "c_str address \<noteq> a"
    and sub: "(app, a) \<in> set (nd_subs (nt_db s))"
  shows "returns (removeAddress E app address s) (\<lambda>(b, s'). b \<and> (app, a) \<notin> set (nd_subs (nt_db s')) \<and>
     app \<in> set (subscribers (nt_addressTable s') a))"
proof -
  have m: "app \<in> set (subscribers (nt_addressTable s) a)" and d: "distinct (nd_subs (nt_db s))" using ok sub by (simp_all add: subs_ok_def)
  show ?thesis using v a m delete_sub_present [OF d sub] by (simp add: removeAddress_def flip: a(1))
qed

section \<open>Properties\<close>


definition sample_notify_env :: notify_env where
  "sample_notify_env = \<lparr>ne_params = main_prefixes, ne_sha = (\<lambda>s. of_nat (length s)), ne_str2time = sample_str2time,
     ne_created = (\<lambda>app i. ''2015-01-01 00:00:00''), ne_now = (\<lambda>p. 9), ne_then = (\<lambda>p. 9),
     ne_stamp = (\<lambda>p. ''2015-01-01 00:00:00'')\<rparr>"

definition sample_notify_db :: notify_db where
  "sample_notify_db = \<lparr>nd_subs = [], nd_events = Map.empty, nd_status = None\<rparr>"

definition sample_notify :: notify where
  "sample_notify = \<lparr>nt_addressTable = [], nt_appIds = [], nt_pos = \<lparr>fileIndex = 0, fileOffset = 0\<rparr>, nt_db = sample_notify_db\<rparr>"

definition sample_text :: string where
  "sample_text = CBase58Data_ToString (ne_sha sample_notify_env) sample_address"

lemma known_network_sample: "known_network sample_notify_env"
  by (simp add: known_network_def sample_notify_env_def)

lemma sample_text_address: "CBitcoinAddress (ne_sha sample_notify_env) sample_text = sample_address"
proof -
  have v: "IsValid main_prefixes sample_address" by (simp add: IsValid_def sample_address_def main_prefixes_def)
  note texts = CBitcoinAddress_texts [OF v disjI1 [OF refl], of "ne_sha sample_notify_env", folded sample_text_def]
  have "CHR 0x00 \<notin> set sample_text" using texts by blast
  then have "c_str sample_text = [] @ sample_text @ []" by (simp add: c_str_id)
  then show ?thesis by (intro texts [THEN conjunct1, THEN iffD2] exI [of _ "[]"] conjI) simp_all
qed

lemma sample_text_canonical: "canonical sample_notify_env sample_text"
proof -
  have "IsValid main_prefixes sample_address" by (simp add: IsValid_def sample_address_def main_prefixes_def)
  moreover have "ne_params sample_notify_env = main_prefixes" by (simp add: sample_notify_env_def)
  ultimately show ?thesis unfolding canonical_def sample_text_address by (simp add: sample_text_def)
qed


end
