(* ===== verification/NotifyRun.thy ===== *)
theory NotifyRun
  imports Notifyd
begin

text \<open>
  The notifications end to end: \<open>NotifyProducer\<close> of \<open>tparser\<close> writes groups of items, any number of
  sessions of \<open>notifyd\<close> read the directory while it grows, and the event tables get the events
  of every item once. The writer's contract (theory LogWriter), the reader's (LogFiles)
  and the consumer's invariant (Notifyd) meet here.
\<close>

section \<open>What is written\<close>

definition group_text :: "(32 word \<Rightarrow> tm) \<Rightarrow> NotifyItem list \<Rightarrow> string" where
  \<comment> \<open>what \<open>tparser\<close> gives to one call of \<open>write\<close>\<close>
  "group_text gm is = concat (map (\<lambda>i. NotifyItem_toStr gm i @ [CHR 0x0A]) is)"

lemma group_text_lines:
  "\<forall>i \<in> set is. event_item i \<Longrightarrow> lines_of (group_text gm is) = map (NotifyItem_toStr gm) is \<and> whole (group_text gm is)"
proof (induction "is")
  case (Cons i "is")
  have "CHR 0x0A \<notin> set (NotifyItem_toStr gm i)" using no_newline_toStr Cons.prems by simp
  then have "lines_of (group_text gm (i # is)) = NotifyItem_toStr gm i # lines_of (group_text gm is)" by (simp add: group_text_def)
  then show ?case using Cons by (auto simp: whole_def group_text_def)
qed (simp add: group_text_def whole_def)

lemma chunks_same: "chunks (\<lambda>x n. x) n xs = xs"
  by (induction xs arbitrary: n) simp_all

lemma notify_stream:
  assumes w0: "w_inv w0" "all_whole w0" "all_lines w0 = map (NotifyItem_toStr gm) old" and w: "0 \<le> w_index w"
    and items: "\<forall>i \<in> set (old @ concat groups). event_item i" and times: "\<forall>t. ne_str2time E (date_FT (gm t)) = uint t"
    and run: "foldE (NotifyProducer_write opens writes) (map (group_text gm) groups) w0 = Inr w"
  shows "map (NotifyItem_toStr gm) (old @ concat groups) = ahead (w_files w) (w_index w) \<lparr>fileIndex = 0, fileOffset = 0\<rparr>"
    and "\<forall>l \<in> set (map (NotifyItem_toStr gm) (old @ concat groups)). parses E l"
    and "set is \<subseteq> set (old @ concat groups) \<Longrightarrow>
      concat (map (line_events_of E rows app) (map (NotifyItem_toStr gm) is)) = concat (map (item_events_of rows app) is)"
proof -
  let ?all = "old @ concat groups"
  have g: "lines_of (group_text gm g) = map (NotifyItem_toStr gm) g \<and> whole (group_text gm g)" if "g \<in> set groups" for g
    by (rule group_text_lines) (use items that in auto)
  have "all_lines w = all_lines w0 @ concat (map lines_of (map (group_text gm) groups))"
  proof -
    have "whole x" if "x \<in> set (map (group_text gm) groups)" for x using that g by auto
    from notify_writer.run_lines [OF w0(1,2) this run] show ?thesis by (simp add: chunks_same)
  qed
  also have "map lines_of (map (group_text gm) groups) = map (map (NotifyItem_toStr gm)) groups"
    using g by (simp del: lines_of.simps)
  finally show "map (NotifyItem_toStr gm) ?all = ahead (w_files w) (w_index w) \<lparr>fileIndex = 0, fileOffset = 0\<rparr>"
    by (simp add: ahead_start [OF w] w0(3) map_concat)
  have line: "NotifyItem_parse (ne_str2time E) (NotifyItem_toStr gm i) NotifyItem_new = Inr (True, i)" if "i \<in> set ?all" for i
    using NotifyItem_back [OF times] items that by blast
  then show "\<forall>l \<in> set (map (NotifyItem_toStr gm) ?all). parses E l" by (auto simp: parses_def)
  show "concat (map (line_events_of E rows app) (map (NotifyItem_toStr gm) is)) = concat (map (item_events_of rows app) is)"
    if "set is \<subseteq> set ?all" using that by (induction "is") (simp_all add: line_events_of_def line)
qed

lemma files_there_append:
  "files_there E (ss @ [x]) db \<Longrightarrow> files_there E ss db \<and>
     (\<forall>db' s. foldE (notifyd_session E) ss db = Inr db' \<longrightarrow> notifyd_start E (fst x) db' = Inr s \<longrightarrow> stays (fileIndex (nt_pos s)) (snd x))"
proof (induction ss arbitrary: db)
  case (Cons y ss)
  then show ?case by (cases "notifyd_session E y db") auto
qed simp

lemma notify_stored:
  assumes w0: "w_inv w0" "all_whole w0" "all_lines w0 = map (NotifyItem_toStr gm) old" and w: "0 \<le> w_index w"
    and items: "\<forall>i \<in> set (old @ concat groups). event_item i" and times: "\<forall>t. ne_str2time E (date_FT (gm t)) = uint t"
    and run: "foldE (NotifyProducer_write opens writes) (map (group_text gm) groups) w0 = Inr w"
    and db: "tables_ok E rows db" "nd_status db = None" "\<forall>app t. nd_events db app = Some t \<longrightarrow> kept E app t (A app)"
    and seen: "\<forall>x \<in> set ss. \<forall>e \<in> set (snd x). seen (NotifyProducer_write opens writes) (map (group_text gm) groups) w0 w (fst e) (snd e)"
    and files: "files_there E ss db"
    and small: "\<forall>app. length (A app @ concat (map (item_events_of rows app) (old @ concat groups))) < 2 ^ 31"
  shows "returns (foldE (notifyd_session E) ss db) (\<lambda>db'. tables_ok E rows db' \<and>
     (\<exists>q. stored_upto E (w_files w) (w_index w) (map (NotifyItem_toStr gm) (old @ concat groups)) rows A db' q))"
    and "\<forall>app. length (A app @ concat (map (line_events_of E rows app) (map (NotifyItem_toStr gm) (old @ concat groups)))) < 2 ^ 31"
proof -
  let ?S = "map (NotifyItem_toStr gm) (old @ concat groups)"
  note S = notify_stream [OF w0 w items times run]
  have up: "\<exists>q. stored_upto E (w_files w) (w_index w) ?S rows A db q"
    unfolding stored_upto_def using db(2,3) S(1) by (auto simp: starts_at_def intro!: exI [of _ "[]"])
  have snaps: "\<forall>x \<in> set ss. \<forall>e \<in> set (snd x). \<forall>i. snapshots (w_files w) (w_index w) (fst e) (snd e) i"
    using notify_writer.seen_snapshots [OF w0(1) run] seen by blast
  show small': "\<forall>app. length (A app @ concat (map (line_events_of E rows app) ?S)) < 2 ^ 31"
    using small unfolding length_append S(3) [OF subset_refl] by simp
  show "returns (foldE (notifyd_session E) ss db) (\<lambda>db'. tables_ok E rows db' \<and> (\<exists>q. stored_upto E (w_files w) (w_index w) ?S rows A db' q))"
    by (rule sessions_ok [OF db(1) up snaps files S(2) small'])
qed

text \<open>A sample run: one block is logged while one application has subscribed to an address.\<close>

definition sample_block_event :: NotifyItem where
  "sample_block_event = \<lparr>ni_timestamp = 0, ni_type = NOTIFY_EVENT_BLOCK_ACCEPT, ni_height = 5, ni_amount = 0, ni_hash = 9, ni_address = []\<rparr>"

definition sample_event_db :: notify_db where
  "sample_event_db = \<lparr>nd_subs = [(7, sample_text)], nd_events = [7 \<mapsto> \<lparr>et_rows = [], et_next = 1\<rparr>], nd_status = None\<rparr>"

definition sample_written :: notifyw where
  "sample_written = (let l = group_text sample_gmtime [sample_block_event]; full = int (length l) > kFileMaxSize in
     \<lparr>w_index = (if full then 1 else 0), w_open = \<not> full, w_files = [0 \<mapsto> l], w_ticks = 1, nw_fileOffset = int (length l)\<rparr>)"

abbreviation sample_look :: "logdir \<times> logdir" where
  "sample_look \<equiv> (w_files sample_written, w_files sample_written)"

lemma sample_written_files: "w_files sample_written = [0 \<mapsto> group_text sample_gmtime [sample_block_event]]"
  "0 \<le> w_index sample_written" "w_index sample_written \<le> 1"
  by (simp_all add: sample_written_def Let_def)

lemma sample_notify_run:
  shows "w_inv (NotifyProducer_new Map.empty)" and "all_whole (NotifyProducer_new Map.empty)"
    and "all_lines (NotifyProducer_new Map.empty) = map (NotifyItem_toStr sample_gmtime) []"
    and "\<forall>i \<in> set ([] @ concat [[sample_block_event]]). event_item i"
    and "\<forall>t. ne_str2time sample_notify_env (date_FT (sample_gmtime t)) = uint t"
    and "foldE (NotifyProducer_write (\<lambda>_. True) (\<lambda>_. True)) (map (group_text sample_gmtime) [[sample_block_event]]) (NotifyProducer_new Map.empty) =
      Inr sample_written"
    and "tables_ok sample_notify_env [(7, sample_text)] sample_event_db" and "nd_status sample_event_db = None"
    and "\<forall>app t. nd_events sample_event_db app = Some t \<longrightarrow> kept sample_notify_env app t []"
    and "seen (NotifyProducer_write (\<lambda>_. True) (\<lambda>_. True)) (map (group_text sample_gmtime) [[sample_block_event]])
      (NotifyProducer_new Map.empty) sample_written (w_files sample_written) (w_files sample_written)"
    and "\<forall>app. length ([] @ concat (map (item_events_of [(7, sample_text)] app) ([] @ concat [[sample_block_event]]))) < 2 ^ 31"
proof -
  let ?w = "NotifyProducer_new Map.empty" and ?ls = "map (group_text sample_gmtime) [[sample_block_event]]"
  show "w_inv ?w" "all_whole ?w" "all_lines ?w = map (NotifyItem_toStr sample_gmtime) []"
    by (simp_all add: w_inv_def NotifyProducer_new_def all_whole_def whole_def content_def all_lines_def)
  show run: "foldE (NotifyProducer_write (\<lambda>_. True) (\<lambda>_. True)) ?ls ?w = Inr sample_written"
    by (simp add: NotifyProducer_write_def NotifyProducer_new_def sample_written_def content_def Let_def del: length_append)
  show "seen (NotifyProducer_write (\<lambda>_. True) (\<lambda>_. True)) ?ls ?w sample_written (w_files sample_written) (w_files sample_written)"
    unfolding seen_def using run by (intro exI [of _ 1] exI [of _ sample_written]) (simp add: visible_def content_def)
  show "tables_ok sample_notify_env [(7, sample_text)] sample_event_db"
    using sample_text_canonical by (simp add: tables_ok_def sample_event_db_def)
qed (simp_all add: event_item_def sample_block_event_def notify_events sample_notify_env_def sample_times sample_event_db_def kept_def
    item_events_of_def)

lemma sample_files_there: "files_there sample_notify_env [(now, replicate k sample_look)] sample_event_db"
proof -
  have start: "fileIndex (nt_pos s) = 0" if s: "notifyd_start sample_notify_env now sample_event_db = Inr s" for s
  proof -
    have "starts_at sample_event_db \<lparr>fileIndex = 0, fileOffset = 0\<rparr>" by (simp add: starts_at_def sample_event_db_def)
    from start_ok [OF sample_notify_run(7) this, of now] s show ?thesis by (simp add: loaded_def)
  qed
  have "stays 0 (replicate k sample_look)" by (induction k) (simp_all add: sample_written_files)
  then show ?thesis using start by auto
qed

section \<open>Properties\<close>

text \<open>
  C18. Every event is inserted exactly once. \<open>tparser\<close> writes groups of items behind old ones in
  files of bounded size, while \<open>notifyd\<close> is started and stopped any number of times, each time reading
  on from the position it recorded and seeing any moment of the directory. No session fails,
  and after them the table of every application
  holds, behind what it held before (\<open>A\<close>), the events of the first \<open>n\<close> items that concern its
  subscriptions, each once and in order, where the recorded position is such that exactly the lines of the
  other items are still ahead.
\<close>

theorem notify_pipeline:
  assumes w0: "w_inv w0" "all_whole w0" "all_lines w0 = map (NotifyItem_toStr gm) old" and w: "0 \<le> w_index w"
    and items: "\<forall>i \<in> set (old @ concat groups). event_item i" and times: "\<forall>t. ne_str2time E (date_FT (gm t)) = uint t"
    and run: "foldE (NotifyProducer_write opens writes) (map (group_text gm) groups) w0 = Inr w"
    and db: "tables_ok E rows db" "nd_status db = None" "\<forall>app t. nd_events db app = Some t \<longrightarrow> kept E app t (A app)"
    and seen: "\<forall>x \<in> set ss. \<forall>e \<in> set (snd x). seen (NotifyProducer_write opens writes) (map (group_text gm) groups) w0 w (fst e) (snd e)"
    and files: "files_there E ss db"
    and small: "\<forall>app. length (A app @ concat (map (item_events_of rows app) (old @ concat groups))) < 2 ^ 31"
  shows "returns (foldE (notifyd_session E) ss db) (\<lambda>db'. tables_ok E rows db' \<and> (\<exists>n q. starts_at db' q \<and>
     (\<forall>app t. nd_events db' app = Some t \<longrightarrow>
        kept E app t (A app @ concat (map (item_events_of rows app) (take n (old @ concat groups))))) \<and>
     ahead (w_files w) (w_index w) q = map (NotifyItem_toStr gm) (drop n (old @ concat groups))))"
proof (rule returns_mono [OF notify_stored(1) [OF w0 w items times run db seen files small]], elim conjE exE)
  let ?all = "old @ concat groups" and ?S = "map (NotifyItem_toStr gm) (old @ concat groups)"
  fix db' q assume ok: "tables_ok E rows db'" and "stored_upto E (w_files w) (w_index w) ?S rows A db' q"
  then obtain ls where u: "starts_at db' q" "?S = ls @ ahead (w_files w) (w_index w) q"
    "\<forall>app t. nd_events db' app = Some t \<longrightarrow> kept E app t (A app @ concat (map (line_events_of E rows app) ls))"
    unfolding stored_upto_def by blast
  let ?n = "length ls"
  have "ls = take ?n ?S" "ahead (w_files w) (w_index w) q = drop ?n ?S" unfolding u(2) by simp_all
  then have n: "ls = map (NotifyItem_toStr gm) (take ?n ?all)" "ahead (w_files w) (w_index w) q = map (NotifyItem_toStr gm) (drop ?n ?all)"
    by (simp_all only: take_map drop_map)
  have "concat (map (line_events_of E rows app) ls) = concat (map (item_events_of rows app) (take ?n ?all))" for app
    by (subst n(1)) (rule notify_stream(3) [OF w0 w items times run], rule set_take_subset)
  with ok u(1,3) n(2) show "tables_ok E rows db' \<and> (\<exists>n q. starts_at db' q \<and>
     (\<forall>app t. nd_events db' app = Some t \<longrightarrow> kept E app t (A app @ concat (map (item_events_of rows app) (take n ?all)))) \<and>
     ahead (w_files w) (w_index w) q = map (NotifyItem_toStr gm) (drop n ?all))" by auto
qed

theorem notify_pipeline_witness:
  "returns (foldE (notifyd_session sample_notify_env) [([], [sample_look])] sample_event_db) (\<lambda>db'.
     \<exists>t q. nd_events db' 7 = Some t \<and> map ev_hash (et_rows t) \<in> {[], [ToString 9]} \<and> starts_at db' q)"
proof -
  have seen: "\<forall>x \<in> set [([], [sample_look])]. \<forall>e \<in> set (snd x). seen (NotifyProducer_write (\<lambda>_. True) (\<lambda>_. True))
      (map (group_text sample_gmtime) [[sample_block_event]]) (NotifyProducer_new Map.empty) sample_written (fst e) (snd e)"
    using sample_notify_run(10) by simp
  have files: "files_there sample_notify_env [([], [sample_look])] sample_event_db" using sample_files_there [of "[]" 1] by simp
  show ?thesis
  proof (rule returns_mono [OF notify_pipeline [OF sample_notify_run(1-3) sample_written_files(2) sample_notify_run(4-9) seen files sample_notify_run(11)]],
      elim conjE exE)
    fix db' :: notify_db and n q
    assume ok: "tables_ok sample_notify_env [(7, sample_text)] db'" and q: "starts_at db' q"
      and k: "\<forall>app t. nd_events db' app = Some t \<longrightarrow> kept sample_notify_env app t
        ([] @ concat (map (item_events_of [(7, sample_text)] app) (take n ([] @ concat [[sample_block_event]]))))"
    obtain t where t: "nd_events db' 7 = Some t" using ok by (auto simp: tables_ok_def)
    have "map ev_hash (et_rows t) \<in> {[], [ToString 9]}"
      using k t by (cases n) (auto simp: kept_def item_events_of_def sample_block_event_def event_at_def)
    with q t show "\<exists>t q. nd_events db' 7 = Some t \<and> map ev_hash (et_rows t) \<in> {[], [ToString 9]} \<and> starts_at db' q"
      by (intro exI conjI)
  qed
qed

text \<open>
  C19. Notifications arrive: when the writer has stopped, a last session of so many rounds as there
  are items and files gets all of them, whatever the sessions before it did: then the table of
  every application holds the events of all items.
\<close>

theorem notify_catches_up:
  assumes w0: "w_inv w0" "all_whole w0" "all_lines w0 = map (NotifyItem_toStr gm) old" and w: "0 \<le> w_index w" "unbroken (w_files w)"
    and items: "\<forall>i \<in> set (old @ concat groups). event_item i" and times: "\<forall>t. ne_str2time E (date_FT (gm t)) = uint t"
    and run: "foldE (NotifyProducer_write opens writes) (map (group_text gm) groups) w0 = Inr w"
    and db: "tables_ok E rows db" "nd_status db = None" "\<forall>app t. nd_events db app = Some t \<longrightarrow> kept E app t (A app)"
    and seen: "\<forall>x \<in> set ss. \<forall>e \<in> set (snd x). seen (NotifyProducer_write opens writes) (map (group_text gm) groups) w0 w (fst e) (snd e)"
    and files: "files_there E (ss @ [(now, replicate k (w_files w, w_files w))]) db"
    and small: "\<forall>app. length (A app @ concat (map (item_events_of rows app) (old @ concat groups))) < 2 ^ 31"
    and k: "length (old @ concat groups) + nat (w_index w) < k"
  shows "returns (foldE (notifyd_session E) (ss @ [(now, replicate k (w_files w, w_files w))]) db) (\<lambda>db'.
     \<forall>app t. nd_events db' app = Some t \<longrightarrow> kept E app t (A app @ concat (map (item_events_of rows app) (old @ concat groups))))"
proof -
  let ?S = "map (NotifyItem_toStr gm) (old @ concat groups)" and ?F = "w_files w"
  note there = files_there_append [OF files]
  note stored = notify_stored [OF w0 w(1) items times run db seen there [THEN conjunct1] small]
  from stored(1) obtain db1 q where db1: "foldE (notifyd_session E) ss db = Inr db1" "tables_ok E rows db1"
    and up: "stored_upto E ?F (w_index w) ?S rows A db1 q" by (auto simp: returns_def)
  have st: "starts_at db1 q" using up unfolding stored_upto_def by blast
  from start_ok [OF db1(2) st, of now] obtain s where "notifyd_start E now db1 = Inr s" "nt_pos s = q" by (auto simp: returns_def loaded_def)
  with there db1(1) have "stays (fileIndex q) (replicate k (?F, ?F))" by auto
  then have q: "?F (fileIndex q) \<noteq> None" using k by (cases k) auto
  have N: "\<forall>i. ?F i \<noteq> None \<longrightarrow> 0 \<le> i \<and> i \<le> w_index w" using notify_writer.run_grows [OF w0(1) run] by (simp add: w_inv_def)
  note catch = session_catches_up [OF db1(2) up w(2) N q notify_stream(2) [OF w0 w(1) items times run] stored(2), of k now]
  show ?thesis
    using catch k unfolding foldE_append notify_stream(3) [OF w0 w(1) items times run subset_refl] by (auto simp: db1(1) bindE_def returns_def)
qed

theorem notify_catches_up_witness:
  "returns (foldE (notifyd_session sample_notify_env) [([], replicate 3 sample_look)] sample_event_db) (\<lambda>db'.
     \<forall>t. nd_events db' 7 = Some t \<longrightarrow> map ev_hash (et_rows t) = [ToString 9])"
proof -
  have k: "length ([] @ concat [[sample_block_event]]) + nat (w_index sample_written) < 3" using sample_written_files(3) by simp
  have ub: "unbroken (w_files sample_written)" by (auto simp: unbroken_def sample_written_files)
  have files: "files_there sample_notify_env ([] @ [([], replicate 3 sample_look)]) sample_event_db" using sample_files_there by simp
  note up = notify_catches_up [OF sample_notify_run(1-3) sample_written_files(2) ub sample_notify_run(4-9) _ files sample_notify_run(11) k]
  show ?thesis
    by (rule returns_mono [OF up [simplified append_Nil]]) (auto simp: kept_def event_at_def item_events_of_def sample_block_event_def)
qed

end
