(* ===== verification/Log2Start.thy ===== *)
theory Log2Start
  imports RawStore Recognize AddressAPI ParserReplay
begin

text \<open>
  The start of \<open>log2producer\<close> (src/jiexi/src/Log2Producer.cc): \<open>checkEnvironment\<close>, \<open>initLog2\<close> and
  \<open>syncLog1\<close>, called by \<open>init\<close>. The program keeps no state of its own on disk beside the
  tables: its current block and the timestamps of the latest blocks come out of the key-value
  store that \<open>tparser\<close> writes, its pool out of \<open>0_memrepo_txs\<close> and its position in log1 out of
  \<open>0_explorer_meta\<close>. The property says that these fit together: when \<open>tparser\<close> has caught up, the
  start gives back the state, and otherwise it refuses to run.
\<close>

section \<open>Operations\<close>

abbreviation meta_index :: string where "meta_index \<equiv> ''log2producer.log1file.index''"
abbreviation meta_offset :: string where "meta_offset \<equiv> ''log2producer.log1file.offset''"

definition Log2Producer_new :: "log2db \<Rightarrow> log2" where
  \<comment> \<open>the constructor, and the static variables of \<open>updateLog1FileStatus\<close>; \<open>log1FileIndex_\<close> is set by \<open>syncLog1\<close>\<close>
  "Log2Producer_new d = \<lparr>l2_mem = MemTxRepository_init, l2_db = d, l2_ts = BlockTimestamp_init (2016 * 2), l2_height = - 1,
     l2_hash = 0, l2_log1FileIndex = 0, l2_currLog1FileOffset = - 1, l2_st_index = - 1, l2_st_offset = - 1\<rparr>"

definition checkEnvironment :: "(string \<Rightarrow> string) \<Rightarrow> string \<Rightarrow> log2 \<Rightarrow> log2 res" where
  \<comment> \<open>\<open>getVariable\<close> is the server's answer; an unknown variable is the empty text\<close>
  "checkEnvironment getVariable nowStr s =
     (let meta = explorer_meta (l2_db s);
          numRows = length (filter (\<lambda>k. meta k \<noteq> None) [meta_index, meta_offset]) in
      if atoi (getVariable ''innodb_log_file_size'') < 32 * 1000 * 1000
      then Inl (Throw ''mysql innodb_log_file_size is less than min size'')
      else if atoi (getVariable ''max_allowed_packet'') < 32 * 1000 * 1000
      then Inl (Throw ''mysql max_allowed_packet is less than min size'')
      else if numRows > 0 \<and> numRows \<noteq> 2 then Inl (Throw ''one of the positions in log1 is missing'')
      else if numRows = 0 then
        bindE (updateOrThrowEx 2 ((l2_db s)\<lparr>explorer_meta := meta(meta_index \<mapsto> (''0'', nowStr), meta_offset \<mapsto> (''0'', nowStr))\<rparr>, 2))
          (\<lambda>d. Inr (s\<lparr>l2_db := d\<rparr>))
      else Inr s)"

definition last_row_id :: "log2row list \<Rightarrow> int" where
  \<comment> \<open>\<open>SELECT id FROM 0_txlogs2 ORDER BY id DESC LIMIT 1\<close>, zero without a row\<close>
  "last_row_id rows = (if rows = [] then 0 else Max (row_id ` set rows))"

definition log2_begin_block :: "config \<Rightarrow> 'db rocks \<Rightarrow> 'db \<Rightarrow> int \<Rightarrow> (int \<times> uint256) res" where
  \<comment> \<open>\<open>log2BlockBeginHeight\<close> and \<open>log2BlockBeginHash\<close>\<close>
  "log2_begin_block cfg R kv lastTxlogs2Id =
     (if lastTxlogs2Id > 0 then
        bindE (KVDB_range R ''10_9999999999'' ''10_0000000000'' 1 0 kv) (\<lambda>kvs.
        case kvs of
          [] \<Rightarrow> Inl (UB ''keys[0]'')
        | (k, v) # _ \<Rightarrow> bindE (value_string v) (\<lambda>v. Inr (atoi32 (drop 3 k), SetHex v)))
      else
        bindE (Config_get cfg ''log2.begin.block.hash'') (\<lambda>hash.
        bindE (Config_getInt cfg ''log2.begin.block.height'') (\<lambda>height.
        Inr (to_int32 height, SetHex hash))))"

definition push_height :: "'db rocks \<Rightarrow> 'db \<Rightarrow> string \<times> kvval \<Rightarrow> blockts \<Rightarrow> blockts res" where
  \<comment> \<open>the body of the loop that builds \<open>blkTs_\<close>\<close>
  "push_height R kv = (\<lambda>(k, value) blkTs.
     bindE (value_string value) (\<lambda>value.
     bindE (KVDB_get R (''11_'' @ ToString (SetHex value)) kv) (\<lambda>blkvalue.
     bindE (root_Block blkvalue) (\<lambda>fb_block.
     pushBlock (atoi32 (drop 3 k)) (uint (fk_timestamp fb_block)) blkTs))))"

definition initLog2 :: "config \<Rightarrow> (CTransaction \<Rightarrow> uint256) \<Rightarrow> 'db rocks \<Rightarrow> 'db \<Rightarrow> log2 \<Rightarrow> log2 res" where
  "initLog2 cfg gh R kv s0 =
     (let s = s0\<lparr>l2_db := delete_unfinished (l2_db s0)\<rparr>;
          (exist, value) = KVDB_getMayNotExist R ''90_tparser_txlogs_offset_id'' kv;
          lastTxlogs2Id = last_row_id (txlogs2 (l2_db s)) in
      bindE (if exist then bindE (value_string value) (\<lambda>v. Inr (atoi v)) else Inr 0) (\<lambda>jiexiLastTxlog2Offset.
      if jiexiLastTxlog2Offset \<noteq> lastTxlogs2Id then Inl (Throw ''please wait until tparser catch up latest txlogs2'') else
      bindE (log2_begin_block cfg R kv lastTxlogs2Id) (\<lambda>(height, hash).
      if hash = 0 \<or> height < 0 then Inl (Throw ''invalid log2 latest block'') else
      bindE (initLog2_loadMemrepoTxs gh (l2_db s) (l2_mem s)) (\<lambda>m.
      bindE (KVDB_range R (''10_'' @ fmt_010d (height - 2016 * 2)) ''10_9999999999'' 10000 0 kv) (\<lambda>kvs.
      bindE (foldE (push_height R kv) kvs (l2_ts s)) (\<lambda>ts.
      Inr (s\<lparr>l2_mem := m, l2_ts := ts, l2_height := height, l2_hash := hash\<rparr>)))))))"

definition syncLog1 :: "log2 \<Rightarrow> (log2 \<times> logpos) res" where
  \<comment> \<open>\<open>log1FileIndex_\<close> and \<open>log1FileOffset_\<close>\<close>
  "syncLog1 s =
     (case (explorer_meta (l2_db s) meta_index, explorer_meta (l2_db s) meta_offset) of
        (None, None) \<Rightarrow> Inr (s\<lparr>l2_log1FileIndex := 0\<rparr>, \<lparr>fileIndex = 0, fileOffset = 0\<rparr>)
      | (Some (i, _), Some (off, _)) \<Rightarrow>
          Inr (s\<lparr>l2_log1FileIndex := atoi32 i\<rparr>, \<lparr>fileIndex = atoi32 i, fileOffset = atoi off\<rparr>)
      | _ \<Rightarrow> Inl (AssertFail ''res.numRows() == 2''))"

definition Log2Producer_init :: "config \<Rightarrow> (string \<Rightarrow> string) \<Rightarrow> log2env \<Rightarrow> 'db rocks \<Rightarrow> 'db \<Rightarrow> log2 \<Rightarrow> (log2 \<times> logpos) res" where
  "Log2Producer_init cfg getVariable E R kv s =
     bindE (checkEnvironment getVariable (e_now E) s) (\<lambda>s.
     bindE (initLog2 cfg (e_gh E) R kv s) syncLog1)"

section \<open>The records of heights, in order\<close>

lemma height_key_le:
  assumes "0 \<le> j" and "j < 10 ^ 10" and "i < 10 ^ 10"
  shows "key_str (KHeight i) \<le> key_str (KHeight j) \<longleftrightarrow> i \<le> j"
proof (cases "0 \<le> i")
  case True
  then show ?thesis using assms fmt_010d_less(2) [of i j] by (simp add: key_str.simps)
next
  case False
  have "fmt_010d j \<noteq> []" "list_all is_digit (fmt_010d j)" using assms(1) list_all_pad0 by (simp_all add: fmt_010d_def)
  then obtain c r where c: "fmt_010d j = c # r" "is_digit c" by (cases "fmt_010d j") auto
  then have "CHR ''-'' < c" by (auto simp: is_digit_def less_char_def)
  then have "fmt_010d i < fmt_010d j" using False by (simp add: c(1)) (simp add: fmt_010d_def)
  then show ?thesis using False assms(1) by (simp add: key_str.simps)
qed

lemma height_key_between:
  assumes "''10_'' @ x \<le> key_str q" and "key_str q \<le> key_str (KHeight j)"
  shows "\<exists>n. q = KHeight n"
  using assms by (cases q) (simp_all add: key_str.simps less_char_def)

lemma height_entries:
  assumes R: "rocks_ok R V" and raw: "raw_ok V db" and ch: "chain_recs (kv_view V db) bs"
    and n: "int (length bs) < 10 ^ 10" and lo: "lo < 10 ^ 10"
  shows "filter (\<lambda>e. key_str (KHeight lo) \<le> fst e \<and> fst e \<le> key_str (KHeight 9999999999)) (rk_Iterator R db) =
    map (\<lambda>i. (key_str (KHeight (int i)), VStr (ToString (bs ! i)))) [nat lo..<length bs]" (is "?F = map ?e _")
proof (rule sm_wf_set_inject)
  have it: "sm_wf (rk_Iterator R db)" "map_of (rk_Iterator R db) = V db" using R by (simp_all add: rocks_ok_def)
  show "sm_wf ?F" by (rule sm_wf_filter [OF it(1)])
  have le: "key_str (KHeight i) \<le> key_str (KHeight (int j)) \<longleftrightarrow> i \<le> int j" if "i < 10 ^ 10" "j < length bs" for i j
    using that n by (intro height_key_le) simp_all
  have less: "key_str (KHeight (int i)) < key_str (KHeight (int j))" if "i < j" "j < length bs" for i j
    using that n le [of "int i" j] by (simp add: order_less_le)
  show "sm_wf (map ?e [nat lo..<length bs])"
    unfolding sm_wf_def by (simp add: sorted_wrt_map comp_def) (rule sorted_wrt_mono_rel [OF _ sorted_wrt_upt], simp add: less)
  have node: "V db (key_str (KHeight i)) = (if 0 \<le> i \<and> i < int (length bs) then Some (VStr (ToString (bs ! nat i))) else None)" for i
    using ch by (simp add: chain_recs_def kv_view_def)
  show "set ?F = set (map ?e [nat lo..<length bs])"
  proof (intro set_eqI iffI)
    fix e assume "e \<in> set ?F"
    then have e: "e \<in> set (rk_Iterator R db)" "key_str (KHeight lo) \<le> fst e" "fst e \<le> key_str (KHeight 9999999999)" by auto
    then have v: "V db (fst e) = Some (snd e)" using it sm_wf_map_of_iff by (metis prod.collapse)
    then obtain q where q: "fst e = key_str q" using raw by (auto simp: raw_ok_def)
    then obtain i where i: "fst e = key_str (KHeight i)"
      using height_key_between [of "fmt_010d lo" q 9999999999] e by (auto simp: key_str.simps(4))
    then have "0 \<le> i" "i < int (length bs)" "snd e = VStr (ToString (bs ! nat i))" using node [of i] v by (simp_all split: if_splits)
    moreover from this have "lo \<le> i" using le [of lo "nat i"] e(2) i lo by simp
    ultimately show "e \<in> set (map ?e [nat lo..<length bs])" using i by (auto intro!: image_eqI [of _ _ "nat i"] prod_eqI)
  next
    fix e assume "e \<in> set (map ?e [nat lo..<length bs])"
    then obtain i where i: "nat lo \<le> i" "i < length bs" "e = ?e i" by auto
    then have "V db (fst e) = Some (snd e)" by (simp add: node)
    then have "e \<in> set (rk_Iterator R db)" using it by (metis map_of_SomeD prod.collapse)
    moreover have "key_str (KHeight lo) \<le> fst e" using le [of lo i] i lo by simp
    moreover have "fst e \<le> key_str (KHeight 9999999999)" using height_key_le [of 9999999999 "int i"] i n by simp
    ultimately show "e \<in> set ?F" by simp
  qed
qed

lemma height_cut:
  assumes R: "rocks_ok R V" and raw: "raw_ok V db" and e: "e \<in> set (rk_Iterator R db)"
  shows "c_str (fst e) \<le> key_str (KHeight j) \<longleftrightarrow> fst e \<le> key_str (KHeight j)"
    and "fst e \<le> key_str (KHeight j) \<Longrightarrow> c_str (fst e) = fst e"
proof -
  have it: "sm_wf (rk_Iterator R db)" "map_of (rk_Iterator R db) = V db" using R by (simp_all add: rocks_ok_def)
  have "V db (fst e) = Some (snd e)" using it e sm_wf_map_of_iff by (metis prod.collapse)
  then obtain q where q: "fst e = key_str q" using raw by (auto simp: raw_ok_def)
  show "c_str (fst e) \<le> key_str (KHeight j) \<longleftrightarrow> fst e \<le> key_str (KHeight j)"
    using beyond_height [of j q] c_str_le [of "fst e"] unfolding q by (auto simp: not_less [symmetric])
  show "c_str (fst e) = fst e" if le: "fst e \<le> key_str (KHeight j)"
  proof (rule c_str_id, rule notI)
    assume "CHR 0x00 \<in> set (fst e)"
    then obtain s where "fst e = CHR ''2'' # s" using key_with_nul q by metis
    then show False using le by (simp add: key_str.simps less_char_def)
  qed
qed

lemma no_nul_height: "CHR 0x00 \<notin> set (key_str (KHeight j))"
  by (simp add: key_str.simps)

lemma fmt_010d_text:
  assumes "length t = 10" and "list_all is_digit t"
  shows "fmt_010d (int (digits_val 0 t)) = t"
proof -
  let ?n = "digits_val 0 t"
  have f: "fmt_010d (int ?n) = pad0 10 (nat_str ?n)" by (simp add: fmt_010d_def)
  have "int ?n < 10 ^ 10" using digits_val_less [OF assms(2)] by (simp add: assms(1))
  then have "length (fmt_010d (int ?n)) = length t" using length_fmt_010d assms(1) by simp
  note less = digits_less_iff [OF this _ assms(2)] digits_less_iff [OF this [symmetric] assms(2)]
  show ?thesis using less list_all_pad0 [of 10 ?n] unfolding f by (simp add: not_less antisym)
qed

lemma top_height: "''10_9999999999'' = key_str (KHeight 9999999999)" "''10_0000000000'' = key_str (KHeight 0)"
  using fmt_010d_text [of "''9999999999''"] fmt_010d_text [of "''0000000000''"]
  by (simp_all add: key_str.simps is_digit_def digit_val_def)

lemma heights_range:
  assumes R: "rocks_ok R V" and raw: "raw_ok V db" and ch: "chain_recs (kv_view V db) bs"
    and n: "int (length bs) < 10 ^ 10" and lo: "lo < 10 ^ 10" "length bs - nat lo \<le> 10000"
  shows "KVDB_range R (key_str (KHeight lo)) ''10_9999999999'' 10000 0 db =
    Inr (map (\<lambda>i. (key_str (KHeight (int i)), VStr (ToString (bs ! i)))) [nat lo..<length bs])"
proof -
  have le: "key_str (KHeight lo) \<le> key_str (KHeight 9999999999)" using lo(1) height_key_le [of 9999999999 lo] by simp
  show ?thesis
    unfolding top_height
    by (subst KVDB_range_keys [OF R])
      (use le lo(2) no_nul_height height_cut(1) [OF R raw] height_entries [OF R raw ch n lo(1)] in simp_all)
qed

lemma latest_range:
  assumes R: "rocks_ok R V" and raw: "raw_ok V db" and ch: "chain_recs (kv_view V db) bs"
    and n: "int (length bs) < 10 ^ 10" and ne: "bs \<noteq> []"
  shows "KVDB_range R ''10_9999999999'' ''10_0000000000'' 1 0 db =
    Inr [(key_str (KHeight (int (length bs) - 1)), VStr (ToString (last bs)))]"
proof -
  have it: "map_of (rk_Iterator R db) = V db" using R by (simp add: rocks_ok_def)
  have less: "\<not> key_str (KHeight 9999999999) \<le> key_str (KHeight 0)" using height_key_le [of 0 9999999999] by simp
  obtain b where "V db (key_str (KBlock (bs ! 0))) = Some b" using ch ne by (fastforce simp: chain_recs_def kv_view_def)
  then have "(key_str (KBlock (bs ! 0)), b) \<in> set (rk_Iterator R db)" using it by (metis map_of_SomeD)
  moreover have "key_str (KHeight 9999999999) \<le> key_str (KBlock (bs ! 0))" by (simp add: key_str.simps less_char_def)
  ultimately have above: "\<exists>e \<in> set (rk_Iterator R db). key_str (KHeight 9999999999) \<le> fst e" by force
  have cut: "\<forall>e \<in> set (rk_Iterator R db). fst e \<le> key_str (KHeight 9999999999) \<longrightarrow>
      (key_str (KHeight 0) \<le> c_str (fst e) \<longleftrightarrow> key_str (KHeight 0) \<le> fst e)"
    using height_cut(2) [OF R raw, of _ 9999999999] by simp
  have es: "take 1 (rev (map f [0..<length bs])) = [f (length bs - 1)]" for f :: "nat \<Rightarrow> string \<times> kvval"
    using ne by (cases bs rule: rev_cases) simp_all
  show ?thesis
    unfolding top_height
    by (subst KVDB_range_keys [OF R])
      (use less above cut no_nul_height height_entries [OF R raw ch n, of 0] es ne in
        \<open>simp_all add: last_conv_nth of_nat_diff Suc_le_eq\<close>)
qed

section \<open>The timestamps\<close>

definition block_time :: "(kvkey \<Rightarrow> kvval option) \<Rightarrow> uint256 \<Rightarrow> int" where
  "block_time P h = (case P (KBlock h) of Some (VBlock b) \<Rightarrow> uint (fk_timestamp b) | _ \<Rightarrow> 0)"

definition chain_times :: "(kvkey \<Rightarrow> kvval option) \<Rightarrow> uint256 list \<Rightarrow> nat \<Rightarrow> nat \<Rightarrow> (int, int) smap" where
  \<comment> \<open>the heights from \<open>lo\<close> to below \<open>hi\<close> with the times of their blocks\<close>
  "chain_times P bs lo hi = map (\<lambda>i. (int i, block_time P (bs ! i))) [lo..<hi]"

lemma push_heights:
  assumes R: "rocks_ok R V" and ch: "chain_recs (kv_view V db) bs" and n: "int (length bs) < 2 ^ 31"
    and l: "0 \<le> l" "l < 2 ^ 64"
  shows "lo \<le> hi \<Longrightarrow> hi \<le> length bs \<Longrightarrow>
    foldE (push_height R db) (map (\<lambda>i. (key_str (KHeight (int i)), VStr (ToString (bs ! i)))) [lo..<hi]) (BlockTimestamp_init l) =
      Inr \<lparr>bt_limit = l, currMax = max_ts (chain_times (kv_view V db) bs lo hi),
        blkTimestamps = drop (hi - lo - nat l) (chain_times (kv_view V db) bs lo hi)\<rparr>"
proof (induction hi rule: dec_induct)
  case base
  show ?case by (simp add: BlockTimestamp_init_def chain_times_def)
next
  case (step h)
  let ?T = "chain_times (kv_view V db) bs lo" and ?t = "block_time (kv_view V db) (bs ! h)"
  obtain b where b: "kv_view V db (KBlock (bs ! h)) = Some (VBlock b)" using chain_recs_block [OF ch, of h] step by auto
  have T: "?T (Suc h) = ?T h @ [(int h, ?t)]" using step by (simp add: chain_times_def)
  have len: "length (?T h) = h - lo" by (simp add: chain_times_def)
  have below: "\<forall>k \<in> fst ` set (drop j (?T h)). k < int h" for j
    by (auto simp: chain_times_def dest!: in_set_dropD)
  have new: "map_of (drop j (?T h)) (int h) = None" for j using below [of j] by (fastforce simp: map_of_eq_None_iff)
  have key: "atoi32 (drop 3 (key_str (KHeight (int h)))) = int h"
    using step n by (simp add: key_str.simps atoi32_def c_str_id to_int32_id)
  have cut: "Suc (h - (lo + (h - (lo + nat l)))) - nat l + (h - (lo + nat l)) = Suc h - (lo + nat l)"
    "Suc h - (lo + nat l + (h - lo)) = Suc 0 - nat l" using step(1) by arith+
  have "push_height R db (key_str (KHeight (int h)), VStr (ToString (bs ! h)))
      \<lparr>bt_limit = l, currMax = max_ts (?T h), blkTimestamps = drop (h - lo - nat l) (?T h)\<rparr> =
    Inr \<lparr>bt_limit = l, currMax = max_ts (?T (Suc h)), blkTimestamps = drop (Suc h - lo - nat l) (?T (Suc h))\<rparr>"
    using KVDB_get_view [OF R, of "KBlock (bs ! h)" db] b sm_put_snoc [OF below] new
    by (simp add: push_height_def key pushBlock_def key_str.simps(5) block_time_def T max_ts_snoc len trim_front_nonneg [OF l] cut)
  with step show ?case by (simp add: foldE_append)
qed

section \<open>The start\<close>

text \<open>
  What the program leaves on disk when it ends, whenever that is, after the commit that made
  the state \<open>s\<close>: the tables of that commit, rows of a batch that was not finished, and raw transactions,
  among them those of the pool.
\<close>

definition left_behind :: "(CTransaction \<Rightarrow> uint256) \<Rightarrow> log2 \<Rightarrow> log2db \<Rightarrow> bool" where
  "left_behind gh s d = (txlogs2 (delete_unfinished d) = txlogs2 (l2_db s) \<and> memrepo_txs d = memrepo_txs (l2_db s) \<and>
     explorer_meta d = explorer_meta (l2_db s) \<and> (\<forall>h t. map_of (txs (l2_mem s)) h = Some t \<longrightarrow> stored gh d h t))"

definition position_recorded :: "log2 \<Rightarrow> bool" where
  "position_recorded s = (\<exists>t u. explorer_meta (l2_db s) meta_index = Some (fmt_d (l2_log1FileIndex s), t) \<and>
     explorer_meta (l2_db s) meta_offset = Some (fmt_d (l2_currLog1FileOffset s), u))"

lemma updateLog1FileStatus_records:
  assumes "meta_ok E s" and "updateLog1FileStatus E s = Inr s'"
    and "l2_st_index s = l2_log1FileIndex s \<or> l2_st_offset s = l2_currLog1FileOffset s \<Longrightarrow> position_recorded (s\<lparr>l2_log1FileIndex := l2_st_index s,
      l2_currLog1FileOffset := l2_st_offset s\<rparr>)"
  shows "position_recorded s'"
  using assms by (auto simp: updateLog1FileStatus_def update_meta_def updateOrThrowEx_def meta_ok_def position_recorded_def
      split: if_splits)

lemma stands_store:
  assumes "stands V A E T X (x, bs, Orph) ps"
  shows "chain_recs (kv_view V (p_kv ps)) bs" "raw_ok V (p_kv ps)"
proof -
  obtain L where L: "holds V A ps L" "main_inv E A T X (x, bs, Orph) L" using assms unfolding stands_def by blast
  have p: "pinv V A ps {} (lg_book L) (lg_utxo L) (lg_recs L)" using L(1) by (simp add: holds_def)
  show "raw_ok V (p_kv ps)" using p by (auto simp: pinv_def st_def cache_ok_def)
  have "kv_view V (p_kv ps) k = lg_recs L k" if "plain_key k" for k
    using p that by (auto simp: pinv_def st_def view_def)
  then show "chain_recs (kv_view V (p_kv ps)) bs"
    using L(2) by (auto simp: main_inv_def blocks_inv_def intro: chain_recs_cong)
qed

lemma checkEnvironment_ok:
  assumes "32000000 \<le> atoi (var ''innodb_log_file_size'')" and "32000000 \<le> atoi (var ''max_allowed_packet'')"
    and "explorer_meta (l2_db s) meta_index \<noteq> None" and "explorer_meta (l2_db s) meta_offset \<noteq> None"
  shows "checkEnvironment var now s = Inr s"
  using assms by (auto simp: checkEnvironment_def)

lemma tparser_offset:
  assumes "getLastTxLog2Id E ps = Inr (n, ps1)" and "0 < n"
  shows "\<exists>v. KVDB_getMayNotExist (pe_rocks E) ''90_tparser_txlogs_offset_id'' (p_kv ps) = (True, VStr v) \<and> atoi v = n"
  using assms by (auto simp: getLastTxLog2Id_def kvgetMayNotExist_def bindE_eq_Inr value_string_def key_str.simps
      split: prod.splits if_splits kvval.splits)

lemma begin_block:
  assumes R: "rocks_ok R V" and st: "raw_ok V kv" "chain_recs (kv_view V kv) bs"
    and n: "0 < n" and bs: "bs \<noteq> []" "int (length bs) < 2 ^ 31"
  shows "log2_begin_block cfg R kv n = Inr (int (length bs) - 1, last bs)"
proof -
  have "atoi32 (drop 3 (key_str (KHeight (int (length bs) - 1)))) = int (length bs) - 1"
    using bs by (cases bs) (simp_all add: key_str.simps atoi32_def c_str_id to_int32_id)
  then show ?thesis using latest_range [OF R st _ bs(1)] n bs(2) by (simp add: log2_begin_block_def)
qed

text \<open>
  The block is taken from the store as soon as a row exists. When \<open>tparser\<close> has handled only
  transactions, there is none, and \<open>keys[0]\<close> is read from an empty vector.
\<close>

lemma no_begin_block:
  assumes R: "rocks_ok R V" and st: "raw_ok V kv" "chain_recs (kv_view V kv) []" and n: "0 < n"
    and off: "kv_view V kv KOffset \<noteq> None"
  shows "log2_begin_block cfg R kv n = Inl (UB ''keys[0]'')"
proof -
  have it: "map_of (rk_Iterator R kv) = V kv" using R by (simp add: rocks_ok_def)
  have less: "\<not> key_str (KHeight 9999999999) \<le> key_str (KHeight 0)" using height_key_le [of 0 9999999999] by simp
  obtain b where "V kv (key_str KOffset) = Some b" using off by (auto simp: kv_view_def)
  then have "(key_str KOffset, b) \<in> set (rk_Iterator R kv)" using it by (metis map_of_SomeD)
  moreover have "key_str (KHeight 9999999999) \<le> key_str KOffset" by (simp add: key_str.simps less_char_def)
  ultimately have above: "\<exists>e \<in> set (rk_Iterator R kv). key_str (KHeight 9999999999) \<le> fst e" by force
  have cut: "\<forall>e \<in> set (rk_Iterator R kv). fst e \<le> key_str (KHeight 9999999999) \<longrightarrow>
      (key_str (KHeight 0) \<le> c_str (fst e) \<longleftrightarrow> key_str (KHeight 0) \<le> fst e)"
    using height_cut(2) [OF R st(1), of _ 9999999999] by simp
  have "KVDB_range R ''10_9999999999'' ''10_0000000000'' 1 0 kv = Inr []"
    unfolding top_height
    by (subst KVDB_range_keys [OF R]) (use less above cut no_nul_height height_entries [OF R st, of 0] in simp_all)
  then show ?thesis using n by (simp add: log2_begin_block_def)
qed

lemma initLog2_ok:
  assumes R: "rocks_ok R V" and st: "raw_ok V kv" "chain_recs (kv_view V kv) bs"
    and off: "KVDB_getMayNotExist R ''90_tparser_txlogs_offset_id'' kv = (True, VStr v)" "0 < atoi v"
    and bs: "bs \<noteq> []" "last bs \<noteq> 0" "int (length bs) < 2 ^ 31"
    and sy: "synced gh s" and d: "left_behind gh s d"
  shows "initLog2 cfg gh R kv (Log2Producer_new d) =
    (if atoi v = last_row_id (txlogs2 (l2_db s))
     then let T = chain_times (kv_view V kv) bs (length bs - 4033) (length bs) in
       Inr ((Log2Producer_new (delete_unfinished d))\<lparr>l2_mem := l2_mem s,
         l2_ts := \<lparr>bt_limit = 4032, currMax = max_ts T, blkTimestamps = drop (length bs - (length bs - 4033) - 4032) T\<rparr>,
         l2_height := int (length bs) - 1, l2_hash := last bs\<rparr>)
     else Inl (Throw ''please wait until tparser catch up latest txlogs2''))"
proof (cases "atoi v = last_row_id (txlogs2 (l2_db s))")
  case True
  let ?h = "int (length bs) - 1"
  have lo: "nat (int (length bs) - 4033) = length bs - 4033" by arith
  have rng: "KVDB_range R (''10_'' @ fmt_010d (?h - 4032)) ''10_9999999999'' 10000 0 kv =
      Inr (map (\<lambda>i. (key_str (KHeight (int i)), VStr (ToString (bs ! i)))) [length bs - 4033..<length bs])"
    using heights_range [OF R st, of "?h - 4032"] bs(3) by (simp add: lo key_str.simps(4) del: key_str.simps(1-3))
  have push: "foldE (push_height R kv) (map (\<lambda>i. (key_str (KHeight (int i)), VStr (ToString (bs ! i)))) [length bs - 4033..<length bs])
      (BlockTimestamp_init 4032) = Inr \<lparr>bt_limit = 4032, currMax = max_ts (chain_times (kv_view V kv) bs (length bs - 4033) (length bs)),
        blkTimestamps = drop (length bs - (length bs - 4033) - 4032) (chain_times (kv_view V kv) bs (length bs - 4033) (length bs))\<rparr>"
    using push_heights [OF R st(2) bs(3), of 4032 "length bs - 4033" "length bs"] by simp
  have pool: "initLog2_loadMemrepoTxs gh (delete_unfinished d) MemTxRepository_init = Inr (l2_mem s)"
    using sy d by (intro reload_pool) (auto simp: synced_def left_behind_def delete_unfinished_def stored_def getTxHexByHash_def)
  show ?thesis
    using True d bs off begin_block [OF R st off(2) bs(1,3), of cfg] rng push pool
    by (simp add: initLog2_def Log2Producer_new_def left_behind_def Let_def)
next
  case False
  then show ?thesis using off d by (simp add: initLog2_def Log2Producer_new_def left_behind_def)
qed

section \<open>The property\<close>

text \<open>
  C17. A restart of \<open>log2producer\<close> loses nothing. Let the database hold what was left after the commit
  of the state \<open>s\<close> (with rows of an unfinished batch, or none), let \<open>tparser\<close>'s store stand for a
  history with the chain \<open>bs\<close> that is also the chain of \<open>s\<close>, and let \<open>n > 0\<close> be the last row
  \<open>tparser\<close> has handled. If that is the last finished row of \<open>0_txlogs2\<close>, \<open>init\<close> drops the unfinished rows
  and gives back the pool, the current block and the position in log1 of \<open>s\<close>; the timestamps are those of the last
  4032 blocks, with the maximum over the last 4033. Otherwise \<open>tparser\<close> is behind and \<open>init\<close> refuses to start.
\<close>

theorem log2_restart:
  assumes "stands V A E T X (x, bs, Orph) ps" and "getLastTxLog2Id E ps = Inr (n, ps)" and "rocks_ok (pe_rocks E) V"
    and "synced (e_gh G) s" and "left_behind (e_gh G) s d" and "position_recorded s"
    and "bs \<noteq> []" and "last bs \<noteq> 0" and "l2_height s = int (length bs) - 1" and "l2_hash s = last bs" and "0 < n"
    and "l2_height s < 2 ^ 31 - 1" and "0 \<le> l2_log1FileIndex s" and "l2_log1FileIndex s < 2 ^ 31"
    and "32000000 \<le> atoi (var ''innodb_log_file_size'')" and "32000000 \<le> atoi (var ''max_allowed_packet'')"
  shows "Log2Producer_init cfg var G (pe_rocks E) (p_kv ps) (Log2Producer_new d) =
    (if n = last_row_id (txlogs2 (l2_db s))
     then let T = chain_times (kv_view V (p_kv ps)) bs (length bs - 4033) (length bs) in
       Inr (s\<lparr>l2_db := delete_unfinished d,
              l2_ts := \<lparr>bt_limit = 4032, currMax = max_ts T, blkTimestamps = drop (length T - 4032) T\<rparr>,
              l2_currLog1FileOffset := - 1, l2_st_index := - 1, l2_st_offset := - 1\<rparr>,
            \<lparr>fileIndex = l2_log1FileIndex s, fileOffset = l2_currLog1FileOffset s\<rparr>)
     else Inl (Throw ''please wait until tparser catch up latest txlogs2''))"
proof -
  obtain v where v: "KVDB_getMayNotExist (pe_rocks E) ''90_tparser_txlogs_offset_id'' (p_kv ps) = (True, VStr v)" "atoi v = n"
    using tparser_offset [OF assms(2,11)] by blast
  obtain t u where m: "explorer_meta d meta_index = Some (fmt_d (l2_log1FileIndex s), t)"
    "explorer_meta d meta_offset = Some (fmt_d (l2_currLog1FileOffset s), u)"
    using assms(5,6) by (auto simp: position_recorded_def left_behind_def)
  have len: "length (chain_times P bs (length bs - 4033) (length bs)) = length bs - (length bs - 4033)" for P
    by (simp add: chain_times_def)
  have env: "checkEnvironment var (e_now G) (Log2Producer_new d) = Inr (Log2Producer_new d)"
    using assms(15,16) m by (intro checkEnvironment_ok) (simp_all add: Log2Producer_new_def)
  have n: "0 < atoi v" "int (length bs) < 2 ^ 31" using v(2) assms(9,11,12) by simp_all
  have i: "atoi32 (fmt_d (l2_log1FileIndex s)) = l2_log1FileIndex s" using assms(13,14) by (intro atoi32_fmt_d) simp_all
  note init = initLog2_ok [OF assms(3) stands_store(2,1) [OF assms(1)] v(1) n(1) assms(7,8) n(2) assms(4,5), of cfg]
  show ?thesis
    unfolding Log2Producer_init_def env bindE_simps init v(2)
    using m i assms(9,10)
    by (cases s) (simp add: Let_def syncLog1_def Log2Producer_new_def delete_unfinished_def len)
qed

definition sample_left :: log2db where
  \<comment> \<open>one finished row and one of a batch that was interrupted\<close>
  "sample_left = sample_db\<lparr>raw_txs := sample_raw_txs,
     txlogs2 := [mk_row 2 1 (reject_vals 1), mk_row 3 (- 1) (reject_vals 1)],
     explorer_meta := [meta_index \<mapsto> (fmt_d 0, ''old''), meta_offset \<mapsto> (fmt_d 300, ''old'')]\<rparr>"

definition sample_running :: log2 where
  "sample_running = sample_log2\<lparr>l2_db := delete_unfinished sample_left, l2_height := 0, l2_hash := 3\<rparr>"

lemma sample_running_ok: "synced sample_gh sample_running" "left_behind sample_gh sample_running sample_left"
  "position_recorded sample_running" "last_row_id (txlogs2 (l2_db sample_running)) = 2"
proof -
  show "synced sample_gh sample_running"
    using sample_synced by (auto simp: synced_def sample_running_def sample_left_def delete_unfinished_def sample_log2_def
        sample_db_def batches_ok_def mk_row_def)
  show "left_behind sample_gh sample_running sample_left"
    using sample_stored [of _ _ sample_left] by (simp add: left_behind_def sample_running_def delete_unfinished_def sample_left_def)
  show "position_recorded sample_running" "last_row_id (txlogs2 (l2_db sample_running)) = 2"
    by (simp_all add: position_recorded_def sample_running_def delete_unfinished_def sample_left_def sample_log2_def
        last_row_id_def mk_row_def)
qed

lemma sample_two_rows: "\<exists>O2. main_run parser_env sample_A sample_T sample_X sample_rows genesis (take 2 sample_log)
   (((\<lambda>_. Absent)(1 := Confirmed), [1]), [3], O2)"
  using sample_step sample_block_step by (auto simp: sample_log_def intro!: main_run.intros)

theorem log2_restart_witness:
  "returns (foldE (handleTxlog2 parser_env \<lparr>payoutAddresses = [], coinbaseTags = []\<rparr> sample_rows) (take 2 sample_log) (fresh []))
     (\<lambda>ps. \<exists>ts. Log2Producer_init [] (\<lambda>_. ''33554432'') sample_E (pe_rocks parser_env) (p_kv ps) (Log2Producer_new sample_left) =
        Inr (sample_running\<lparr>l2_ts := ts, l2_currLog1FileOffset := - 1\<rparr>, \<lparr>fileIndex = 0, fileOffset = 300\<rparr>))"
proof -
  obtain O2 where run: "main_run parser_env sample_A sample_T sample_X sample_rows genesis (take 2 sample_log)
     (((\<lambda>_. Absent)(1 := Confirmed), [1]), [3], O2)" using sample_two_rows by blast
  have last: "last (take 2 sample_log) = sample_row 2 LOG2TYPE_TX_CONFIRM 0" "take 2 sample_log \<noteq> []" by (simp_all add: sample_log_def)
  have mem: "32000000 \<le> atoi ''33554432''" by (simp add: atoi_def is_space_def is_digit_def digit_val_def)
  have s: "l2_height sample_running = int (length [3 :: uint256]) - 1" "l2_hash sample_running = last [3]"
    "l2_log1FileIndex sample_running = 0" "l2_currLog1FileOffset sample_running = 300"
    by (simp_all add: sample_running_def sample_log2_def)
  show ?thesis
  proof (rule returns_mono [OF main_run_returns [OF run sample_stands parser_env_ok]], elim conjE, drule mp [OF _ last(2)])
    fix ps assume st: "stands map_of sample_A parser_env sample_T sample_X (((\<lambda>_. Absent)(1 := Confirmed), [1]), [3], O2) ps"
      and "getLastTxLog2Id parser_env ps = Inr (tl_id (last (take 2 sample_log)), ps)"
    then have n: "getLastTxLog2Id parser_env ps = Inr (2, ps)" by (simp add: last sample_row_def)
    show "\<exists>ts. Log2Producer_init [] (\<lambda>_. ''33554432'') sample_E (pe_rocks parser_env) (p_kv ps) (Log2Producer_new sample_left) =
        Inr (sample_running\<lparr>l2_ts := ts, l2_currLog1FileOffset := - 1\<rparr>, \<lparr>fileIndex = 0, fileOffset = 300\<rparr>)"
      by (subst log2_restart [OF st n parser_env_ok(1) sample_running_ok(1,2) [folded sample_E_gh] sample_running_ok(3) _ _ s(1,2)])
        (auto simp: s(3,4) mem sample_running_ok(4) Let_def, auto simp: sample_running_def sample_log2_def)
  qed
qed

end
