(* ===== verification/Spec2Isabelle.thy ===== *)
theory Spec2Isabelle
  imports BoundedBuffer Log1Producer RawStore ParserFeed Difficulty KvTypes AddressAPI NotifyRun Log2Start
begin

text \<open>
  A block chain explorer (jiexi): from the files of a bitcoin node to a key-value store that
  answers queries about addresses, transactions and blocks, and to notifications about
  subscribed addresses. Sources are named relative to src/jiexi/src.

  The programs and how they interact

  \<^item> \<open>log1producer\<close> (Log1Producer.cc) reads the files log0 that bitcoind writes, keeps a window
    of the newest blocks, and writes a consistent stream of lines, log1: blocks accepted and
    rolled back one by one, transactions accepted and removed.
  \<^item> \<open>log2producer\<close> (Log2Producer.cc) reads log1, keeps the pool of unconfirmed transactions in
    memory and in MySQL, and turns every line into rows of \<open>0_txlogs2\<close>: accept, confirm,
    unconfirm and reject of single transactions, in batches. Raw blocks and transactions go to tables.
  \<^item> \<open>tparser\<close> (Parser.cc) reads the rows and updates RocksDB (KVDB.cc), one handler for each type
    of row, and blocks with the rows of coinbases. It writes the notification log (NotifyLog.cc).
  \<^item> \<open>notifyd\<close> (tnotify, NotifyLog.cc) reads the notification log and inserts the events into the
    tables of the applications that subscribed over HTTP.
  \<^item> \<open>apiserver\<close> (HttpAPI.cc) answers queries from RocksDB.

  Every program can be stopped at any time and starts again from what it recorded; the properties
  follow the data through this chain.

  Theories

  \<^item> Prelude (errors as values, \<open>bindE\<close>, \<open>foldE\<close>, \<open>returns\<close>, C strings, \<open>atoi\<close>, \<open>printf\<close>), StdMap (\<open>std::map\<close>
    and \<open>std::set\<close> as sorted lists), Samples, ParserSamples: shared.
  \<^item> Hex (bitcoin/uint256.h, Common.cc), Util (Util.cc, the classes Strings and Config of Common.cc),
    Difficulty (Common.cc), TxTypes and Serialize (bitcoin/core.h, serialize.h), Base58
    (bitcoin/base58.h): texts and numbers. Properties: what is printed is read back, addresses
    have one text, the conversion of difficulties is exact, JSON strings are well formed.
  \<^item> Log1 (lines, \<open>Chain\<close>), LogFiles (readers), LogWriter (the contract of writers), Log1Producer
    (\<open>log1FileMaxSize\<close>, \<open>writeLog1\<close>, \<open>initLog1\<close>, \<open>syncBitcoind\<close>, a round of \<open>run\<close>). The locales \<open>log_writer\<close> and
    \<open>line_source\<close> state what the writers and readers of growing directories promise; both are
    interpreted on \<open>log1producer\<close>'s and the notification log's code. \<open>log1_pipeline\<close>
    below joins them.
  \<^item> MemRepo (\<open>MemTxRepository\<close>), BlockTs (\<open>BlockTimestamp\<close>), Log2DB (tables and SQL), Log2Producer
    (the handlers), TxHistory (the promise to \<open>tparser\<close>), RawStore (raw tables, loading the pool), Log2Start (\<open>init\<close>: the start
    from the tables and from the store that \<open>tparser\<close> has written).
    \<open>legal\<close> histories move every transaction through accept, confirm, unconfirm, reject, with blocks pushed
    and popped; each handler appends a legal piece to the history that the table holds.
  \<^item> KVDB (keys, tables, store), ParserState (state, caches, \<open>AddressInfo\<close>), AddrChain (the doubly linked
    list of the transactions of an address), Unspent, ParserTx (the four handlers), TxSteps and TxHandlers
    (what their steps do to the database), Ledger (the abstract ledger), LedgerHistory (a
    legal history applies to it), ParserBlock, Recognize (RecognizeBlock.cc), ParserMain, ParserRun, ParserFeed (the
    two threads and \<open>TxInfoCache\<close>), ParserReplay (the properties). \<open>pinv\<close> says that the database,
    with the caches on top of it, is the layout of a ledger; each handler is a refinement of an operation
    on the ledger, and a legal history is replayed without an error.
  \<^item> HttpAPI (\<open>cb_kv\<close>), KvTypes (types of the values), AddressAPI (\<open>cb_api\<close>).
  \<^item> NotifyItem (lines), NotifyFiles (\<open>NotifyProducer\<close>, \<open>NotifyLogReader\<close>), Notifyd (\<open>Notify\<close>, \<open>cb_address\<close>,
    \<open>cb_pull_events\<close>), NotifyRun (end to end).
  \<^item> BoundedBuffer (Util.h): the buffer between the threads of \<open>tparser\<close>.

  How the code is modelled

  \<^item> State is a record that a function returns updated, with the fields of the class; what an exception, assertion or
    undefined operation ends is \<open>Inl\<close> of an \<open>error\<close> (\<open>Throw\<close>, \<open>AssertFail\<close>, \<open>UB\<close>). A property that says that code
    returns does so with \<open>returns\<close>, which an error does not satisfy.
  \<^item> \<open>int32_t\<close> and \<open>int64_t\<close> are integers, with bounds where the code prints or reads them
    at a width (\<open>to_int32\<close>, \<open>atoi32\<close>); unsigned numbers that wrap are words, \<open>uint256\<close> is a 256-bit word,
    bytes and texts are strings.
  \<^item> Loops are recursion on the data. A loop whose end is not apparent from its data is a partial function: the searches
    of the pool, the walks over the chain of an address, \<open>syncBitcoind\<close>, the reading of rows, the shift of a difficulty; that it ends is part of
    the properties about it. No fuel is used.
  \<^item> A cached \<open>AddressInfo\<close> is shared through pointers; the pointers are positions in a heap of the state, so that aliasing is visible.
  \<^item> A statement in SQL is its effect on the rows of the table, with unique keys, automatic numbers and the count of
    affected rows that \<open>updateOrThrowEx\<close> checks.
  \<^item> A reader sees the files at any moment of the writer's run, also in the middle of a write (\<open>snapshots\<close>, \<open>seen\<close>), so
    the properties hold for every interleaving of writer and reader. Old files may vanish.
  \<^item> Parameters: the hash of a transaction or block and the check sum of addresses, \<open>Solver\<close>
    and \<open>ExtractDestination\<close>, the clock and its formatting, bitcoind's answers, RocksDB (a store that returns what was put and
    iterates in the order of the keys), the bytes of FlatBuffers, success of system calls. Hypotheses about them
    are documented behaviour: different transactions have different hashes, times are printed so that
    they are read back.

  Bounds in the properties: amounts and sizes that fit their columns, at most \<open>2 ^ 31\<close> events per
  application (ids are read with \<open>atoi\<close>), the addresses of a row have room in the cache
  (five million entries; an eviction could lose updates), and outputs do not name an address twice.

  Not modelled, and why

  \<^item> Threads, locks, signals, inotify, sockets, the HTTP servers, logging and the main functions: I/O around the operations;
    each thread's body is a step function and the steps are interleaved where they share state.
  \<^item> RPC answers and configuration as JSON (utilities_js.hpp, BitcoinRpc.cc, NetIO.cc, Buffer.cc, URI.cc): network and third-party
    parsing; their results are parameters.
  \<^item> Signature checking, script evaluation, keys, fees, compressed serialisation in bitcoin/: not used by the explorer.
  \<^item> Vendored code (rocksdb, flatbuffers, gtest, inotify-cxx) and generated code (explorer_generated.h).
  \<^item> src/jiexi.bootstrap: the one-time import into the older MySQL design, with copies of the code above.
  \<^item> In Log1Producer.cc and Parser.cc: reopening databases, statistics, and the HTTP callback
    of \<open>tparser\<close>; in HttpAPI.cc: the reply's check sum and time headers.
\<close>

section \<open>log1: what the producer writes is what log2producer reads\<close>

text \<open>
  C16. The pipeline from \<open>log1producer\<close> to \<open>log2producer\<close> loses nothing: whatever the writer
  logs, split into files of bounded size, a reader that starts at the first file and calls
  \<open>tryReadLog1\<close> any number of times while the writer is at work gets a prefix of the lines that
  were written, each once, in order and complete, with the time stamp and type of its write;
  what it has not got yet is still ahead of it.
\<close>

theorem log1_pipeline:
  assumes "w_inv w0" and "all_whole w0" and "0 \<le> w_index w" and "\<forall>x \<in> set items. CHR 0x0A \<notin> set (snd x)"
    and "writes E items w0 = Inr w" and "\<forall>e \<in> set es. seen (\<lambda>(ty, l). writeLog1 E ty l) items w0 w (fst e) (snd e)"
    and "reads (read1 keep rm) es \<lparr>fileIndex = 0, fileOffset = 0\<rparr> = Inr (ls, p)"
  shows "all_lines w0 @ stamped (clock E) (w_ticks w0) items = ls @ ahead (w_files w) (w_index w) p"
proof -
  have "snapshots (w_files w) (w_index w) (fst e) (snd e) i" if "e \<in> set es" for e i
    using log1_writer.seen_snapshots [OF assms(1)] assms(5,6) that unfolding writes_def by blast
  from log1_source.reads_stream [OF this assms(7)] ahead_start [OF assms(3)] writes_all_lines [OF assms(1,2,4,5)]
  show ?thesis by simp
qed

definition sample_small :: log1env where
  "sample_small = sample_env\<lparr>l1_config := [(''log1.file.max.size.mb'', ''0'')]\<rparr>"

lemma sample_small_size: "log1FileMaxSize (l1_config sample_small) = 0"
  by (simp add: sample_small_def log1FileMaxSize_def Config_getInt_default_def toInt_def atoi_def is_space_def
      is_digit_def digit_val_def)

lemma sample_small_write:
  "writeLog1 sample_small ty l \<lparr>w_index = i, w_open = False, w_files = F, w_ticks = n\<rparr> =
     Inr \<lparr>w_index = (if i = - 1 then 0 else i) + 1, w_open = False,
       w_files = F((if i = - 1 then 0 else i) \<mapsto> content F (if i = - 1 then 0 else i) @ log1_line (clock sample_small n) ty l),
       w_ticks = n + 1\<rparr>"
  using sample_small_size
  by (simp add: writeLog1_def sample_small_def sample_env_def log1_line_def Let_def)

theorem log1_pipeline_witness:
  "let items = [(2, ''x''), (4, ''yz'')]; l = (\<lambda>n ty t. date_FT (clock sample_small n) @ '','' @ fmt_d ty @ '','' @ t)
   in \<exists>w. writes sample_small items sample_w = Inr w \<and>
     [l 0 2 ''x'', l 1 4 ''yz''] = [l 0 2 ''x''] @ ahead (w_files w) (w_index w) \<lparr>fileIndex = 1, fileOffset = 0\<rparr>"
proof -
  let ?items = "[(2, ''x''), (4, ''yz'')] :: (int \<times> string) list"
  let ?l = "\<lambda>n ty t. date_FT (clock sample_small n) @ '','' @ fmt_d ty @ '','' @ t"
  let ?l1 = "?l 0 2 ''x''" and ?l2 = "?l 1 4 ''yz''"
  define w where "w = \<lparr>w_index = 2, w_open = False, w_files = [0 \<mapsto> ?l1 @ [CHR 0x0A], 1 \<mapsto> ?l2 @ [CHR 0x0A]], w_ticks = 2\<rparr>"
  have wr: "writes sample_small ?items sample_w = Inr w"
    by (simp add: writes_def sample_w_def sample_small_write w_def content_def log1_line_def)
  have inv: "w_inv sample_w" "all_whole sample_w" "0 \<le> w_index w" "\<forall>x \<in> set ?items. CHR 0x0A \<notin> set (snd x)"
    by (simp_all add: w_inv_def sample_w_def all_whole_def whole_def content_def w_def)
  let ?e = "(w_files w, w_files w)"
  have "seen (\<lambda>(ty, l). writeLog1 sample_small ty l) ?items sample_w w (w_files w) (w_files w)"
    unfolding seen_def using wr [unfolded writes_def]
    by (intro exI [of _ 2] exI [of _ w]) (simp add: visible_def content_def)
  then have seen: "\<forall>e \<in> set [?e, ?e]. seen (\<lambda>(ty, l). writeLog1 sample_small ty l) ?items sample_w w (fst e) (snd e)" by simp
  have nl: "CHR 0x0A \<notin> set ?l1" by simp
  have g: "getline_by CHR 0x0A (?l1 @ [CHR 0x0A]) = (?l1, [])" using getline_by_sep [OF nl, of "[]"] by simp
  have f: "w_files w 0 = Some (?l1 @ [CHR 0x0A])" "w_files w 1 \<noteq> None" by (simp_all add: w_def)
  have r1: "read_lines (?l1 @ [CHR 0x0A]) 0 [] = [(?l1, int (length ?l1) + 1)]"
    unfolding read_lines.simps [of "?l1 @ [CHR 0x0A]"] g by (simp add: read_lines.simps)
  have r2: "read_lines [] k [] = []" for k by (simp add: read_lines.simps)
  have s1: "read1 9 (\<lambda>_. True) ?e \<lparr>fileIndex = 0, fileOffset = 0\<rparr> =
      Inr ([?l1], \<lparr>fileIndex = 0, fileOffset = int (length ?l1) + 1\<rparr>)"
    unfolding read1_def tryReadLog1_def Let_def using f r1 by (simp add: seek_def del: append_assoc)
  have s2: "read1 9 (\<lambda>_. True) ?e \<lparr>fileIndex = 0, fileOffset = int (length ?l1) + 1\<rparr> =
      Inr ([], \<lparr>fileIndex = 1, fileOffset = 0\<rparr>)"
    unfolding read1_def tryReadLog1_def Let_def using f r2 by (simp add: seek_def nat_add_distrib tryRemoveOld.simps to_int32_def)
  have rd: "reads (read1 9 (\<lambda>_. True)) [?e, ?e] \<lparr>fileIndex = 0, fileOffset = 0\<rparr> = Inr ([?l1], \<lparr>fileIndex = 1, fileOffset = 0\<rparr>)"
    using s1 s2 by simp
  have "all_lines sample_w @ stamped (clock sample_small) (w_ticks sample_w) ?items = [?l1, ?l2]"
    by (simp add: all_lines_def sample_w_def)
  with log1_pipeline [OF inv wr seen rd] wr show ?thesis unfolding Let_def by auto
qed

end
